(* ===== verification/Prelude.thy ===== *)
theory Prelude
  imports Main "HOL-Library.Sublist"
begin

text \<open>
  What the component theories share.

  \<^item> Bytes and strings: \<open>std::string\<close>, \<open>std::vector<char>\<close> and \<open>std::string_view\<close> are all
    \<^typ>\<open>string\<close>, a list of 8-bit characters; a C string read through a \<open>const char*\<close> is the
    part before the first NUL (\<open>cstr\<close>).
  \<^item> \<open>std::string::find\<close> (\<open>str_find\<close>), \<open>std::to_string\<close> and \<open>std::stoi\<close>.
  \<^item> The exceptions the program throws (\<open>exn\<close>) and the outcome of a call (\<open>outcome\<close>).
  \<^item> The collections of rewrite rules that the component proofs use.
\<close>

named_theorems find_simps "first occurrence of a substring"
named_theorems route_simps "compiling and matching of registered uris"

section \<open>Outcomes of calls\<close>

text \<open>
  The exceptions that reach a caller somewhere in the program. A constructor carries the
  arguments of the throw expression. \<open>HandlerException\<close> stands for whatever a user-supplied
  resolver throws.
\<close>

datatype exn =
    LowLevelApi string int int
  | OpenSslErrorQueue string int int
  | RuntimeError string
  | InvalidArgument string
  | OutOfRange string
  | LengthError
  | RegexError
  | BadFunctionCall
  | HandlerException nat

text \<open>
  \<open>Diverges\<close> is a call that never returns (unbounded recursion, so a stack overflow on the
  machine); \<open>Unmodelled\<close> marks inputs on which this development says nothing, see \<open>Regex\<close>.
\<close>

datatype 'a outcome = Returns 'a | Throws exn | Diverges | Unmodelled

fun and_then :: "'a outcome \<Rightarrow> ('a \<Rightarrow> 'b outcome) \<Rightarrow> 'b outcome" where
  "and_then (Returns a) f = f a"
| "and_then (Throws e) f = Throws e"
| "and_then Diverges f = Diverges"
| "and_then Unmodelled f = Unmodelled"

lemma and_then_Returns_iff:
  "and_then x f = Returns b \<longleftrightarrow> (\<exists>a. x = Returns a \<and> f a = Returns b)"
  by (cases x) auto

section \<open>Characters and strings\<close>

abbreviation NUL :: char where "NUL \<equiv> CHR 0x00"
abbreviation CR :: char where "CR \<equiv> CHR 0x0D"
abbreviation LF :: char where "LF \<equiv> CHR 0x0A"

text \<open>The constants of \<^verbatim>\<open>lightning/lightning.hpp\<close>.\<close>

definition CRLF :: string where "CRLF = [CR, LF]"
definition DOUBLE_CRLF :: string where "DOUBLE_CRLF = [CR, LF, CR, LF]"

lemma DOUBLE_CRLF_CRLF: "DOUBLE_CRLF = CRLF @ CRLF"
  by (simp add: DOUBLE_CRLF_def CRLF_def)

lemma length_CRLF [simp]: "length CRLF = 2" "length DOUBLE_CRLF = 4"
  by (simp_all add: CRLF_def DOUBLE_CRLF_def)

lemma CRLF_neq_Nil [simp]: "CRLF \<noteq> []" "DOUBLE_CRLF \<noteq> []"
  by (simp_all add: CRLF_def DOUBLE_CRLF_def)

text \<open>A \<open>const char*\<close> is read up to its first NUL.\<close>

definition cstr :: "string \<Rightarrow> string" where
  "cstr s = takeWhile (\<lambda>c. c \<noteq> NUL) s"

lemma cstr_id: "NUL \<notin> set s \<Longrightarrow> cstr s = s"
  unfolding cstr_def by (rule takeWhile_eq_all_conv [THEN iffD2]) metis

lemma cstr_at_NUL: "NUL \<notin> set s \<Longrightarrow> cstr (s @ NUL # t) = s"
  unfolding cstr_def by (subst takeWhile_append2) auto

lemma NUL_notin_cstr [simp]: "NUL \<notin> set (cstr s)"
  by (auto simp: cstr_def dest: set_takeWhileD)

lemma cstr_append_clean: "NUL \<notin> set s \<Longrightarrow> cstr (s @ t) = s @ cstr t"
  unfolding cstr_def by (rule takeWhile_append2) metis

lemma cstr_append_NUL: "NUL \<in> set s \<Longrightarrow> cstr (s @ t) = cstr s"
  by (auto simp: cstr_def takeWhile_append1)

section \<open>Finding a substring\<close>

text \<open>
  \<open>find_str pat s\<close> is the least index at which \<open>pat\<close> occurs in \<open>s\<close>; \<open>str_find s pat off\<close> is
  \<open>s.find(pat, off)\<close>, with \<^term>\<open>None\<close> for \<open>std::string::npos\<close>.
\<close>

fun find_str :: "string \<Rightarrow> string \<Rightarrow> nat option" where
  "find_str pat [] = (if pat = [] then Some 0 else None)"
| "find_str pat (c # cs) =
     (if prefix pat (c # cs) then Some 0 else map_option Suc (find_str pat cs))"

definition str_find :: "string \<Rightarrow> string \<Rightarrow> nat \<Rightarrow> nat option" where
  "str_find s pat off =
     (if off \<le> length s then map_option (\<lambda>i. off + i) (find_str pat (drop off s)) else None)"

definition occurs :: "string \<Rightarrow> string \<Rightarrow> bool" where
  "occurs pat s \<longleftrightarrow> find_str pat s \<noteq> None"

lemma find_str_prefix: "prefix pat s \<Longrightarrow> find_str pat s = Some 0"
  by (cases s) auto

lemma find_str_SomeD:
  "find_str pat s = Some i \<Longrightarrow>
     i \<le> length s \<and> prefix pat (drop i s) \<and> (\<forall>j<i. \<not> prefix pat (drop j s))"
proof (induction s arbitrary: i)
  case Nil
  then show ?case by (auto split: if_splits)
next
  case (Cons c cs)
  show ?case
  proof (cases "prefix pat (c # cs)")
    case True
    with Cons.prems show ?thesis by simp
  next
    case False
    with Cons.prems obtain k where "i = Suc k" "find_str pat cs = Some k" by auto
    with Cons.IH False show ?thesis by (auto simp: less_Suc_eq_0_disj)
  qed
qed

lemma find_str_NoneD: "find_str pat s = None \<Longrightarrow> \<not> prefix pat (drop j s)"
proof (induction s arbitrary: j)
  case Nil
  then show ?case by (auto split: if_splits)
next
  case (Cons c cs)
  then show ?case by (cases j) (auto split: if_splits)
qed

lemma find_str_split:
  assumes "find_str pat s = Some i"
  shows "s = take i s @ pat @ drop (i + length pat) s"
proof -
  from find_str_SomeD [OF assms] obtain r where r: "drop i s = pat @ r"
    by (auto simp: prefix_def)
  then have "drop (i + length pat) s = r"
    by (metis add.commute append_eq_conv_conj drop_drop)
  with r show ?thesis by (metis append_take_drop_id)
qed

lemma find_str_bound: "find_str pat s = Some i \<Longrightarrow> i + length pat \<le> length s"
  using find_str_split [of pat s i] find_str_SomeD [of pat s i]
  by (metis append_take_drop_id drop_append le_add_diff_inverse length_drop nat_add_left_cancel_le
      prefix_length_le)

lemma occurs_iff: "occurs pat s \<longleftrightarrow> (\<exists>u v. s = u @ pat @ v)"
proof
  assume "occurs pat s"
  then show "\<exists>u v. s = u @ pat @ v"
    by (auto simp: occurs_def dest: find_str_split)
next
  assume "\<exists>u v. s = u @ pat @ v"
  then obtain u v where "s = u @ pat @ v" by blast
  then have "prefix pat (drop (length u) s)" by simp
  then show "occurs pat s"
    using find_str_NoneD [of pat s "length u"] by (auto simp: occurs_def)
qed

lemma occurs_append_left: "occurs pat s \<Longrightarrow> occurs pat (s @ t)"
  by (auto simp: occurs_iff) (metis append.assoc)

lemma occurs_append_right: "occurs pat t \<Longrightarrow> occurs pat (s @ t)"
  by (auto simp: occurs_iff) (metis append.assoc)

text \<open>The first occurrence is determined by its position, also when only a prefix is looked at.\<close>

lemma find_str_eqI:
  assumes "prefix pat (drop i s)" "\<forall>j<i. \<not> prefix pat (drop j s)" "i \<le> length s"
  shows "find_str pat s = Some i"
proof (cases "find_str pat s")
  case None
  with find_str_NoneD assms(1) show ?thesis by blast
next
  case (Some k)
  from find_str_SomeD [OF this] assms have "\<not> k < i" "\<not> i < k" by auto
  with Some show ?thesis by simp
qed

lemma prefix_drop_shorter:
  "prefix v s \<Longrightarrow> j + length pat \<le> length v \<Longrightarrow> prefix pat (drop j v) \<longleftrightarrow> prefix pat (drop j s)"
  by (auto simp: prefix_def) (metis append_eq_append_conv_if append_take_drop_id length_drop
      le_diff_conv2 add.commute add_leD1)+

lemma find_str_in_prefix:
  assumes "prefix v s" "find_str pat s = Some i" "i + length pat \<le> length v"
  shows "find_str pat v = Some i"
proof (rule find_str_eqI)
  show "prefix pat (drop i v)"
    using find_str_SomeD [OF assms(2)] prefix_drop_shorter [OF assms(1,3)] by simp
  show "\<forall>j<i. \<not> prefix pat (drop j v)"
    using find_str_SomeD [OF assms(2)] prefix_drop_shorter [OF assms(1)] assms(3) by simp
qed (use assms(3) in simp)

lemma find_str_extend:
  assumes "prefix v s" "find_str pat v = Some i"
  shows "find_str pat s = Some i"
proof (rule find_str_eqI)
  note bound = find_str_bound [OF assms(2)]
  show "prefix pat (drop i s)"
    using find_str_SomeD [OF assms(2)] prefix_drop_shorter [OF assms(1) bound] by simp
  show "\<forall>j<i. \<not> prefix pat (drop j s)"
    using find_str_SomeD [OF assms(2)] prefix_drop_shorter [OF assms(1)] bound by simp
  show "i \<le> length s" using bound prefix_length_le [OF assms(1)] by simp
qed

text \<open>Characters that no occurrence can start at are skipped.\<close>

lemma find_str_skip:
  assumes "\<And>j. j < length xs \<Longrightarrow> \<not> prefix pat (drop j (xs @ ys))"
  shows "find_str pat (xs @ ys) = map_option (\<lambda>i. length xs + i) (find_str pat ys)"
  using assms
proof (induction xs)
  case Nil
  then show ?case by (simp add: option.map_ident)
next
  case (Cons x xs)
  have "\<not> prefix pat (x # xs @ ys)" using Cons.prems [of 0] by simp
  moreover have "find_str pat (xs @ ys) = map_option (\<lambda>i. length xs + i) (find_str pat ys)"
    using Cons.prems [of "Suc _"] by (intro Cons.IH) simp
  ultimately show ?case by (simp add: option.map_comp comp_def)
qed

lemma find_str_skip_hd:
  assumes "pat \<noteq> []" "hd pat \<notin> set xs"
  shows "find_str pat (xs @ ys) = map_option (\<lambda>i. length xs + i) (find_str pat ys)"
proof (rule find_str_skip)
  fix j
  assume j: "j < length xs"
  then have "drop j (xs @ ys) = xs ! j # drop (Suc j) (xs @ ys)"
    by (metis Cons_nth_drop_Suc length_append nth_append trans_less_add1)
  with assms j show "\<not> prefix pat (drop j (xs @ ys))"
    by (cases pat) (auto simp: in_set_conv_nth)
qed

lemma find_str_first [find_simps]:
  assumes "pat \<noteq> []" "hd pat \<notin> set xs"
  shows "find_str pat (xs @ pat @ ys) = Some (length xs)"
  using find_str_skip_hd [OF assms, of "pat @ ys"] by (simp add: find_str_prefix)

lemma find_str_absent [find_simps]:
  assumes "pat \<noteq> []" "hd pat \<notin> set xs"
  shows "find_str pat xs = None"
  using find_str_skip_hd [OF assms, of "[]"] assms by simp

lemma find_str_CRLF [find_simps]:
  "CR \<notin> set xs \<Longrightarrow> find_str CRLF (xs @ CRLF @ ys) = Some (length xs)"
  "CR \<notin> set xs \<Longrightarrow> find_str CRLF xs = None"
  by (simp_all add: CRLF_def find_str_first [of "[CR, LF]", simplified]
      find_str_absent [of "[CR, LF]", simplified])

lemma find_str_blank [find_simps]:
  "CHR '' '' \<notin> set xs \<Longrightarrow> find_str '' '' (xs @ CHR '' '' # ys) = Some (length xs)"
  "CHR '' '' \<notin> set xs \<Longrightarrow> find_str '' '' xs = None"
  using find_str_first [of "'' ''" xs ys] find_str_absent [of "'' ''" xs] by simp_all

text \<open>A block of non-empty lines ends at its first blank line.\<close>

definition text_line :: "string \<Rightarrow> bool" where
  "text_line l \<longleftrightarrow> l \<noteq> [] \<and> CR \<notin> set l"

lemma text_line_hd: "text_line l \<Longrightarrow> hd l \<noteq> CR"
  by (cases l) (auto simp: text_line_def)

definition lines_block :: "string list \<Rightarrow> string" where
  "lines_block ls = concat (map (\<lambda>l. l @ CRLF) ls)"

lemma lines_block_simps [simp]:
  "lines_block [] = []"
  "lines_block (l # ls) = l @ CRLF @ lines_block ls"
  by (simp_all add: lines_block_def)

lemma find_blank_line:
  "\<forall>l \<in> set ls. text_line l \<Longrightarrow> ls \<noteq> [] \<Longrightarrow>
     find_str DOUBLE_CRLF (lines_block ls @ CRLF @ rest) = Some (length (lines_block ls) - 2)"
proof (induction ls)
  case Nil
  then show ?case by simp
next
  case (Cons l ls)
  show ?case
  proof (cases ls)
    case Nil
    with Cons.prems have "find_str DOUBLE_CRLF (l @ DOUBLE_CRLF @ rest) = Some (length l)"
      by (intro find_str_first) (auto simp: DOUBLE_CRLF_def text_line_def)
    with Nil show ?thesis by (simp add: DOUBLE_CRLF_CRLF)
  next
    case (Cons l' ls')
    from Cons.prems Cons have l: "CR \<notin> set l" and l': "l' \<noteq> []" "hd l' \<noteq> CR"
      using text_line_hd [of l'] by (auto simp: text_line_def)
    let ?t = "lines_block ls @ CRLF @ rest"
    from l' Cons have t: "?t \<noteq> []" "hd ?t \<noteq> CR" by auto
    have "\<not> prefix DOUBLE_CRLF (CRLF @ ?t)"
      using t by (cases ?t) (auto simp: DOUBLE_CRLF_def CRLF_def)
    moreover have "\<not> prefix DOUBLE_CRLF (LF # ?t)" by (simp add: DOUBLE_CRLF_def)
    ultimately have "find_str DOUBLE_CRLF (CRLF @ ?t) = map_option (\<lambda>i. 2 + i) (find_str DOUBLE_CRLF ?t)"
      by (simp add: CRLF_def option.map_comp comp_def)
    moreover have "find_str DOUBLE_CRLF (l @ CRLF @ ?t) =
        map_option (\<lambda>i. length l + i) (find_str DOUBLE_CRLF (CRLF @ ?t))"
      using l by (intro find_str_skip_hd) (auto simp: DOUBLE_CRLF_def)
    moreover have "find_str DOUBLE_CRLF ?t = Some (length (lines_block ls) - 2)"
      using Cons.IH Cons.prems Cons by simp
    moreover have "2 \<le> length (lines_block ls)" using Cons by simp
    ultimately show ?thesis by simp
  qed
qed

section \<open>Decimal numbers\<close>

text \<open>\<open>std::to_string(int)\<close> and \<open>std::to_string(size_t)\<close>.\<close>

definition digit :: "nat \<Rightarrow> char" where
  "digit d = char_of (48 + d)"

fun decimal :: "nat \<Rightarrow> string" where
  "decimal n = (if n < 10 then [digit n] else decimal (n div 10) @ [digit (n mod 10)])"

declare decimal.simps [simp del]

definition to_string :: "int \<Rightarrow> string" where
  "to_string i = (if i < 0 then CHR ''-'' # decimal (nat (- i)) else decimal (nat i))"

text \<open>
  \<open>std::stoi(s)\<close>: white space, an optional sign, at least one digit
  (\<open>std::invalid_argument\<close> otherwise), anything after them ignored, and
  \<open>std::out_of_range\<close> when the value does not fit a 32-bit \<open>int\<close>.
\<close>

definition is_space :: "char \<Rightarrow> bool" where
  "is_space c \<longleftrightarrow> c = CHR '' '' \<or> (9 \<le> (of_char c :: nat) \<and> (of_char c :: nat) \<le> 13)"

definition is_digit :: "char \<Rightarrow> bool" where
  "is_digit c \<longleftrightarrow> 48 \<le> (of_char c :: nat) \<and> (of_char c :: nat) \<le> 57"

definition digit_val :: "char \<Rightarrow> nat" where
  "digit_val c = of_char c - 48"

definition digits_val :: "string \<Rightarrow> nat" where
  "digits_val ds = foldl (\<lambda>n c. 10 * n + digit_val c) 0 ds"

definition stoi :: "string \<Rightarrow> exn + int" where
  "stoi s =
     (let t = dropWhile is_space s;
          neg = (t \<noteq> [] \<and> hd t = CHR ''-'');
          u = (if t \<noteq> [] \<and> (hd t = CHR ''-'' \<or> hd t = CHR ''+'') then tl t else t);
          ds = takeWhile is_digit u;
          v = (if neg then - int (digits_val ds) else int (digits_val ds))
      in if ds = [] then Inl (InvalidArgument ''stoi'')
         else if v < - (2 ^ 31) \<or> 2 ^ 31 \<le> v then Inl (OutOfRange ''stoi'')
         else Inr v)"

lemma of_char_digit: "d < 10 \<Longrightarrow> (of_char (digit d) :: nat) = 48 + d"
  by (simp add: digit_def)

lemma is_digit_digit [simp]: "d < 10 \<Longrightarrow> is_digit (digit d)"
  by (simp add: is_digit_def of_char_digit)

lemma digit_val_digit [simp]: "d < 10 \<Longrightarrow> digit_val (digit d) = d"
  by (simp add: digit_val_def of_char_digit)

lemma is_digitD: "is_digit c \<Longrightarrow> c \<noteq> CHR ''-'' \<and> c \<noteq> CHR ''+'' \<and> \<not> is_space c"
  by (auto simp: is_digit_def is_space_def)

lemma decimal_digits: "\<forall>c \<in> set (decimal n). is_digit c"
proof (induction n rule: decimal.induct)
  case (1 n)
  then show ?case by (subst decimal.simps) auto
qed

lemma decimal_neq_Nil [simp]: "decimal n \<noteq> []"
  by (subst decimal.simps) simp

lemma digits_val_snoc [simp]: "digits_val (ds @ [c]) = 10 * digits_val ds + digit_val c"
  by (simp add: digits_val_def)

lemma digits_val_decimal [simp]: "digits_val (decimal n) = n"
proof (induction n rule: decimal.induct)
  case (1 n)
  show ?case
  proof (cases "n < 10")
    case True
    then show ?thesis by (simp add: decimal.simps [of n] digits_val_def)
  next
    case False
    with 1 show ?thesis by (simp add: decimal.simps [of n])
  qed
qed

text \<open>Printing and reading back a 32-bit \<open>int\<close> is the identity.\<close>

lemma takeWhile_digits: "takeWhile is_digit (decimal n) = decimal n"
  using decimal_digits by (simp add: takeWhile_eq_all_conv)

lemma decimal_hd: "is_digit (hd (decimal n))"
  using decimal_digits [of n] hd_in_set [OF decimal_neq_Nil] by blast

lemma dropWhile_decimal: "dropWhile is_space (decimal n) = decimal n"
  using decimal_hd [of n] by (cases "decimal n") (auto dest: is_digitD)

lemma stoi_to_string:
  assumes "- (2 ^ 31) \<le> i" "i < 2 ^ 31"
  shows "stoi (to_string i) = Inr i"
proof (cases "i < 0")
  case True
  with assms show ?thesis
    by (simp add: stoi_def to_string_def takeWhile_digits is_space_def Let_def)
next
  case False
  have "hd (decimal n) \<noteq> CHR ''-'' \<and> hd (decimal n) \<noteq> CHR ''+''" for n
    using decimal_hd is_digitD by blast
  with False assms show ?thesis
    by (simp add: stoi_def to_string_def takeWhile_digits dropWhile_decimal Let_def)
qed

lemma to_string_no_break: "CR \<notin> set (to_string i) \<and> NUL \<notin> set (to_string i)"
proof -
  have "is_digit c \<or> c = CHR ''-''" if "c \<in> set (to_string i)" for c
    using that decimal_digits by (auto simp: to_string_def split: if_splits)
  from this [of CR] this [of NUL] show ?thesis by (auto simp: is_digit_def)
qed

end
