(* ===== verification/IStream.thy ===== *)
theory IStream
  imports Prelude
begin

text \<open>
  The contract of \<^verbatim>\<open>lightning/stream/IStream.hpp\<close> on which the event loop relies: what a \<open>peek\<close> has
  shown can be consumed by \<open>read\<close> without another system call, and nothing is lost or reordered.

  \<open>buffered s\<close> is the internal buffer of the stream, \<open>wire s\<close> the state of the transport below it,
  \<open>on_wire\<close> the bytes the transport still holds, and \<open>content s\<close> all the bytes a reader of the stream
  will get, in order.
\<close>

locale stream_contract =
  fixes pk :: "int \<Rightarrow> 's \<Rightarrow> string \<times> 's"
    and rd :: "int \<Rightarrow> 's \<Rightarrow> (exn + string) \<times> 's"
    and buffered :: "'s \<Rightarrow> string"
    and wire :: "'s \<Rightarrow> 'w"
    and on_wire :: "'w \<Rightarrow> string"
    and content :: "'s \<Rightarrow> string"
  assumes content_split: "content s = buffered s @ on_wire (wire s)"
    and peek_view: "pk n s = (v, s') \<Longrightarrow> v = buffered s'"
    and peek_content: "pk n s = (v, s') \<Longrightarrow> content s' = content s"
    and peek_grows: "pk n s = (v, s') \<Longrightarrow> prefix (buffered s) v"
    and peek_bound: "pk n s = (v, s') \<Longrightarrow> int (length v) \<le> max n (int (length (buffered s)))"
    and read_buffered: "k \<le> length (buffered s) \<Longrightarrow> rd (int k) s = (r, s') \<Longrightarrow>
      r = Inr (take k (buffered s)) \<and> buffered s' = drop k (buffered s) \<and> wire s' = wire s"
begin

lemma peek_is_prefix: "pk n s = (v, s') \<Longrightarrow> prefix v (content s)"
  using peek_content [of n s v s'] peek_view [of n s v s']
  by (metis content_split prefix_def)

lemma read_content:
  "k \<le> length (buffered s) \<Longrightarrow> rd (int k) s = (r, s') \<Longrightarrow>
     r = Inr (take k (content s)) \<and> content s' = drop k (content s)"
  by (auto simp: content_split dest: read_buffered)

text \<open>
  Cutting a message off the front: if the view of a \<open>peek\<close> contains the delimiter, reading up to and
  with it returns exactly the bytes before it and the delimiter, leaves the rest of the view in the
  buffer and does not touch the transport.
\<close>

lemma peek_then_cut:
  assumes pk: "pk n s = (v, s1)" and found: "find_str d v = Some i"
    and rd: "rd (int (i + length d)) s1 = (r, s2)"
  shows "r = Inr (take i v @ d)" "wire s2 = wire s1" "buffered s2 = drop (i + length d) v"
    "content s = take i v @ d @ content s2"
proof -
  let ?k = "i + length d"
  from pk have v: "v = buffered s1" by (rule peek_view)
  have k: "?k \<le> length v" using found by (rule find_str_bound)
  have cut: "v = (take i v @ d) @ drop ?k v" using found by (simp add: find_str_split)
  then have "take ?k v = take i v @ d"
    by (metis append_eq_conv_conj append_take_drop_id k length_append length_take min.absorb2
        same_append_eq take_add)
  with read_buffered [OF k [unfolded v] rd] v
  show "r = Inr (take i v @ d)" "wire s2 = wire s1" "buffered s2 = drop ?k v" by simp_all
  with cut peek_content [OF pk] v show "content s = take i v @ d @ content s2"
    by (simp add: content_split) (metis append.assoc)
qed

end

end
