(* ===== verification/PlainStream.thy ===== *)
theory PlainStream
  imports IStream
begin

text \<open>
  \<^verbatim>\<open>PlainStream.cpp\<close>: buffered reading and writing on a non-blocking socket
  (\<open>HttpServer::start\<close> puts every accepted descriptor into that mode).

  The kernel side is the record \<open>socket\<close>, an argument of every operation: what successive calls of
  \<open>recv\<close> will see (\<open>incoming\<close>: chunks of received bytes and failures), whether the peer has closed
  its side after that (\<open>fin\<close>), what successive calls of \<open>send\<close> will accept (\<open>send_plan\<close>; everything
  once it is used up), and what has been sent. A \<open>recv\<close> with nothing to see fails with \<open>EAGAIN\<close>.
\<close>

section \<open>Sockets\<close>

datatype net_event = Arrive string | RecvFail int
datatype send_event = Accept nat | SendFail int

record socket =
  incoming :: "net_event list"
  fin :: bool
  send_plan :: "send_event list"
  sent :: string
  recv_timeout :: int
  sock_closed :: bool

datatype recv_result = Got string | Failed int

definition EAGAIN :: int where "EAGAIN = 11"

text \<open>\<open>recv(fd, buf, n, 0)\<close> with a positive \<open>n\<close>; \<open>Got []\<close> is the return value 0.\<close>

fun recv_events :: "bool \<Rightarrow> nat \<Rightarrow> net_event list \<Rightarrow> recv_result \<times> net_event list" where
  "recv_events eof n [] = (if eof then Got [] else Failed EAGAIN, [])"
| "recv_events eof n (RecvFail e # es) = (Failed e, es)"
| "recv_events eof n (Arrive bs # es) =
     (if bs = [] then recv_events eof n es
      else (Got (take n bs), if drop n bs = [] then es else Arrive (drop n bs) # es))"

definition recv :: "nat \<Rightarrow> socket \<Rightarrow> recv_result \<times> socket" where
  "recv n s = (let (r, es) = recv_events (fin s) n (incoming s) in (r, s\<lparr>incoming := es\<rparr>))"

text \<open>\<open>send(fd, buf, n, 0)\<close>: the return value, or the error number on the left.\<close>

definition send :: "string \<Rightarrow> socket \<Rightarrow> (int + nat) \<times> socket" where
  "send buf s =
     (case send_plan s of
        [] \<Rightarrow> (Inr (length buf), s\<lparr>sent := sent s @ buf\<rparr>)
      | Accept k # ps \<Rightarrow>
          (Inr (min k (length buf)), s\<lparr>send_plan := ps, sent := sent s @ take k buf\<rparr>)
      | SendFail e # ps \<Rightarrow> (Inl e, s\<lparr>send_plan := ps\<rparr>))"

section \<open>PlainStream\<close>

record PlainStream =
  ps_fd :: int
  leftoverBuffer :: string
  ps_sock :: socket

definition PlainStream_new :: "int \<Rightarrow> socket \<Rightarrow> PlainStream" where
  "PlainStream_new fd sock = \<lparr>ps_fd = fd, leftoverBuffer = [], ps_sock = sock\<rparr>"

text \<open>
  \<open>readFromLeftover\<close>: the bytes copied out of the leftover buffer (\<open>bytesRead\<close> is their number); the
  rest of the returned vector is zero.
\<close>

definition plain_readFromLeftover :: "nat \<Rightarrow> PlainStream \<Rightarrow> string \<times> PlainStream" where
  "plain_readFromLeftover amount s =
     (let toCopy = (if amount > length (leftoverBuffer s) then length (leftoverBuffer s) else amount)
      in (take toCopy (leftoverBuffer s), s\<lparr>leftoverBuffer := drop toCopy (leftoverBuffer s)\<rparr>))"

lemma recv_events_Got_bound: "recv_events eof n es = (Got bs, es') \<Longrightarrow> length bs \<le> n"
  by (induction eof n es rule: recv_events.induct) (auto split: if_splits)

text \<open>The loop of \<open>read\<close>; \<open>acc\<close> holds the \<open>totalReadBytes\<close> bytes read so far.\<close>

function plain_read_loop :: "string \<Rightarrow> nat \<Rightarrow> socket \<Rightarrow> (exn + string) \<times> socket" where
  "plain_read_loop acc amount sock =
     (if length acc < amount then
        (case recv (amount - length acc) sock of
           (Failed e, sock') \<Rightarrow> (Inl (LowLevelApi ''recv() failed'' e e), sock')
         | (Got bs, sock') \<Rightarrow>
             if bs = [] then (Inr acc, sock') else plain_read_loop (acc @ bs) amount sock')
      else (Inr acc, sock))"
  by pat_completeness auto
termination
  by (relation "measure (\<lambda>(acc, amount, sock). amount - length acc)")
    (auto simp flip: length_greater_0_conv)

declare plain_read_loop.simps [simp del]

definition pad :: "nat \<Rightarrow> string \<Rightarrow> string" where
  "pad n s = s @ replicate (n - length s) NUL"

definition PlainStream_read :: "int \<Rightarrow> PlainStream \<Rightarrow> (exn + string) \<times> PlainStream" where
  "PlainStream_read amount s =
     (if amount < 0 then (Inl LengthError, s)
      else
        let (start, s') = plain_readFromLeftover (nat amount) s;
            (res, sock') = plain_read_loop start (nat amount) (ps_sock s')
        in (case res of Inl e \<Rightarrow> Inl e | Inr bs \<Rightarrow> Inr (pad (nat amount) bs),
            s'\<lparr>ps_sock := sock'\<rparr>))"

definition PlainStream_write :: "string \<Rightarrow> PlainStream \<Rightarrow> (exn + int) \<times> PlainStream" where
  "PlainStream_write buffer s =
     (case send buffer (ps_sock s) of
        (Inl e, sock') \<Rightarrow> (Inl (LowLevelApi ''send() failed'' e e), s\<lparr>ps_sock := sock'\<rparr>)
      | (Inr n, sock') \<Rightarrow> (Inr (int n), s\<lparr>ps_sock := sock'\<rparr>))"

text \<open>
  \<open>peek\<close>: receive until the leftover buffer holds \<open>amount\<close> bytes or \<open>recv\<close> has nothing more (an error
  is ignored), and give a view of the whole leftover buffer.
\<close>

function plain_fill :: "int \<Rightarrow> string \<Rightarrow> socket \<Rightarrow> string \<times> socket" where
  "plain_fill amount buf sock =
     (if int (length buf) < amount then
        (case recv (nat (amount - int (length buf))) sock of
           (Failed e, sock') \<Rightarrow> (buf, sock')
         | (Got bs, sock') \<Rightarrow> if bs = [] then (buf, sock') else plain_fill amount (buf @ bs) sock')
      else (buf, sock))"
  by pat_completeness auto
termination
  by (relation "measure (\<lambda>(amount, buf, sock). nat (amount - int (length buf)))")
    (auto simp flip: length_greater_0_conv)

declare plain_fill.simps [simp del]

definition PlainStream_peek :: "int \<Rightarrow> PlainStream \<Rightarrow> string \<times> PlainStream" where
  "PlainStream_peek amount s =
     (let (buf, sock') = plain_fill amount (leftoverBuffer s) (ps_sock s)
      in (buf, s\<lparr>leftoverBuffer := buf, ps_sock := sock'\<rparr>))"

definition PlainStream_injectBuffer :: "string \<Rightarrow> PlainStream \<Rightarrow> PlainStream" where
  "PlainStream_injectBuffer data s = s\<lparr>leftoverBuffer := data @ leftoverBuffer s\<rparr>"

definition PlainStream_close :: "PlainStream \<Rightarrow> PlainStream" where
  "PlainStream_close s = s\<lparr>ps_sock := (ps_sock s)\<lparr>sock_closed := True\<rparr>\<rparr>"

definition PlainStream_setTimeout :: "int \<Rightarrow> PlainStream \<Rightarrow> PlainStream" where
  "PlainStream_setTimeout seconds s = s\<lparr>ps_sock := (ps_sock s)\<lparr>recv_timeout := seconds\<rparr>\<rparr>"

text \<open>
  \<open>readUntilToken\<close>: chunks of up to 1024 bytes are appended until the token occurs; the bytes after it
  go to the end of the leftover buffer. The loop ends because every chunk takes bytes off the socket.
\<close>

fun events_size :: "net_event list \<Rightarrow> nat" where
  "events_size [] = 0"
| "events_size (RecvFail e # es) = Suc (events_size es)"
| "events_size (Arrive bs # es) = Suc (length bs + events_size es)"

lemma recv_events_decreases:
  "recv_events eof n es = (Got bs, es') \<Longrightarrow> bs \<noteq> [] \<Longrightarrow> events_size es' < events_size es"
  by (induction eof n es rule: recv_events.induct) (auto split: if_splits)

lemma recv_decreases:
  "recv n s = (Got bs, s') \<Longrightarrow> bs \<noteq> [] \<Longrightarrow> events_size (incoming s') < events_size (incoming s)"
  by (auto simp: recv_def dest: recv_events_decreases split: prod.splits)

function plain_until_loop :: "string \<Rightarrow> string \<Rightarrow> socket \<Rightarrow> (exn + string \<times> nat option) \<times> socket" where
  "plain_until_loop token buffer sock =
     (case recv 1024 sock of
        (Failed e, sock') \<Rightarrow> (Inl (LowLevelApi ''recv() failed'' e e), sock')
      | (Got bs, sock') \<Rightarrow>
          if bs = [] then (Inr (buffer, None), sock')
          else
            (case str_find (buffer @ bs) token 0 of
               Some i \<Rightarrow> (Inr (buffer @ bs, Some i), sock')
             | None \<Rightarrow> plain_until_loop token (buffer @ bs) sock'))"
  by pat_completeness auto
termination
  by (relation "measure (\<lambda>(token, buffer, sock). events_size (incoming sock))")
    (auto dest: recv_decreases [OF sym])

declare plain_until_loop.simps [simp del]

definition PlainStream_readUntilToken :: "string \<Rightarrow> PlainStream \<Rightarrow> (exn + string) \<times> PlainStream" where
  "PlainStream_readUntilToken token s =
     (case plain_until_loop token [] (ps_sock s) of
        (Inl e, sock') \<Rightarrow> (Inl e, s\<lparr>ps_sock := sock'\<rparr>)
      | (Inr (buffer, None), sock') \<Rightarrow> (Inr buffer, s\<lparr>ps_sock := sock'\<rparr>)
      | (Inr (buffer, Some i), sock') \<Rightarrow>
          (Inr (take i buffer),
           s\<lparr>ps_sock := sock',
             leftoverBuffer := leftoverBuffer s @ drop (i + length token) buffer\<rparr>))"

section \<open>The byte stream\<close>

text \<open>The bytes still to be received, and the bytes a reader of the stream has before it.\<close>

fun arriving :: "net_event list \<Rightarrow> string" where
  "arriving [] = []"
| "arriving (RecvFail e # es) = arriving es"
| "arriving (Arrive bs # es) = bs @ arriving es"

definition pending :: "PlainStream \<Rightarrow> string" where
  "pending s = leftoverBuffer s @ arriving (incoming (ps_sock s))"

fun no_failure :: "net_event list \<Rightarrow> bool" where
  "no_failure [] = True"
| "no_failure (RecvFail e # es) = False"
| "no_failure (Arrive bs # es) = no_failure es"

lemma recv_events_Got:
  "recv_events eof n es = (Got bs, es') \<Longrightarrow>
     arriving es = bs @ arriving es' \<and> length bs \<le> n \<and> (no_failure es \<longrightarrow> no_failure es') \<and>
     (0 < n \<longrightarrow> bs = [] \<longrightarrow> eof \<and> es' = [])"
proof (induction eof n es rule: recv_events.induct)
  case (3 eof n c es)
  show ?case
  proof (cases "c = []")
    case True
    with 3 show ?thesis by simp
  next
    case False
    with 3 have bs: "bs = take n c"
      and es': "es' = (if drop n c = [] then es else Arrive (drop n c) # es)" by auto
    from es' have "arriving es' = drop n c @ arriving es"
      and "no_failure es' = no_failure es" by (auto split: if_splits)
    with bs False show ?thesis by simp
  qed
qed (auto split: if_splits)

lemma recv_events_Failed:
  "recv_events eof n es = (Failed e, es') \<Longrightarrow>
     arriving es = arriving es' \<and>
     (no_failure es \<longrightarrow> \<not> eof \<and> e = EAGAIN \<and> arriving es = [] \<and> es' = [])"
  by (induction eof n es rule: recv_events.induct) (auto split: if_splits)

lemma recv_Got:
  assumes "recv n s = (Got bs, s')"
  shows "arriving (incoming s) = bs @ arriving (incoming s')"
    and "fin s' = fin s" and "length bs \<le> n"
    and "no_failure (incoming s) \<Longrightarrow> no_failure (incoming s')"
    and "0 < n \<Longrightarrow> bs = [] \<Longrightarrow> fin s \<and> incoming s' = []"
  using assms by (auto simp: recv_def dest!: recv_events_Got split: prod.splits)

lemma recv_Failed:
  assumes "recv n s = (Failed e, s')"
  shows "arriving (incoming s') = arriving (incoming s)"
    and "fin s' = fin s"
    and "no_failure (incoming s) \<Longrightarrow> \<not> fin s \<and> e = EAGAIN \<and> incoming s' = [] \<and> arriving (incoming s) = []"
  using assms by (auto simp: recv_def dest!: recv_events_Failed split: prod.splits)

text \<open>Receiving never touches the sending side.\<close>

definition same_sending :: "socket \<Rightarrow> socket \<Rightarrow> bool" where
  "same_sending s t \<longleftrightarrow> fin t = fin s \<and> sent t = sent s \<and> send_plan t = send_plan s \<and>
     sock_closed t = sock_closed s"

lemma same_sending_refl [simp]: "same_sending s s"
  by (simp add: same_sending_def)

lemma same_sending_trans: "same_sending s t \<Longrightarrow> same_sending t u \<Longrightarrow> same_sending s u"
  by (simp add: same_sending_def)

lemma recv_same_sending: "recv n s = (r, s') \<Longrightarrow> same_sending s s'"
  by (auto simp: recv_def same_sending_def split: prod.splits)

lemma plain_fill_spec:
  "plain_fill amount buf sock = (buf', sock') \<Longrightarrow>
     buf' @ arriving (incoming sock') = buf @ arriving (incoming sock) \<and> prefix buf buf' \<and>
     int (length buf') \<le> max amount (int (length buf)) \<and> same_sending sock sock' \<and>
     (no_failure (incoming sock) \<longrightarrow> no_failure (incoming sock') \<and>
        (amount \<le> int (length buf') \<or> arriving (incoming sock') = []))"
proof (induction amount buf sock rule: plain_fill.induct)
  case (1 amount buf sock)
  show ?case
  proof (cases "int (length buf) < amount")
    case False
    with 1(2) show ?thesis by (simp add: plain_fill.simps [of amount buf sock])
  next
    case True
    obtain r sock1 where r: "recv (nat (amount - int (length buf))) sock = (r, sock1)" by force
    note same = recv_same_sending [OF r]
    show ?thesis
    proof (cases r)
      case (Failed e)
      with r True 1(2) have "buf' = buf" "sock' = sock1"
        by (simp_all add: plain_fill.simps [of amount buf sock])
      with True same recv_Failed [OF r [unfolded Failed]] show ?thesis by auto
    next
      case (Got bs)
      note got = recv_Got [OF r [unfolded Got]]
      show ?thesis
      proof (cases "bs = []")
        case True
        with r Got \<open>int (length buf) < amount\<close> 1(2) have "buf' = buf" "sock' = sock1"
          by (simp_all add: plain_fill.simps [of amount buf sock])
        with True \<open>int (length buf) < amount\<close> same got show ?thesis by auto
      next
        case False
        with r Got True 1(2) have "plain_fill amount (buf @ bs) sock1 = (buf', sock')"
          by (simp add: plain_fill.simps [of amount buf sock])
        from 1(1) [OF True r [symmetric] Got False this]
        have IH: "buf' @ arriving (incoming sock') = (buf @ bs) @ arriving (incoming sock1)"
            "prefix (buf @ bs) buf'" "int (length buf') \<le> max amount (int (length (buf @ bs)))"
            "same_sending sock1 sock'"
            "no_failure (incoming sock1) \<longrightarrow> no_failure (incoming sock') \<and>
               (amount \<le> int (length buf') \<or> arriving (incoming sock') = [])" by auto
        from IH(2) have "prefix buf buf'" by (rule append_prefixD)
        moreover have "length bs \<le> nat (amount - int (length buf))" by (rule got(3))
        ultimately show ?thesis
          using IH True got(1,4) same_sending_trans [OF same IH(4)] by auto
      qed
    qed
  qed
qed

text \<open>The loop of \<open>read\<close> over a connection that does not fail.\<close>

lemma plain_read_loop_spec:
  "length acc \<le> amount \<Longrightarrow> no_failure (incoming sock) \<Longrightarrow>
   plain_read_loop acc amount sock = (res, sock') \<Longrightarrow>
     same_sending sock sock' \<and>
     (let all = acc @ arriving (incoming sock) in
      if amount \<le> length all
      then res = Inr (take amount all) \<and> arriving (incoming sock') = drop amount all \<and>
           no_failure (incoming sock')
      else arriving (incoming sock') = [] \<and>
           res = (if fin sock then Inr all else Inl (LowLevelApi ''recv() failed'' EAGAIN EAGAIN)))"
proof (induction acc amount sock rule: plain_read_loop.induct)
  case (1 acc amount sock)
  note unfold = plain_read_loop.simps [of acc amount sock]
  show ?case
  proof (cases "length acc < amount")
    case False
    with 1 unfold show ?thesis by (simp add: Let_def)
  next
    case True
    obtain r sock1 where r: "recv (amount - length acc) sock = (r, sock1)" by force
    note same = recv_same_sending [OF r]
    show ?thesis
    proof (cases r)
      case (Failed e)
      with r True 1(4) unfold have "res = Inl (LowLevelApi ''recv() failed'' e e)" "sock' = sock1"
        by simp_all
      with True same recv_Failed [OF r [unfolded Failed]] 1(3) show ?thesis by simp
    next
      case (Got bs)
      note got = recv_Got [OF r [unfolded Got]]
      show ?thesis
      proof (cases "bs = []")
        case True
        with r Got \<open>length acc < amount\<close> 1(4) unfold have "res = Inr acc" "sock' = sock1" by simp_all
        with True \<open>length acc < amount\<close> same got show ?thesis by simp
      next
        case False
        with r Got True 1(4) unfold have step: "plain_read_loop (acc @ bs) amount sock1 = (res, sock')"
          by simp
        have "length (acc @ bs) \<le> amount" using got(3) True by simp
        moreover have "no_failure (incoming sock1)" using got(4) 1(3) .
        ultimately have IH: "same_sending sock1 sock' \<and>
          (let all = (acc @ bs) @ arriving (incoming sock1) in
            if amount \<le> length all
            then res = Inr (take amount all) \<and> arriving (incoming sock') = drop amount all \<and>
                 no_failure (incoming sock')
            else arriving (incoming sock') = [] \<and> res = (if fin sock1 then Inr all
                 else Inl (LowLevelApi ''recv() failed'' EAGAIN EAGAIN)))"
          using 1(1) [OF True r [symmetric] Got False] step by blast
        with same_sending_trans [OF same] got(1,2) show ?thesis by (simp add: Let_def)
      qed
    qed
  qed
qed

section \<open>PlainStream provides the contract\<close>

lemma PlainStream_peek_spec:
  assumes "PlainStream_peek n s = (v, s')"
  shows "v = leftoverBuffer s'" "pending s' = pending s" "prefix (leftoverBuffer s) v"
    "int (length v) \<le> max n (int (length (leftoverBuffer s)))"
    "same_sending (ps_sock s) (ps_sock s')" "ps_fd s' = ps_fd s"
    "no_failure (incoming (ps_sock s)) \<Longrightarrow>
       no_failure (incoming (ps_sock s')) \<and> (n \<le> int (length v) \<or> v = pending s)"
  using assms plain_fill_spec [of n "leftoverBuffer s" "ps_sock s"]
  by (auto simp: PlainStream_peek_def pending_def split: prod.splits)

lemma PlainStream_read_buffered:
  assumes "k \<le> length (leftoverBuffer s)" "PlainStream_read (int k) s = (r, s')"
  shows "r = Inr (take k (leftoverBuffer s))"
    "s' = s\<lparr>leftoverBuffer := drop k (leftoverBuffer s)\<rparr>"
proof -
  have "plain_read_loop (take k (leftoverBuffer s)) k (ps_sock s) =
      (Inr (take k (leftoverBuffer s)), ps_sock s)"
    using assms(1) by (simp add: plain_read_loop.simps)
  with assms show "r = Inr (take k (leftoverBuffer s))"
    "s' = s\<lparr>leftoverBuffer := drop k (leftoverBuffer s)\<rparr>"
    by (auto simp: PlainStream_read_def plain_readFromLeftover_def pad_def Let_def)
qed

interpretation plain: stream_contract
  PlainStream_peek PlainStream_read leftoverBuffer "\<lambda>s. incoming (ps_sock s)" arriving pending
proof
  fix n k :: nat and m :: int and s s' :: PlainStream and v and r
  show "pending s = leftoverBuffer s @ arriving (incoming (ps_sock s))" by (simp add: pending_def)
  show "PlainStream_peek m s = (v, s') \<Longrightarrow> v = leftoverBuffer s'"
    by (rule PlainStream_peek_spec)
  show "PlainStream_peek m s = (v, s') \<Longrightarrow> pending s' = pending s"
    by (rule PlainStream_peek_spec)
  show "PlainStream_peek m s = (v, s') \<Longrightarrow> prefix (leftoverBuffer s) v"
    by (rule PlainStream_peek_spec)
  show "PlainStream_peek m s = (v, s') \<Longrightarrow>
      int (length v) \<le> max m (int (length (leftoverBuffer s)))"
    by (rule PlainStream_peek_spec)
  show "k \<le> length (leftoverBuffer s) \<Longrightarrow> PlainStream_read (int k) s = (r, s') \<Longrightarrow>
      r = Inr (take k (leftoverBuffer s)) \<and> leftoverBuffer s' = drop k (leftoverBuffer s) \<and>
      incoming (ps_sock s') = incoming (ps_sock s)"
    using PlainStream_read_buffered [of k s r s'] by simp
qed

section \<open>Properties\<close>

lemma PlainStream_read_pending:
  assumes "no_failure (incoming (ps_sock s))" "0 \<le> amount"
    and "PlainStream_read amount s = (res, s')"
  shows "if nat amount \<le> length (pending s)
    then res = Inr (take (nat amount) (pending s)) \<and> pending s' = drop (nat amount) (pending s)
    else pending s' = [] \<and>
      res = (if fin (ps_sock s) then Inr (pending s @ replicate (nat amount - length (pending s)) NUL)
             else Inl (LowLevelApi ''recv() failed'' EAGAIN EAGAIN))"
proof -
  let ?n = "nat amount"
  let ?k = "min ?n (length (leftoverBuffer s))"
  have start: "plain_readFromLeftover ?n s =
      (take ?k (leftoverBuffer s), s\<lparr>leftoverBuffer := drop ?k (leftoverBuffer s)\<rparr>)"
    by (simp add: plain_readFromLeftover_def min_def Let_def)
  obtain r sock' where loop:
    "plain_read_loop (take ?k (leftoverBuffer s)) ?n (ps_sock s) = (r, sock')" by force
  from start loop assms(2,3)
  have res: "res = (case r of Inl e \<Rightarrow> Inl e | Inr bs \<Rightarrow> Inr (pad ?n bs))"
    and s': "s' = s\<lparr>leftoverBuffer := drop ?k (leftoverBuffer s), ps_sock := sock'\<rparr>"
    by (auto simp: PlainStream_read_def Let_def)
  show ?thesis
  proof (cases "?n \<le> length (leftoverBuffer s)")
    case True
    with PlainStream_read_buffered [of ?n s res s'] assms(2,3) show ?thesis
      by (simp add: pending_def)
  next
    case False
    then have "take ?k (leftoverBuffer s) = leftoverBuffer s" "?k = length (leftoverBuffer s)" by simp_all
    with plain_read_loop_spec [OF _ assms(1) loop] res s' show ?thesis
      by (auto simp: pending_def pad_def Let_def split: if_splits)
  qed
qed

text \<open>
  \<open>read\<close> on a connection without receive errors. If the stream still has the requested number of
  bytes, counting the leftover buffer first, exactly these are returned and exactly these are
  consumed. Otherwise everything is consumed, and the result is a full-size vector padded with
  zeros when the peer has closed its side, and an exception (with all the bytes read so far lost)
  when the rest has not arrived yet.
\<close>

theorem plain_read_spec:
  assumes "no_failure (incoming (ps_sock s))" "0 \<le> amount"
    and "PlainStream_read amount s = (res, s')"
  shows "if nat amount \<le> length (pending s)
    then res = Inr (take (nat amount) (pending s)) \<and> pending s' = drop (nat amount) (pending s)
    else pending s' = [] \<and>
      res = (if fin (ps_sock s) then Inr (pending s @ replicate (nat amount - length (pending s)) NUL)
             else Inl (LowLevelApi ''recv() failed'' EAGAIN EAGAIN))"
  by (rule PlainStream_read_pending [OF assms])

definition example_stream :: PlainStream where
  "example_stream = \<lparr>ps_fd = 5, leftoverBuffer = ''a'', ps_sock = \<lparr>incoming = [Arrive ''bcd''],
     fin = False, send_plan = [], sent = [], recv_timeout = 0, sock_closed = False\<rparr>\<rparr>"

theorem plain_read_spec_witness:
  "\<exists>s'. PlainStream_read 3 example_stream = (Inr ''abc'', s') \<and> pending s' = ''d''"
proof -
  obtain res s' where run: "PlainStream_read 3 example_stream = (res, s')" by force
  have "no_failure (incoming (ps_sock example_stream))" "(0::int) \<le> 3"
    by (simp_all add: example_stream_def)
  from plain_read_spec [OF this run] run show ?thesis
    by (simp add: pending_def example_stream_def)
qed

text \<open>
  \<open>peek\<close> is transparent. It returns its whole buffer and consumes nothing: the bytes before a
  reader are the same after it, what was buffered stays in front, and the view is longer than
  requested only if the buffer was already. Without receive errors it holds the requested number of
  bytes unless it shows everything that has arrived.
\<close>

theorem plain_peek_spec:
  assumes "PlainStream_peek n s = (v, s')"
  shows "v = leftoverBuffer s' \<and> pending s' = pending s \<and> prefix (leftoverBuffer s) v \<and>
    prefix v (pending s) \<and> int (length v) \<le> max n (int (length (leftoverBuffer s))) \<and>
    (no_failure (incoming (ps_sock s)) \<longrightarrow> n \<le> int (length v) \<or> v = pending s)"
  using PlainStream_peek_spec [OF assms] plain.peek_is_prefix [OF assms] by blast

theorem plain_peek_spec_witness:
  "\<exists>s'. PlainStream_peek 100 example_stream = (''abcd'', s') \<and> pending s' = ''abcd''"
proof -
  obtain v s' where run: "PlainStream_peek 100 example_stream = (v, s')" by force
  have "no_failure (incoming (ps_sock example_stream))" and all: "pending example_stream = ''abcd''"
    by (simp_all add: example_stream_def pending_def)
  with plain_peek_spec [OF run] have "v = ''abcd'' \<and> pending s' = ''abcd''"
    by (auto dest: prefix_length_le)
  with run show ?thesis by blast
qed

lemma plain_until_loop_spec:
  "plain_until_loop token buffer sock = (Inr (buf, pos), sock') \<Longrightarrow> \<not> occurs token buffer \<Longrightarrow>
     buf @ arriving (incoming sock') = buffer @ arriving (incoming sock) \<and> same_sending sock sock' \<and>
     find_str token buf = pos \<and> (pos = None \<longrightarrow> fin sock \<and> incoming sock' = [])"
proof (induction token buffer sock rule: plain_until_loop.induct)
  case (1 token buffer sock)
  note unfold = plain_until_loop.simps [of token buffer sock]
  obtain r sock1 where r: "recv 1024 sock = (r, sock1)" by force
  note same = recv_same_sending [OF r]
  show ?case
  proof (cases r)
    case (Failed e)
    with r 1(2) unfold show ?thesis by simp
  next
    case (Got bs)
    note got = recv_Got [OF r [unfolded Got]]
    show ?thesis
    proof (cases "bs = []")
      case True
      with r Got 1(2) unfold have "buf = buffer" "pos = None" "sock' = sock1" by simp_all
      with True same got 1(3) show ?thesis by (simp add: occurs_def)
    next
      case False
      show ?thesis
      proof (cases "find_str token (buffer @ bs)")
        case (Some i)
        with False r Got 1(2) unfold have "buf = buffer @ bs" "pos = Some i" "sock' = sock1"
          by (simp_all add: str_find_def)
        with Some same got show ?thesis by simp
      next
        case None
        with False r Got 1(2) unfold
        have step: "plain_until_loop token (buffer @ bs) sock1 = (Inr (buf, pos), sock')"
          by (simp add: str_find_def)
        from None have none: "str_find (buffer @ bs) token 0 = None"
          and "\<not> occurs token (buffer @ bs)" by (simp_all add: str_find_def occurs_def)
        from 1(1) [OF r [symmetric] Got False none step this(2)] same_sending_trans [OF same] got(1,2)
        show ?thesis by simp
      qed
    qed
  qed
qed

text \<open>
  \<open>readUntilToken\<close> ends on every connection. When it returns, either the token has arrived, the
  result is what came before its first occurrence and what came behind it is kept in the leftover
  buffer; or the peer has closed its side and the result is everything that came, without the
  token. Bytes that were in the leftover buffer before the call are not looked at.
\<close>

theorem plain_readUntilToken_spec:
  assumes "PlainStream_readUntilToken token s = (Inr head, s')" "token \<noteq> []"
  shows "(\<exists>rest. find_str token (head @ token @ rest) = Some (length head) \<and>
      arriving (incoming (ps_sock s)) = head @ token @ rest @ arriving (incoming (ps_sock s')) \<and>
      leftoverBuffer s' = leftoverBuffer s @ rest)
    \<or> (fin (ps_sock s) \<and> \<not> occurs token head \<and> head = arriving (incoming (ps_sock s)) \<and>
      arriving (incoming (ps_sock s')) = [] \<and> leftoverBuffer s' = leftoverBuffer s)"
proof -
  from assms(1) obtain buf pos sock'
    where loop: "plain_until_loop token [] (ps_sock s) = (Inr (buf, pos), sock')"
    by (auto simp: PlainStream_readUntilToken_def split: prod.splits sum.splits option.splits)
  from assms(2) have "\<not> occurs token []" by (simp add: occurs_def)
  note spec = plain_until_loop_spec [OF loop this]
  show ?thesis
  proof (cases pos)
    case None
    with assms(1) loop have "head = buf" "s' = s\<lparr>ps_sock := sock'\<rparr>"
      by (simp_all add: PlainStream_readUntilToken_def)
    with None spec show ?thesis by (auto simp: occurs_def)
  next
    case (Some i)
    with assms(1) loop have head: "head = take i buf"
      and s': "s' = s\<lparr>ps_sock := sock',
        leftoverBuffer := leftoverBuffer s @ drop (i + length token) buf\<rparr>"
      by (simp_all add: PlainStream_readUntilToken_def)
    from Some spec have i: "find_str token buf = Some i" by simp
    note buf = find_str_split [OF i]
    from find_str_bound [OF i] head have "length head = i" by simp
    with i buf spec head s' show ?thesis
      by (intro disjI1 exI [of _ "drop (i + length token) buf"]) (simp, metis append.assoc)
  qed
qed

theorem plain_readUntilToken_spec_witness:
  "\<exists>s'. PlainStream_readUntilToken ''c'' example_stream = (Inr ''b'', s') \<and>
     leftoverBuffer s' = ''ad''"
proof -
  obtain s' where run: "PlainStream_readUntilToken ''c'' example_stream = (Inr ''b'', s')"
    by (simp add: PlainStream_readUntilToken_def example_stream_def plain_until_loop.simps recv_def
        str_find_def)
  from plain_readUntilToken_spec [OF run] run show ?thesis
    by (auto simp: example_stream_def PlainStream_readUntilToken_def plain_until_loop.simps recv_def
        str_find_def)
qed

end
