(* ===== verification/SSLStream.thy ===== *)
theory SSLStream
  imports IStream
begin

text \<open>
  \<^verbatim>\<open>SSLStream.cpp\<close>: the same interface over an OpenSSL connection. OpenSSL is not part of the
  repository: the record \<open>ssl\<close> holds, as arguments of the model, what the successive calls will
  deliver. \<open>ssl_events\<close> are the outcomes of reading calls (decrypted bytes, or a failure with the code
  that \<open>SSL_get_error\<close> reports and the value of \<open>errno\<close>), \<open>ssl_write_plan\<close> those of \<open>SSL_write_ex\<close>,
  and \<open>ssl_shutdown_ret\<close> what \<open>SSL_shutdown\<close> returns.
\<close>

section \<open>The OpenSSL connection\<close>

datatype ssl_event = SslData string | SslErr int int
datatype ssl_write_event = SslAccept nat | SslWriteErr int

record ssl =
  ssl_events :: "ssl_event list"
  ssl_write_plan :: "ssl_write_event list"
  ssl_sent :: string
  ssl_init_finished :: bool
  ssl_shutdown_ret :: int
  ssl_shutdown_calls :: nat
  ssl_timeout :: int

definition SSL_ERROR_SSL :: int where "SSL_ERROR_SSL = 1"
definition SSL_ERROR_WANT_READ :: int where "SSL_ERROR_WANT_READ = 2"
definition SSL_ERROR_SYSCALL :: int where "SSL_ERROR_SYSCALL = 5"

text \<open>\<open>SSL_read_ex\<close> for at most \<open>n\<close> bytes; with nothing to deliver it fails with \<open>SSL_ERROR_WANT_READ\<close>.\<close>

fun ssl_deliver :: "nat \<Rightarrow> ssl_event list \<Rightarrow> (int \<times> int + string) \<times> ssl_event list" where
  "ssl_deliver n [] = (Inl (SSL_ERROR_WANT_READ, 11), [])"
| "ssl_deliver n (SslErr code errno # es) = (Inl (code, errno), es)"
| "ssl_deliver n (SslData bs # es) =
     (Inr (take n bs), if drop n bs = [] then es else SslData (drop n bs) # es)"

definition SSL_read_ex :: "nat \<Rightarrow> ssl \<Rightarrow> (int \<times> int + string) \<times> ssl" where
  "SSL_read_ex n s = (let (r, es) = ssl_deliver n (ssl_events s) in (r, s\<lparr>ssl_events := es\<rparr>))"

fun ssl_events_size :: "ssl_event list \<Rightarrow> nat" where
  "ssl_events_size [] = 0"
| "ssl_events_size (SslErr c e # es) = Suc (ssl_events_size es)"
| "ssl_events_size (SslData bs # es) = Suc (length bs + ssl_events_size es)"

lemma ssl_deliver_decreases:
  "ssl_deliver n es = (Inr bs, es') \<Longrightarrow> 0 < n \<Longrightarrow> ssl_events_size es' < ssl_events_size es"
  by (cases "(n, es)" rule: ssl_deliver.cases) (auto split: if_splits)

lemma SSL_read_ex_decreases:
  "SSL_read_ex n s = (Inr bs, s') \<Longrightarrow> 0 < n \<Longrightarrow>
     ssl_events_size (ssl_events s') < ssl_events_size (ssl_events s)"
  by (auto simp: SSL_read_ex_def dest: ssl_deliver_decreases split: prod.splits)

section \<open>SSLStream\<close>

record SSLStream =
  ss_ssl :: ssl
  ss_leftover :: string

definition SSLStream_new :: "ssl \<Rightarrow> SSLStream" where
  "SSLStream_new s = \<lparr>ss_ssl = s, ss_leftover = []\<rparr>"

text \<open>The two errors that are rethrown; all others fall through the switch.\<close>

definition handleReadError :: "int \<Rightarrow> int \<Rightarrow> exn option" where
  "handleReadError code errno =
     (if code = SSL_ERROR_SSL then Some (OpenSslErrorQueue ''SSL_ERROR_SSL'' code errno)
      else if code = SSL_ERROR_SYSCALL then Some (OpenSslErrorQueue ''SSL_ERROR_SYSCALL'' code errno)
      else None)"

definition ssl_readFromLeftover :: "nat \<Rightarrow> SSLStream \<Rightarrow> string \<times> SSLStream" where
  "ssl_readFromLeftover amount s =
     (let n = (if amount > length (ss_leftover s) then length (ss_leftover s) else amount)
      in (take n (ss_leftover s), s\<lparr>ss_leftover := drop n (ss_leftover s)\<rparr>))"

text \<open>
  The do-while loop of \<open>read\<close>: \<open>acc\<close> holds the \<open>totalReadBytes\<close> bytes counted at the head of the
  iteration. The test after a successful call compares the count without the new chunk, so a last
  call for zero bytes is made after the buffer is full.
\<close>

function ssl_read_loop :: "string \<Rightarrow> nat \<Rightarrow> ssl \<Rightarrow> ((int \<times> int) option \<times> string) \<times> ssl" where
  "ssl_read_loop acc amount s =
     (case SSL_read_ex (amount - length acc) s of
        (Inl err, s') \<Rightarrow> ((Some err, acc), s')
      | (Inr bs, s') \<Rightarrow>
          if length acc < amount then ssl_read_loop (acc @ bs) amount s'
          else ((None, acc @ bs), s'))"
  by pat_completeness auto
termination
  by (relation "measure (\<lambda>(acc, amount, s). ssl_events_size (ssl_events s))")
    (auto dest: SSL_read_ex_decreases [OF sym])

declare ssl_read_loop.simps [simp del]

definition ssl_pad :: "nat \<Rightarrow> string \<Rightarrow> string" where
  "ssl_pad n s = s @ replicate (n - length s) NUL"

definition SSLStream_read :: "int \<Rightarrow> SSLStream \<Rightarrow> (exn + string) \<times> SSLStream" where
  "SSLStream_read amount s =
     (if amount < 0 then (Inl LengthError, s)
      else
        let (start, s1) = ssl_readFromLeftover (nat amount) s
        in if length start \<ge> nat amount then (Inr (ssl_pad (nat amount) start), s1)
           else
             let ((err, bs), ssl') = ssl_read_loop start (nat amount) (ss_ssl s1);
                 s2 = s1\<lparr>ss_ssl := ssl'\<rparr>
             in (case err of
                   None \<Rightarrow> (Inr (ssl_pad (nat amount) bs), s2)
                 | Some (code, errno) \<Rightarrow>
                     (case handleReadError code errno of
                        Some e \<Rightarrow> (Inl e, s2)
                      | None \<Rightarrow> (Inr (ssl_pad (nat amount) bs), s2))))"

definition SSLStream_write :: "string \<Rightarrow> SSLStream \<Rightarrow> (exn + int) \<times> SSLStream" where
  "SSLStream_write buffer s =
     (let c = ss_ssl s in
      case ssl_write_plan c of
        [] \<Rightarrow> (Inr (int (length buffer)), s\<lparr>ss_ssl := c\<lparr>ssl_sent := ssl_sent c @ buffer\<rparr>\<rparr>)
      | SslAccept k # ps \<Rightarrow>
          (Inr (int (min k (length buffer))),
           s\<lparr>ss_ssl := c\<lparr>ssl_write_plan := ps, ssl_sent := ssl_sent c @ take k buffer\<rparr>\<rparr>)
      | SslWriteErr code # ps \<Rightarrow>
          (Inl (LowLevelApi ''Error while writing to SSL sink'' code 0),
           s\<lparr>ss_ssl := c\<lparr>ssl_write_plan := ps\<rparr>\<rparr>))"

function ssl_fill :: "int \<Rightarrow> string \<Rightarrow> ssl \<Rightarrow> string \<times> ssl" where
  "ssl_fill amount buf s =
     (if int (length buf) < amount then
        (case SSL_read_ex (nat (amount - int (length buf))) s of
           (Inl err, s') \<Rightarrow> (buf, s')
         | (Inr bs, s') \<Rightarrow> if bs = [] then (buf, s') else ssl_fill amount (buf @ bs) s')
      else (buf, s))"
  by pat_completeness auto
termination
  by (relation "measure (\<lambda>(amount, buf, s). ssl_events_size (ssl_events s))")
    (auto dest: SSL_read_ex_decreases [OF sym])

declare ssl_fill.simps [simp del]

definition SSLStream_peek :: "int \<Rightarrow> SSLStream \<Rightarrow> string \<times> SSLStream" where
  "SSLStream_peek amount s =
     (let (buf, ssl') = ssl_fill amount (ss_leftover s) (ss_ssl s)
      in (buf, s\<lparr>ss_leftover := buf, ss_ssl := ssl'\<rparr>))"

text \<open>
  \<open>readUntilToken\<close>: the 1024-byte \<open>chunk\<close> keeps its old contents behind what a call delivers, is
  searched and appended as a whole, and the position found in the last chunk is used as a position
  in the whole buffer. When the loop ends without the token the position is -1 after the cast and
  the last vector is constructed from a range of negative length.
\<close>

function ssl_until_loop ::
    "string \<Rightarrow> string \<Rightarrow> string \<Rightarrow> ssl \<Rightarrow> (exn + string \<times> nat option) \<times> ssl" where
  "ssl_until_loop token buffer chunk s =
     (case SSL_read_ex 1024 s of
        (Inl (code, errno), s') \<Rightarrow>
          (case handleReadError code errno of
             Some e \<Rightarrow> (Inl e, s')
           | None \<Rightarrow> (Inr (buffer @ chunk, str_find chunk token 0), s'))
      | (Inr bs, s') \<Rightarrow>
          let chunk' = bs @ drop (length bs) chunk
          in (case str_find chunk' token 0 of
                Some i \<Rightarrow> (Inr (buffer @ chunk', Some i), s')
              | None \<Rightarrow> ssl_until_loop token (buffer @ chunk') chunk' s'))"
  by pat_completeness auto
termination
  by (relation "measure (\<lambda>(token, buffer, chunk, s). ssl_events_size (ssl_events s))")
    (auto dest: SSL_read_ex_decreases [OF sym])

declare ssl_until_loop.simps [simp del]

definition SSLStream_readUntilToken :: "string \<Rightarrow> SSLStream \<Rightarrow> (exn + string) \<times> SSLStream" where
  "SSLStream_readUntilToken token s =
     (case ssl_until_loop token [] (replicate 1024 NUL) (ss_ssl s) of
        (Inl e, ssl') \<Rightarrow> (Inl e, s\<lparr>ss_ssl := ssl'\<rparr>)
      | (Inr (buffer, Some i), ssl') \<Rightarrow>
          (Inr (take i buffer),
           s\<lparr>ss_ssl := ssl', ss_leftover := ss_leftover s @ drop (i + length token) buffer\<rparr>)
      | (Inr (buffer, None), ssl') \<Rightarrow>
          (Inl LengthError,
           s\<lparr>ss_ssl := ssl', ss_leftover := ss_leftover s @ drop (length token - 1) buffer\<rparr>))"

definition SSLStream_setTimeout :: "int \<Rightarrow> SSLStream \<Rightarrow> SSLStream" where
  "SSLStream_setTimeout seconds s = s\<lparr>ss_ssl := (ss_ssl s)\<lparr>ssl_timeout := seconds\<rparr>\<rparr>"

text \<open>\<open>close\<close>: shut down, and when the peer has not answered yet drain what still arrives.\<close>

function ssl_drain :: "ssl \<Rightarrow> ssl" where
  "ssl_drain s =
     (case SSL_read_ex 256 s of
        (Inl err, s') \<Rightarrow> s'
      | (Inr bs, s') \<Rightarrow> if bs = [] then s' else ssl_drain s')"
  by pat_completeness auto
termination
  by (relation "measure (\<lambda>s. ssl_events_size (ssl_events s))")
    (auto dest: SSL_read_ex_decreases [OF sym])

declare ssl_drain.simps [simp del]

definition SSLStream_close :: "SSLStream \<Rightarrow> SSLStream" where
  "SSLStream_close s =
     (let c = ss_ssl s in
      if \<not> ssl_init_finished c then s
      else
        let c1 = c\<lparr>ssl_shutdown_calls := Suc (ssl_shutdown_calls c)\<rparr>
        in if ssl_shutdown_ret c = 0 then s\<lparr>ss_ssl := ssl_drain (c1\<lparr>ssl_timeout := 3\<rparr>)\<rparr>
           else s\<lparr>ss_ssl := c1\<rparr>)"

section \<open>The byte stream and the contract\<close>

fun ssl_arriving :: "ssl_event list \<Rightarrow> string" where
  "ssl_arriving [] = []"
| "ssl_arriving (SslErr c e # es) = ssl_arriving es"
| "ssl_arriving (SslData bs # es) = bs @ ssl_arriving es"

definition ssl_pending :: "SSLStream \<Rightarrow> string" where
  "ssl_pending s = ss_leftover s @ ssl_arriving (ssl_events (ss_ssl s))"

lemma ssl_deliver_arriving:
  "ssl_deliver n es = (r, es') \<Longrightarrow>
     ssl_arriving es = (case r of Inl _ \<Rightarrow> [] | Inr bs \<Rightarrow> bs) @ ssl_arriving es' \<and>
     (case r of Inl _ \<Rightarrow> True | Inr bs \<Rightarrow> length bs \<le> n)"
  by (cases "(n, es)" rule: ssl_deliver.cases) (auto split: if_splits)

lemma SSL_read_ex_arriving:
  assumes "SSL_read_ex n s = (r, s')"
  shows "ssl_arriving (ssl_events s) = (case r of Inl _ \<Rightarrow> [] | Inr bs \<Rightarrow> bs) @ ssl_arriving (ssl_events s')"
    and "case r of Inl _ \<Rightarrow> True | Inr bs \<Rightarrow> length bs \<le> n"
  using assms by (auto simp: SSL_read_ex_def dest!: ssl_deliver_arriving split: prod.splits)

lemma ssl_fill_spec:
  "ssl_fill amount buf s = (buf', s') \<Longrightarrow>
     buf' @ ssl_arriving (ssl_events s') = buf @ ssl_arriving (ssl_events s) \<and> prefix buf buf' \<and>
     int (length buf') \<le> max amount (int (length buf))"
proof (induction amount buf s rule: ssl_fill.induct)
  case (1 amount buf s)
  note unfold = ssl_fill.simps [of amount buf s]
  show ?case
  proof (cases "int (length buf) < amount")
    case False
    with 1(2) unfold show ?thesis by simp
  next
    case True
    obtain r s1 where r: "SSL_read_ex (nat (amount - int (length buf))) s = (r, s1)" by force
    note arr = SSL_read_ex_arriving [OF r]
    show ?thesis
    proof (cases "\<exists>bs. r = Inr bs \<and> bs \<noteq> []")
      case False
      with r True 1(2) unfold have "buf' = buf" "s' = s1"
        by (auto split: sum.splits if_splits)
      with False True arr show ?thesis by (auto split: sum.splits)
    next
      case True
      then obtain bs where bs: "r = Inr bs" "bs \<noteq> []" by blast
      with r \<open>int (length buf) < amount\<close> 1(2) unfold
      have "ssl_fill amount (buf @ bs) s1 = (buf', s')" by simp
      from 1(1) [OF \<open>int (length buf) < amount\<close> r [symmetric] bs this]
      have IH: "buf' @ ssl_arriving (ssl_events s') = (buf @ bs) @ ssl_arriving (ssl_events s1)"
        "prefix (buf @ bs) buf'" "int (length buf') \<le> max amount (int (length (buf @ bs)))" by auto
      from IH(2) have "prefix buf buf'" by (rule append_prefixD)
      with IH arr bs \<open>int (length buf) < amount\<close> show ?thesis by auto
    qed
  qed
qed

lemma SSLStream_peek_spec:
  assumes "SSLStream_peek n s = (v, s')"
  shows "v = ss_leftover s'" "ssl_pending s' = ssl_pending s" "prefix (ss_leftover s) v"
    "int (length v) \<le> max n (int (length (ss_leftover s)))"
  using assms ssl_fill_spec [of n "ss_leftover s" "ss_ssl s"]
  by (auto simp: SSLStream_peek_def ssl_pending_def split: prod.splits)

lemma SSLStream_read_buffered:
  assumes "k \<le> length (ss_leftover s)" "SSLStream_read (int k) s = (r, s')"
  shows "r = Inr (take k (ss_leftover s))"
    "s' = s\<lparr>ss_leftover := drop k (ss_leftover s)\<rparr>"
  using assms by (auto simp: SSLStream_read_def ssl_readFromLeftover_def ssl_pad_def Let_def)

interpretation tls: stream_contract
  SSLStream_peek SSLStream_read ss_leftover "\<lambda>s. ssl_events (ss_ssl s)" ssl_arriving ssl_pending
proof
  fix n k :: nat and m :: int and s s' :: SSLStream and v and r
  show "ssl_pending s = ss_leftover s @ ssl_arriving (ssl_events (ss_ssl s))"
    by (simp add: ssl_pending_def)
  show "SSLStream_peek m s = (v, s') \<Longrightarrow> v = ss_leftover s'" by (rule SSLStream_peek_spec)
  show "SSLStream_peek m s = (v, s') \<Longrightarrow> ssl_pending s' = ssl_pending s"
    by (rule SSLStream_peek_spec)
  show "SSLStream_peek m s = (v, s') \<Longrightarrow> prefix (ss_leftover s) v"
    by (rule SSLStream_peek_spec)
  show "SSLStream_peek m s = (v, s') \<Longrightarrow> int (length v) \<le> max m (int (length (ss_leftover s)))"
    by (rule SSLStream_peek_spec)
  show "k \<le> length (ss_leftover s) \<Longrightarrow> SSLStream_read (int k) s = (r, s') \<Longrightarrow>
      r = Inr (take k (ss_leftover s)) \<and> ss_leftover s' = drop k (ss_leftover s) \<and>
      ssl_events (ss_ssl s') = ssl_events (ss_ssl s)"
    using SSLStream_read_buffered [of k s r s'] by simp
qed

section \<open>Properties\<close>

fun ssl_no_failure :: "ssl_event list \<Rightarrow> bool" where
  "ssl_no_failure [] = True"
| "ssl_no_failure (SslErr c e # es) = False"
| "ssl_no_failure (SslData bs # es) = ssl_no_failure es"

definition would_block :: "(int \<times> int + string) \<Rightarrow> string \<Rightarrow> bool" where
  "would_block r arr \<longleftrightarrow>
     (case r of Inl err \<Rightarrow> fst err = SSL_ERROR_WANT_READ \<and> arr = [] | Inr bs \<Rightarrow> True)"

lemma ssl_deliver_no_failure:
  "ssl_deliver n es = (r, es') \<Longrightarrow> ssl_no_failure es \<Longrightarrow>
     ssl_no_failure es' \<and> would_block r (ssl_arriving es)"
  by (cases "(n, es)" rule: ssl_deliver.cases) (auto simp: would_block_def split: if_splits)

lemma SSL_read_ex_no_failure:
  assumes "SSL_read_ex n s = (r, s')" "ssl_no_failure (ssl_events s)"
  shows "ssl_no_failure (ssl_events s') \<and> would_block r (ssl_arriving (ssl_events s))"
  using assms by (auto simp: SSL_read_ex_def dest: ssl_deliver_no_failure split: prod.splits)

lemma ssl_read_loop_spec:
  "ssl_read_loop acc amount s = ((err, bs), s') \<Longrightarrow> length acc \<le> amount \<Longrightarrow>
   ssl_no_failure (ssl_events s) \<Longrightarrow>
     bs = take amount (acc @ ssl_arriving (ssl_events s)) \<and>
     ssl_arriving (ssl_events s') = drop amount (acc @ ssl_arriving (ssl_events s)) \<and>
     (case err of None \<Rightarrow> True | Some (code, errno) \<Rightarrow> code = SSL_ERROR_WANT_READ)"
proof (induction acc amount s rule: ssl_read_loop.induct)
  case (1 acc amount s)
  note unfold = ssl_read_loop.simps [of acc amount s]
  obtain r s1 where r: "SSL_read_ex (amount - length acc) s = (r, s1)" by force
  note arr = SSL_read_ex_arriving [OF r] and ok = SSL_read_ex_no_failure [OF r 1(4)]
  show ?case
  proof (cases r)
    case (Inl e)
    with r 1(2) unfold have "err = Some e" "bs = acc" "s' = s1" by simp_all
    with Inl arr ok 1(3) show ?thesis by (auto simp: would_block_def split: prod.splits)
  next
    case (Inr c)
    show ?thesis
    proof (cases "length acc < amount")
      case True
      with r Inr 1(2) unfold have step: "ssl_read_loop (acc @ c) amount s1 = ((err, bs), s')" by simp
      have "length (acc @ c) \<le> amount" using arr(2) Inr True by simp
      from 1(1) [OF r [symmetric] Inr True step this conjunct1 [OF ok]] arr(1) Inr show ?thesis by simp
    next
      case False
      with r Inr 1(2) unfold have "err = None" "bs = acc @ c" "s' = s1" by simp_all
      with False arr Inr 1(3) show ?thesis by simp
    qed
  qed
qed

text \<open>
  \<open>read\<close> on a TLS connection without failures never reports missing data. It consumes up to the
  requested number of bytes, leftover first, and always returns a vector of the requested size:
  the bytes that are there, padded with zeros when some have not arrived yet (where the plain
  stream would throw).
\<close>

theorem ssl_read_spec:
  assumes "ssl_no_failure (ssl_events (ss_ssl s))" "0 \<le> amount"
  shows "\<exists>s'. SSLStream_read amount s = (Inr (ssl_pad (nat amount) (take (nat amount) (ssl_pending s))), s')
    \<and> ssl_pending s' = drop (nat amount) (ssl_pending s)"
proof (cases "nat amount \<le> length (ss_leftover s)")
  case True
  obtain r s' where run: "SSLStream_read amount s = (r, s')" by force
  with SSLStream_read_buffered [OF True] assms(2) True show ?thesis
    by (auto simp: ssl_pending_def ssl_pad_def)
next
  case False
  obtain err bs ssl' where loop:
    "ssl_read_loop (ss_leftover s) (nat amount) (ss_ssl s) = ((err, bs), ssl')" by (metis surj_pair)
  from False have "length (ss_leftover s) \<le> nat amount" by simp
  note spec = ssl_read_loop_spec [OF loop this assms(1)]
  from spec have quiet: "handleReadError code errno = None" if "err = Some (code, errno)" for code errno
    using that by (simp add: handleReadError_def SSL_ERROR_SSL_def SSL_ERROR_SYSCALL_def
        SSL_ERROR_WANT_READ_def)
  from False have "ssl_readFromLeftover (nat amount) s = (ss_leftover s, s\<lparr>ss_leftover := []\<rparr>)"
    by (simp add: ssl_readFromLeftover_def Let_def)
  with False assms(2) loop spec quiet show ?thesis
    by (cases err) (auto simp: SSLStream_read_def ssl_pending_def)
qed

theorem ssl_read_spec_witness:
  "\<exists>s'. SSLStream_read 3 (SSLStream_new \<lparr>ssl_events = [SslData ''a''], ssl_write_plan = [],
      ssl_sent = [], ssl_init_finished = True, ssl_shutdown_ret = 1, ssl_shutdown_calls = 0,
      ssl_timeout = 0\<rparr>) = (Inr [CHR ''a'', NUL, NUL], s')"
proof -
  let ?s = "SSLStream_new \<lparr>ssl_events = [SslData ''a''], ssl_write_plan = [],
      ssl_sent = [], ssl_init_finished = True, ssl_shutdown_ret = 1, ssl_shutdown_calls = 0,
      ssl_timeout = 0\<rparr>"
  have "ssl_no_failure (ssl_events (ss_ssl ?s))" by (simp add: SSLStream_new_def)
  from ssl_read_spec [OF this, of 3] show ?thesis
    by (auto simp: SSLStream_new_def ssl_pending_def ssl_pad_def numeral_2_eq_2)
qed

end
