(* ===== verification/Client.thy ===== *)
theory Client
  imports PlainStream SSLStream
begin

text \<open>
  The virtual interfaces \<^verbatim>\<open>IStream\<close> and \<^verbatim>\<open>IClient\<close>: a stream is one of the two implementations and
  every operation dispatches on it; a client is a descriptor with its stream
  (\<^verbatim>\<open>PlainClient\<close>, \<^verbatim>\<open>SSLClient\<close>).
\<close>

section \<open>Streams\<close>

datatype istream = PlainS PlainStream | TlsS SSLStream

fun stream_read :: "int \<Rightarrow> istream \<Rightarrow> (exn + string) \<times> istream" where
  "stream_read n (PlainS s) = (let (r, s') = PlainStream_read n s in (r, PlainS s'))"
| "stream_read n (TlsS s) = (let (r, s') = SSLStream_read n s in (r, TlsS s'))"

fun stream_write :: "string \<Rightarrow> istream \<Rightarrow> (exn + int) \<times> istream" where
  "stream_write buf (PlainS s) = (let (r, s') = PlainStream_write buf s in (r, PlainS s'))"
| "stream_write buf (TlsS s) = (let (r, s') = SSLStream_write buf s in (r, TlsS s'))"

fun stream_peek :: "int \<Rightarrow> istream \<Rightarrow> string \<times> istream" where
  "stream_peek n (PlainS s) = (let (v, s') = PlainStream_peek n s in (v, PlainS s'))"
| "stream_peek n (TlsS s) = (let (v, s') = SSLStream_peek n s in (v, TlsS s'))"

fun stream_readUntilToken :: "string \<Rightarrow> istream \<Rightarrow> (exn + string) \<times> istream" where
  "stream_readUntilToken t (PlainS s) =
     (let (r, s') = PlainStream_readUntilToken t s in (r, PlainS s'))"
| "stream_readUntilToken t (TlsS s) =
     (let (r, s') = SSLStream_readUntilToken t s in (r, TlsS s'))"

fun stream_close :: "istream \<Rightarrow> istream" where
  "stream_close (PlainS s) = PlainS (PlainStream_close s)"
| "stream_close (TlsS s) = TlsS (SSLStream_close s)"

fun stream_setTimeout :: "int \<Rightarrow> istream \<Rightarrow> istream" where
  "stream_setTimeout n (PlainS s) = PlainS (PlainStream_setTimeout n s)"
| "stream_setTimeout n (TlsS s) = TlsS (SSLStream_setTimeout n s)"

text \<open>\<open>SSLStream\<close> does not override \<open>injectBuffer\<close>, whose default body is empty.\<close>

fun stream_injectBuffer :: "string \<Rightarrow> istream \<Rightarrow> istream" where
  "stream_injectBuffer data (PlainS s) = PlainS (PlainStream_injectBuffer data s)"
| "stream_injectBuffer data (TlsS s) = TlsS s"

section \<open>Clients\<close>

record IClient =
  getFd :: int
  getStream :: istream

definition PlainClient_new :: "int \<Rightarrow> socket \<Rightarrow> IClient" where
  "PlainClient_new fd sock = \<lparr>getFd = fd, getStream = PlainS (PlainStream_new fd sock)\<rparr>"

definition SSLClient_new :: "int \<Rightarrow> ssl \<Rightarrow> IClient" where
  "SSLClient_new fd ssl = \<lparr>getFd = fd, getStream = TlsS (SSLStream_new ssl)\<rparr>"

section \<open>Observations\<close>

text \<open>What is in the buffer, what is below it, and what has been written so far.\<close>

fun stream_buffered :: "istream \<Rightarrow> string" where
  "stream_buffered (PlainS s) = leftoverBuffer s"
| "stream_buffered (TlsS s) = ss_leftover s"

fun stream_wire :: "istream \<Rightarrow> net_event list + ssl_event list" where
  "stream_wire (PlainS s) = Inl (incoming (ps_sock s))"
| "stream_wire (TlsS s) = Inr (ssl_events (ss_ssl s))"

fun wire_bytes :: "net_event list + ssl_event list \<Rightarrow> string" where
  "wire_bytes (Inl es) = arriving es"
| "wire_bytes (Inr es) = ssl_arriving es"

definition stream_content :: "istream \<Rightarrow> string" where
  "stream_content s = stream_buffered s @ wire_bytes (stream_wire s)"

fun stream_sent :: "istream \<Rightarrow> string" where
  "stream_sent (PlainS s) = sent (ps_sock s)"
| "stream_sent (TlsS s) = ssl_sent (ss_ssl s)"

interpretation streams: stream_contract
  stream_peek stream_read stream_buffered stream_wire wire_bytes stream_content
proof
  fix n k :: nat and m :: int and s s' :: istream and v and r
  show "stream_content s = stream_buffered s @ wire_bytes (stream_wire s)"
    by (simp add: stream_content_def)
  show "stream_peek m s = (v, s') \<Longrightarrow> v = stream_buffered s'"
    by (cases s) (auto dest: plain.peek_view tls.peek_view split: prod.splits)
  show "stream_peek m s = (v, s') \<Longrightarrow> stream_content s' = stream_content s"
    by (cases s) (auto simp: stream_content_def plain.content_split [symmetric]
        tls.content_split [symmetric] dest: plain.peek_content tls.peek_content split: prod.splits)
  show "stream_peek m s = (v, s') \<Longrightarrow> prefix (stream_buffered s) v"
    by (cases s) (auto dest: plain.peek_grows tls.peek_grows split: prod.splits)
  show "stream_peek m s = (v, s') \<Longrightarrow> int (length v) \<le> max m (int (length (stream_buffered s)))"
    by (cases s) (auto dest: plain.peek_bound tls.peek_bound split: prod.splits)
  show "k \<le> length (stream_buffered s) \<Longrightarrow> stream_read (int k) s = (r, s') \<Longrightarrow>
      r = Inr (take k (stream_buffered s)) \<and> stream_buffered s' = drop k (stream_buffered s) \<and>
      stream_wire s' = stream_wire s"
    by (cases s) (auto dest: plain.read_buffered tls.read_buffered split: prod.splits)
qed

end
