(* ===== verification/Strings.thy ===== *)
theory Strings
  imports Prelude
begin

text \<open>
  \<^verbatim>\<open>lightning/uriMapper/Strings.hpp\<close> and \<^verbatim>\<open>Strings.cpp\<close>: the template formatter and the escaping of
  uris for use inside a regular expression. \<open>formatEx\<close> calls itself on its own result, so it is a
  \<^theory_text>\<open>partial_function\<close> whose value is \<^term>\<open>None\<close> where the recursion never ends.
\<close>

section \<open>formatEx\<close>

text \<open>
  The for loop over the replacers: \<open>offset\<close> is the end of the latest token, \<open>acc\<close> the local
  \<open>replaced\<close>. \<^term>\<open>None\<close> is the early \<open>return {}\<close> when there are more replacers than tokens.
\<close>

fun format_pass :: "string \<Rightarrow> string \<Rightarrow> nat \<Rightarrow> string \<Rightarrow> string list \<Rightarrow> string option" where
  "format_pass str sep offset acc [] = Some (acc @ drop offset str)"
| "format_pass str sep offset acc (r # rs) =
     (case str_find str sep offset of
        None \<Rightarrow> None
      | Some i \<Rightarrow>
          format_pass str sep (i + length sep) (acc @ take (i - offset) (drop offset str) @ r) rs)"

text \<open>
  The whole function. The replacer array has at least one element (\<open>t\<close>), so after the loop
  \<open>tokenIndex != npos\<close> holds and only the length of the result is tested. The outer option is
  termination, the inner one the \<open>std::optional\<close> of the source.
\<close>

partial_function (option) formatEx :: "string \<Rightarrow> string \<Rightarrow> string list \<Rightarrow> string option option" where
  "formatEx str sep replacers =
     (case format_pass str sep 0 [] replacers of
        None \<Rightarrow> Some None
      | Some replaced \<Rightarrow>
          if replaced = [] then Some (Some replaced)
          else Option.bind (formatEx replaced sep replacers)
                 (\<lambda>again. Some (Some (case again of None \<Rightarrow> replaced | Some r \<Rightarrow> r))))"

definition defaultSepratorToken :: string where
  "defaultSepratorToken = ''{}''"

definition format :: "string \<Rightarrow> string list \<Rightarrow> string option option" where
  "format str replacers = formatEx str defaultSepratorToken replacers"

section \<open>Escaping\<close>

text \<open>
  \<open>std::regex_replace\<close> with the alternatives \<^verbatim>\<open>[ ] * / ?\<close> and the replacement \<^verbatim>\<open>\$&\<close>: each of these
  characters gets a backslash in front.
\<close>

definition special_chars :: "char set" where
  "special_chars = {CHR ''['', CHR '']'', CHR ''*'', CHR ''/'', CHR ''?''}"

definition special_chars_but_wildcard :: "char set" where
  "special_chars_but_wildcard = {CHR ''['', CHR '']'', CHR ''/'', CHR ''?''}"

definition backslash :: char where
  "backslash = CHR 0x5C"

fun escape :: "char set \<Rightarrow> string \<Rightarrow> string" where
  "escape S [] = []"
| "escape S (c # cs) = (if c \<in> S then [backslash, c] else [c]) @ escape S cs"

definition sanitizeForRegex :: "string \<Rightarrow> string" where
  "sanitizeForRegex str = escape special_chars str"

definition sanitizeExceptWildcardForRegex :: "string \<Rightarrow> string" where
  "sanitizeExceptWildcardForRegex str = escape special_chars_but_wildcard str"

section \<open>One replacer: replace all\<close>

text \<open>
  The reference: every occurrence of \<open>sep\<close> from left to right, none of them looked for inside
  what was put in.
\<close>

function replace_all :: "string \<Rightarrow> string \<Rightarrow> string \<Rightarrow> string" where
  "replace_all sep rep s =
     (case find_str sep s of
        None \<Rightarrow> s
      | Some i \<Rightarrow>
          if sep = [] then s
          else take i s @ rep @ replace_all sep rep (drop (i + length sep) s))"
  by pat_completeness auto
termination
proof (relation "measure (\<lambda>(sep, rep, s). length s)", simp)
  fix sep rep s i
  assume "find_str sep s = Some i" "sep \<noteq> []"
  then show "((sep, rep, drop (i + length sep) s), sep, rep, s)
      \<in> measure (\<lambda>(sep, rep, s). length s)"
    using find_str_bound [of sep s i] by (cases sep) auto
qed

declare replace_all.simps [simp del]

lemma format_pass_one:
  "format_pass str sep 0 [] [rep] =
     (case find_str sep str of
        None \<Rightarrow> None
      | Some i \<Rightarrow> Some (take i str @ rep @ drop (i + length sep) str))"
  by (auto simp: str_find_def option.map_ident split: option.splits)

lemma formatEx_one_absent: "\<not> occurs sep str \<Longrightarrow> formatEx str sep [rep] = Some None"
  by (subst formatEx.simps) (simp add: format_pass_one occurs_def del: format_pass.simps)

text \<open>
  A replacer is isolated from a separator when no occurrence of the separator can overlap it.
\<close>

definition isolated :: "string \<Rightarrow> string \<Rightarrow> bool" where
  "isolated rep sep \<longleftrightarrow>
     sep \<noteq> [] \<and> rep \<noteq> [] \<and> hd rep \<notin> set sep \<and> last rep \<notin> set sep \<and> \<not> occurs sep rep"

text \<open>Text in front of which a search for \<open>sep\<close> can be cut.\<close>

definition transparent :: "string \<Rightarrow> string \<Rightarrow> bool" where
  "transparent sep u \<longleftrightarrow>
     (\<forall>t. find_str sep (u @ t) = map_option (\<lambda>i. length u + i) (find_str sep t))"

lemma transparent_Nil [simp]: "transparent sep []"
  by (simp add: transparent_def option.map_ident)

lemma transparent_append:
  "transparent sep u \<Longrightarrow> transparent sep v \<Longrightarrow> transparent sep (u @ v)"
  by (simp add: transparent_def option.map_comp comp_def add.assoc)

lemma prefix_nth: "prefix p s \<Longrightarrow> k < length p \<Longrightarrow> s ! k = p ! k"
  by (auto simp: prefix_def nth_append)

lemma prefix_short: "prefix p (x @ y) \<Longrightarrow> length p \<le> length x \<Longrightarrow> prefix p x"
  by (rule prefix_length_prefix [of _ "x @ y"]) simp_all

lemma transparent_isolated:
  assumes "isolated rep sep"
  shows "transparent sep rep"
  unfolding transparent_def
proof (intro allI find_str_skip notI)
  fix t j
  assume j: "j < length rep" and pre: "prefix sep (drop j (rep @ t))"
  show False
  proof (cases "j + length sep \<le> length rep")
    case True
    with pre j have "prefix sep (drop j rep)"
      by (auto intro: prefix_short)
    with assms show False
      using find_str_NoneD [of sep rep j] by (simp add: isolated_def occurs_def)
  next
    case False
    let ?k = "length rep - 1 - j"
    from False j have "?k < length sep" by simp
    moreover from j have "drop j (rep @ t) ! ?k = last rep"
      by (cases "rep = []") (auto simp: nth_append last_conv_nth)
    ultimately have "last rep = sep ! ?k" using prefix_nth [OF pre] by simp
    with assms \<open>?k < length sep\<close> show False by (simp add: isolated_def)
  qed
qed

lemma transparent_replaced:
  assumes iso: "isolated rep sep" and i: "find_str sep s = Some i"
  shows "transparent sep (take i s @ rep)"
  unfolding transparent_def
proof
  fix t
  from find_str_bound [OF i] have len: "length (take i s) = i" by simp
  have "find_str sep (take i s @ rep @ t) =
      map_option (\<lambda>k. length (take i s) + k) (find_str sep (rep @ t))"
  proof (rule find_str_skip, rule notI)
    fix j
    assume "j < length (take i s)" and pre: "prefix sep (drop j (take i s @ rep @ t))"
    with len have j: "j < i" by simp
    show False
    proof (cases "j + length sep \<le> i")
      case True
      with pre j len have "prefix sep (drop j (take i s))"
        by (auto intro: prefix_short)
      then have "prefix sep (drop j s)"
        by (metis append_take_drop_id drop_append prefix_prefix)
      with find_str_SomeD [OF i] j show False by blast
    next
      case False
      with j have k: "i - j < length sep" by simp
      from iso len j have "drop j (take i s @ rep @ t) ! (i - j) = hd rep"
        by (simp add: nth_append isolated_def hd_conv_nth)
      with prefix_nth [OF pre k] have "hd rep = sep ! (i - j)" by simp
      with iso k show False by (simp add: isolated_def)
    qed
  qed
  with transparent_isolated [OF iso]
  show "find_str sep ((take i s @ rep) @ t) =
      map_option (\<lambda>k. length (take i s @ rep) + k) (find_str sep t)"
    by (simp add: transparent_def option.map_comp comp_def add.assoc)
qed

lemma formatEx_transparent:
  assumes iso: "isolated rep sep"
  shows "transparent sep u \<Longrightarrow> occurs sep s \<Longrightarrow>
    formatEx (u @ s) sep [rep] = Some (Some (u @ replace_all sep rep s))"
proof (induction s arbitrary: u rule: length_induct)
  case (1 s)
  then obtain i where i: "find_str sep s = Some i" by (auto simp: occurs_def)
  let ?s = "drop (i + length sep) s" and ?u = "u @ take i s @ rep"
  from iso have ne: "sep \<noteq> []" "rep \<noteq> []" by (auto simp: isolated_def)
  from i 1(2) have pass: "format_pass (u @ s) sep 0 [] [rep] = Some (?u @ ?s)"
    by (simp add: format_pass_one transparent_def del: format_pass.simps)
  have u: "transparent sep ?u"
    by (intro transparent_append 1(2) transparent_replaced [OF iso i])
  have all: "replace_all sep rep s = take i s @ rep @ replace_all sep rep ?s"
    using i ne by (subst replace_all.simps) simp
  show ?case
  proof (cases "occurs sep ?s")
    case True
    have "length ?s < length s" using ne find_str_bound [OF i] by (cases sep) auto
    with 1(1) u True have "formatEx (?u @ ?s) sep [rep] = Some (Some (?u @ replace_all sep rep ?s))"
      by blast
    with pass ne all show ?thesis
      by (subst formatEx.simps) simp
  next
    case False
    with u have "\<not> occurs sep (?u @ ?s)" by (simp add: occurs_def transparent_def)
    then have "formatEx (?u @ ?s) sep [rep] = Some None" by (rule formatEx_one_absent)
    moreover from False have "replace_all sep rep ?s = ?s"
      by (subst replace_all.simps) (simp add: occurs_def)
    ultimately show ?thesis
      using pass ne all by (subst formatEx.simps) simp
  qed
qed

lemmas formatEx_replace_all = formatEx_transparent [where u = "[]", simplified]

text \<open>
  If the single replacer contains the token, every round puts a new token in: the recursion
  never ends.
\<close>

lemma formatEx_returns_free:
  assumes ret: "formatEx str sep [rep] = Some r" and rep: "occurs sep rep" and ne: "sep \<noteq> []"
  shows "\<not> occurs sep str"
proof -
  have "\<forall>q. replacers = [q] \<and> occurs sep' q \<and> sep' \<noteq> [] \<longrightarrow> \<not> occurs sep' str'"
    if "formatEx str' sep' replacers = Some r" for str' sep' replacers r
    using that
  proof (rule formatEx.raw_induct
      [where P = "\<lambda>s p rs r. \<forall>q. rs = [q] \<and> occurs p q \<and> p \<noteq> [] \<longrightarrow> \<not> occurs p s", rotated])
    fix f str sep rs r
    assume IH: "\<And>str sep rs r. f str sep rs = Some r \<Longrightarrow>
        \<forall>q. rs = [q] \<and> occurs sep q \<and> sep \<noteq> [] \<longrightarrow> \<not> occurs sep str"
      and eq: "(case format_pass str sep 0 [] rs of None \<Rightarrow> Some None
        | Some replaced \<Rightarrow> if replaced = [] then Some (Some replaced)
            else Option.bind (f replaced sep rs)
              (\<lambda>again. Some (Some (case again of None \<Rightarrow> replaced | Some r \<Rightarrow> r)))) = Some r"
    show "\<forall>q. rs = [q] \<and> occurs sep q \<and> sep \<noteq> [] \<longrightarrow> \<not> occurs sep str"
    proof (intro allI impI notI, elim conjE)
      fix q
      assume q: "rs = [q]" "occurs sep q" "sep \<noteq> []" and str: "occurs sep str"
      then obtain i where i: "find_str sep str = Some i" by (auto simp: occurs_def)
      let ?new = "take i str @ q @ drop (i + length sep) str"
      have new: "occurs sep ?new" using q(2) by (intro occurs_append_right occurs_append_left)
      then have "?new \<noteq> []" using q(3) by (auto simp: occurs_def simp del: append_is_Nil_conv)
      with eq i q(1) obtain r' where "f ?new sep rs = Some r'"
        by (auto simp: format_pass_one simp del: format_pass.simps split: bind_splits)
      from IH [OF this] q new show False by blast
    qed
  qed
  with ret rep ne show ?thesis by blast
qed

lemma formatEx_diverges:
  "occurs sep rep \<Longrightarrow> sep \<noteq> [] \<Longrightarrow> occurs sep str \<Longrightarrow> formatEx str sep [rep] = None"
  by (cases "formatEx str sep [rep]") (auto dest: formatEx_returns_free)

end
