(* ===== verification/Regex.thy ===== *)
theory Regex
  imports Prelude
begin

text \<open>
  \<open>std::regex\<close> with its default ECMAScript grammar, as far as the patterns built by \<open>UriMapper\<close> use
  it: ordinary characters, escaped punctuation, \<^verbatim>\<open>. ^ $\<close>, capture groups, alternation and the greedy
  quantifiers \<^verbatim>\<open>* + ?\<close>. \<open>compile\<close> is the constructor of \<open>std::regex\<close>; patterns with other constructs
  (character classes, escaped letters and digits, counted repetition, \<^verbatim>\<open>(?\<close> groups) compile to
  \<^term>\<open>Unmodelled\<close>, malformed ones throw \<open>std::regex_error\<close>.

  \<open>mt r s i c\<close> lists the ways \<open>r\<close> can match \<open>s\<close> from position \<open>i\<close> with captures \<open>c\<close>, in the order in
  which a backtracking matcher tries them; \<open>regex_match\<close> takes the first that ends at the end of
  the subject. A capture is kept as the number of its group and its start and end; later captures
  come first.
\<close>

section \<open>Syntax\<close>

datatype rx =
    Eps
  | Chr char
  | AnyChr
  | Bol
  | Eol
  | Cat rx rx
  | Alt rx rx
  | Rep nat "nat option" rx
  | Group nat rx

section \<open>Matching\<close>

type_synonym caps = "(nat \<times> nat \<times> nat) list"

definition line_terminator :: "char \<Rightarrow> bool" where
  "line_terminator c \<longleftrightarrow> c = CR \<or> c = LF"

text \<open>
  Greedy repetition of a matcher \<open>f\<close>: at least \<open>lo\<close> and at most \<open>hi\<close> times; an optional iteration
  has to consume something. \<open>fuel\<close> bounds the number of iterations; \<open>rep_fuel\<close> below shows that
  \<open>lo\<close> plus the length of the subject is enough.
\<close>

fun repeat_mt :: "(nat \<Rightarrow> caps \<Rightarrow> (nat \<times> caps) list) \<Rightarrow> nat \<Rightarrow> nat \<Rightarrow> nat option \<Rightarrow> nat \<Rightarrow> caps
    \<Rightarrow> (nat \<times> caps) list" where
  "repeat_mt f 0 lo hi i c = (if lo = 0 then [(i, c)] else [])"
| "repeat_mt f (Suc fuel) lo hi i c =
     (if hi = Some 0 then []
      else concat (map (\<lambda>(j, d). if lo = 0 \<and> j = i then []
                                 else repeat_mt f fuel (lo - 1) (map_option (\<lambda>h. h - 1) hi) j d)
                    (f i c)))
     @ (if lo = 0 then [(i, c)] else [])"

fun mt :: "rx \<Rightarrow> string \<Rightarrow> nat \<Rightarrow> caps \<Rightarrow> (nat \<times> caps) list" where
  "mt Eps s i c = [(i, c)]"
| "mt (Chr x) s i c = (if i < length s \<and> s ! i = x then [(Suc i, c)] else [])"
| "mt AnyChr s i c =
     (if i < length s \<and> \<not> line_terminator (s ! i) then [(Suc i, c)] else [])"
| "mt Bol s i c = (if i = 0 then [(i, c)] else [])"
| "mt Eol s i c = (if i = length s then [(i, c)] else [])"
| "mt (Cat a b) s i c = concat (map (\<lambda>(j, d). mt b s j d) (mt a s i c))"
| "mt (Alt a b) s i c = mt a s i c @ mt b s i c"
| "mt (Rep lo hi a) s i c = repeat_mt (mt a s) (lo + length s) lo hi i c"
| "mt (Group n a) s i c = map (\<lambda>(j, d). (j, (n, i, j) # d)) (mt a s i c)"

text \<open>\<open>std::regex_match\<close>: the captures of the first match of the whole subject.\<close>

definition regex_match :: "rx \<Rightarrow> string \<Rightarrow> caps option" where
  "regex_match r s = map_option snd (List.find (\<lambda>(j, c). j = length s) (mt r s 0 []))"

fun group_count :: "rx \<Rightarrow> nat" where
  "group_count (Cat a b) = group_count a + group_count b"
| "group_count (Alt a b) = group_count a + group_count b"
| "group_count (Rep lo hi a) = group_count a"
| "group_count (Group n a) = Suc (group_count a)"
| "group_count _ = 0"

text \<open>
  Sub-match \<open>n\<close> of a result: the last capture of the group, or the empty range at the end of the
  subject when the group took no part in the match.
\<close>

definition submatch :: "string \<Rightarrow> caps \<Rightarrow> nat \<Rightarrow> nat \<times> nat" where
  "submatch s c n = (case map_of c n of Some r \<Rightarrow> r | None \<Rightarrow> (length s, length s))"

section \<open>Compiling\<close>

text \<open>
  The scanner turns the pattern into tokens. \<open>TQuant lo hi\<close> is one of \<^verbatim>\<open>* + ?\<close>.
\<close>

datatype token =
    TChr char
  | TAny
  | TBol
  | TEol
  | TOpen
  | TClose
  | TBar
  | TQuant nat "nat option"

definition is_alnum :: "char \<Rightarrow> bool" where
  "is_alnum c \<longleftrightarrow> is_digit c \<or> (65 \<le> (of_char c :: nat) \<and> (of_char c :: nat) \<le> 90)
     \<or> (97 \<le> (of_char c :: nat) \<and> (of_char c :: nat) \<le> 122)"

text \<open>
  The token that \<open>c\<close>, followed by \<open>cs\<close>, stands for; the backslash is handled by \<open>scan\<close>. A question
  mark after an opening parenthesis or a quantifier (special groups, lazy quantifiers) is outside
  the modelled syntax; an opening brace with no digit after it is malformed.
\<close>

definition scan_char :: "char \<Rightarrow> string \<Rightarrow> token outcome" where
  "scan_char c cs =
     (let question = (cs \<noteq> [] \<and> hd cs = CHR ''?'') in
      if c = CHR ''('' then (if question then Unmodelled else Returns TOpen)
      else if c = CHR '')'' then Returns TClose
      else if c = CHR ''|'' then Returns TBar
      else if c = CHR ''*'' then (if question then Unmodelled else Returns (TQuant 0 None))
      else if c = CHR ''+'' then (if question then Unmodelled else Returns (TQuant 1 None))
      else if c = CHR ''?'' then (if question then Unmodelled else Returns (TQuant 0 (Some 1)))
      else if c = CHR ''.'' then Returns TAny
      else if c = CHR ''^'' then Returns TBol
      else if c = CHR ''$'' then Returns TEol
      else if c = CHR ''['' then Unmodelled
      else if c = CHR ''{'' then
        (if cs \<noteq> [] \<and> is_digit (hd cs) then Unmodelled else Throws RegexError)
      else Returns (TChr c))"

fun scan :: "string \<Rightarrow> token list outcome" where
  "scan [] = Returns []"
| "scan [c] =
     (if c = CHR 0x5C then Throws RegexError
      else and_then (scan_char c []) (\<lambda>t. Returns [t]))"
| "scan (c # d # ds) =
     (if c = CHR 0x5C then
        (if is_alnum d then Unmodelled
         else and_then (scan ds) (\<lambda>ts. Returns (TChr d # ts)))
      else and_then (scan_char c (d # ds)) (\<lambda>t. and_then (scan (d # ds)) (\<lambda>ts. Returns (t # ts))))"

text \<open>
  The parser: one pass over the tokens with a stack of open groups. A frame holds the number of
  its group, the finished alternatives and the terms of the current alternative, both latest
  first; a term is marked with whether a quantifier may follow it.
\<close>

record frame =
  gnum :: nat
  alts :: "rx list"
  terms :: "(bool \<times> rx) list"

fun cat_all :: "rx list \<Rightarrow> rx" where
  "cat_all [] = Eps"
| "cat_all (r # rs) = Cat r (cat_all rs)"

fun alt_all :: "rx \<Rightarrow> rx list \<Rightarrow> rx" where
  "alt_all r [] = r"
| "alt_all r (q # qs) = Alt r (alt_all q qs)"

definition close_alt :: "frame \<Rightarrow> rx" where
  "close_alt fr = cat_all (rev (map snd (terms fr)))"

definition close_frame :: "frame \<Rightarrow> rx" where
  "close_frame fr =
     (case rev (alts fr) of [] \<Rightarrow> close_alt fr | r # rs \<Rightarrow> alt_all r (rs @ [close_alt fr]))"

definition push_term :: "bool \<Rightarrow> rx \<Rightarrow> frame \<Rightarrow> frame" where
  "push_term quantifiable r fr = fr\<lparr>terms := (quantifiable, r) # terms fr\<rparr>"

definition quantify :: "nat \<Rightarrow> nat option \<Rightarrow> frame \<Rightarrow> frame option" where
  "quantify lo hi fr =
     (case terms fr of
        [] \<Rightarrow> None
      | (quantifiable, r) # ts \<Rightarrow>
          if quantifiable then Some (fr\<lparr>terms := (False, Rep lo hi r) # ts\<rparr>) else None)"

fun parse :: "token list \<Rightarrow> nat \<Rightarrow> frame \<Rightarrow> frame list \<Rightarrow> rx outcome" where
  "parse [] n cur outer = (if outer = [] then Returns (close_frame cur) else Throws RegexError)"
| "parse (TChr c # ts) n cur outer = parse ts n (push_term True (Chr c) cur) outer"
| "parse (TAny # ts) n cur outer = parse ts n (push_term True AnyChr cur) outer"
| "parse (TBol # ts) n cur outer = parse ts n (push_term False Bol cur) outer"
| "parse (TEol # ts) n cur outer = parse ts n (push_term False Eol cur) outer"
| "parse (TOpen # ts) n cur outer =
     parse ts (Suc n) \<lparr>gnum = n, alts = [], terms = []\<rparr> (cur # outer)"
| "parse (TClose # ts) n cur outer =
     (case outer of
        [] \<Rightarrow> Throws RegexError
      | up # outer' \<Rightarrow> parse ts n (push_term True (Group (gnum cur) (close_frame cur)) up) outer')"
| "parse (TBar # ts) n cur outer =
     parse ts n (cur\<lparr>alts := close_alt cur # alts cur, terms := []\<rparr>) outer"
| "parse (TQuant lo hi # ts) n cur outer =
     (case quantify lo hi cur of
        None \<Rightarrow> Throws RegexError
      | Some cur' \<Rightarrow> parse ts n cur' outer)"

definition compile :: "string \<Rightarrow> rx outcome" where
  "compile pat =
     and_then (scan pat) (\<lambda>ts. parse ts 1 \<lparr>gnum = 0, alts = [], terms = []\<rparr> [])"

section \<open>Fuel of a repetition\<close>

text \<open>Matching moves forward and stays inside the subject.\<close>

definition forward :: "string \<Rightarrow> (nat \<Rightarrow> caps \<Rightarrow> (nat \<times> caps) list) \<Rightarrow> bool" where
  "forward s f \<longleftrightarrow> (\<forall>i c j d. i \<le> length s \<longrightarrow> (j, d) \<in> set (f i c) \<longrightarrow> i \<le> j \<and> j \<le> length s)"

lemma rep_Suc_elim:
  assumes "(j, d) \<in> set (repeat_mt f (Suc fuel) lo hi i c)"
  obtains "j = i" "d = c" "lo = 0"
  | j' d' where "(j', d') \<in> set (f i c)" "\<not> (lo = 0 \<and> j' = i)"
      "(j, d) \<in> set (repeat_mt f fuel (lo - 1) (map_option (\<lambda>h. h - 1) hi) j' d')"
proof -
  from assms have "(j = i \<and> d = c \<and> lo = 0) \<or> (\<exists>(j', d') \<in> set (f i c). \<not> (lo = 0 \<and> j' = i) \<and>
      (j, d) \<in> set (repeat_mt f fuel (lo - 1) (map_option (\<lambda>h. h - 1) hi) j' d'))"
    by (simp split: if_splits) (force split: if_splits)+
  with that show thesis by blast
qed

lemma rep_forward:
  assumes "forward s f"
  shows "i \<le> length s \<Longrightarrow> (j, d) \<in> set (repeat_mt f fuel lo hi i c) \<Longrightarrow> i \<le> j \<and> j \<le> length s"
proof (induction fuel arbitrary: lo hi i c)
  case 0
  then show ?case by (simp split: if_splits)
next
  case (Suc fuel)
  from Suc.prems(2) show ?case
  proof (cases rule: rep_Suc_elim)
    case 1
    with Suc.prems show ?thesis by simp
  next
    case (2 j' d')
    with assms Suc.prems have "i \<le> j' \<and> j' \<le> length s" unfolding forward_def by blast
    moreover from this 2 have "j' \<le> j \<and> j \<le> length s" by (intro Suc.IH) simp_all
    ultimately show ?thesis by simp
  qed
qed

lemma mt_forward: "forward s (mt r s)"
proof (induction r)
  case (Cat a b)
  show ?case
    unfolding forward_def
  proof (intro allI impI)
    fix i c j d
    assume i: "i \<le> length s" and "(j, d) \<in> set (mt (Cat a b) s i c)"
    then obtain j' d' where a: "(j', d') \<in> set (mt a s i c)" and b: "(j, d) \<in> set (mt b s j' d')"
      by auto
    from Cat.IH(1) i a have "i \<le> j' \<and> j' \<le> length s" unfolding forward_def by blast
    moreover from this Cat.IH(2) b have "j' \<le> j \<and> j \<le> length s"
      unfolding forward_def by blast
    ultimately show "i \<le> j \<and> j \<le> length s" by simp
  qed
next
  case (Alt a b)
  then show ?case unfolding forward_def mt.simps set_append Un_iff by blast
next
  case (Rep lo hi a)
  show ?case unfolding forward_def mt.simps using rep_forward [OF Rep.IH] by blast
next
  case (Group n a)
  have "(\<exists>e. (j, e) \<in> set (mt a s i c))" if "(j, d) \<in> set (mt (Group n a) s i c)" for i c j d
    using that by auto
  with Group.IH show ?case unfolding forward_def by blast
qed (simp_all add: forward_def)

text \<open>One more unit of fuel than \<open>lo + (length s - i)\<close> changes nothing, so \<open>lo + length s\<close> is enough.\<close>

lemma rep_fuel:
  assumes "forward s f"
  shows "i \<le> length s \<Longrightarrow> lo + (length s - i) \<le> fuel \<Longrightarrow>
    repeat_mt f (Suc fuel) lo hi i c = repeat_mt f fuel lo hi i c"
proof (induction fuel arbitrary: lo hi i c)
  case 0
  then have lo: "lo = 0" and i: "i = length s" by auto
  have "j = i" if "(j, d) \<in> set (f i c)" for j d
    using assms that i unfolding forward_def by (metis le_antisym order_refl)
  then have "concat (map (\<lambda>(j, d). if lo = 0 \<and> j = i then []
      else repeat_mt f 0 (lo - 1) (map_option (\<lambda>h. h - 1) hi) j d) (f i c)) = []"
    using lo by (auto simp: concat_eq_Nil_conv split: if_splits)
  with lo show ?case by (subst repeat_mt.simps(2)) (simp only: repeat_mt.simps(1) if_cancel append_Nil)
next
  case (Suc fuel)
  have "(if lo = 0 \<and> j = i then [] else repeat_mt f (Suc fuel) (lo - 1) (map_option (\<lambda>h. h - 1) hi) j d) =
      (if lo = 0 \<and> j = i then [] else repeat_mt f fuel (lo - 1) (map_option (\<lambda>h. h - 1) hi) j d)"
    if "(j, d) \<in> set (f i c)" for j d
  proof (cases "lo = 0 \<and> j = i")
    case False
    from assms that Suc.prems have "i \<le> j \<and> j \<le> length s" unfolding forward_def by blast
    with False Suc.prems show ?thesis by (simp only: if_False) (intro Suc.IH; arith)
  qed simp
  then have "map (\<lambda>(j, d). if lo = 0 \<and> j = i then []
        else repeat_mt f (Suc fuel) (lo - 1) (map_option (\<lambda>h. h - 1) hi) j d) (f i c) =
      map (\<lambda>(j, d). if lo = 0 \<and> j = i then []
        else repeat_mt f fuel (lo - 1) (map_option (\<lambda>h. h - 1) hi) j d) (f i c)"
    by (auto intro!: map_cong)
  then show ?case
    by (subst repeat_mt.simps(2), subst (2) repeat_mt.simps(2)) (simp only:)
qed

section \<open>Literals and the any-suffix group\<close>

text \<open>Characters that the scanner turns into themselves.\<close>

definition meta_chars :: "char set" where
  "meta_chars = {CHR 0x5C, CHR ''('', CHR '')'', CHR ''|'', CHR ''*'', CHR ''+'', CHR ''?'',
     CHR ''.'', CHR ''^'', CHR ''$'', CHR ''['', CHR ''{''}"

lemma scan_ordinary:
  "c \<notin> meta_chars \<Longrightarrow> scan (c # r) = and_then (scan r) (\<lambda>ts. Returns (TChr c # ts))"
  by (cases r) (simp_all add: meta_chars_def scan_char_def)

lemma scan_escaped:
  "\<not> is_alnum c \<Longrightarrow> scan (CHR 0x5C # c # r) = and_then (scan r) (\<lambda>ts. Returns (TChr c # ts))"
  by simp

definition push_chars :: "string \<Rightarrow> frame \<Rightarrow> frame" where
  "push_chars u fr = fr\<lparr>terms := rev (map (\<lambda>c. (True, Chr c)) u) @ terms fr\<rparr>"

lemma parse_chars:
  "parse (map TChr u @ ts) n cur outer = parse ts n (push_chars u cur) outer"
  by (induction u arbitrary: cur) (simp_all add: push_chars_def push_term_def)

text \<open>The list of matches of a sequence that starts with literal characters.\<close>

lemma mt_chars:
  "i \<le> length s \<Longrightarrow> mt (cat_all (map Chr u @ rs)) s i c =
     (if prefix u (drop i s) then mt (cat_all rs) s (i + length u) c else [])"
proof (induction u arbitrary: i)
  case Nil
  then show ?case by simp
next
  case (Cons x u)
  show ?case
  proof (cases "i < length s")
    case True
    then have "drop i s = s ! i # drop (Suc i) s" by (simp add: Cons_nth_drop_Suc)
    with True Cons.IH [of "Suc i"] show ?thesis by auto
  next
    case False
    with Cons.prems show ?thesis by simp
  qed
qed

definition run_end :: "string \<Rightarrow> nat \<Rightarrow> nat" where
  "run_end s i = i + length (takeWhile (\<lambda>x. \<not> line_terminator x) (drop i s))"

lemma star_any:
  "i \<le> length s \<Longrightarrow> length s \<le> fuel + i \<Longrightarrow>
   repeat_mt (mt AnyChr s) fuel 0 None i c = map (\<lambda>j. (j, c)) (rev [i..<Suc (run_end s i)])"
proof (induction fuel arbitrary: i)
  case 0
  then show ?case by (simp add: run_end_def)
next
  case (Suc fuel)
  show ?case
  proof (cases "i < length s \<and> \<not> line_terminator (s ! i)")
    case True
    then have "drop i s = s ! i # drop (Suc i) s" by (simp add: Cons_nth_drop_Suc)
    with True have run: "run_end s i = run_end s (Suc i)" by (simp add: run_end_def)
    have "i < Suc (run_end s (Suc i))" by (simp add: run_end_def)
    then have "rev [i..<Suc (run_end s (Suc i))] = rev [Suc i..<Suc (run_end s (Suc i))] @ [i]"
      by (simp add: upt_conv_Cons del: upt_Suc)
    with True Suc run show ?thesis by (simp del: upt_Suc)
  next
    case False
    then have "takeWhile (\<lambda>x. \<not> line_terminator x) (drop i s) = []"
      using Suc.prems by (cases "i < length s") (auto simp: takeWhile_eq_Nil_iff hd_drop_conv_nth)
    with False show ?thesis by (auto simp: run_end_def)
  qed
qed

text \<open>The group \<^verbatim>\<open>(\/.*|$)\<close> that a wildcard becomes.\<close>

definition any_suffix :: rx where
  "any_suffix =
     Alt (cat_all [Chr (CHR ''/''), Rep 0 None AnyChr]) (cat_all [Eol])"

lemma mt_any_suffix:
  assumes "i \<le> length s"
  shows "mt (Group n any_suffix) s i c =
    (if i < length s \<and> s ! i = CHR ''/''
     then map (\<lambda>j. (j, (n, i, j) # c)) (rev [Suc i..<Suc (run_end s (Suc i))]) else [])
    @ (if i = length s then [(i, (n, i, i) # c)] else [])"
proof -
  have "mt (Rep 0 None AnyChr) s (Suc i) c =
      map (\<lambda>j. (j, c)) (rev [Suc i..<Suc (run_end s (Suc i))])" if "i < length s"
    using that by (simp add: star_any del: upt_Suc)
  moreover have "concat (map (\<lambda>x. [x]) xs) = xs" for xs :: "(nat \<times> caps) list"
    by (induction xs) auto
  ultimately show ?thesis
    using assms by (auto simp: any_suffix_def comp_def split_def simp del: upt_Suc mt.simps(8))
qed

lemma regex_match_None: "regex_match r s = None \<longleftrightarrow> (\<forall>c. (length s, c) \<notin> set (mt r s 0 []))"
  by (auto simp: regex_match_def find_None_iff)

end
