(* ===== verification/UnorderedMap.thy ===== *)
theory UnorderedMap
  imports Prelude
begin

text \<open>
  \<open>std::unordered_map\<close>, as far as the program uses it: \<open>HeadersMap\<close> and the two resolver maps.

  A map is the list of its entries in the order in which their keys were first inserted, with
  distinct keys. The order in which a range-for visits the entries depends on hashes and bucket
  counts, which the standard leaves open: it is the entries sorted by an arbitrary \<open>rank\<close> of the
  keys, which may depend on the whole insertion history (\<open>rank ks k\<close>). Every permutation of the
  entries is obtained for some rank, and every theorem holds for all ranks.
\<close>

type_synonym ('k, 'v) umap = "('k \<times> 'v) list"
type_synonym HeadersMap = "(string, string) umap"
type_synonym 'k bucket_rank = "'k list \<Rightarrow> 'k \<Rightarrow> nat"

definition umap_empty :: "('k, 'v) umap" where
  "umap_empty = []"

definition umap_find :: "('k, 'v) umap \<Rightarrow> 'k \<Rightarrow> 'v option" where
  "umap_find m k = map_of m k"

text \<open>\<open>insert\<close> (and \<open>emplace\<close>) leave an existing entry alone; \<open>insert_or_assign\<close> overwrites it.\<close>

definition umap_insert :: "'k \<Rightarrow> 'v \<Rightarrow> ('k, 'v) umap \<Rightarrow> ('k, 'v) umap" where
  "umap_insert k v m = (if k \<in> fst ` set m then m else m @ [(k, v)])"

definition umap_assign :: "'k \<Rightarrow> 'v \<Rightarrow> ('k, 'v) umap \<Rightarrow> ('k, 'v) umap" where
  "umap_assign k v m =
     (if k \<in> fst ` set m then map (\<lambda>(k', v'). if k' = k then (k', v) else (k', v')) m
      else m @ [(k, v)])"

definition umap_erase :: "'k \<Rightarrow> ('k, 'v) umap \<Rightarrow> ('k, 'v) umap" where
  "umap_erase k m = filter (\<lambda>(k', v'). k' \<noteq> k) m"

definition umap_ok :: "('k, 'v) umap \<Rightarrow> bool" where
  "umap_ok m \<longleftrightarrow> distinct (map fst m)"

definition umap_iterate :: "'k bucket_rank \<Rightarrow> ('k, 'v) umap \<Rightarrow> ('k \<times> 'v) list" where
  "umap_iterate rank m = sort_key (\<lambda>e. rank (map fst m) (fst e)) m"

section \<open>The interface\<close>

text \<open>What the clients rely on: the laws of lookup, and that iteration visits every entry once.\<close>

locale hash_map =
  fixes emp :: "'m"
    and ins :: "'k \<Rightarrow> 'v \<Rightarrow> 'm \<Rightarrow> 'm"
    and asg :: "'k \<Rightarrow> 'v \<Rightarrow> 'm \<Rightarrow> 'm"
    and era :: "'k \<Rightarrow> 'm \<Rightarrow> 'm"
    and look :: "'m \<Rightarrow> 'k \<Rightarrow> 'v option"
    and iter :: "'k bucket_rank \<Rightarrow> 'm \<Rightarrow> ('k \<times> 'v) list"
    and ok :: "'m \<Rightarrow> bool"
  assumes ok_emp: "ok emp"
    and ok_ins: "ok m \<Longrightarrow> ok (ins k v m)"
    and ok_asg: "ok m \<Longrightarrow> ok (asg k v m)"
    and ok_era: "ok m \<Longrightarrow> ok (era k m)"
    and look_emp: "look emp k = None"
    and look_ins: "look (ins k v m) k' = (if k' = k \<and> look m k = None then Some v else look m k')"
    and look_asg: "look (asg k v m) k' = (if k' = k then Some v else look m k')"
    and look_era: "look (era k m) k' = (if k' = k then None else look m k')"
    and iter_set: "ok m \<Longrightarrow> (k, v) \<in> set (iter rank m) \<longleftrightarrow> look m k = Some v"
    and iter_distinct: "ok m \<Longrightarrow> distinct (map fst (iter rank m))"
begin

text \<open>A sequence of \<open>insert\<close>s keeps the first value of each key, of \<open>insert_or_assign\<close>s the last.\<close>

lemma ok_fold_ins: "ok m \<Longrightarrow> ok (foldl (\<lambda>m (k, v). ins k v m) m kvs)"
  by (induction kvs arbitrary: m) (auto simp: ok_ins)

lemma look_fold_ins:
  "look (foldl (\<lambda>m (k, v). ins k v m) m kvs) k =
     (case look m k of None \<Rightarrow> map_of kvs k | Some v \<Rightarrow> Some v)"
  by (induction kvs arbitrary: m) (auto simp: look_ins split: option.splits)

lemma first_value_wins: "look (foldl (\<lambda>m (k, v). ins k v m) emp kvs) k = map_of kvs k"
  by (simp add: look_fold_ins look_emp)

lemma look_fold_asg:
  "look (foldl (\<lambda>m (k, v). asg k v m) m kvs) k =
     (case map_of (rev kvs) k of None \<Rightarrow> look m k | Some v \<Rightarrow> Some v)"
  by (induction kvs arbitrary: m)
    (auto simp: look_asg map_add_def split: option.splits)

lemma last_value_wins: "look (foldl (\<lambda>m (k, v). asg k v m) emp kvs) k = map_of (rev kvs) k"
  by (simp add: look_fold_asg look_emp split: option.splits)

text \<open>
  A search in iteration order for an entry satisfying \<open>P\<close> finds one exactly when there is one,
  and when only one entry satisfies \<open>P\<close> it finds that one, whatever the order.
\<close>

lemma search_some:
  assumes "ok m" "List.find P (iter rank m) = Some (k, v)"
  shows "look m k = Some v \<and> P (k, v)"
proof -
  from assms(2) have "(k, v) \<in> set (iter rank m) \<and> P (k, v)"
    by (auto simp: find_Some_iff)
  with assms(1) show ?thesis by (simp add: iter_set)
qed

lemma search_none:
  assumes "ok m"
  shows "List.find P (iter rank m) = None \<longleftrightarrow> (\<forall>k v. look m k = Some v \<longrightarrow> \<not> P (k, v))"
  using assms by (auto simp: find_None_iff iter_set)

lemma search_unique:
  assumes ok: "ok m" and hit: "look m k = Some v" "P (k, v)"
    and only: "\<And>k' v'. look m k' = Some v' \<Longrightarrow> P (k', v') \<Longrightarrow> k' = k"
  shows "List.find P (iter rank m) = Some (k, v)"
proof (cases "List.find P (iter rank m)")
  case None
  with ok hit show ?thesis by (simp add: search_none)
next
  case (Some e)
  obtain k' v' where e: "e = (k', v')" by force
  with Some ok have "look m k' = Some v'" "P (k', v')" by (auto dest: search_some)
  with only hit have "k' = k" "v' = v" by auto
  with Some e show ?thesis by simp
qed

end

section \<open>The model provides the interface\<close>

lemma umap_ok_insert: "umap_ok m \<Longrightarrow> umap_ok (umap_insert k v m)"
  by (auto simp: umap_ok_def umap_insert_def)

lemma map_fst_assign: "map fst (map (\<lambda>(k', v'). if k' = k then (k', v) else (k', v')) m) = map fst m"
  by (induction m) auto

lemma umap_ok_assign: "umap_ok m \<Longrightarrow> umap_ok (umap_assign k v m)"
  unfolding umap_ok_def umap_assign_def by (simp only: map_fst_assign split: if_split) auto

lemma map_assign_absent:
  "k \<notin> fst ` set m \<Longrightarrow> map (\<lambda>(k', v'). if k' = k then (k', v) else (k', v')) m = m"
  by (rule map_idI) force

lemma map_of_assign:
  "k \<in> fst ` set m \<Longrightarrow>
   map_of (map (\<lambda>(k', v'). if k' = k then (k', v) else (k', v')) m) k' =
     (if k' = k then Some v else map_of m k')"
proof (induction m)
  case (Cons e m)
  obtain a b where "e = (a, b)" by force
  with Cons show ?case by (cases "k \<in> fst ` set m") (auto simp: map_assign_absent)
qed simp

lemma umap_ok_erase: "umap_ok m \<Longrightarrow> umap_ok (umap_erase k m)"
  unfolding umap_ok_def umap_erase_def by (induction m) auto

lemma map_of_erase: "map_of (filter (\<lambda>(k', v'). k' \<noteq> k) m) k' = (if k' = k then None else map_of m k')"
  by (induction m) auto

lemma map_of_snoc:
  "map_of (m @ [(k, v)]) k' =
     (case map_of m k' of Some w \<Rightarrow> Some w | None \<Rightarrow> if k' = k then Some v else None)"
  by (simp add: map_add_def split: option.split)

lemma known_key: "k \<in> fst ` set m \<longleftrightarrow> map_of m k \<noteq> None"
  by (simp add: map_of_eq_None_iff)

lemma find_insert:
  "umap_find (umap_insert k v m) k' =
     (if k' = k \<and> umap_find m k = None then Some v else umap_find m k')"
  unfolding umap_find_def umap_insert_def known_key
  by (cases "map_of m k") (auto simp: map_of_snoc simp del: map_of_append split: option.split)

lemma find_assign:
  "umap_find (umap_assign k v m) k' = (if k' = k then Some v else umap_find m k')"
proof (cases "k \<in> fst ` set m")
  case True
  then show ?thesis by (simp add: umap_find_def umap_assign_def map_of_assign)
next
  case False
  then have "map_of m k = None" by (simp add: map_of_eq_None_iff)
  with False show ?thesis
    by (auto simp: umap_find_def umap_assign_def map_of_snoc simp del: map_of_append split: option.split)
qed

interpretation umap: hash_map
  umap_empty umap_insert umap_assign umap_erase umap_find umap_iterate umap_ok
proof
  fix k k' :: 'a and v v' :: 'b and m :: "('a, 'b) umap" and rank :: "'a bucket_rank"
  show "umap_ok (umap_empty :: ('a, 'b) umap)" by (simp add: umap_ok_def umap_empty_def)
  show "umap_ok m \<Longrightarrow> umap_ok (umap_insert k v m)" by (rule umap_ok_insert)
  show "umap_ok m \<Longrightarrow> umap_ok (umap_assign k v m)" by (rule umap_ok_assign)
  show "umap_ok m \<Longrightarrow> umap_ok (umap_erase k m)" by (rule umap_ok_erase)
  show "umap_find (umap_empty :: ('a, 'b) umap) k = None"
    by (simp add: umap_find_def umap_empty_def)
  show "umap_find (umap_insert k v m) k' =
      (if k' = k \<and> umap_find m k = None then Some v else umap_find m k')"
    by (rule find_insert)
  show "umap_find (umap_assign k v m) k' = (if k' = k then Some v else umap_find m k')"
    by (rule find_assign)
  show "umap_find (umap_erase k m) k' = (if k' = k then None else umap_find m k')"
    by (simp add: umap_find_def umap_erase_def map_of_erase)
  show "umap_ok m \<Longrightarrow> (k, v) \<in> set (umap_iterate rank m) \<longleftrightarrow> umap_find m k = Some v"
    by (simp add: umap_ok_def umap_iterate_def umap_find_def)
  show "umap_ok m \<Longrightarrow> distinct (map fst (umap_iterate rank m))"
    by (simp add: umap_ok_def umap_iterate_def distinct_map inj_on_def)
qed

lemmas umap_look = umap.look_emp umap.look_ins umap.look_asg umap.look_era
lemmas umap_okI = umap.ok_emp umap.ok_ins umap.ok_asg umap.ok_era

declare umap_look [simp] umap_okI [simp, intro]

text \<open>Iteration is a permutation of the entries, so it visits as many as the map holds.\<close>

lemma umap_iterate_singleton [simp]: "umap_iterate rank [e] = [e]"
  by (simp add: umap_iterate_def)

lemma umap_iterate_Nil [simp]: "umap_iterate rank [] = []"
  by (simp add: umap_iterate_def)

lemma umap_iterate_set [simp]: "set (umap_iterate rank m) = set m"
  by (simp add: umap_iterate_def)

end
