(* ===== verification/UriMapper.thy ===== *)
theory UriMapper
  imports Strings Regex UnorderedMap
begin

text \<open>
  \<^verbatim>\<open>lightning/uriMapper/UriMapper.hpp\<close> and \<^verbatim>\<open>UriMapper.cpp\<close>: registered uris are turned into regular
  expressions and kept in an \<open>unordered_map\<close> from the text of the expression to the compiled
  expression and the resolver. A resolver is an opaque value here.
\<close>

record 'r uri_mapper =
  uri_resolvers :: "(string, rx \<times> 'r) umap"

definition UriMapper_new :: "'r uri_mapper" where
  "UriMapper_new = \<lparr>uri_resolvers = umap_empty\<rparr>"

section \<open>Operations\<close>

definition containsWildcard :: "string \<Rightarrow> nat option" where
  "containsWildcard uri =
     (case str_find uri ''*'' 0 of
        None \<Rightarrow> None
      | Some wildcardIndex \<Rightarrow>
          let charBefore = (if wildcardIndex > 0 then uri ! (wildcardIndex - 1) else NUL)
          in if charBefore = CHR ''/'' then Some wildcardIndex else None)"

definition exactMatchTemplate :: string where
  "exactMatchTemplate = ''^{}$''"

definition createExactMatch :: "string \<Rightarrow> string outcome" where
  "createExactMatch uri =
     (let literal = sanitizeForRegex uri
      in case format exactMatchTemplate [literal] of
           None \<Rightarrow> Diverges
         | Some formatted \<Rightarrow>
             let result = (case formatted of None \<Rightarrow> [] | Some r \<Rightarrow> r)
             in if length result = 0
                then Throws (RuntimeError ''Error while formatting the template'')
                else Returns result)"

definition wildcardRegex :: string where
  "wildcardRegex = CHR ''('' # backslash # ''/.*|$)''"

definition separator :: string where
  "separator = backslash # ''/*''"

definition createWithWildcard :: "string \<Rightarrow> string outcome" where
  "createWithWildcard uri =
     (let cleanUri = sanitizeExceptWildcardForRegex uri
      in case formatEx cleanUri separator [wildcardRegex] of
           None \<Rightarrow> Diverges
         | Some formatted \<Rightarrow> Returns (case formatted of None \<Rightarrow> uri | Some r \<Rightarrow> r))"

definition uri_pattern :: "string \<Rightarrow> string outcome" where
  "uri_pattern uri =
     (if containsWildcard uri = None then createExactMatch uri else createWithWildcard uri)"

definition UriMapper_add :: "string \<Rightarrow> 'r \<Rightarrow> 'r uri_mapper \<Rightarrow> ('r uri_mapper \<times> 'r) outcome" where
  "UriMapper_add uri resolver m =
     and_then (uri_pattern uri) (\<lambda>regexStr.
     and_then (compile regexStr) (\<lambda>compiled.
       Returns (m\<lparr>uri_resolvers := umap_assign regexStr (compiled, resolver) (uri_resolvers m)\<rparr>,
                resolver)))"

text \<open>\<open>match\<close> hands \<open>uri.data()\<close> to the matcher: a C string, so only the part before a NUL counts.\<close>

definition rx_accepts :: "rx \<Rightarrow> string \<Rightarrow> bool" where
  "rx_accepts rgx uri \<longleftrightarrow> regex_match rgx (cstr uri) \<noteq> None"

definition UriMapper_match ::
    "string bucket_rank \<Rightarrow> 'r uri_mapper \<Rightarrow> string \<Rightarrow> ('r \<times> string) option" where
  "UriMapper_match rank m uri =
     (case List.find (\<lambda>(regexStr, rgx, resolver). rx_accepts rgx uri)
             (umap_iterate rank (uri_resolvers m)) of
        None \<Rightarrow> None
      | Some (regexStr, rgx, resolver) \<Rightarrow> Some (resolver, regexStr))"

section \<open>Invariant\<close>

text \<open>Every key is the text of the expression compiled under it, and no key occurs twice.\<close>

definition mapper_ok :: "'r uri_mapper \<Rightarrow> bool" where
  "mapper_ok m \<longleftrightarrow> umap_ok (uri_resolvers m) \<and>
     (\<forall>p rgx r. umap_find (uri_resolvers m) p = Some (rgx, r) \<longrightarrow> compile p = Returns rgx)"

lemma mapper_ok_new [simp]: "mapper_ok UriMapper_new"
  by (simp add: mapper_ok_def UriMapper_new_def)

lemma UriMapper_add_Returns:
  "UriMapper_add uri resolver m = Returns (m', r') \<longleftrightarrow>
     (\<exists>p rgx. uri_pattern uri = Returns p \<and> compile p = Returns rgx \<and> r' = resolver \<and>
        m' = m\<lparr>uri_resolvers := umap_assign p (rgx, resolver) (uri_resolvers m)\<rparr>)"
  by (auto simp: UriMapper_add_def and_then_Returns_iff)

lemma mapper_ok_add: "mapper_ok m \<Longrightarrow> UriMapper_add uri r m = Returns (m', r') \<Longrightarrow> mapper_ok m'"
  by (auto simp: mapper_ok_def UriMapper_add_Returns split: if_splits)

section \<open>Searching\<close>

lemma UriMapper_match_Some:
  assumes "mapper_ok m" "UriMapper_match rank m uri = Some (r, p)"
  shows "\<exists>rgx. umap_find (uri_resolvers m) p = Some (rgx, r) \<and> rx_accepts rgx uri"
  using assms
  by (auto simp: UriMapper_match_def mapper_ok_def dest: umap.search_some split: option.splits)

lemma UriMapper_match_None:
  assumes "mapper_ok m"
  shows "UriMapper_match rank m uri = None \<longleftrightarrow>
    (\<forall>p rgx r. umap_find (uri_resolvers m) p = Some (rgx, r) \<longrightarrow> \<not> rx_accepts rgx uri)"
proof -
  have "UriMapper_match rank m uri = None \<longleftrightarrow>
      List.find (\<lambda>(regexStr, rgx, resolver). rx_accepts rgx uri)
        (umap_iterate rank (uri_resolvers m)) = None"
    by (auto simp: UriMapper_match_def split: option.splits)
  also have "\<dots> \<longleftrightarrow> (\<forall>p v. umap_find (uri_resolvers m) p = Some v \<longrightarrow> \<not> rx_accepts (fst v) uri)"
    using assms by (subst umap.search_none) (auto simp: mapper_ok_def case_prod_beta)
  finally show ?thesis by auto
qed

lemma UriMapper_match_unique:
  assumes "mapper_ok m" "umap_find (uri_resolvers m) p = Some (rgx, r)" "rx_accepts rgx uri"
    and "\<And>q rgx' r'. umap_find (uri_resolvers m) q = Some (rgx', r') \<Longrightarrow> rx_accepts rgx' uri \<Longrightarrow> q = p"
  shows "UriMapper_match rank m uri = Some (r, p)"
proof -
  have "List.find (\<lambda>(regexStr, rgx, resolver). rx_accepts rgx uri)
      (umap_iterate rank (uri_resolvers m)) = Some (p, rgx, r)"
  proof (rule umap.search_unique)
    show "umap_ok (uri_resolvers m)" using assms(1) by (simp add: mapper_ok_def)
    show "umap_find (uri_resolvers m) p = Some (rgx, r)" by (rule assms(2))
    show "case (p, rgx, r) of (regexStr, rgx, resolver) \<Rightarrow> rx_accepts rgx uri"
      using assms(3) by simp
  next
    fix q v
    assume "umap_find (uri_resolvers m) q = Some v"
      "case (q, v) of (regexStr, rgx, resolver) \<Rightarrow> rx_accepts rgx uri"
    then show "q = p" using assms(4) [of q "fst v" "snd v"] by (simp add: case_prod_beta)
  qed
  then show ?thesis by (simp add: UriMapper_match_def)
qed

section \<open>Exact patterns\<close>

text \<open>
  Characters that keep their literal meaning in a registered uri: all but the regex operators that
  \<open>sanitizeForRegex\<close> does not escape.
\<close>

definition unescaped_meta :: "char set" where
  "unescaped_meta = {CHR 0x5C, CHR ''('', CHR '')'', CHR ''|'', CHR ''+'', CHR ''.'', CHR ''^'',
     CHR ''$'', CHR ''{''}"

definition plain_uri :: "string \<Rightarrow> bool" where
  "plain_uri uri \<longleftrightarrow> set uri \<inter> unescaped_meta = {}"

lemma scan_escape:
  assumes "S = special_chars \<or> (S = special_chars_but_wildcard \<and> CHR ''*'' \<notin> set u)"
  shows "plain_uri u \<Longrightarrow>
    scan (escape S u @ rest) = and_then (scan rest) (\<lambda>ts. Returns (map TChr u @ ts))"
  using assms
proof (induction u)
  case Nil
  then show ?case by (cases "scan rest") simp_all
next
  case (Cons c u)
  then have IH: "scan (escape S u @ rest) = and_then (scan rest) (\<lambda>ts. Returns (map TChr u @ ts))"
    by (auto simp: plain_uri_def)
  show ?case
  proof (cases "c \<in> S")
    case True
    with Cons.prems(2) have "\<not> is_alnum c"
      by (auto simp: special_chars_def special_chars_but_wildcard_def is_alnum_def is_digit_def)
    with True IH show ?thesis
      by (cases "scan rest") (simp_all add: backslash_def scan_escaped)
  next
    case False
    with Cons.prems have "c \<notin> meta_chars"
      by (auto simp: plain_uri_def unescaped_meta_def meta_chars_def special_chars_def
          special_chars_but_wildcard_def)
    with False IH show ?thesis
      by (cases "scan rest") (simp_all add: scan_ordinary)
  qed
qed

lemma set_escape: "set (escape S u) \<subseteq> insert backslash (set u)"
  by (induction S u rule: escape.induct) auto

lemma createExactMatch_plain:
  assumes "CHR ''{'' \<notin> set uri"
  shows "createExactMatch uri = Returns (''^'' @ escape special_chars uri @ ''$'')"
proof -
  let ?lit = "escape special_chars uri"
  from assms set_escape [of special_chars uri] have lit: "CHR ''{'' \<notin> set ?lit"
    by (auto simp: backslash_def)
  have token: "find_str ''{}'' (u @ ''{}'' @ v) = Some (length u)" if "CHR ''{'' \<notin> set u" for u v
    using that by (simp add: find_str_first del: append_Cons)
  have pass: "format_pass ''^{}$'' ''{}'' 0 [] [?lit] = Some (''^'' @ ?lit @ ''$'')"
    using token [of "''^''" "''$''"] by (simp add: format_pass_one del: format_pass.simps)
  have "\<not> occurs ''{}'' (''^'' @ ?lit @ ''$'')"
    using lit by (simp add: occurs_def find_str_absent)
  then have "formatEx (''^'' @ ?lit @ ''$'') ''{}'' [?lit] = Some None"
    by (rule formatEx_one_absent)
  with pass have "formatEx ''^{}$'' ''{}'' [?lit] = Some (Some (''^'' @ ?lit @ ''$''))"
    by (subst formatEx.simps) simp
  then show ?thesis
    by (simp add: createExactMatch_def format_def exactMatchTemplate_def defaultSepratorToken_def
        sanitizeForRegex_def)
qed

definition exact_rx :: "string \<Rightarrow> rx" where
  "exact_rx uri = cat_all ([Bol] @ map Chr uri @ [Eol])"

lemma compile_exact:
  assumes "plain_uri uri"
  shows "compile (''^'' @ escape special_chars uri @ ''$'') = Returns (exact_rx uri)"
proof -
  have "scan (CHR ''^'' # r) = and_then (scan r) (\<lambda>ts. Returns (TBol # ts))" for r
    by (cases r) (simp_all add: scan_char_def)
  moreover have "scan ''$'' = Returns [TEol]" by (simp add: scan_char_def)
  ultimately have "scan (''^'' @ escape special_chars uri @ ''$'') =
      Returns (TBol # map TChr uri @ [TEol])"
    using scan_escape [OF disjI1 [OF refl] assms, of "''$''"] by simp
  then show ?thesis
    by (simp add: compile_def parse_chars push_chars_def push_term_def close_frame_def
        close_alt_def exact_rx_def rev_map comp_def)
qed

lemma exact_rx_match: "regex_match (exact_rx uri) s = (if s = uri then Some [] else None)"
proof -
  have "mt (exact_rx uri) s 0 [] =
      (if prefix uri s \<and> length uri = length s then [(length s, [])] else [])"
    using mt_chars [of 0 s uri "[Eol]" "[]"] by (auto simp: exact_rx_def)
  moreover have "prefix uri s \<and> length uri = length s \<longleftrightarrow> s = uri"
    by (auto simp: prefix_def)
  ultimately show ?thesis by (simp add: regex_match_def)
qed

section \<open>Wildcard patterns\<close>

text \<open>A registered uri with wildcards: a literal, then any number of \<^verbatim>\<open>/*\<close> each followed by a literal.\<close>

definition wild_uri :: "string \<Rightarrow> string list \<Rightarrow> string" where
  "wild_uri p0 ps = p0 @ concat (map (\<lambda>p. ''/*'' @ p) ps)"

definition wild_literal :: "string \<Rightarrow> bool" where
  "wild_literal p \<longleftrightarrow> plain_uri p \<and> CHR ''*'' \<notin> set p"

text \<open>
  The paths it stands for: a \<^verbatim>\<open>/*\<close> covers a slash and any run of characters other than line
  terminators, or nothing at all at the end of the path.
\<close>

fun wild_tail :: "string list \<Rightarrow> string \<Rightarrow> bool" where
  "wild_tail [] s \<longleftrightarrow> s = []"
| "wild_tail (p # ps) s \<longleftrightarrow>
     (case s of
        [] \<Rightarrow> p = [] \<and> wild_tail ps []
      | c # t \<Rightarrow> c = CHR ''/'' \<and>
          (\<exists>k \<in> set [0..<Suc (length t)].
             list_all (\<lambda>x. \<not> line_terminator x) (take k t) \<and> prefix p (drop k t) \<and>
             wild_tail ps (drop (k + length p) t)))"

fun wild_terms :: "nat \<Rightarrow> string list \<Rightarrow> rx list" where
  "wild_terms n [] = []"
| "wild_terms n (p # ps) = Group n any_suffix # map Chr p @ wild_terms (Suc n) ps"

definition wild_rx :: "string \<Rightarrow> string list \<Rightarrow> rx" where
  "wild_rx p0 ps = cat_all (map Chr p0 @ wild_terms 1 ps)"

definition wild_pattern :: "string \<Rightarrow> string list \<Rightarrow> string" where
  "wild_pattern p0 ps =
     escape special_chars_but_wildcard p0
     @ concat (map (\<lambda>p. wildcardRegex @ escape special_chars_but_wildcard p) ps)"

lemma containsWildcard_wild:
  assumes "CHR ''*'' \<notin> set p0"
  shows "containsWildcard (wild_uri p0 (p # ps)) = Some (Suc (length p0))"
proof -
  have "find_str ''*'' ((p0 @ ''/'') @ ''*'' @ p @ concat (map (\<lambda>p. ''/*'' @ p) ps)) =
      Some (length (p0 @ ''/''))"
    using assms by (intro find_str_first) auto
  then show ?thesis
    by (simp add: containsWildcard_def wild_uri_def str_find_def nth_append)
qed

lemma escape_append: "escape S (u @ v) = escape S u @ escape S v"
  by (induction u) simp_all

lemma escape_wild_uri:
  "sanitizeExceptWildcardForRegex (wild_uri p0 ps) =
     escape special_chars_but_wildcard p0
     @ concat (map (\<lambda>p. separator @ escape special_chars_but_wildcard p) ps)"
  by (induction ps arbitrary: p0)
    (simp_all add: sanitizeExceptWildcardForRegex_def wild_uri_def escape_append separator_def
      special_chars_but_wildcard_def)

lemma star_notin_escape: "CHR ''*'' \<notin> set p \<Longrightarrow> CHR ''*'' \<notin> set (escape S p)"
  using set_escape [of S p] by (auto simp: backslash_def)

lemma find_separator:
  assumes "CHR ''*'' \<notin> set u"
  shows "find_str separator u = None"
    and "find_str separator (u @ separator @ v) = Some (length u)"
proof -
  have "\<not> prefix separator (drop j (u @ w))" if j: "j < length u" and w: "w = [] \<or> w = separator @ v"
    for j w
  proof
    assume "prefix separator (drop j (u @ w))"
    then obtain r where r: "drop j (u @ w) = [backslash, CHR ''/'', CHR ''*''] @ r"
      by (auto simp: prefix_def separator_def)
    have len: "j + 2 < length (u @ w)" using arg_cong [OF r, of length] by simp
    then have star: "(u @ w) ! (j + 2) = CHR ''*''"
      using arg_cong [OF r, of "\<lambda>t. t ! 2"] nth_drop [of j "u @ w" 2] by simp
    show False
    proof (cases "j + 2 < length u")
      case True
      with star assms show False by (auto simp: nth_append in_set_conv_nth)
    next
      case False
      with j have "j + 2 - length u = 0 \<or> j + 2 - length u = 1" by arith
      with False star len w show False
        by (auto simp: nth_append separator_def backslash_def)
    qed
  qed
  from find_str_skip [of u separator, OF this]
  have skip: "find_str separator (u @ w) = map_option (\<lambda>i. length u + i) (find_str separator w)"
    if "w = [] \<or> w = separator @ v" for w
    using that by blast
  show "find_str separator u = None"
    using skip [of "[]"] by (simp add: separator_def)
  show "find_str separator (u @ separator @ v) = Some (length u)"
    using skip [of "separator @ v"] by (simp add: find_str_prefix)
qed

lemma replace_all_wild:
  assumes "CHR ''*'' \<notin> set p0" "\<forall>p \<in> set ps. CHR ''*'' \<notin> set p"
  shows "replace_all separator rep (p0 @ concat (map (\<lambda>p. separator @ p) ps)) =
    p0 @ concat (map (\<lambda>p. rep @ p) ps)"
  using assms
proof (induction ps arbitrary: p0)
  case Nil
  then show ?case by (subst replace_all.simps) (simp add: find_separator)
next
  case (Cons p ps)
  have "separator \<noteq> []" by (simp add: separator_def)
  with Cons show ?case by (subst replace_all.simps) (simp add: find_separator)
qed

lemma isolated_wildcard: "isolated wildcardRegex separator"
  by (simp add: isolated_def wildcardRegex_def separator_def backslash_def occurs_def)

lemma createWithWildcard_wild:
  assumes "CHR ''*'' \<notin> set p0" "\<forall>p \<in> set ps. CHR ''*'' \<notin> set p" "ps \<noteq> []"
  shows "createWithWildcard (wild_uri p0 ps) = Returns (wild_pattern p0 ps)"
proof -
  let ?esc = "escape special_chars_but_wildcard"
  let ?clean = "?esc p0 @ concat (map (\<lambda>p. separator @ p) (map ?esc ps))"
  from assms(3) have "occurs separator ?clean"
    by (cases ps) (auto simp: occurs_iff)
  then have "formatEx ?clean separator [wildcardRegex] =
      Some (Some (replace_all separator wildcardRegex ?clean))"
    by (rule formatEx_replace_all [OF isolated_wildcard])
  also have "replace_all separator wildcardRegex ?clean = wild_pattern p0 ps"
    using assms by (subst replace_all_wild) (auto simp: star_notin_escape wild_pattern_def comp_def)
  finally show ?thesis
    by (simp add: createWithWildcard_def escape_wild_uri comp_def)
qed

definition wild_tokens :: "token list" where
  "wild_tokens = [TOpen, TChr (CHR ''/''), TAny, TQuant 0 None, TBar, TEol, TClose]"

lemma scan_wildcardRegex:
  "scan (wildcardRegex @ rest) = and_then (scan rest) (\<lambda>ts. Returns (wild_tokens @ ts))"
proof -
  have "scan (CHR '')'' # rest) = and_then (scan rest) (\<lambda>ts. Returns (TClose # ts))"
    by (cases rest) (simp_all add: scan_char_def)
  then show ?thesis
    by (cases "scan rest")
      (simp_all add: wildcardRegex_def backslash_def scan_char_def is_alnum_def is_digit_def
        wild_tokens_def)
qed

lemma scan_wild_tail:
  assumes "\<forall>p \<in> set ps. wild_literal p"
  shows "scan (concat (map (\<lambda>p. wildcardRegex @ escape special_chars_but_wildcard p) ps)) =
    Returns (concat (map (\<lambda>p. wild_tokens @ map TChr p) ps))"
  using assms
  by (induction ps)
    (simp_all add: scan_wildcardRegex scan_escape wild_literal_def)

definition push_rxs :: "rx list \<Rightarrow> frame \<Rightarrow> frame" where
  "push_rxs rs fr = fr\<lparr>terms := rev (map (\<lambda>r. (True, r)) rs) @ terms fr\<rparr>"

lemma push_chars_rxs: "push_chars u fr = push_rxs (map Chr u) fr"
  by (simp add: push_chars_def push_rxs_def comp_def)

lemma push_rxs_append: "push_rxs rs (push_rxs qs fr) = push_rxs (qs @ rs) fr"
  by (simp add: push_rxs_def)

lemma parse_wild_tokens:
  "parse (wild_tokens @ ts) n cur outer = parse ts (Suc n) (push_rxs [Group n any_suffix] cur) outer"
  by (simp add: wild_tokens_def push_term_def push_rxs_def quantify_def close_frame_def
      close_alt_def any_suffix_def)

lemma parse_wild_tail:
  "parse (concat (map (\<lambda>p. wild_tokens @ map TChr p) ps)) n cur [] =
     Returns (close_frame (push_rxs (wild_terms n ps) cur))"
proof (induction ps arbitrary: n cur)
  case Nil
  then show ?case by (simp add: push_rxs_def)
next
  case (Cons p ps)
  then show ?case
    by (simp add: parse_wild_tokens parse_chars push_chars_rxs push_rxs_append)
qed

lemma compile_wild:
  assumes "wild_literal p0" "\<forall>p \<in> set ps. wild_literal p"
  shows "compile (wild_pattern p0 ps) = Returns (wild_rx p0 ps)"
proof -
  from assms have "scan (wild_pattern p0 ps) =
      Returns (map TChr p0 @ concat (map (\<lambda>p. wild_tokens @ map TChr p) ps))"
    by (simp add: wild_pattern_def scan_escape wild_literal_def scan_wild_tail)
  then show ?thesis
    by (simp add: compile_def parse_chars parse_wild_tail push_chars_rxs push_rxs_append)
      (simp add: push_rxs_def close_frame_def close_alt_def wild_rx_def rev_map comp_def)
qed

lemma takeWhile_long:
  "k \<le> length (takeWhile P xs) \<longleftrightarrow> k \<le> length xs \<and> list_all P (take k xs)"
proof (induction xs arbitrary: k)
  case (Cons x xs)
  then show ?case by (cases k) auto
qed simp

lemma ex_shift: "(\<exists>j::nat. a \<le> j \<and> j \<le> a + m \<and> Q j) \<longleftrightarrow> (\<exists>k. k \<le> m \<and> Q (a + k))"
proof
  assume "\<exists>j. a \<le> j \<and> j \<le> a + m \<and> Q j"
  then obtain j where "a \<le> j" "j \<le> a + m" "Q j" by blast
  then have "j - a \<le> m \<and> Q (a + (j - a))" by simp
  then show "\<exists>k. k \<le> m \<and> Q (a + k)" ..
qed (auto intro: exI [of _ "a + _"])

text \<open>From position \<open>i\<close>, the rest of a wildcard pattern reaches the end exactly on \<open>wild_tail\<close>.\<close>

lemma mt_wild_terms:
  "i \<le> length s \<Longrightarrow>
   (\<exists>d. (length s, d) \<in> set (mt (cat_all (wild_terms n ps)) s i c)) \<longleftrightarrow> wild_tail ps (drop i s)"
proof (induction ps arbitrary: i n c)
  case Nil
  then show ?case by auto
next
  case (Cons p ps)
  let ?rest = "cat_all (map Chr p @ wild_terms (Suc n) ps)"
  have rest: "(\<exists>d. (length s, d) \<in> set (mt ?rest s j c')) \<longleftrightarrow>
      prefix p (drop j s) \<and> wild_tail ps (drop (j + length p) s)" if "j \<le> length s" for j c'
  proof (cases "prefix p (drop j s)")
    case True
    then have "j + length p \<le> length s" using prefix_length_le that by fastforce
    with True that Cons.IH show ?thesis by (simp add: mt_chars)
  next
    case False
    with that show ?thesis by (simp add: mt_chars)
  qed
  have split: "(\<exists>d. (length s, d) \<in> set (mt (cat_all (wild_terms n (p # ps))) s i c)) \<longleftrightarrow>
      (\<exists>j e. (j, e) \<in> set (mt (Group n any_suffix) s i c) \<and>
         (\<exists>d. (length s, d) \<in> set (mt ?rest s j e)))"
    unfolding wild_terms.simps cat_all.simps append_Cons mt.simps(6)
    by (force simp del: mt.simps)
  show ?case
  proof (cases "i = length s")
    case True
    then show ?thesis
      unfolding split using rest [of i] by (auto simp: mt_any_suffix simp del: mt.simps)
  next
    case False
    with Cons.prems obtain t where i: "i < length s" and t: "drop i s = s ! i # t"
      and t': "t = drop (Suc i) s"
      by (metis Cons_nth_drop_Suc le_neq_implies_less)
    have hit: "(\<exists>d. (length s, d) \<in> set (mt ?rest s (Suc i + k) e)) \<longleftrightarrow>
        prefix p (drop k t) \<and> wild_tail ps (drop (k + length p) t)" if "k \<le> length t" for k e
      using rest [of "Suc i + k"] that i t' by (simp add: add.commute add.left_commute)
    have run: "run_end s (Suc i) = Suc i + length (takeWhile (\<lambda>x. \<not> line_terminator x) t)"
      by (simp add: run_end_def t')
    have "(\<exists>j e. (j, e) \<in> set (mt (Group n any_suffix) s i c) \<and>
         (\<exists>d. (length s, d) \<in> set (mt ?rest s j e))) \<longleftrightarrow>
      s ! i = CHR ''/'' \<and> (\<exists>j. Suc i \<le> j \<and> j \<le> run_end s (Suc i) \<and>
         (\<exists>d. (length s, d) \<in> set (mt ?rest s j ((n, i, j) # c))))"
    proof -
      have mem: "(j, e) \<in> set (mt (Group n any_suffix) s i c) \<longleftrightarrow>
          s ! i = CHR ''/'' \<and> Suc i \<le> j \<and> j \<le> run_end s (Suc i) \<and> e = (n, i, j) # c" for j e
        using i by (auto simp: mt_any_suffix simp del: mt.simps upt_Suc)
      show ?thesis unfolding mem by (simp del: mt.simps add: conj_assoc) 
    qed
    also have "\<dots> \<longleftrightarrow> s ! i = CHR ''/'' \<and>
      (\<exists>k. k \<le> length (takeWhile (\<lambda>x. \<not> line_terminator x) t) \<and>
         (\<exists>d. (length s, d) \<in> set (mt ?rest s (Suc i + k) ((n, i, Suc i + k) # c))))"
      unfolding run ex_shift ..
    also have "\<dots> \<longleftrightarrow> s ! i = CHR ''/'' \<and>
      (\<exists>k. k \<le> length (takeWhile (\<lambda>x. \<not> line_terminator x) t) \<and>
         prefix p (drop k t) \<and> wild_tail ps (drop (k + length p) t))"
      by (intro arg_cong2 [where f = conj] refl iff_exI conj_cong hit) (simp add: takeWhile_long)
    also have "\<dots> \<longleftrightarrow> wild_tail (p # ps) (drop i s)"
      by (auto simp: t takeWhile_long less_Suc_eq_le simp del: upt_Suc)
    finally show ?thesis unfolding split .
  qed
qed

lemma wild_rx_accepts:
  "rx_accepts (wild_rx p0 ps) uri \<longleftrightarrow>
     prefix p0 (cstr uri) \<and> wild_tail ps (drop (length p0) (cstr uri))"
proof (cases "prefix p0 (cstr uri)")
  case True
  then have "length p0 \<le> length (cstr uri)" by (rule prefix_length_le)
  with True mt_wild_terms [of "length p0" "cstr uri" 1 ps "[]"] show ?thesis
    by (simp add: rx_accepts_def regex_match_None wild_rx_def mt_chars)
next
  case False
  then show ?thesis by (simp add: rx_accepts_def regex_match_None wild_rx_def mt_chars)
qed

lemma exact_rx_accepts: "rx_accepts (exact_rx uri) s \<longleftrightarrow> cstr s = uri"
  by (simp add: rx_accepts_def exact_rx_match)

section \<open>Properties\<close>

text \<open>No entry of \<open>m\<close> under another pattern than \<open>p\<close> accepts \<open>s\<close>.\<close>

definition others_reject :: "'r uri_mapper \<Rightarrow> string \<Rightarrow> string \<Rightarrow> bool" where
  "others_reject m p s \<longleftrightarrow>
     list_all (\<lambda>(q, rgx, r). q = p \<or> \<not> rx_accepts rgx s) (uri_resolvers m)"

lemma others_reject_find:
  "others_reject m p s \<Longrightarrow> umap_find (uri_resolvers m) q = Some (rgx, r) \<Longrightarrow> q \<noteq> p \<Longrightarrow>
     \<not> rx_accepts rgx s"
  by (force simp: others_reject_def umap_find_def list_all_iff dest: map_of_SomeD)

lemma add_pattern:
  assumes "mapper_ok m" "uri_pattern uri = Returns p" "compile p = Returns rgx"
    and "others_reject m p s"
  shows "\<exists>m'. UriMapper_add uri r m = Returns (m', r) \<and> mapper_ok m' \<and>
    UriMapper_match rank m' s = (if rx_accepts rgx s then Some (r, p) else None)"
proof -
  let ?m = "m\<lparr>uri_resolvers := umap_assign p (rgx, r) (uri_resolvers m)\<rparr>"
  have add: "UriMapper_add uri r m = Returns (?m, r)"
    using assms(2,3) by (simp add: UriMapper_add_Returns)
  then have ok: "mapper_ok ?m" by (rule mapper_ok_add [OF assms(1)])
  have "UriMapper_match rank ?m s = (if rx_accepts rgx s then Some (r, p) else None)"
  proof (cases "rx_accepts rgx s")
    case True
    have "UriMapper_match rank ?m s = Some (r, p)"
    proof (rule UriMapper_match_unique [OF ok, of p rgx])
      fix q rgx' r'
      assume "umap_find (uri_resolvers ?m) q = Some (rgx', r')" "rx_accepts rgx' s"
      with others_reject_find [OF assms(4)] show "q = p" by (auto split: if_splits)
    qed (use True in simp_all)
    with True show ?thesis by simp
  next
    case False
    with others_reject_find [OF assms(4)] have "UriMapper_match rank ?m s = None"
      by (auto simp: UriMapper_match_None [OF ok] split: if_splits)
    with False show ?thesis by simp
  qed
  with add ok show ?thesis by blast
qed

lemma uri_pattern_exact:
  "plain_uri uri \<Longrightarrow> containsWildcard uri = None \<Longrightarrow>
     uri_pattern uri = Returns (''^'' @ escape special_chars uri @ ''$'')"
  by (auto simp: uri_pattern_def plain_uri_def unescaped_meta_def intro!: createExactMatch_plain
      [simplified])

lemma uri_pattern_wild:
  assumes "wild_literal p0" "\<forall>q \<in> set ps. wild_literal q" "ps \<noteq> []"
  shows "uri_pattern (wild_uri p0 ps) = Returns (wild_pattern p0 ps)"
proof -
  from assms obtain q qs where "ps = q # qs" by (cases ps) auto
  with assms show ?thesis
    by (simp add: uri_pattern_def containsWildcard_wild createWithWildcard_wild wild_literal_def)
qed

text \<open>
  C5: An exact route matches exactly its own uri. Registering a uri without a wildcard and without
  the regex operators that are left unescaped succeeds, keeps the mapper well formed, and a request
  path that no other entry accepts is then resolved to this resolver if and only if the path (up to
  its first NUL) is the registered uri.
\<close>

theorem exact_route:
  assumes "mapper_ok m" "plain_uri uri" "containsWildcard uri = None"
    and "others_reject m (''^'' @ escape special_chars uri @ ''$'') s"
  shows "\<exists>m'. UriMapper_add uri r m = Returns (m', r) \<and> mapper_ok m' \<and>
    UriMapper_match rank m' s =
      (if cstr s = uri then Some (r, ''^'' @ escape special_chars uri @ ''$'') else None)"
  using add_pattern [OF assms(1) uri_pattern_exact [OF assms(2,3)] compile_exact [OF assms(2)] assms(4)]
  by (simp only: exact_rx_accepts)

theorem exact_route_witness:
  "\<exists>m'. UriMapper_add ''/a?b'' (7 :: nat) UriMapper_new = Returns (m', 7) \<and> mapper_ok m' \<and>
    UriMapper_match (\<lambda>_ _. 0) m' ''/a?b'' =
      Some (7, ''^'' @ escape special_chars ''/a?b'' @ ''$'')"
  using exact_route [OF mapper_ok_new, of "''/a?b''" "''/a?b''" "7 :: nat" "\<lambda>_ _. 0"]
  by (simp add: plain_uri_def unescaped_meta_def containsWildcard_def str_find_def
      others_reject_def UriMapper_new_def umap_empty_def cstr_def)

text \<open>
  C6: A wildcard route matches exactly the paths its wildcards stand for. For a uri made of a
  literal and any number of \<^verbatim>\<open>/*\<close>, each followed by a literal, a path that no other entry accepts is
  resolved to this resolver if and only if it starts with the first literal and the rest is
  covered segment by segment: every \<^verbatim>\<open>/*\<close> takes a slash and any text without line breaks, or
  nothing at the very end.
\<close>

theorem wildcard_route:
  assumes "mapper_ok m" "wild_literal p0" "\<forall>q \<in> set ps. wild_literal q" "ps \<noteq> []"
    and "others_reject m (wild_pattern p0 ps) s"
  shows "\<exists>m'. UriMapper_add (wild_uri p0 ps) r m = Returns (m', r) \<and> mapper_ok m' \<and>
    UriMapper_match rank m' s =
      (if prefix p0 (cstr s) \<and> wild_tail ps (drop (length p0) (cstr s))
       then Some (r, wild_pattern p0 ps) else None)"
  using add_pattern [OF assms(1) uri_pattern_wild [OF assms(2-4)] compile_wild [OF assms(2,3)] assms(5)]
  by (simp only: wild_rx_accepts)

theorem wildcard_route_witness:
  "\<exists>m'. UriMapper_add ''/t/*/h'' (7 :: nat) UriMapper_new = Returns (m', 7) \<and> mapper_ok m' \<and>
    UriMapper_match (\<lambda>_ _. 0) m' ''/t/a/h'' = Some (7, wild_pattern ''/t'' [''/h''])"
proof -
  have lit: "wild_literal ''/t''" "wild_literal ''/h''"
    by (simp_all add: wild_literal_def plain_uri_def unescaped_meta_def)
  have path: "prefix ''/t'' (cstr ''/t/a/h'') \<and>
      wild_tail [''/h''] (drop (length ''/t'') (cstr ''/t/a/h''))"
    by (simp add: cstr_def line_terminator_def atLeast0LessThan lessThan_Suc)
  have "others_reject UriMapper_new (wild_pattern ''/t'' [''/h'']) ''/t/a/h''"
    by (simp add: others_reject_def UriMapper_new_def umap_empty_def)
  from wildcard_route [OF mapper_ok_new lit(1) _ _ this, of "7 :: nat" "\<lambda>_ _. 0"] lit(2)
  show ?thesis unfolding if_P [OF path] by (simp add: wild_uri_def)
qed

text \<open>
  C27: The search is sound and complete for every iteration order of the hash table: a result is a
  registered resolver under the text of an expression that compiles and accepts the path; no
  result means that no registered expression accepts it; and when exactly one registered
  expression accepts the path, the result is the same for all orders.
\<close>

theorem match_sound_complete:
  assumes "mapper_ok m"
  shows "(case UriMapper_match rank m uri of
      None \<Rightarrow> (\<forall>p rgx r. umap_find (uri_resolvers m) p = Some (rgx, r) \<longrightarrow> \<not> rx_accepts rgx uri)
    | Some (r, p) \<Rightarrow> (\<exists>rgx. umap_find (uri_resolvers m) p = Some (rgx, r) \<and>
        compile p = Returns rgx \<and> rx_accepts rgx uri \<and>
        (others_reject m p uri \<longrightarrow> (\<forall>rank'. UriMapper_match rank' m uri = Some (r, p)))))"
proof (cases "UriMapper_match rank m uri")
  case None
  then have "\<forall>p rgx r. umap_find (uri_resolvers m) p = Some (rgx, r) \<longrightarrow> \<not> rx_accepts rgx uri"
    by (rule UriMapper_match_None [OF assms, THEN iffD1])
  with None show ?thesis by simp
next
  case (Some rp)
  obtain r p where rp: "rp = (r, p)" by force
  with Some UriMapper_match_Some [OF assms] obtain rgx
    where rgx: "umap_find (uri_resolvers m) p = Some (rgx, r)" "rx_accepts rgx uri" by blast
  moreover from assms rgx(1) have "compile p = Returns rgx" by (auto simp: mapper_ok_def)
  moreover have "UriMapper_match rank' m uri = Some (r, p)" if "others_reject m p uri" for rank'
    using UriMapper_match_unique [OF assms rgx] others_reject_find [OF that] by blast
  ultimately show ?thesis using Some rp by simp
qed

theorem match_sound_complete_witness:
  "mapper_ok \<lparr>uri_resolvers = [(''^x$'', exact_rx ''x'', 7 :: nat)]\<rparr> \<and>
   (\<forall>rank'. UriMapper_match rank' \<lparr>uri_resolvers = [(''^x$'', exact_rx ''x'', 7 :: nat)]\<rparr> ''x'' =
     Some (7, ''^x$''))"
proof -
  let ?m = "\<lparr>uri_resolvers = [(''^x$'', exact_rx ''x'', 7 :: nat)]\<rparr>"
  have "compile ''^x$'' = Returns (exact_rx ''x'')"
    using compile_exact [of "''x''"] by (simp add: plain_uri_def unescaped_meta_def special_chars_def)
  then have ok: "mapper_ok ?m"
    by (simp add: mapper_ok_def umap_ok_def umap_find_def)
  have "UriMapper_match (\<lambda>_ _. 0) ?m ''x'' = Some (7, ''^x$'')"
    by (simp add: UriMapper_match_def exact_rx_accepts cstr_def)
  with match_sound_complete [OF ok, where rank = "\<lambda>_ _. 0" and uri = "''x''"] ok show ?thesis
    by (simp add: others_reject_def) blast
qed

text \<open>
  Registration is insert-or-assign. Adding a uri never touches the entries under other
  patterns, puts the given resolver under the pattern of the uri, replacing an earlier one, and
  keeps every key paired with the compiled form of its own text.
\<close>

theorem add_assigns:
  assumes "mapper_ok m" "UriMapper_add uri r m = Returns (m', r')"
  shows "mapper_ok m' \<and> r' = r \<and> (\<exists>p rgx. uri_pattern uri = Returns p \<and> compile p = Returns rgx \<and>
    (\<forall>q. umap_find (uri_resolvers m') q =
       (if q = p then Some (rgx, r) else umap_find (uri_resolvers m) q)))"
  using assms mapper_ok_add [OF assms] by (auto simp: UriMapper_add_Returns)

theorem add_assigns_witness:
  "\<exists>m m' :: nat uri_mapper. UriMapper_add ''/a'' 1 UriMapper_new = Returns (m, 1) \<and>
     UriMapper_add ''/a'' 2 m = Returns (m', 2) \<and>
     map_option snd (umap_find (uri_resolvers m') (''^'' @ escape special_chars ''/a'' @ ''$'')) = Some 2"
proof -
  have plain: "plain_uri ''/a''" "containsWildcard ''/a'' = None"
    by (simp_all add: plain_uri_def unescaped_meta_def containsWildcard_def str_find_def)
  note pat = uri_pattern_exact [OF plain] and comp = compile_exact [OF plain(1)]
  obtain m m' :: "nat uri_mapper" where
    m: "UriMapper_add ''/a'' 1 UriMapper_new = Returns (m, 1)" and
    m': "UriMapper_add ''/a'' 2 m = Returns (m', 2)"
    using pat comp by (simp add: UriMapper_add_Returns)
  from mapper_ok_add [OF mapper_ok_new m] have "mapper_ok m" .
  from add_assigns [OF this m'] m m' pat comp show ?thesis by auto
qed

text \<open>
  C40: Registering a uri that contains \<^verbatim>\<open>{}\<close> and no wildcard never returns: the formatter keeps
  finding the token that the uri itself puts into its template.
\<close>

theorem braces_uri_never_returns:
  assumes "occurs ''{}'' uri" "containsWildcard uri = None"
  shows "UriMapper_add uri r m = Diverges"
proof -
  have keep: "occurs ''{}'' (escape S u)" if "occurs ''{}'' u" and S: "S = special_chars" for S u
  proof -
    from that obtain a b where "u = a @ ''{}'' @ b" by (auto simp: occurs_iff)
    then have "escape S u = escape S a @ ''{}'' @ escape S b"
      using S by (simp add: escape_append special_chars_def)
    then show ?thesis by (auto simp: occurs_iff)
  qed
  have "occurs ''{}'' exactMatchTemplate" by (simp add: occurs_def exactMatchTemplate_def)
  with keep [OF assms(1) refl] have "format exactMatchTemplate [sanitizeForRegex uri] = None"
    by (simp add: format_def defaultSepratorToken_def sanitizeForRegex_def formatEx_diverges)
  with assms(2) show ?thesis
    by (simp add: UriMapper_add_def uri_pattern_def createExactMatch_def)
qed

theorem braces_uri_never_returns_witness:
  "UriMapper_add ''/users/{}'' (1 :: nat) UriMapper_new = Diverges"
  by (rule braces_uri_never_returns)
    (simp_all add: occurs_def containsWildcard_def str_find_def)

text \<open>
  Two routes that overlap: after registering \<^verbatim>\<open>/*\<close> and then \<^verbatim>\<open>/test/*\<close>, the path
  \<^verbatim>\<open>/test/wildcard\<close> is resolved to the first or to the second of them depending on the iteration
  order of the hash table, not on the order of registration.
\<close>

theorem overlap_depends_on_hashing:
  "\<exists>m m' :: nat uri_mapper. UriMapper_add ''/*'' 1 UriMapper_new = Returns (m, 1) \<and>
     UriMapper_add ''/test/*'' 2 m = Returns (m', 2) \<and>
     (\<exists>rank. map_option fst (UriMapper_match rank m' ''/test/wildcard'') = Some 1) \<and>
     (\<exists>rank. map_option fst (UriMapper_match rank m' ''/test/wildcard'') = Some 2)"
proof -
  let ?p = "wild_pattern [] [[]]" and ?q = "wild_pattern ''/test'' [[]]"
  have lit: "wild_literal []" "wild_literal ''/test''"
    by (simp_all add: wild_literal_def plain_uri_def unescaped_meta_def)
  have pat: "uri_pattern ''/*'' = Returns ?p" "uri_pattern ''/test/*'' = Returns ?q"
    using uri_pattern_wild [OF lit(1), of "[[]]"] uri_pattern_wild [OF lit(2), of "[[]]"] lit(1)
    by (simp_all add: wild_uri_def)
  have rgx: "compile ?p = Returns (wild_rx [] [[]])" "compile ?q = Returns (wild_rx ''/test'' [[]])"
    using compile_wild lit by simp_all
  have both: "rx_accepts (wild_rx [] [[]]) ''/test/wildcard''"
      "rx_accepts (wild_rx ''/test'' [[]]) ''/test/wildcard''"
    by (simp_all add: wild_rx_accepts cstr_def line_terminator_def atLeast0LessThan lessThan_Suc)
  have neq: "?p \<noteq> ?q"
    by (simp add: wild_pattern_def wildcardRegex_def special_chars_but_wildcard_def backslash_def)
  let ?m = "\<lparr>uri_resolvers = [(?p, wild_rx [] [[]], 1)]\<rparr> :: nat uri_mapper"
  let ?m' = "\<lparr>uri_resolvers = [(?p, wild_rx [] [[]], 1), (?q, wild_rx ''/test'' [[]], 2)]\<rparr>
      :: nat uri_mapper"
  have "UriMapper_add ''/*'' 1 UriMapper_new = Returns (?m, 1)"
      "UriMapper_add ''/test/*'' 2 ?m = Returns (?m', 2)"
    using pat rgx neq
    by (simp_all add: UriMapper_add_Returns UriMapper_new_def umap_empty_def umap_assign_def)
  moreover have "map_option fst (UriMapper_match (\<lambda>_ k. if k = ?p then 0 else 1) ?m' ''/test/wildcard'') = Some 1"
    using both neq by (simp add: UriMapper_match_def umap_iterate_def)
  moreover have "map_option fst (UriMapper_match (\<lambda>_ k. if k = ?p then 1 else 0) ?m' ''/test/wildcard'') = Some 2"
    using both neq by (simp add: UriMapper_match_def umap_iterate_def)
  ultimately show ?thesis by blast
qed

section \<open>An operator that is not escaped\<close>

definition dot_rx :: "string \<Rightarrow> string \<Rightarrow> rx" where
  "dot_rx u v = cat_all ([Bol] @ map Chr u @ [AnyChr] @ map Chr v @ [Eol])"

lemma compile_dot:
  assumes "plain_uri u" "plain_uri v"
  shows "compile (''^'' @ escape special_chars (u @ ''.'' @ v) @ ''$'') = Returns (dot_rx u v)"
proof -
  have bol: "scan (CHR ''^'' # r) = and_then (scan r) (\<lambda>ts. Returns (TBol # ts))"
    and any: "scan (CHR ''.'' # r) = and_then (scan r) (\<lambda>ts. Returns (TAny # ts))" for r
    by (cases r; simp add: scan_char_def)+
  note lit = scan_escape [OF disjI1 [OF refl]]
  have "escape special_chars (u @ ''.'' @ v) =
      escape special_chars u @ CHR ''.'' # escape special_chars v"
    by (simp add: escape_append special_chars_def)
  moreover have "scan (escape special_chars v @ ''$'') = Returns (map TChr v @ [TEol])"
    using lit [OF assms(2), of "''$''"] by (simp add: scan_char_def)
  ultimately have "scan (''^'' @ escape special_chars (u @ ''.'' @ v) @ ''$'') =
      Returns (TBol # map TChr u @ TAny # map TChr v @ [TEol])"
    using lit [OF assms(1), of "CHR ''.'' # escape special_chars v @ ''$''"] by (simp add: bol any)
  then show ?thesis
    by (simp add: compile_def parse_chars push_chars_def push_term_def close_frame_def
        close_alt_def dot_rx_def rev_map comp_def)
qed

lemma dot_rx_accepts:
  "rx_accepts (dot_rx u v) uri \<longleftrightarrow> (\<exists>c. cstr uri = u @ [c] @ v \<and> \<not> line_terminator c)"
proof -
  let ?s = "cstr uri"
  let ?R = "cat_all (map Chr v @ [Eol])"
  have tail: "(\<exists>d. (length ?s, d) \<in> set (mt ?R ?s i c)) \<longleftrightarrow> drop i ?s = v"
    if "i \<le> length ?s" for i c
  proof (cases "prefix v (drop i ?s)")
    case True
    then obtain w where w: "drop i ?s = v @ w" by (auto simp: prefix_def)
    from that arg_cong [OF w, of length] have "length ?s = i + length v + length w" by simp
    with w that True show ?thesis by (simp add: mt_chars)
  next
    case False
    with that show ?thesis by (auto simp: mt_chars)
  qed
  have "mt (dot_rx u v) ?s 0 [] =
      (if prefix u ?s then mt (Cat AnyChr ?R) ?s (length u) [] else [])"
    using mt_chars [of 0 ?s u "AnyChr # map Chr v @ [Eol]" "[]"] by (simp add: dot_rx_def)
  also have "mt (Cat AnyChr ?R) ?s (length u) [] =
      (if length u < length ?s \<and> \<not> line_terminator (?s ! length u)
       then mt ?R ?s (Suc (length u)) [] else [])"
    by auto
  finally have "rx_accepts (dot_rx u v) uri \<longleftrightarrow> prefix u ?s \<and> length u < length ?s \<and>
      \<not> line_terminator (?s ! length u) \<and>
      (\<exists>d. (length ?s, d) \<in> set (mt ?R ?s (Suc (length u)) []))"
    by (simp add: rx_accepts_def regex_match_None conj_comms)
  also have "\<dots> \<longleftrightarrow> prefix u ?s \<and> length u < length ?s \<and>
      \<not> line_terminator (?s ! length u) \<and> drop (Suc (length u)) ?s = v"
    by (intro conj_cong refl tail) simp
  also have "\<dots> \<longleftrightarrow> (\<exists>c. ?s = u @ [c] @ v \<and> \<not> line_terminator c)"
  proof
    assume L: "prefix u ?s \<and> length u < length ?s \<and> \<not> line_terminator (?s ! length u) \<and>
      drop (Suc (length u)) ?s = v"
    then obtain t where t: "?s = u @ t" by (auto simp: prefix_def)
    with L obtain c where "t = c # v" by (cases t) auto
    with L t show "\<exists>c. ?s = u @ [c] @ v \<and> \<not> line_terminator c" by simp
  next
    assume "\<exists>c. ?s = u @ [c] @ v \<and> \<not> line_terminator c"
    then show "prefix u ?s \<and> length u < length ?s \<and> \<not> line_terminator (?s ! length u) \<and>
      drop (Suc (length u)) ?s = v" by auto
  qed
  finally show ?thesis .
qed

text \<open>
  A dot in a registered uri is not escaped: a route with one dot and otherwise plain characters
  is taken by exactly the paths that have any one character (not a line break) in its place.
\<close>

theorem dot_route:
  assumes "mapper_ok m" "plain_uri u" "plain_uri v" "containsWildcard (u @ ''.'' @ v) = None"
    and "others_reject m (''^'' @ escape special_chars (u @ ''.'' @ v) @ ''$'') s"
  shows "\<exists>m'. UriMapper_add (u @ ''.'' @ v) r m = Returns (m', r) \<and>
    (UriMapper_match rank m' s \<noteq> None \<longleftrightarrow>
       (\<exists>c. cstr s = u @ [c] @ v \<and> \<not> line_terminator c))"
proof -
  have "CHR ''{'' \<notin> set (u @ ''.'' @ v)"
    using assms(2,3) by (auto simp: plain_uri_def unescaped_meta_def)
  with assms(4) have "uri_pattern (u @ ''.'' @ v) =
      Returns (''^'' @ escape special_chars (u @ ''.'' @ v) @ ''$'')"
    by (simp only: uri_pattern_def createExactMatch_plain if_True simp_thms)
  from add_pattern [OF assms(1) this compile_dot [OF assms(2,3)] assms(5), of r rank]
  show ?thesis by (auto simp: dot_rx_accepts split: if_splits)
qed

theorem dot_route_witness:
  "\<exists>m'. UriMapper_add ''/a.b'' (1 :: nat) UriMapper_new = Returns (m', 1) \<and>
     UriMapper_match (\<lambda>_ _. 0) m' ''/axb'' \<noteq> None"
proof -
  have h: "plain_uri ''/a''" "plain_uri ''b''" "containsWildcard (''/a'' @ ''.'' @ ''b'') = None"
    "others_reject UriMapper_new p s" for p s
    by (simp_all add: plain_uri_def unescaped_meta_def containsWildcard_def str_find_def
        others_reject_def UriMapper_new_def umap_empty_def)
  from dot_route [OF mapper_ok_new h, where s = "''/axb''" and r = "1 :: nat" and rank = "\<lambda>_ _. 0"] show ?thesis
    by (auto simp: cstr_def line_terminator_def)
qed

end
