(* ===== verification/HttpRequest.thy ===== *)
theory HttpRequest
  imports Client UriMapper "HOL-Library.Word"
begin

text \<open>
  \<^verbatim>\<open>lightning/request\<close> and \<^verbatim>\<open>HttpRequest.cpp\<close>: the request object, the parser of the request line and
  the headers, the extraction of uri parameters, and the reading of the body.

  The source keeps indices in \<open>int\<close>; here they are natural numbers. The narrowing is the identity
  below \<open>2 ^ 31\<close>, and the event loop only parses what fits a view of at most 65536 bytes
  (see \<open>ClientManager\<close>). The stream pointer of a request is a flag: the stream it points to
  belongs to the client and is passed next to the request.
\<close>

section \<open>State\<close>

record FrameworkInfo =
  matchedRegex :: string
  requestArrivalTime :: "64 word"

record HttpRequest =
  req_method :: string
  req_rawUri :: string
  req_protocolVersion :: string
  req_uriParameters :: "string list"
  req_frameworkInfo :: FrameworkInfo
  req_headers :: HeadersMap
  req_stream :: bool
  req_bodyRead :: bool

definition HttpRequest_new ::
    "string \<Rightarrow> string \<Rightarrow> string \<Rightarrow> HeadersMap \<Rightarrow> FrameworkInfo \<Rightarrow> HttpRequest" where
  "HttpRequest_new m uri version hs info =
     \<lparr>req_method = m, req_rawUri = uri, req_protocolVersion = version, req_uriParameters = [],
      req_frameworkInfo = info, req_headers = hs, req_stream = False, req_bodyRead = False\<rparr>"

section \<open>Parsing\<close>

definition getNextToken :: "string \<Rightarrow> string \<Rightarrow> nat \<Rightarrow> string \<times> nat" where
  "getNextToken line del offset =
     (case str_find line del offset of
        None \<Rightarrow> (drop offset line, length line)
      | Some index \<Rightarrow> (take (index - offset) (drop offset line), index + length del))"

record RequestLine =
  rl_method :: string
  rl_rawUri :: string
  rl_protocolVersion :: string

definition parseRequestLine :: "string \<Rightarrow> RequestLine" where
  "parseRequestLine requestLine =
     (let (m, offset1) = getNextToken requestLine '' '' 0;
          (uri, offset2) = getNextToken requestLine '' '' offset1;
          (version, offset3) = getNextToken requestLine '' '' offset2
      in \<lparr>rl_method = m, rl_rawUri = uri, rl_protocolVersion = version\<rparr>)"

lemma getNextToken_progress:
  assumes "getNextToken line del offset = (token, offset')" "token \<noteq> []"
  shows "offset < length line \<and> offset < offset'"
  using assms
  by (auto simp: getNextToken_def str_find_def split: option.splits if_splits)

function parse_headers_loop :: "string \<Rightarrow> nat \<Rightarrow> HeadersMap \<Rightarrow> HeadersMap" where
  "parse_headers_loop rawHeaders offset headersMap =
     (case getNextToken rawHeaders CRLF offset of (header, offset') \<Rightarrow>
        if header = [] then headersMap
        else
          (case getNextToken header '': '' 0 of (key, keySepratorIndex) \<Rightarrow>
             parse_headers_loop rawHeaders offset'
               (umap_insert key (drop keySepratorIndex header) headersMap)))"
  by pat_completeness auto
termination
  by (relation "measure (\<lambda>(raw, offset, m). length raw - offset)")
    (auto dest!: getNextToken_progress [OF sym])

declare parse_headers_loop.simps [simp del]

definition parseHeaders :: "string \<Rightarrow> HeadersMap" where
  "parseHeaders rawHeaders = parse_headers_loop rawHeaders 0 umap_empty"

definition createRequest :: "string \<Rightarrow> HttpRequest option" where
  "createRequest request =
     (case str_find request CRLF 0 of
        None \<Rightarrow> None
      | Some requestLineEnd \<Rightarrow>
          let line = parseRequestLine (take requestLineEnd request);
              rawHeaders = drop (requestLineEnd + length CRLF) request;
              headers = parseHeaders rawHeaders
          in Some (HttpRequest_new (rl_method line) (rl_rawUri line) (rl_protocolVersion line) headers
               \<lparr>matchedRegex = [], requestArrivalTime = 0\<rparr>))"

section \<open>Headers, parameters and body\<close>

definition req_getHeader :: "string \<Rightarrow> HttpRequest \<Rightarrow> string option" where
  "req_getHeader key r = umap_find (req_headers r) key"

definition setStream :: "bool \<Rightarrow> HttpRequest \<Rightarrow> HttpRequest" where
  "setStream present r = r\<lparr>req_stream := present\<rparr>"

text \<open>
  One parameter: both strings are built from raw pointers into the uri, so each runs to the end of
  the uri (or its first NUL), and the parameter is cut at the first occurrence of the second.
\<close>

definition uri_parameter :: "string \<Rightarrow> nat \<times> nat \<Rightarrow> string" where
  "uri_parameter uri span =
     (let param = cstr (drop (fst span) uri);
          postParam = cstr (drop (snd span) uri)
      in if length postParam \<noteq> 0
         then drop (case str_find param postParam 0 of None \<Rightarrow> 0 | Some index \<Rightarrow> index) param
         else param)"

definition computeUriParameters :: "HttpRequest \<Rightarrow> HttpRequest outcome" where
  "computeUriParameters r =
     and_then (compile (matchedRegex (req_frameworkInfo r))) (\<lambda>rgx.
       case regex_match rgx (req_rawUri r) of
         None \<Rightarrow> Returns (r\<lparr>req_uriParameters := []\<rparr>)
       | Some result \<Rightarrow>
           Returns (r\<lparr>req_uriParameters :=
             map (\<lambda>n. uri_parameter (req_rawUri r) (submatch (req_rawUri r) result n))
               [1..<Suc (group_count rgx)]\<rparr>))"

definition getBody :: "HttpRequest \<Rightarrow> istream \<Rightarrow> (exn + string) \<times> HttpRequest \<times> istream" where
  "getBody r s =
     (if \<not> req_stream r then (Inr [], r, s)
      else
        case req_getHeader ''Content-Length'' r of
          None \<Rightarrow> (Inr [], r, s)
        | Some contentLengthHeader \<Rightarrow>
            (case stoi contentLengthHeader of
               Inl e \<Rightarrow> (Inl e, r, s)
             | Inr contentLength \<Rightarrow>
                 if contentLength \<le> 0 then (Inr [], r, s)
                 else
                   (case stream_read contentLength s of
                      (Inl e, s') \<Rightarrow> (Inl e, r, s')
                    | (Inr body, s') \<Rightarrow> (Inr body, r\<lparr>req_bodyRead := True\<rparr>, s'))))"

section \<open>The entries of a header block\<close>

text \<open>The reference: cut at line ends, stop at an empty line, split every line at its first \<^verbatim>\<open>: \<close>.\<close>

definition header_entry :: "string \<Rightarrow> string \<times> string" where
  "header_entry h =
     (case find_str '': '' h of None \<Rightarrow> (h, []) | Some i \<Rightarrow> (take i h, drop (i + 2) h))"

function header_entries :: "string \<Rightarrow> (string \<times> string) list" where
  "header_entries s =
     (case find_str CRLF s of
        None \<Rightarrow> if s = [] then [] else [header_entry s]
      | Some i \<Rightarrow> if i = 0 then [] else header_entry (take i s) # header_entries (drop (i + 2) s))"
  by pat_completeness auto
termination
  by (relation "measure length") (auto dest: find_str_bound)

declare header_entries.simps [simp del]

lemma getNextToken_header:
  "getNextToken h '': '' 0 = (fst (header_entry h), n) \<Longrightarrow> drop n h = snd (header_entry h)"
  by (auto simp: getNextToken_def header_entry_def str_find_def split: option.splits)

lemma parse_headers_loop_entries:
  "offset \<le> length raw \<Longrightarrow>
   parse_headers_loop raw offset m =
     foldl (\<lambda>m (k, v). umap_insert k v m) m (header_entries (drop offset raw))"
proof (induction raw offset m rule: parse_headers_loop.induct)
  case (1 raw offset m)
  define rest where "rest = drop offset raw"
  note unfold = parse_headers_loop.simps [of raw offset m] header_entries.simps [of rest]
  have entry: "fst (getNextToken h '': '' 0) = fst (header_entry h)"
    "drop (snd (getNextToken h '': '' 0)) h = snd (header_entry h)" for h
    by (auto simp: getNextToken_def header_entry_def str_find_def split: option.split)
  have "parse_headers_loop raw offset m =
      foldl (\<lambda>m (k, v). umap_insert k v m) m (header_entries rest)"
  proof (cases "find_str CRLF rest")
    case None
    with 1(2) have token: "getNextToken raw CRLF offset = (rest, length raw)"
      by (simp add: getNextToken_def str_find_def rest_def)
    show ?thesis
    proof (cases "rest = []")
      case True
      with token None unfold show ?thesis by simp
    next
      case False
      from 1(1) [OF token [symmetric] False prod.collapse] False token None unfold entry
      show ?thesis by (simp add: case_prod_beta header_entries.simps [of "[]"])
    qed
  next
    case (Some i)
    with 1(2) have token: "getNextToken raw CRLF offset = (take i rest, offset + i + 2)"
      by (simp add: getNextToken_def str_find_def rest_def)
    from find_str_bound [OF Some] have bound: "offset + i + 2 \<le> length raw"
      by (simp add: rest_def)
    have step: "drop (offset + i + 2) raw = drop (i + 2) rest"
      by (simp add: rest_def add.commute add.left_commute)
    show ?thesis
    proof (cases "i = 0")
      case True
      with token Some unfold show ?thesis by simp
    next
      case False
      with bound have ne: "take i rest \<noteq> []" by (simp add: rest_def)
      have tail: "header_entries rest = header_entry (take i rest) # header_entries (drop (i + 2) rest)"
        using unfold(2) Some False by simp
      from 1(1) [OF token [symmetric] ne prod.collapse bound]
      have "parse_headers_loop raw (offset + i + 2)
          (umap_insert (fst (header_entry (take i rest))) (snd (header_entry (take i rest))) m) =
        foldl (\<lambda>m (k, v). umap_insert k v m) m (header_entries rest)"
        unfolding tail step entry by (simp only: foldl_Cons case_prod_unfold)
      with ne show ?thesis
        unfolding unfold(1) token by (simp add: case_prod_beta entry)
    qed
  qed
  then show ?case by (simp add: rest_def)
qed

lemma parseHeaders_entries:
  "parseHeaders raw = foldl (\<lambda>m (k, v). umap_insert k v m) umap_empty (header_entries raw)"
  by (simp add: parseHeaders_def parse_headers_loop_entries)

section \<open>Rendered requests\<close>

text \<open>
  A request head as a client writes it: request line and header lines separated by line ends. The
  message is the head, a blank line and the body; the event loop cuts the head off at the blank
  line, so what \<open>createRequest\<close> is given has no line end after the last line.
\<close>

fun join_lines :: "string list \<Rightarrow> string" where
  "join_lines [] = []"
| "join_lines [l] = l"
| "join_lines (l # l' # ls) = l @ CRLF @ join_lines (l' # ls)"

definition request_line :: "string \<Rightarrow> string \<Rightarrow> string \<Rightarrow> string" where
  "request_line m uri version = m @ '' '' @ uri @ '' '' @ version"

definition render_header :: "string \<times> string \<Rightarrow> string" where
  "render_header h = fst h @ '': '' @ snd h"

definition request_head :: "string \<Rightarrow> string \<Rightarrow> string \<Rightarrow> (string \<times> string) list \<Rightarrow> string" where
  "request_head m uri version hs = join_lines (request_line m uri version # map render_header hs)"

definition request_token :: "string \<Rightarrow> bool" where
  "request_token s \<longleftrightarrow> CHR '' '' \<notin> set s \<and> CR \<notin> set s"

definition header_pair :: "string \<times> string \<Rightarrow> bool" where
  "header_pair h \<longleftrightarrow> CHR '':'' \<notin> set (fst h) \<and> CR \<notin> set (fst h) \<and> CR \<notin> set (snd h)"

lemma join_lines_block:
  "ls \<noteq> [] \<Longrightarrow> join_lines ls @ CRLF = lines_block ls"
  by (induction ls rule: join_lines.induct) simp_all

lemma join_lines_Cons: "ls \<noteq> [] \<Longrightarrow> join_lines (l # ls) = l @ CRLF @ join_lines ls"
  by (cases ls) simp_all

lemma header_entry_render: "header_pair h \<Longrightarrow> header_entry (render_header h) = h"
  using find_str_first [of "'': ''" "fst h" "snd h"]
  by (simp add: header_entry_def render_header_def header_pair_def)

lemma text_line_render: "header_pair h \<Longrightarrow> text_line (render_header h)"
  by (auto simp: text_line_def render_header_def header_pair_def)

lemma text_line_request: "request_token m \<Longrightarrow> request_token uri \<Longrightarrow> request_token version \<Longrightarrow>
    text_line (request_line m uri version)"
  by (auto simp: text_line_def request_line_def request_token_def)

lemma header_entries_line:
  "text_line l \<Longrightarrow> header_entries (l @ CRLF @ s) = header_entry l # header_entries s"
  by (subst header_entries.simps) (simp add: text_line_def find_simps)

lemma header_entries_join:
  "\<forall>l \<in> set ls. text_line l \<Longrightarrow> header_entries (join_lines ls) = map header_entry ls"
proof (induction ls rule: join_lines.induct)
  case 1
  show ?case by (simp add: header_entries.simps find_simps)
next
  case (2 l)
  then show ?case by (simp add: header_entries.simps [of l] text_line_def find_simps)
qed (simp add: header_entries_line)

lemma header_entries_block:
  "\<forall>l \<in> set ls. text_line l \<Longrightarrow> header_entries (lines_block ls @ CRLF @ s) = map header_entry ls"
  by (induction ls)
    (simp_all add: header_entries_line header_entries.simps [of "CRLF @ s"]
      find_str_CRLF(1) [of "[]", simplified])

lemma getHeader_parseHeaders:
  "umap_find (parseHeaders raw) = map_of (header_entries raw)"
  by (rule ext) (simp add: parseHeaders_entries umap.first_value_wins)

lemma getNextToken_blank:
  "CHR '' '' \<notin> set u \<Longrightarrow>
     getNextToken (p @ u @ CHR '' '' # v) '' '' (length p) = (u, length p + length u + 1)"
  "CHR '' '' \<notin> set u \<Longrightarrow> getNextToken (p @ u) '' '' (length p) = (u, length p + length u)"
  by (simp_all add: getNextToken_def str_find_def find_simps)

lemma parseRequestLine_render:
  assumes "request_token m" "request_token uri" "request_token version"
  shows "parseRequestLine (request_line m uri version) =
    \<lparr>rl_method = m, rl_rawUri = uri, rl_protocolVersion = version\<rparr>"
proof -
  have eq: "request_line m uri version = [] @ m @ CHR '' '' # (uri @ CHR '' '' # version)"
    "request_line m uri version = (m @ '' '') @ uri @ CHR '' '' # version"
    "request_line m uri version = (m @ '' '' @ uri @ '' '') @ version"
    by (simp_all add: request_line_def)
  have "getNextToken (request_line m uri version) '' '' 0 = (m, length m + 1)"
    using getNextToken_blank(1) [of m "[]"] assms eq(1) by (simp add: request_token_def)
  moreover have "getNextToken (request_line m uri version) '' '' (length m + 1) =
      (uri, length m + length uri + 2)"
    using getNextToken_blank(1) [of uri "m @ '' ''"] assms eq(2) by (simp add: request_token_def)
  moreover have "getNextToken (request_line m uri version) '' '' (length m + length uri + 2) =
      (version, length m + length uri + 2 + length version)"
    using getNextToken_blank(2) [of version "m @ '' '' @ uri @ '' ''"] assms eq(3)
    by (simp add: request_token_def)
  ultimately show ?thesis by (simp add: parseRequestLine_def)
qed

lemma createRequest_cut:
  "CR \<notin> set l \<Longrightarrow> createRequest (l @ CRLF @ raw) =
     Some (HttpRequest_new (rl_method (parseRequestLine l)) (rl_rawUri (parseRequestLine l))
       (rl_protocolVersion (parseRequestLine l)) (parseHeaders raw)
       \<lparr>matchedRegex = [], requestArrivalTime = 0\<rparr>)"
  by (simp add: createRequest_def str_find_def find_simps Let_def)

definition parsed_as ::
    "string \<Rightarrow> string \<Rightarrow> string \<Rightarrow> (string \<times> string) list \<Rightarrow> HttpRequest \<Rightarrow> bool" where
  "parsed_as m uri version hs r \<longleftrightarrow>
     req_method r = m \<and> req_rawUri r = uri \<and> req_protocolVersion r = version \<and>
     (\<lambda>key. req_getHeader key r) = map_of hs \<and> req_uriParameters r = [] \<and>
     \<not> req_stream r \<and> \<not> req_bodyRead r"

lemma map_of_entries_render:
  "\<forall>h \<in> set hs. header_pair h \<Longrightarrow> map header_entry (map render_header hs) = hs"
  by (induction hs) (simp_all add: header_entry_render)

lemma createRequest_render:
  assumes "request_token m" "request_token uri" "request_token version"
    and "header_entries raw = hs"
  shows "\<exists>r. createRequest (request_line m uri version @ CRLF @ raw) = Some r \<and>
    parsed_as m uri version hs r"
  using assms text_line_request [OF assms(1-3)]
  by (simp add: createRequest_cut text_line_def parseRequestLine_render parsed_as_def
      HttpRequest_new_def req_getHeader_def getHeader_parseHeaders)

lemma createRequest_head:
  assumes "request_token m" "request_token uri" "request_token version"
    and "\<forall>h \<in> set hs. header_pair h" "hs \<noteq> []"
  shows "\<exists>r. createRequest (request_head m uri version hs) = Some r \<and> parsed_as m uri version hs r"
proof -
  have "\<forall>l \<in> set (map render_header hs). text_line l" using assms(4) by (auto intro: text_line_render)
  then have "header_entries (join_lines (map render_header hs)) = hs"
    using assms(4) by (simp only: header_entries_join map_of_entries_render)
  from createRequest_render [OF assms(1-3) this] assms(5) show ?thesis
    by (simp add: request_head_def join_lines_Cons)
qed

lemma createRequest_no_headers:
  assumes "request_token m" "request_token uri" "request_token version"
  shows "createRequest (request_head m uri version []) = None"
  using text_line_request [OF assms]
  by (simp add: createRequest_def request_head_def str_find_def find_simps text_line_def)

section \<open>Parameters of wildcard routes\<close>

lemma find_only:
  assumes "x \<in> set xs" "P x" "\<And>y. y \<in> set xs \<Longrightarrow> P y \<Longrightarrow> y = x"
  shows "List.find P xs = Some x"
proof (cases "List.find P xs")
  case None
  with assms(1,2) show ?thesis by (auto simp: find_None_iff)
next
  case (Some y)
  then have "y \<in> set xs" "P y" by (auto simp: find_Some_iff)
  with assms(3) Some show ?thesis by simp
qed

text \<open>The only match of a route with one wildcard, and what its group captures.\<close>

lemma regex_match_one_wildcard:
  assumes "list_all (\<lambda>x. \<not> line_terminator x) q"
  shows "regex_match (wild_rx p0 [p1]) (p0 @ CHR ''/'' # q @ p1) =
    Some [(1, length p0, length p0 + 1 + length q)]"
proof -
  let ?s = "p0 @ CHR ''/'' # q @ p1" and ?i = "length p0"
  let ?c = "\<lambda>j. [(1, ?i, j)] :: caps"
  have "run_end ?s (Suc ?i) = Suc ?i + length (takeWhile (\<lambda>x. \<not> line_terminator x) (q @ p1))"
    by (simp add: run_end_def)
  moreover have "takeWhile (\<lambda>x. \<not> line_terminator x) (q @ p1) =
      q @ takeWhile (\<lambda>x. \<not> line_terminator x) p1"
    using assms by (intro takeWhile_append2) (simp add: list_all_iff)
  ultimately have far: "Suc ?i + length q \<le> run_end ?s (Suc ?i)" by simp
  have matches: "mt (wild_rx p0 [p1]) ?s 0 [] = concat (map (\<lambda>j. mt (cat_all (map Chr p1)) ?s j (?c j))
      (rev [Suc ?i..<Suc (run_end ?s (Suc ?i))]))"
  proof -
    have "mt (wild_rx p0 [p1]) ?s 0 [] = mt (cat_all (wild_terms 1 [p1])) ?s ?i []"
      using mt_chars [of 0 ?s p0 "wild_terms 1 [p1]" "[]"] by (simp add: wild_rx_def del: mt.simps)
    also have "\<dots> = concat (map (\<lambda>(j, d). mt (cat_all (map Chr p1)) ?s j d)
        (mt (Group 1 any_suffix) ?s ?i []))"
      by (simp del: mt.simps(9))
    finally show ?thesis by (simp add: mt_any_suffix comp_def del: upt_Suc mt.simps)
  qed
  have tail: "mt (cat_all (map Chr p1)) ?s j c =
      (if prefix p1 (drop j ?s) then [(j + length p1, c)] else [])" if "j \<le> length ?s" for j c
    using mt_chars [OF that, of p1 "[]"] by simp
  have bound: "run_end ?s (Suc ?i) \<le> length ?s"
    using length_takeWhile_le [of "\<lambda>x. \<not> line_terminator x" "drop (Suc ?i) ?s"]
    by (simp add: run_end_def)
  have "List.find (\<lambda>(j, c). j = length ?s) (mt (wild_rx p0 [p1]) ?s 0 []) =
      Some (length ?s, ?c (Suc ?i + length q))"
  proof (rule find_only)
    have "prefix p1 (drop (Suc ?i + length q) ?s)" by simp
    with tail [of "Suc ?i + length q"] far
    show "(length ?s, ?c (Suc ?i + length q)) \<in> set (mt (wild_rx p0 [p1]) ?s 0 [])"
      unfolding matches by (auto simp del: upt_Suc intro!: bexI [of _ "Suc (length p0 + length q)"])
  next
    fix y
    assume "y \<in> set (mt (wild_rx p0 [p1]) ?s 0 [])" "case y of (j, c) \<Rightarrow> j = length ?s"
    then obtain j where j: "j < Suc (run_end ?s (Suc ?i))"
      and y: "y \<in> set (mt (cat_all (map Chr p1)) ?s j (?c j))" "fst y = length ?s"
      unfolding matches by (auto simp del: upt_Suc)
    from j bound have "j \<le> length ?s" by simp
    with y tail [of j "?c j"] have "y = (j + length p1, ?c j)" "j + length p1 = length ?s"
      by (auto split: if_splits)
    then show "y = (length ?s, ?c (Suc ?i + length q))" by simp
  qed simp
  then show ?thesis by (simp add: regex_match_def)
qed

lemma computeUriParameters_wild:
  assumes "wild_literal p0" "wild_literal p1" "list_all (\<lambda>x. \<not> line_terminator x) q"
    and "NUL \<notin> set (q @ p1)"
    and "matchedRegex (req_frameworkInfo r) = wild_pattern p0 [p1]"
    and "req_rawUri r = p0 @ CHR ''/'' # q @ p1"
  shows "computeUriParameters r = Returns (r\<lparr>req_uriParameters :=
    [if p1 = [] then CHR ''/'' # q
     else drop (the (find_str p1 (CHR ''/'' # q @ p1))) (CHR ''/'' # q @ p1)]\<rparr>)"
proof -
  have groups: "group_count (wild_rx p0 [p1]) = 1"
  proof -
    have chars: "group_count (cat_all (map Chr u @ rs)) = group_count (cat_all rs)" for u rs
      by (induction u) simp_all
    show ?thesis
      using chars [of p1 "[]"] by (simp add: wild_rx_def chars any_suffix_def)
  qed
  have "occurs p1 (CHR ''/'' # q @ p1)"
    unfolding occurs_iff by (rule exI [of _ "CHR ''/'' # q"]) simp
  then obtain i where i: "find_str p1 (CHR ''/'' # q @ p1) = Some i" by (auto simp: occurs_def)
  have clean: "cstr (CHR ''/'' # q @ p1) = CHR ''/'' # q @ p1" "cstr p1 = p1"
    using assms(4) by (simp_all add: cstr_id)
  have "uri_parameter (p0 @ CHR ''/'' # q @ p1) (length p0, length p0 + 1 + length q) =
      (if p1 = [] then CHR ''/'' # q
       else drop (the (find_str p1 (CHR ''/'' # q @ p1))) (CHR ''/'' # q @ p1))"
    using clean i by (simp add: uri_parameter_def str_find_def Let_def)
  with assms(1,2,5,6) groups regex_match_one_wildcard [OF assms(3), of p0 p1]
  show ?thesis
    by (simp add: computeUriParameters_def compile_wild submatch_def)
qed

section \<open>Reading the body\<close>

lemma getBody_length:
  assumes "req_stream r" "req_getHeader ''Content-Length'' r = Some h" "stoi h = Inr n" "0 < n"
  shows "getBody r s =
    (case stream_read n s of
       (Inl e, s') \<Rightarrow> (Inl e, r, s')
     | (Inr body, s') \<Rightarrow> (Inr body, r\<lparr>req_bodyRead := True\<rparr>, s'))"
  using assms by (simp add: getBody_def)

lemma getBody_nothing:
  assumes "\<not> req_stream r \<or> req_getHeader ''Content-Length'' r = None \<or>
    (\<exists>h n. req_getHeader ''Content-Length'' r = Some h \<and> stoi h = Inr n \<and> n \<le> 0)"
  shows "getBody r s = (Inr [], r, s)"
  using assms by (auto simp: getBody_def)

section \<open>Properties\<close>

text \<open>
  C7: Parsing a rendered request gives the request back. For tokens without blanks and line ends
  and header names without colons, the parser recovers method, uri, version and every header (of
  equal names the first) from a whole message, whatever follows the blank line, and from a head
  without its last line end, which is what the event loop cuts off. A head without any header is
  refused, because the cut took away the only line end the parser looks for.
\<close>

theorem request_roundtrip:
  assumes "request_token m" "request_token uri" "request_token version"
    and "\<forall>h \<in> set hs. header_pair h"
  shows "(if hs = [] then createRequest (request_head m uri version hs) = None
      else \<exists>r. createRequest (request_head m uri version hs) = Some r \<and>
        parsed_as m uri version hs r) \<and>
    (\<exists>r. createRequest (request_head m uri version hs @ DOUBLE_CRLF @ body) = Some r \<and>
      parsed_as m uri version hs r)"
proof -
  have "\<forall>l \<in> set (map render_header hs). text_line l" using assms(4) by (auto intro: text_line_render)
  then have entries: "header_entries (lines_block (map render_header hs) @ CRLF @ body) = hs"
    using assms(4) by (simp only: header_entries_block map_of_entries_render)
  have "request_head m uri version hs @ DOUBLE_CRLF @ body =
      (request_head m uri version hs @ CRLF) @ CRLF @ body"
    by (simp only: DOUBLE_CRLF_CRLF append_assoc)
  also have "\<dots> = request_line m uri version @ CRLF @ lines_block (map render_header hs) @ CRLF @ body"
    unfolding request_head_def by (simp add: join_lines_block)
  finally have whole: "\<exists>r. createRequest (request_head m uri version hs @ DOUBLE_CRLF @ body) = Some r \<and>
      parsed_as m uri version hs r"
    using createRequest_render [OF assms(1-3) entries] by (simp only:)
  show ?thesis
  proof (cases "hs = []")
    case True
    with whole createRequest_no_headers [OF assms(1-3)] show ?thesis by simp
  next
    case False
    with whole createRequest_head [OF assms False] show ?thesis by simp
  qed
qed

theorem request_roundtrip_witness:
  "\<exists>r. createRequest (request_head ''GET'' ''/a'' ''HTTP/1.1'' [(''Host'', ''h'')]) = Some r \<and>
    parsed_as ''GET'' ''/a'' ''HTTP/1.1'' [(''Host'', ''h'')] r"
  using request_roundtrip [of "''GET''" "''/a''" "''HTTP/1.1''" "[(''Host'', ''h'')]" "[]"]
  by (simp add: request_token_def header_pair_def)

text \<open>
  The header parser computes the reference: the block is cut at line ends up to the first empty
  line or the end, each line is split at its first \<^verbatim>\<open>: \<close> (a line without one is a name with an empty
  value), and the first line of a name decides its value.
\<close>

theorem parseHeaders_first_wins:
  "umap_find (parseHeaders raw) = map_of (header_entries raw)"
  by (rule getHeader_parseHeaders)

text \<open>
  The parameter of a route with one wildcard, on a path that continues after the slash of the
  wildcard with \<open>q\<close> and then the literal behind it. When the wildcard ends the route, the parameter
  is the slash and \<open>q\<close>. When a literal \<open>p1\<close> follows, the parameter is not the text the wildcard took:
  it starts at the first occurrence of \<open>p1\<close> and runs to the end of the uri.
\<close>

theorem wildcard_parameter:
  assumes "wild_literal p0" "wild_literal p1" "list_all (\<lambda>x. \<not> line_terminator x) q"
    and "NUL \<notin> set (q @ p1)"
    and "matchedRegex (req_frameworkInfo r) = wild_pattern p0 [p1]"
    and "req_rawUri r = p0 @ CHR ''/'' # q @ p1"
  shows "\<exists>param. computeUriParameters r = Returns (r\<lparr>req_uriParameters := [param]\<rparr>) \<and>
    (if p1 = [] then param = CHR ''/'' # q else prefix p1 param)"
proof -
  have "occurs p1 (CHR ''/'' # q @ p1)"
    unfolding occurs_iff by (rule exI [of _ "CHR ''/'' # q"]) simp
  then obtain i where i: "find_str p1 (CHR ''/'' # q @ p1) = Some i" by (auto simp: occurs_def)
  have "if p1 = [] then (if p1 = [] then CHR ''/'' # q else drop i (CHR ''/'' # q @ p1)) = CHR ''/'' # q
      else prefix p1 (if p1 = [] then CHR ''/'' # q else drop i (CHR ''/'' # q @ p1))"
    using find_str_SomeD [OF i] by simp
  with computeUriParameters_wild [OF assms] show ?thesis unfolding i option.sel by blast
qed

theorem wildcard_parameter_witness:
  "\<exists>param. computeUriParameters (HttpRequest_new ''GET'' ''/u/7/edit'' ''HTTP/1.1'' umap_empty
      \<lparr>matchedRegex = wild_pattern ''/u'' [''/edit''], requestArrivalTime = 0\<rparr>) =
    Returns (HttpRequest_new ''GET'' ''/u/7/edit'' ''HTTP/1.1'' umap_empty
      \<lparr>matchedRegex = wild_pattern ''/u'' [''/edit''], requestArrivalTime = 0\<rparr>
      \<lparr>req_uriParameters := [param]\<rparr>) \<and> prefix ''/edit'' param"
proof -
  let ?r = "HttpRequest_new ''GET'' ''/u/7/edit'' ''HTTP/1.1'' umap_empty
      \<lparr>matchedRegex = wild_pattern ''/u'' [''/edit''], requestArrivalTime = 0\<rparr>"
  have "wild_literal ''/u''" "wild_literal ''/edit''"
    by (simp_all add: wild_literal_def plain_uri_def unescaped_meta_def)
  moreover have "list_all (\<lambda>x. \<not> line_terminator x) ''7''" "NUL \<notin> set (''7'' @ ''/edit'')"
    by (simp_all add: line_terminator_def)
  moreover have "matchedRegex (req_frameworkInfo ?r) = wild_pattern ''/u'' [''/edit'']"
    "req_rawUri ?r = ''/u'' @ CHR ''/'' # ''7'' @ ''/edit''"
    by (simp_all add: HttpRequest_new_def)
  ultimately have "\<exists>param. computeUriParameters ?r = Returns (?r\<lparr>req_uriParameters := [param]\<rparr>) \<and>
      (if ''/edit'' = [] then param = CHR ''/'' # ''7'' else prefix ''/edit'' param)"
    by (rule wildcard_parameter)
  then show ?thesis by simp
qed



end
