(* ===== verification/HttpResponse.thy ===== *)
theory HttpResponse
  imports UnorderedMap
begin

text \<open>
  \<^verbatim>\<open>lightning/response\<close>: \<open>StatusLine\<close>, \<open>HttpResponse\<close> with its serialisation, and the fluent
  \<open>HttpResponseBuilder\<close>. The serialiser writes the body through a \<open>const char*\<close>, so what it emits
  depends on the bytes that follow the body's storage in memory: they are the argument \<open>after\<close> of
  \<open>toHttpResponse\<close>.
\<close>

section \<open>StatusLine\<close>

record StatusLine =
  statusCode :: int
  statusPhrase :: string
  httpVersion :: string

definition createStatusLine :: "StatusLine \<Rightarrow> string" where
  "createStatusLine sl =
     ''HTTP/'' @ httpVersion sl @ '' '' @ to_string (statusCode sl) @ '' '' @ statusPhrase sl @ CRLF"

section \<open>HttpResponse\<close>

record HttpResponse =
  statusLine :: StatusLine
  resp_headers :: HeadersMap
  resp_body :: string

definition resp_setHeader :: "string \<Rightarrow> string \<Rightarrow> HttpResponse \<Rightarrow> HttpResponse" where
  "resp_setHeader key value r = r\<lparr>resp_headers := umap_assign key value (resp_headers r)\<rparr>"

definition HttpResponse_new :: "StatusLine \<Rightarrow> HeadersMap \<Rightarrow> string \<Rightarrow> HttpResponse" where
  "HttpResponse_new sl hs body =
     resp_setHeader ''Content-Length'' (to_string (int (length body)))
       \<lparr>statusLine = sl, resp_headers = hs, resp_body = body\<rparr>"

definition resp_getHeader :: "string \<Rightarrow> HttpResponse \<Rightarrow> string option" where
  "resp_getHeader key r = umap_find (resp_headers r) key"

definition header_line :: "string \<times> string \<Rightarrow> string" where
  "header_line kv = fst kv @ '':'' @ snd kv"

definition toHttpResponse :: "string bucket_rank \<Rightarrow> string \<Rightarrow> HttpResponse \<Rightarrow> string" where
  "toHttpResponse rank after r =
     createStatusLine (statusLine r)
     @ concat (map (\<lambda>kv. header_line kv @ CRLF) (umap_iterate rank (resp_headers r)))
     @ CRLF
     @ (if length (resp_body r) > 0 then cstr (resp_body r @ after) else [])"

section \<open>HttpResponseBuilder\<close>

record HttpResponseBuilder =
  bld_statusCode :: int
  bld_statusPhrase :: string
  bld_httpVersion :: string
  bld_body :: string
  bld_headers :: HeadersMap

definition builder_create :: HttpResponseBuilder where
  "builder_create =
     \<lparr>bld_statusCode = 200, bld_statusPhrase = ''OK'', bld_httpVersion = ''1.1'',
      bld_body = [], bld_headers = umap_empty\<rparr>"

definition withStatusCode :: "int \<Rightarrow> HttpResponseBuilder \<Rightarrow> HttpResponseBuilder" where
  "withStatusCode code b = b\<lparr>bld_statusCode := code\<rparr>"

text \<open>Phrase and version arrive as \<open>const char*\<close>.\<close>

definition withStatusPhrase :: "string \<Rightarrow> HttpResponseBuilder \<Rightarrow> HttpResponseBuilder" where
  "withStatusPhrase phrase b = b\<lparr>bld_statusPhrase := cstr phrase\<rparr>"

definition withHttpVersion :: "string \<Rightarrow> HttpResponseBuilder \<Rightarrow> HttpResponseBuilder" where
  "withHttpVersion version b = b\<lparr>bld_httpVersion := cstr version\<rparr>"

definition withHeader :: "string \<Rightarrow> string \<Rightarrow> HttpResponseBuilder \<Rightarrow> HttpResponseBuilder" where
  "withHeader key value b = b\<lparr>bld_headers := umap_assign key value (bld_headers b)\<rparr>"

definition withBody :: "string \<Rightarrow> HttpResponseBuilder \<Rightarrow> HttpResponseBuilder" where
  "withBody body b =
     withHeader ''Content-Length'' (to_string (int (length body))) (b\<lparr>bld_body := body\<rparr>)"

definition withJsonBody :: "string \<Rightarrow> HttpResponseBuilder \<Rightarrow> HttpResponseBuilder" where
  "withJsonBody json b = withBody json (withHeader ''Content-Type'' ''application/json'' b)"

definition withHtmlBody :: "string \<Rightarrow> HttpResponseBuilder \<Rightarrow> HttpResponseBuilder" where
  "withHtmlBody html b = withBody html (withHeader ''Content-Type'' ''text/html'' b)"

definition build :: "HttpResponseBuilder \<Rightarrow> HttpResponse" where
  "build b =
     HttpResponse_new
       \<lparr>statusCode = bld_statusCode b, statusPhrase = cstr (bld_statusPhrase b),
        httpVersion = cstr (bld_httpVersion b)\<rparr>
       (bld_headers b) (bld_body b)"

lemmas builder_defs =
  builder_create_def withStatusCode_def withStatusPhrase_def withHttpVersion_def withHeader_def
  withBody_def withJsonBody_def withHtmlBody_def

section \<open>Invariant\<close>

definition response_ok :: "HttpResponse \<Rightarrow> bool" where
  "response_ok r \<longleftrightarrow> umap_ok (resp_headers r)"

definition builder_ok :: "HttpResponseBuilder \<Rightarrow> bool" where
  "builder_ok b \<longleftrightarrow> umap_ok (bld_headers b)"

lemma builder_ok_create [simp]: "builder_ok builder_create"
  by (simp add: builder_ok_def builder_defs)

lemma builder_ok_with [simp]:
  "builder_ok (withStatusCode code b) = builder_ok b"
  "builder_ok (withStatusPhrase p b) = builder_ok b"
  "builder_ok (withHttpVersion v b) = builder_ok b"
  by (simp_all add: builder_ok_def builder_defs)

lemma builder_ok_headers [simp]:
  "builder_ok b \<Longrightarrow> builder_ok (withHeader k v b)"
  "builder_ok b \<Longrightarrow> builder_ok (withBody s b)"
  by (simp_all add: builder_ok_def builder_defs)

lemma response_ok_build [simp]: "builder_ok b \<Longrightarrow> response_ok (build b)"
  by (simp add: builder_ok_def response_ok_def build_def HttpResponse_new_def resp_setHeader_def)

lemma response_ok_setHeader [simp]: "response_ok r \<Longrightarrow> response_ok (resp_setHeader k v r)"
  by (simp add: response_ok_def resp_setHeader_def)

lemma getHeader_setHeader [simp]:
  "resp_getHeader k (resp_setHeader k' v r) = (if k = k' then Some v else resp_getHeader k r)"
  by (simp add: resp_getHeader_def resp_setHeader_def)

lemma setHeader_frame [simp]:
  "statusLine (resp_setHeader k v r) = statusLine r" "resp_body (resp_setHeader k v r) = resp_body r"
  by (simp_all add: resp_setHeader_def)

lemma build_simps [simp]:
  "resp_body (build b) = bld_body b"
  "resp_getHeader ''Content-Length'' (build b) = Some (to_string (int (length (bld_body b))))"
  by (simp_all add: build_def HttpResponse_new_def)

section \<open>What a client reads\<close>

text \<open>The serialised head is a block of lines: the status line and one line per header.\<close>

definition head_lines :: "string bucket_rank \<Rightarrow> HttpResponse \<Rightarrow> string list" where
  "head_lines rank r =
     (''HTTP/'' @ httpVersion (statusLine r) @ '' '' @ to_string (statusCode (statusLine r)) @ '' ''
       @ statusPhrase (statusLine r))
     # map header_line (umap_iterate rank (resp_headers r))"

lemma toHttpResponse_lines:
  "toHttpResponse rank after r =
     lines_block (head_lines rank r) @ CRLF @
     (if resp_body r = [] then [] else cstr (resp_body r @ after))"
  by (simp add: toHttpResponse_def head_lines_def lines_block_def createStatusLine_def comp_def)

text \<open>Nothing in the head contains a carriage return.\<close>

definition clean_head :: "HttpResponse \<Rightarrow> bool" where
  "clean_head r \<longleftrightarrow> CR \<notin> set (httpVersion (statusLine r)) \<and> CR \<notin> set (statusPhrase (statusLine r)) \<and>
     list_all (\<lambda>(k, v). CR \<notin> set k \<and> CR \<notin> set v) (resp_headers r)"

lemma clean_head_lines: "clean_head r \<Longrightarrow> \<forall>l \<in> set (head_lines rank r). text_line l"
  using to_string_no_break
  by (auto simp: clean_head_def head_lines_def text_line_def header_line_def list_all_iff)

lemma response_split:
  assumes "clean_head r"
  shows "\<exists>n. find_str DOUBLE_CRLF (toHttpResponse rank after r) = Some n \<and>
    take (n + 2) (toHttpResponse rank after r) = lines_block (head_lines rank r) \<and>
    drop (n + 4) (toHttpResponse rank after r) =
      (if resp_body r = [] then [] else cstr (resp_body r @ after))"
proof -
  let ?b = "lines_block (head_lines rank r)"
  have "find_str DOUBLE_CRLF (toHttpResponse rank after r) = Some (length ?b - 2)"
    unfolding toHttpResponse_lines
    by (rule find_blank_line [OF clean_head_lines [OF assms]]) (simp add: head_lines_def)
  moreover have "2 \<le> length ?b" by (simp add: head_lines_def)
  ultimately show ?thesis by (simp add: toHttpResponse_lines)
qed

section \<open>Properties\<close>

lemma cstr_eq_self_iff: "cstr s = s \<longleftrightarrow> NUL \<notin> set s"
  using NUL_notin_cstr [of s] cstr_id by fastforce

lemma emitted_eq_body_iff:
  "(if body = [] then [] else cstr (body @ after)) = body \<longleftrightarrow>
     body = [] \<or> NUL \<notin> set body \<and> cstr after = []"
proof (cases "NUL \<in> set body")
  case True
  then show ?thesis using cstr_eq_self_iff [of body] by (auto simp: cstr_append_NUL)
next
  case False
  then show ?thesis by (auto simp: cstr_append_clean)
qed

text \<open>
  C8: Framing of a built response. Whatever headers the builder was given, the serialised response
  has one line announcing the length of the body; splitting it at the first blank line, as a client
  does, gives back the head lines and, after it, the text that \<open>operator<<(const char*)\<close> printed:
  this is the announced body if and only if the body is empty or has no NUL byte and is followed by
  a NUL in memory.
\<close>

theorem response_framing:
  assumes "builder_ok b" "clean_head (build b)"
  shows "\<exists>n. find_str DOUBLE_CRLF (toHttpResponse rank after (build b)) = Some n \<and>
    take (n + 2) (toHttpResponse rank after (build b)) = lines_block (head_lines rank (build b)) \<and>
    header_line (''Content-Length'', to_string (int (length (bld_body b))))
      \<in> set (head_lines rank (build b)) \<and>
    (drop (n + 4) (toHttpResponse rank after (build b)) = bld_body b \<longleftrightarrow>
       bld_body b = [] \<or> NUL \<notin> set (bld_body b) \<and> cstr after = [])"
proof -
  from assms(1) have "umap_ok (resp_headers (build b))"
    using response_ok_build response_ok_def by blast
  moreover have "umap_find (resp_headers (build b)) ''Content-Length'' =
      Some (to_string (int (length (bld_body b))))"
    using build_simps(2) [of b] by (simp add: resp_getHeader_def)
  ultimately have "(''Content-Length'', to_string (int (length (bld_body b))))
      \<in> set (umap_iterate rank (resp_headers (build b)))"
    by (simp only: umap.iter_set)
  then have "header_line (''Content-Length'', to_string (int (length (bld_body b))))
      \<in> set (head_lines rank (build b))"
    by (simp add: head_lines_def)
  with response_split [OF assms(2), of rank after] emitted_eq_body_iff [of "bld_body b" after]
  show ?thesis by auto
qed

theorem response_framing_witness:
  "\<exists>n. find_str DOUBLE_CRLF (toHttpResponse (\<lambda>_ _. 0) [NUL] (build (withBody ''hi'' builder_create)))
      = Some n \<and>
    drop (n + 4) (toHttpResponse (\<lambda>_ _. 0) [NUL] (build (withBody ''hi'' builder_create))) = ''hi''"
proof -
  let ?b = "withBody ''hi'' builder_create"
  have body: "bld_body ?b = ''hi''" by (simp add: builder_defs)
  have "CR \<notin> set (to_string 2)" using to_string_no_break by blast
  then have "clean_head (build ?b)"
    by (simp add: clean_head_def build_def HttpResponse_new_def resp_setHeader_def builder_defs
        umap_assign_def umap_empty_def cstr_def)
  from response_framing [OF builder_ok_headers(2) [OF builder_ok_create] this, of "\<lambda>_ _. 0" "[NUL]"]
  show ?thesis unfolding body by (auto simp: cstr_def)
qed

end
