(* ===== verification/StaticFile.thy ===== *)
theory StaticFile
  imports HttpRequest HttpResponse
begin

text \<open>
  \<^verbatim>\<open>handlers/StaticFile.hpp\<close>, \<^verbatim>\<open>StaticFile.cpp\<close> and the two middlewares. A resolver gets the request (a
  copy) and the stream the request may read its body from, and returns a response or throws.

  The file system is the argument \<open>fs\<close>: the content that \<open>std::ifstream\<close> finds under a path, or
  \<^term>\<open>None\<close> when it cannot be opened. The path reaches the operating system as a C string.
\<close>

type_synonym resolver = "HttpRequest \<Rightarrow> istream \<Rightarrow> (exn + HttpResponse) \<times> istream"
type_synonym file_system = "string \<Rightarrow> string option"

section \<open>Resolvers\<close>

definition NOT_FOUND_BODY :: string where
  "NOT_FOUND_BODY = ''<h1>404 Not Found</h1>''"

definition NOT_FOUND_RESPONSE :: HttpResponse where
  "NOT_FOUND_RESPONSE =
     build (withHeader ''Content-Length'' (to_string (int (length NOT_FOUND_BODY)))
       (withHeader ''Content-Type'' ''text/html''
         (withBody NOT_FOUND_BODY
           (withStatusPhrase ''Not Found'' (withStatusCode 404 builder_create)))))"

definition NOT_FOUND_RESOLVER :: resolver where
  "NOT_FOUND_RESOLVER request s = (Inr NOT_FOUND_RESPONSE, s)"

text \<open>The response both resolvers build from what \<open>std::getline(file, out, '\0')\<close> has read.\<close>

definition file_response :: "string \<Rightarrow> string \<Rightarrow> HttpResponse" where
  "file_response contentType out =
     build (withStatusPhrase ''OK'' (withStatusCode 200
       (withHeader ''Content-Length'' (to_string (int (length out)))
         (withHeader ''Content-Type'' contentType
           (withBody out builder_create)))))"

definition uriToStaticFile :: "file_system \<Rightarrow> string \<Rightarrow> string \<Rightarrow> resolver \<Rightarrow> resolver" where
  "uriToStaticFile fs path contentType notFoundResolver request s =
     (case fs (cstr path) of
        None \<Rightarrow> notFoundResolver request s
      | Some content \<Rightarrow> (Inr (file_response contentType (cstr content)), s))"

definition serveFolder :: "file_system \<Rightarrow> string \<Rightarrow> resolver \<Rightarrow> resolver" where
  "serveFolder fs folderPath notFoundResolver request s =
     (case fs (cstr (folderPath @ req_rawUri request)) of
        None \<Rightarrow> notFoundResolver request s
      | Some content \<Rightarrow> (Inr (file_response ''text/html'' (cstr content)), s))"

section \<open>Middlewares\<close>

text \<open>
  A pre-middleware may change the request and stop the chain with a response; a post-middleware may
  change the response and says whether to go on.
\<close>

type_synonym pre_middleware =
  "HttpRequest \<Rightarrow> istream \<Rightarrow> (exn + HttpResponse option) \<times> HttpRequest \<times> istream"
type_synonym post_middleware = "HttpResponse \<Rightarrow> (exn + bool) \<times> HttpResponse"

definition addHeaderToResponse :: "string \<Rightarrow> string \<Rightarrow> post_middleware" where
  "addHeaderToResponse key value resp = (Inr True, resp_setHeader key value resp)"

text \<open>
  The resolver inside \<open>useFolder\<close> is a function-local \<^verbatim>\<open>static\<close>: one variable for every middleware
  that \<open>useFolder\<close> ever returns, initialised by the first call of any of them. Its value is the
  state \<open>fileResolver\<close>, the folder it was made for.
\<close>

definition useFolder ::
    "file_system \<Rightarrow> string \<Rightarrow> string option \<Rightarrow> HttpRequest \<Rightarrow> istream
      \<Rightarrow> ((exn + HttpResponse option) \<times> HttpRequest \<times> istream) \<times> string option" where
  "useFolder fs path fileResolver req s =
     (let folder = (case fileResolver of None \<Rightarrow> path | Some p \<Rightarrow> p);
          (response, s') = serveFolder fs folder NOT_FOUND_RESOLVER req s
      in ((case response of
             Inl e \<Rightarrow> (Inl e, req, s')
           | Inr resp \<Rightarrow>
               (Inr (if statusCode (statusLine resp) = 404 then None else Some resp), req, s')),
          Some folder))"

section \<open>Lemmas\<close>

lemma file_response_simps [simp]:
  "resp_body (file_response t out) = out"
  "statusCode (statusLine (file_response t out)) = 200"
  "resp_getHeader ''Content-Length'' (file_response t out) = Some (to_string (int (length out)))"
  by (simp_all add: file_response_def build_def HttpResponse_new_def resp_setHeader_def
      resp_getHeader_def builder_defs)

lemma not_found_status [simp]: "statusCode (statusLine NOT_FOUND_RESPONSE) = 404"
  by (simp add: NOT_FOUND_RESPONSE_def build_def HttpResponse_new_def resp_setHeader_def builder_defs)

section \<open>Properties\<close>

text \<open>
  Serving a folder. The file that is opened is the one named by the folder followed by the raw
  request uri, up to the first NUL, with no check of any kind (so a uri with \<^verbatim>\<open>..\<close> leaves the folder);
  what is sent is its content up to the first NUL byte, announced with that length and status 200;
  when the file cannot be opened, the given resolver answers.
\<close>

theorem serveFolder_spec:
  "case fs (cstr (folder @ req_rawUri request)) of
     None \<Rightarrow> serveFolder fs folder notFound request s = notFound request s
   | Some content \<Rightarrow>
       (\<exists>resp. serveFolder fs folder notFound request s = (Inr resp, s) \<and>
         statusCode (statusLine resp) = 200 \<and> resp_body resp = cstr content \<and>
         resp_getHeader ''Content-Length'' resp = Some (to_string (int (length (cstr content)))))"
  by (simp add: serveFolder_def split: option.split)

text \<open>
  All folders are the first folder. Once a middleware made by \<open>useFolder\<close> has run, every other
  one, whatever its own path, serves from the folder of that first one; a missing file lets the
  chain go on and a found one stops it.
\<close>

theorem useFolder_shares_first_folder:
  "\<exists>result. useFolder fs first None req s = (result, Some first) \<and>
    useFolder fs path (Some first) req s = (result, Some first) \<and>
    result = ((case fs (cstr (first @ req_rawUri req)) of
      None \<Rightarrow> Inr None
    | Some content \<Rightarrow> Inr (Some (file_response ''text/html'' (cstr content)))), req, s)"
  by (auto simp: useFolder_def serveFolder_def NOT_FOUND_RESOLVER_def not_found_status Let_def
      split: option.split)

end
