(* ===== verification/HttpProtocol.thy ===== *)
theory HttpProtocol
  imports Prelude
begin

text \<open>
  \<^verbatim>\<open>lightning/HttpProtocol.hpp\<close>: the supported methods and their names. The enumerators stand in
  the order of the source, which is also the order of the table of names.
\<close>

datatype Method =
  Options | Get | Head | Post | Put | Delete | Trace | Connect | Methods_COUNT

definition supportedHttpMethods :: "string list" where
  "supportedHttpMethods =
     [''OPTIONS'', ''GET'', ''HEAD'', ''POST'', ''PUT'', ''DELETE'', ''TRACE'', ''CONNECT'']"

text \<open>\<open>static_cast<int>\<close> of an enumerator.\<close>

fun method_index :: "Method \<Rightarrow> nat" where
  "method_index Options = 0"
| "method_index Get = 1"
| "method_index Head = 2"
| "method_index Post = 3"
| "method_index Put = 4"
| "method_index Delete = 5"
| "method_index Trace = 6"
| "method_index Connect = 7"
| "method_index Methods_COUNT = 8"

text \<open>\<open>std::array::at\<close> throws when the index is out of range, which only the counter is.\<close>

definition convertMethodToString :: "Method \<Rightarrow> string outcome" where
  "convertMethodToString method =
     (let index = method_index method
      in if index < length supportedHttpMethods
         then Returns (supportedHttpMethods ! index)
         else Throws (OutOfRange ''array::at''))"

lemma method_index_inj: "method_index a = method_index b \<Longrightarrow> a = b"
  by (cases a; cases b) simp_all

instantiation Method :: linorder
begin

definition less_eq_Method :: "Method \<Rightarrow> Method \<Rightarrow> bool" where
  "less_eq_Method a b \<longleftrightarrow> method_index a \<le> method_index b"

definition less_Method :: "Method \<Rightarrow> Method \<Rightarrow> bool" where
  "less_Method a b \<longleftrightarrow> method_index a < method_index b"

instance
proof
  fix a b c :: Method
  show "a < b \<longleftrightarrow> a \<le> b \<and> \<not> b \<le> a" unfolding less_eq_Method_def less_Method_def by arith
  show "a \<le> a" unfolding less_eq_Method_def by simp
  show "a \<le> b \<Longrightarrow> b \<le> c \<Longrightarrow> a \<le> c" unfolding less_eq_Method_def by simp
  show "a \<le> b \<or> b \<le> a" unfolding less_eq_Method_def by arith
  show "a \<le> b \<Longrightarrow> b \<le> a \<Longrightarrow> a = b"
    unfolding less_eq_Method_def by (intro method_index_inj) simp
qed

end

lemma distinct_methods: "distinct supportedHttpMethods"
  by (simp add: supportedHttpMethods_def)

text \<open>The real methods are those below the counter.\<close>

lemma real_method_iff: "m < Methods_COUNT \<longleftrightarrow> m \<noteq> Methods_COUNT"
  by (cases m) (simp_all add: less_Method_def)

lemma convertMethodToString_real:
  "m < Methods_COUNT \<Longrightarrow> \<exists>s \<in> set supportedHttpMethods. convertMethodToString m = Returns s"
  by (cases m) (simp_all add: convertMethodToString_def supportedHttpMethods_def less_Method_def)

lemma convertMethodToString_inj:
  assumes "convertMethodToString m = Returns s" "convertMethodToString m' = Returns s"
  shows "m = m'"
proof (rule method_index_inj)
  from assms show "method_index m = method_index m'"
    using nth_eq_iff_index_eq [OF distinct_methods]
    by (auto simp: convertMethodToString_def Let_def split: if_splits)
qed

end
