(* ===== verification/MpmcQueue.thy ===== *)
theory MpmcQueue
  imports Prelude "HOL-Library.Multiset"
begin

text \<open>
  What the program relies on of \<^verbatim>\<open>moodycamel::ConcurrentQueue\<close> and \<^verbatim>\<open>BlockingConcurrentQueue\<close>: a queue
  for many producers and consumers in which the elements of one producer leave in the order in
  which they came, and nothing is said about elements of different producers.

  \<open>q_items\<close> lists the elements with the producer (the thread) that enqueued them, in the order of
  arrival. Which producer a consumer serves next is up to the implementation: it is read off the
  script \<open>q_choice\<close>, and all theorems hold for every script.
\<close>

record 'a mpmc =
  q_items :: "(nat \<times> 'a) list"
  q_choice :: "nat list"

definition mpmc_new :: "nat list \<Rightarrow> 'a mpmc" where
  "mpmc_new choice = \<lparr>q_items = [], q_choice = choice\<rparr>"

definition enqueue :: "nat \<Rightarrow> 'a \<Rightarrow> 'a mpmc \<Rightarrow> 'a mpmc" where
  "enqueue producer x q = q\<lparr>q_items := q_items q @ [(producer, x)]\<rparr>"

fun take_from :: "nat \<Rightarrow> (nat \<times> 'a) list \<Rightarrow> ('a \<times> (nat \<times> 'a) list) option" where
  "take_from p [] = None"
| "take_from p ((p', x) # xs) =
     (if p' = p then Some (x, xs)
      else map_option (\<lambda>(y, ys). (y, (p', x) # ys)) (take_from p xs))"

definition next_producer :: "'a mpmc \<Rightarrow> nat" where
  "next_producer q =
     (let ps = remdups (map fst (q_items q));
          c = (case q_choice q of [] \<Rightarrow> 0 | c # cs \<Rightarrow> c)
      in ps ! (c mod length ps))"

definition try_dequeue :: "'a mpmc \<Rightarrow> ('a \<times> 'a mpmc) option" where
  "try_dequeue q =
     (if q_items q = [] then None
      else map_option (\<lambda>(x, xs). (x, q\<lparr>q_items := xs, q_choice := tl (q_choice q)\<rparr>))
             (take_from (next_producer q) (q_items q)))"

section \<open>The interface\<close>

locale producer_fifo =
  fixes enq :: "nat \<Rightarrow> 'a \<Rightarrow> 'q \<Rightarrow> 'q"
    and deq :: "'q \<Rightarrow> ('a \<times> 'q) option"
    and items :: "'q \<Rightarrow> (nat \<times> 'a) list"
  assumes items_enq: "items (enq p x q) = items q @ [(p, x)]"
    and deq_None: "deq q = None \<longleftrightarrow> items q = []"
    and deq_Some: "deq q = Some (x, q') \<Longrightarrow>
      \<exists>p us vs. items q = us @ (p, x) # vs \<and> items q' = us @ vs \<and> p \<notin> fst ` set us"
begin

lemma deq_mset: "deq q = Some (x, q') \<Longrightarrow>
    mset (map snd (items q)) = add_mset x (mset (map snd (items q')))"
  by (auto dest!: deq_Some)

lemma deq_length: "deq q = Some (x, q') \<Longrightarrow> length (items q) = Suc (length (items q'))"
  by (auto dest!: deq_Some)

lemma deq_mem: "deq q = Some (x, q') \<Longrightarrow> x \<in> snd ` set (items q)"
  by (force dest!: deq_Some)

lemma deq_subset: "deq q = Some (x, q') \<Longrightarrow> set (items q') \<subseteq> set (items q)"
  by (auto dest!: deq_Some)

text \<open>With one producer the queue is first-in first-out.\<close>

lemma deq_fifo:
  assumes "deq q = Some (x, q')" "\<forall>e \<in> set (items q). fst e = p"
  shows "items q = (p, x) # items q'"
proof -
  from deq_Some [OF assms(1)] obtain p' us vs where
    split: "items q = us @ (p', x) # vs" "items q' = us @ vs" "p' \<notin> fst ` set us" by blast
  from split(1) assms(2) have "p' = p" by simp
  with split assms(2) have "us = []" by (cases us) auto
  with split \<open>p' = p\<close> show ?thesis by simp
qed

end

section \<open>The model provides it\<close>

lemma take_from_Some:
  "take_from p xs = Some (x, ys) \<Longrightarrow>
     \<exists>us vs. xs = us @ (p, x) # vs \<and> ys = us @ vs \<and> p \<notin> fst ` set us"
proof (induction p xs arbitrary: x ys rule: take_from.induct)
  case (2 p p' y xs)
  show ?case
  proof (cases "p' = p")
    case True
    with 2 show ?thesis by (intro exI [of _ "[]"] exI [of _ xs]) simp
  next
    case False
    with 2(2) obtain zs where "take_from p xs = Some (x, zs)" "ys = (p', y) # zs" by auto
    with 2(1) [OF False] obtain us vs where
      "xs = us @ (p, x) # vs" "ys = (p', y) # us @ vs" "p \<notin> fst ` set us" by blast
    with False show ?thesis by (intro exI [of _ "(p', y) # us"] exI [of _ vs]) simp
  qed
qed simp

lemma take_from_None: "take_from p xs = None \<longleftrightarrow> p \<notin> fst ` set xs"
  by (induction p xs rule: take_from.induct) auto

lemma next_producer_mem: "q_items q \<noteq> [] \<Longrightarrow> next_producer q \<in> fst ` set (q_items q)"
proof -
  let ?ps = "remdups (map fst (q_items q))"
  assume "q_items q \<noteq> []"
  then have "?ps \<noteq> []" by simp
  then have "?ps ! (c mod length ?ps) \<in> set ?ps" for c by (intro nth_mem) simp
  then show ?thesis by (simp add: next_producer_def Let_def)
qed

interpretation mpmc: producer_fifo enqueue try_dequeue q_items
proof
  fix p :: nat and x :: 'a and q q' :: "'a mpmc"
  show "q_items (enqueue p x q) = q_items q @ [(p, x)]" by (simp add: enqueue_def)
  show "try_dequeue q = None \<longleftrightarrow> q_items q = []"
    using next_producer_mem [of q] by (auto simp: try_dequeue_def take_from_None)
  show "try_dequeue q = Some (x, q') \<Longrightarrow>
      \<exists>p us vs. q_items q = us @ (p, x) # vs \<and> q_items q' = us @ vs \<and> p \<notin> fst ` set us"
    using take_from_Some [of "next_producer q" "q_items q" x]
    by (auto simp: try_dequeue_def split: if_splits)
qed

lemma q_items_new [simp]: "q_items (mpmc_new choice) = []"
  by (simp add: mpmc_new_def)

end
