(* ===== verification/FdChannels.thy ===== *)
theory FdChannels
  imports Client MpmcQueue
begin

text \<open>
  \<^verbatim>\<open>httpServer/FdChannels.hpp\<close>: the two channels between the accepting thread, the event loop and the
  workers. Each is a queue and a non-blocking pipe whose bytes wake the event loop up.

  A pipe is the number of bytes in it and whether its write end is open; a write to a full pipe
  fails with \<open>EAGAIN\<close>, which the program ignores.
\<close>

record pipe =
  pipe_bytes :: nat
  pipe_open :: bool

definition PIPE_CAPACITY :: nat where "PIPE_CAPACITY = 65536"

definition pipe_new :: pipe where
  "pipe_new = \<lparr>pipe_bytes = 0, pipe_open = True\<rparr>"

definition pipe_write_byte :: "pipe \<Rightarrow> pipe" where
  "pipe_write_byte p =
     (if pipe_open p \<and> pipe_bytes p < PIPE_CAPACITY then p\<lparr>pipe_bytes := pipe_bytes p + 1\<rparr> else p)"

definition pipe_close_write :: "pipe \<Rightarrow> pipe" where
  "pipe_close_write p = p\<lparr>pipe_open := False\<rparr>"

text \<open>\<open>read\<close>: the bytes there are; 0 at the end of file, -1 (\<open>EAGAIN\<close>) when there is nothing yet.\<close>

definition pipe_read :: "nat \<Rightarrow> pipe \<Rightarrow> int \<times> pipe" where
  "pipe_read n p =
     (if pipe_bytes p = 0 then (if pipe_open p then -1 else 0, p)
      else (int (min n (pipe_bytes p)), p\<lparr>pipe_bytes := pipe_bytes p - min n (pipe_bytes p)\<rparr>))"

text \<open>\<open>epoll_wait\<close> reports the read end when there is data or the other end is closed.\<close>

definition pipe_readable :: "pipe \<Rightarrow> bool" where
  "pipe_readable p \<longleftrightarrow> pipe_bytes p \<noteq> 0 \<or> \<not> pipe_open p"

record NewFdChannel =
  nf_clients :: "IClient mpmc"
  nf_pipe :: pipe

record ReturnedConnection =
  rc_client :: IClient
  rc_keepAlive :: bool

record ReturnChannel =
  rt_connections :: "ReturnedConnection mpmc"
  rt_pipe :: pipe

definition NewFdChannel_new :: "nat list \<Rightarrow> NewFdChannel" where
  "NewFdChannel_new choice = \<lparr>nf_clients = mpmc_new choice, nf_pipe = pipe_new\<rparr>"

definition ReturnChannel_new :: "nat list \<Rightarrow> ReturnChannel" where
  "ReturnChannel_new choice = \<lparr>rt_connections = mpmc_new choice, rt_pipe = pipe_new\<rparr>"

text \<open>Handing a client over: enqueue it, then write one byte.\<close>

definition announce_client :: "nat \<Rightarrow> IClient \<Rightarrow> NewFdChannel \<Rightarrow> NewFdChannel" where
  "announce_client thread client ch =
     ch\<lparr>nf_clients := enqueue thread client (nf_clients ch),
        nf_pipe := pipe_write_byte (nf_pipe ch)\<rparr>"

definition announce_return :: "nat \<Rightarrow> ReturnedConnection \<Rightarrow> ReturnChannel \<Rightarrow> ReturnChannel" where
  "announce_return thread rc ch =
     ch\<lparr>rt_connections := enqueue thread rc (rt_connections ch),
        rt_pipe := pipe_write_byte (rt_pipe ch)\<rparr>"

text \<open>A wake-up is never lost: after an announcement the pipe is readable.\<close>

lemma announce_client_simps [simp]:
  "q_items (nf_clients (announce_client t c ch)) = q_items (nf_clients ch) @ [(t, c)]"
  "pipe_readable (nf_pipe (announce_client t c ch))"
  "pipe_open (nf_pipe (announce_client t c ch)) = pipe_open (nf_pipe ch)"
  by (auto simp: announce_client_def mpmc.items_enq pipe_write_byte_def pipe_readable_def
      PIPE_CAPACITY_def)

lemma announce_return_simps [simp]:
  "q_items (rt_connections (announce_return t rc ch)) = q_items (rt_connections ch) @ [(t, rc)]"
  "pipe_readable (rt_pipe (announce_return t rc ch))"
  "pipe_open (rt_pipe (announce_return t rc ch)) = pipe_open (rt_pipe ch)"
  by (auto simp: announce_return_def mpmc.items_enq pipe_write_byte_def pipe_readable_def
      PIPE_CAPACITY_def)

end
