(* ===== verification/HttpServer.thy ===== *)
theory HttpServer
  imports StaticFile HttpProtocol FdChannels
begin

text \<open>
  \<^verbatim>\<open>MiddlewareContainer.hpp\<close>, \<^verbatim>\<open>HttpServer.hpp\<close> and \<^verbatim>\<open>HttpServer.cpp\<close>: the registered resolvers and
  middlewares, and the accepting thread. The two channels, members of the class in the source, are
  separate state (\<open>FdChannels\<close>); the event loop started by \<open>start\<close> is the theory \<open>ClientManager\<close>.
\<close>

section \<open>State\<close>

record MiddlewareContainer =
  preMiddlewares :: "pre_middleware list"
  postMiddlewares :: "post_middleware list"

definition addPre :: "pre_middleware \<Rightarrow> MiddlewareContainer \<Rightarrow> MiddlewareContainer" where
  "addPre m c = c\<lparr>preMiddlewares := preMiddlewares c @ [m]\<rparr>"

definition addPost :: "post_middleware \<Rightarrow> MiddlewareContainer \<Rightarrow> MiddlewareContainer" where
  "addPost m c = c\<lparr>postMiddlewares := postMiddlewares c @ [m]\<rparr>"

record HttpServer =
  srv_resolvers :: "(string, resolver uri_mapper) umap"
  defaultGetResolver :: "resolver option"
  middlewares :: MiddlewareContainer
  threadCount :: int

text \<open>The constructor registers an empty mapper for each supported method.\<close>

definition HttpServer_new :: "int \<Rightarrow> HttpServer" where
  "HttpServer_new threads =
     \<lparr>srv_resolvers =
        foldl (\<lambda>m (k, v). umap_insert k v m) umap_empty
          (map (\<lambda>m. (m, UriMapper_new)) supportedHttpMethods),
      defaultGetResolver = None,
      middlewares = \<lparr>preMiddlewares = [], postMiddlewares = []\<rparr>,
      threadCount = threads\<rparr>"

section \<open>Registration\<close>

definition addResolver ::
    "Method \<Rightarrow> string \<Rightarrow> resolver \<Rightarrow> HttpServer \<Rightarrow> HttpServer outcome" where
  "addResolver m uri r s =
     and_then (convertMethodToString m) (\<lambda>methodString.
       case umap_find (srv_resolvers s) methodString of
         None \<Rightarrow> Throws (OutOfRange ''unordered_map::at'')
       | Some mapper \<Rightarrow>
           and_then (UriMapper_add uri r mapper) (\<lambda>(mapper', r').
             Returns (s\<lparr>srv_resolvers := umap_assign methodString mapper' (srv_resolvers s)\<rparr>)))"

definition server_get :: "string \<Rightarrow> resolver \<Rightarrow> HttpServer \<Rightarrow> HttpServer outcome" where
  "server_get uri r s =
     (if uri = ''*'' then Returns (s\<lparr>defaultGetResolver := Some r\<rparr>) else addResolver Get uri r s)"

definition server_post :: "string \<Rightarrow> resolver \<Rightarrow> HttpServer \<Rightarrow> HttpServer outcome" where
  "server_post uri r s = addResolver Post uri r s"

definition server_put :: "string \<Rightarrow> resolver \<Rightarrow> HttpServer \<Rightarrow> HttpServer outcome" where
  "server_put uri r s = addResolver Put uri r s"

definition server_head :: "string \<Rightarrow> resolver \<Rightarrow> HttpServer \<Rightarrow> HttpServer outcome" where
  "server_head uri r s = addResolver Head uri r s"

definition resolveDelete :: "string \<Rightarrow> resolver \<Rightarrow> HttpServer \<Rightarrow> HttpServer outcome" where
  "resolveDelete uri r s = addResolver Delete uri r s"

definition usePreMiddleware :: "pre_middleware \<Rightarrow> HttpServer \<Rightarrow> HttpServer" where
  "usePreMiddleware m s = s\<lparr>middlewares := addPre m (middlewares s)\<rparr>"

definition usePostMiddleware :: "post_middleware \<Rightarrow> HttpServer \<Rightarrow> HttpServer" where
  "usePostMiddleware m s = s\<lparr>middlewares := addPost m (middlewares s)\<rparr>"

section \<open>Lookup\<close>

text \<open>\<open>regexUri\<close> is an output argument: it changes only when a resolver was found.\<close>

definition getResolver ::
    "string bucket_rank \<Rightarrow> string \<Rightarrow> string \<Rightarrow> string \<Rightarrow> HttpServer \<Rightarrow> resolver option \<times> string" where
  "getResolver rank m uri regexUri s =
     (case umap_find (srv_resolvers s) m of
        None \<Rightarrow> (None, regexUri)
      | Some urisMap \<Rightarrow>
          (case UriMapper_match rank urisMap uri of
             None \<Rightarrow> (None, regexUri)
           | Some (r, rgx) \<Rightarrow> (Some r, rgx)))"

definition getResolver_discard ::
    "string bucket_rank \<Rightarrow> string \<Rightarrow> string \<Rightarrow> HttpServer \<Rightarrow> resolver option" where
  "getResolver_discard rank m uri s = fst (getResolver rank m uri [] s)"

definition default_response :: HttpResponse where
  "default_response = build (withStatusPhrase ''Not Found'' (withStatusCode 404 builder_create))"

definition defaultResolver :: resolver where
  "defaultResolver request s = (Inr default_response, s)"

section \<open>The accepting thread\<close>

text \<open>
  \<open>accepts\<close> is what successive calls of \<open>lowLevelServer->accept()\<close> do; \<open>shouldStop n\<close> is what the
  predicate answers after the client number \<open>n\<close>. An exception out of \<open>accept\<close> unwinds \<open>start\<close> while
  the thread object of the event loop is still joinable, which ends the process. When the script is
  used up the thread is blocked in \<open>accept\<close>.
\<close>

datatype accept_event = Accepted IClient | AcceptFails exn

datatype 'a start_outcome = Stopped 'a | Terminated exn | Blocked 'a

definition neverStop :: "nat \<Rightarrow> bool" where
  "neverStop n = False"

fun start_loop ::
    "nat \<Rightarrow> (nat \<Rightarrow> bool) \<Rightarrow> nat \<Rightarrow> accept_event list \<Rightarrow> NewFdChannel \<Rightarrow> NewFdChannel start_outcome" where
  "start_loop thread shouldStop n [] ch = Blocked ch"
| "start_loop thread shouldStop n (AcceptFails e # as) ch = Terminated e"
| "start_loop thread shouldStop n (Accepted client # as) ch =
     (let ch' = announce_client thread client ch
      in if \<not> shouldStop n then start_loop thread shouldStop (Suc n) as ch'
         else Stopped (ch'\<lparr>nf_pipe := pipe_close_write (nf_pipe ch')\<rparr>))"

definition start ::
    "nat \<Rightarrow> (nat \<Rightarrow> bool) \<Rightarrow> nat list \<Rightarrow> accept_event list \<Rightarrow> NewFdChannel start_outcome" where
  "start thread shouldStop choice as =
     start_loop thread shouldStop 1 as (NewFdChannel_new choice)"

section \<open>Invariant\<close>

text \<open>Exactly the supported methods have a mapper, and every mapper is well formed.\<close>

definition server_ok :: "HttpServer \<Rightarrow> bool" where
  "server_ok s \<longleftrightarrow>
     umap_ok (srv_resolvers s) \<and>
     (\<forall>m. (umap_find (srv_resolvers s) m \<noteq> None) = (m \<in> set supportedHttpMethods)) \<and>
     (\<forall>m mapper. umap_find (srv_resolvers s) m = Some mapper \<longrightarrow> mapper_ok mapper)"

lemma map_of_const: "map_of (map (\<lambda>k. (k, v)) ks) k = (if k \<in> set ks then Some v else None)"
  by (induction ks) auto

lemma server_new_find:
  "umap_find (srv_resolvers (HttpServer_new n)) m =
     (if m \<in> set supportedHttpMethods then Some UriMapper_new else None)"
  by (simp add: HttpServer_new_def umap.first_value_wins map_of_const)

lemma server_ok_new: "server_ok (HttpServer_new n)"
  by (simp add: server_ok_def server_new_find) (simp add: HttpServer_new_def umap.ok_fold_ins)

lemma convertMethodToString_supported:
  "convertMethodToString m = Returns name \<Longrightarrow> name \<in> set supportedHttpMethods"
  by (auto simp: convertMethodToString_def Let_def split: if_splits)

text \<open>What a successful registration does: it replaces one mapper.\<close>

lemma addResolver_Returns:
  assumes "convertMethodToString m = Returns name" "umap_find (srv_resolvers s) name = Some mapper"
    and "UriMapper_add uri r mapper = Returns (mapper', r')"
  shows "addResolver m uri r s =
    Returns (s\<lparr>srv_resolvers := umap_assign name mapper' (srv_resolvers s)\<rparr>)"
  using assms by (simp add: addResolver_def)

lemma server_ok_add:
  assumes "server_ok s" "addResolver m uri r s = Returns s'"
  shows "server_ok s'"
proof -
  obtain name mapper mapper' r' where
    name: "convertMethodToString m = Returns name" "umap_find (srv_resolvers s) name = Some mapper"
    and add: "UriMapper_add uri r mapper = Returns (mapper', r')"
    and s': "s' = s\<lparr>srv_resolvers := umap_assign name mapper' (srv_resolvers s)\<rparr>"
    using assms(2) by (auto simp: addResolver_def and_then_Returns_iff split: option.splits)
  from assms(1) name have "mapper_ok mapper" by (simp add: server_ok_def)
  then have "mapper_ok mapper'" using add by (rule mapper_ok_add)
  with assms(1) name s' convertMethodToString_supported [OF name(1)] show ?thesis
    by (auto simp: server_ok_def)
qed

lemma addResolver_pattern:
  assumes "server_ok s" "convertMethodToString m = Returns name"
    and "umap_find (srv_resolvers s) name = Some mapper"
    and "uri_pattern uri = Returns p" "compile p = Returns rgx" "others_reject mapper p path"
  shows "\<exists>s'. addResolver m uri r s = Returns s' \<and> server_ok s' \<and>
    middlewares s' = middlewares s \<and> defaultGetResolver s' = defaultGetResolver s \<and>
    getResolver rank name path old s' = (if rx_accepts rgx path then (Some r, p) else (None, old)) \<and>
    (\<forall>name'. name' \<noteq> name \<longrightarrow>
      umap_find (srv_resolvers s') name' = umap_find (srv_resolvers s) name')"
proof -
  from assms(1,3) have "mapper_ok mapper" by (simp add: server_ok_def)
  from add_pattern [OF this assms(4-6), of r rank] obtain mapper' where
    add: "UriMapper_add uri r mapper = Returns (mapper', r)"
    and hit: "UriMapper_match rank mapper' path = (if rx_accepts rgx path then Some (r, p) else None)"
    by blast
  note added = addResolver_Returns [OF assms(2,3) add]
  from server_ok_add [OF assms(1) added] added hit show ?thesis
    by (auto simp: getResolver_def)
qed

section \<open>Properties\<close>

text \<open>
  C36: Registration and lookup. On a server that satisfies the invariant (a new one does, for any
  thread count), registering an exact uri for a supported method succeeds and keeps the invariant;
  a request path of this method that no other entry accepts then finds the resolver exactly when it
  is the uri; the output argument gets the pattern only then; other methods, the middlewares and the
  default resolver are untouched.
\<close>

theorem registration_and_lookup:
  assumes "server_ok s" "convertMethodToString m = Returns name"
    and "umap_find (srv_resolvers s) name = Some mapper"
    and "plain_uri uri" "containsWildcard uri = None"
    and "others_reject mapper (''^'' @ escape special_chars uri @ ''$'') path"
  shows "server_ok (HttpServer_new n) \<and> (\<exists>s'. addResolver m uri r s = Returns s' \<and> server_ok s' \<and>
    middlewares s' = middlewares s \<and> defaultGetResolver s' = defaultGetResolver s \<and>
    getResolver rank name path old s' =
      (if cstr path = uri then (Some r, ''^'' @ escape special_chars uri @ ''$'') else (None, old)) \<and>
    (\<forall>name'. name' \<noteq> name \<longrightarrow>
      getResolver rank name' path old s' = getResolver rank name' path old s))"
proof -
  from addResolver_pattern [OF assms(1-3) uri_pattern_exact [OF assms(4,5)]
      compile_exact [OF assms(4)] assms(6), of r rank old]
  show ?thesis unfolding exact_rx_accepts
    by (auto simp: server_ok_new getResolver_def split del: if_split)
qed

theorem registration_and_lookup_witness:
  "\<exists>s'. addResolver Post ''/'' defaultResolver (HttpServer_new 7) = Returns s' \<and>
    fst (getResolver (\<lambda>_ _. 0) ''POST'' ''/'' [] s') = Some defaultResolver"
proof -
  have "convertMethodToString Post = Returns ''POST''"
    by (simp add: convertMethodToString_def supportedHttpMethods_def)
  moreover have "umap_find (srv_resolvers (HttpServer_new 7)) ''POST'' = Some UriMapper_new"
    by (simp add: server_new_find supportedHttpMethods_def)
  moreover have "plain_uri ''/''" "containsWildcard ''/'' = None"
    by (simp_all add: plain_uri_def unescaped_meta_def containsWildcard_def str_find_def)
  moreover have "others_reject UriMapper_new (''^'' @ escape special_chars ''/'' @ ''$'') ''/''"
    by (simp add: others_reject_def UriMapper_new_def umap_empty_def)
  ultimately obtain s' where "addResolver Post ''/'' defaultResolver (HttpServer_new 7) = Returns s'"
    and "getResolver (\<lambda>_ _. 0) ''POST'' ''/'' [] s' = (if cstr ''/'' = ''/''
      then (Some defaultResolver, ''^'' @ escape special_chars ''/'' @ ''$'') else (None, []))"
    using registration_and_lookup [OF server_ok_new, of Post "''POST''" 7 UriMapper_new "''/''" "''/''"
        1 defaultResolver "\<lambda>_ _. 0" "[]"]
    by blast
  then show ?thesis by (simp add: cstr_def)
qed

lemma start_loop_accepts:
  "(case start_loop t stop n (map Accepted cs) ch of
     Blocked ch' \<Rightarrow>
       q_items (nf_clients ch') = q_items (nf_clients ch) @ map (Pair t) cs \<and>
       (\<forall>j. n \<le> j \<and> j < n + length cs \<longrightarrow> \<not> stop j) \<and> pipe_open (nf_pipe ch') = pipe_open (nf_pipe ch) \<and>
       (cs \<noteq> [] \<longrightarrow> pipe_readable (nf_pipe ch'))
   | Stopped ch' \<Rightarrow>
       (\<exists>k < length cs. stop (n + k) \<and> (\<forall>j. n \<le> j \<and> j < n + k \<longrightarrow> \<not> stop j) \<and>
         q_items (nf_clients ch') = q_items (nf_clients ch) @ map (Pair t) (take (Suc k) cs) \<and>
         \<not> pipe_open (nf_pipe ch'))
   | Terminated e \<Rightarrow> False)"
proof (induction cs arbitrary: n ch)
  case Nil
  show ?case by auto
next
  case (Cons c cs)
  show ?case
  proof (cases "stop n")
    case True
    then show ?thesis
      by (auto simp: Let_def pipe_close_write_def intro!: exI [of _ 0])
  next
    case False
    let ?rest = "start_loop t stop (Suc n) (map Accepted cs) (announce_client t c ch)"
    have step: "start_loop t stop n (map Accepted (c # cs)) ch = ?rest"
      using False by (simp add: Let_def)
    note ih = Cons.IH [of "Suc n" "announce_client t c ch"]
    have later: "\<not> stop j" if "\<forall>j. Suc n \<le> j \<and> j < m \<longrightarrow> \<not> stop j" "n \<le> j" "j < m" for j m
      using that False by (cases "j = n") auto
    show ?thesis
    proof (cases ?rest)
      case (Stopped ch')
      with ih obtain k where k: "k < length cs" "stop (Suc n + k)"
        "\<forall>j. Suc n \<le> j \<and> j < Suc n + k \<longrightarrow> \<not> stop j" "\<not> pipe_open (nf_pipe ch')"
        "q_items (nf_clients ch') = q_items (nf_clients ch) @ (t, c) # map (Pair t) (take (Suc k) cs)"
        by auto
      from k later [OF k(3)] show ?thesis
        unfolding step Stopped by (auto intro!: exI [of _ "Suc k"])
    next
      case (Blocked ch')
      have "pipe_readable (nf_pipe ch')"
        using ih Blocked by (cases "cs = []") auto
      with Blocked ih later [of "Suc n + length cs"] show ?thesis
        unfolding step Blocked by auto
    next
      case (Terminated e)
      with ih show ?thesis by simp
    qed
  qed
qed

lemma start_loop_fails:
  "(\<forall>j. n \<le> j \<and> j < n + length cs \<longrightarrow> \<not> stop j) \<Longrightarrow>
     start_loop t stop n (map Accepted cs @ AcceptFails e # as) ch = Terminated e"
proof (induction cs arbitrary: n ch)
  case (Cons c cs)
  then have "\<not> stop n" by auto
  moreover have "start_loop t stop (Suc n) (map Accepted cs @ AcceptFails e # as)
      (announce_client t c ch) = Terminated e"
    using Cons.prems by (intro Cons.IH) auto
  ultimately show ?case by (simp add: Let_def)
qed simp

text \<open>
  The accepting thread. Clients are put into the channel in the order in which they were
  accepted, each with a wake-up; the loop ends after the first client for which the predicate says
  so, hence never before one was accepted, and then the write end of the pipe is closed, which is
  the shutdown signal; with \<open>neverStop\<close> it does not end. A failing \<open>accept\<close> ends the process.
\<close>

theorem start_announces_in_order:
  "(case start t stop choice (map Accepted cs) of
     Blocked ch \<Rightarrow> q_items (nf_clients ch) = map (Pair t) cs \<and> pipe_open (nf_pipe ch) \<and>
       (\<forall>j. 1 \<le> j \<and> j \<le> length cs \<longrightarrow> \<not> stop j) \<and> (cs \<noteq> [] \<longrightarrow> pipe_readable (nf_pipe ch))
   | Stopped ch \<Rightarrow> (\<exists>k. 1 \<le> k \<and> k \<le> length cs \<and> stop k \<and> (\<forall>j. 1 \<le> j \<and> j < k \<longrightarrow> \<not> stop j) \<and>
       q_items (nf_clients ch) = map (Pair t) (take k cs) \<and> \<not> pipe_open (nf_pipe ch))
   | Terminated e \<Rightarrow> False) \<and>
   (\<nexists>ch. start t neverStop choice (map Accepted cs) = Stopped ch) \<and>
   start t neverStop choice (map Accepted cs @ AcceptFails e # as) = Terminated e"
proof (intro conjI)
  have new: "q_items (nf_clients (NewFdChannel_new choice)) = []"
    "pipe_open (nf_pipe (NewFdChannel_new choice))"
    by (simp_all add: NewFdChannel_new_def pipe_new_def)
  have "\<exists>k'. 1 \<le> k' \<and> k' \<le> length cs \<and> stop k' \<and> (\<forall>j. 1 \<le> j \<and> j < k' \<longrightarrow> \<not> stop j) \<and>
       map (Pair t) (take (Suc k) cs) = map (Pair t) (take k' cs)"
    if "k < length cs" "stop (Suc k)" "\<forall>j. Suc 0 \<le> j \<and> j < Suc k \<longrightarrow> \<not> stop j" for k
    using that by (intro exI [of _ "Suc k"]) auto
  with start_loop_accepts [where t = t and stop = stop and n = 1 and cs = cs and ch = "NewFdChannel_new choice"] new
  show "(case start t stop choice (map Accepted cs) of
     Blocked ch \<Rightarrow> q_items (nf_clients ch) = map (Pair t) cs \<and> pipe_open (nf_pipe ch) \<and>
       (\<forall>j. 1 \<le> j \<and> j \<le> length cs \<longrightarrow> \<not> stop j) \<and> (cs \<noteq> [] \<longrightarrow> pipe_readable (nf_pipe ch))
   | Stopped ch \<Rightarrow> (\<exists>k. 1 \<le> k \<and> k \<le> length cs \<and> stop k \<and> (\<forall>j. 1 \<le> j \<and> j < k \<longrightarrow> \<not> stop j) \<and>
       q_items (nf_clients ch) = map (Pair t) (take k cs) \<and> \<not> pipe_open (nf_pipe ch))
   | Terminated e \<Rightarrow> False)"
    by (auto simp: start_def less_Suc_eq_le split: start_outcome.splits)
  show "\<nexists>ch. start t neverStop choice (map Accepted cs) = Stopped ch"
    using start_loop_accepts [where t = t and stop = neverStop and n = 1 and cs = cs
        and ch = "NewFdChannel_new choice"]
    by (auto simp: start_def neverStop_def)
  show "start t neverStop choice (map Accepted cs @ AcceptFails e # as) = Terminated e"
    by (simp add: start_def start_loop_fails neverStop_def)
qed

definition example_client :: IClient where
  "example_client = \<lparr>getFd = 5, getStream = PlainS example_stream\<rparr>"

theorem start_announces_in_order_witness:
  "\<exists>ch. start 0 (\<lambda>n. True) [] (map Accepted [example_client, example_client]) = Stopped ch \<and>
    q_items (nf_clients ch) = [(0, example_client)] \<and> \<not> pipe_open (nf_pipe ch)"
proof -
  obtain ch where "start 0 (\<lambda>n. True) [] (map Accepted [example_client, example_client]) = Stopped ch"
    by (simp add: start_def Let_def)
  moreover from this start_announces_in_order [where t = 0 and stop = "\<lambda>n. True" and choice = "[]"
      and cs = "[example_client, example_client]" and e = LengthError and as = "[]"]
  obtain k where "1 \<le> k" "\<forall>j. 1 \<le> j \<and> j < k \<longrightarrow> False" "\<not> pipe_open (nf_pipe ch)"
    "q_items (nf_clients ch) = map (Pair 0) (take k [example_client, example_client])" by auto
  moreover from this have "k = 1" by (cases "k = 1") auto
  ultimately show ?thesis by simp
qed

end
