(* ===== verification/ClientRequestHandler.thy ===== *)
theory ClientRequestHandler
  imports HttpServer
begin

text \<open>
  \<^verbatim>\<open>ClientRequestHandler.cpp\<close>: what a worker does with one request head: parse, resolve, answer, and
  hand the connection back. The result of \<open>operator()\<close> is the connection it signals; an exception
  that escapes (\<open>Throws\<close>) ends the process, because the worker loop does not catch it.

  \<open>env\<close> collects what the outcome depends on beside the arguments: the iteration orders of the two
  kinds of hash tables, the bytes behind the response body in memory, and the clock.
\<close>

record env =
  uri_rank :: "string bucket_rank"
  header_rank :: "string bucket_rank"
  behind_body :: string
  clock_now :: "64 word"

section \<open>Canned answers\<close>

definition BAD_REQUEST_ERROR :: string where
  "BAD_REQUEST_ERROR =
     toHttpResponse (\<lambda>_ _. 0) [NUL]
       (build (withStatusPhrase ''BadRequest'' (withStatusCode 400 builder_create)))"

definition INTERNAL_SERVER_ERROR :: string where
  "INTERNAL_SERVER_ERROR =
     toHttpResponse (\<lambda>_ _. 0) [NUL]
       (build (withStatusPhrase ''InternalError'' (withStatusCode 500 builder_create)))"

section \<open>Handling a request\<close>

definition runRequestResolver ::
    "env \<Rightarrow> HttpServer \<Rightarrow> HttpRequest \<Rightarrow> istream \<Rightarrow> HttpResponse outcome \<times> istream" where
  "runRequestResolver env server request s =
     (let (found, matched) = getResolver (uri_rank env) (req_method request) (req_rawUri request) [] server;
          resolver = (case found of Some r \<Rightarrow> r | None \<Rightarrow> defaultResolver);
          request1 = request\<lparr>req_frameworkInfo :=
            \<lparr>matchedRegex = matched, requestArrivalTime = clock_now env\<rparr>\<rparr>
      in case computeUriParameters request1 of
           Returns request2 \<Rightarrow>
             (case resolver (setStream True request2) s of
                (Inl e, s') \<Rightarrow> (Throws e, s')
              | (Inr response, s') \<Rightarrow> (Returns response, s'))
         | Throws e \<Rightarrow> (Throws e, s)
         | Diverges \<Rightarrow> (Diverges, s)
         | Unmodelled \<Rightarrow> (Unmodelled, s))"

text \<open>Writing an answer: the number of bytes the stream accepted is not looked at.\<close>

definition write_answer :: "string \<Rightarrow> bool \<Rightarrow> IClient \<Rightarrow> istream \<Rightarrow> ReturnedConnection outcome" where
  "write_answer bytes keepAlive client s =
     (case stream_write bytes s of
        (Inl e, s') \<Rightarrow> Throws e
      | (Inr n, s') \<Rightarrow> Returns \<lparr>rc_client = client\<lparr>getStream := s'\<rparr>, rc_keepAlive = keepAlive\<rparr>)"

text \<open>
  \<open>operator()\<close>. The \<^verbatim>\<open>try\<close> block covers the resolver and the writing of its response; the writes in
  the \<^verbatim>\<open>catch\<close> block and on the bad-request path are outside it.
\<close>

definition ClientRequestHandler ::
    "env \<Rightarrow> HttpServer \<Rightarrow> IClient \<Rightarrow> string \<Rightarrow> ReturnedConnection outcome" where
  "ClientRequestHandler env server client requestBuffer =
     (case createRequest requestBuffer of
        None \<Rightarrow> write_answer BAD_REQUEST_ERROR False client (getStream client)
      | Some request \<Rightarrow>
          let keepAlive = (req_getHeader ''Connection'' request = Some ''keep-alive'')
          in case runRequestResolver env server request (getStream client) of
               (Returns response, s1) \<Rightarrow>
                 let response' = resp_setHeader ''Connection''
                       (if keepAlive then ''keep-alive'' else ''close'') response;
                     responseBytes = toHttpResponse (header_rank env) (behind_body env) response'
                 in (case stream_write responseBytes s1 of
                       (Inr n, s2) \<Rightarrow>
                         Returns \<lparr>rc_client = client\<lparr>getStream := s2\<rparr>, rc_keepAlive = keepAlive\<rparr>
                     | (Inl e, s2) \<Rightarrow> write_answer INTERNAL_SERVER_ERROR False client s2)
             | (Throws e, s1) \<Rightarrow> write_answer INTERNAL_SERVER_ERROR False client s1
             | (Diverges, s1) \<Rightarrow> Diverges
             | (Unmodelled, s1) \<Rightarrow> Unmodelled)"

section \<open>Lemmas\<close>

text \<open>What a stream will do with the next writes.\<close>

fun write_plan :: "istream \<Rightarrow> send_event list + ssl_write_event list" where
  "write_plan (PlainS s) = Inl (send_plan (ps_sock s))"
| "write_plan (TlsS s) = Inr (ssl_write_plan (ss_ssl s))"

definition accepts_writes :: "istream \<Rightarrow> bool" where
  "accepts_writes s \<longleftrightarrow> write_plan s = Inl [] \<or> write_plan s = Inr []"

text \<open>A resolver only reads from the stream: it leaves the sending side alone.\<close>

definition quiet :: "istream \<Rightarrow> istream \<Rightarrow> bool" where
  "quiet s s' \<longleftrightarrow> stream_sent s' = stream_sent s \<and> write_plan s' = write_plan s"

definition resolver_for :: "env \<Rightarrow> HttpServer \<Rightarrow> HttpRequest \<Rightarrow> resolver" where
  "resolver_for env server request =
     (case fst (getResolver (uri_rank env) (req_method request) (req_rawUri request) [] server) of
        Some r \<Rightarrow> r | None \<Rightarrow> defaultResolver)"

definition quiet_resolver :: "resolver \<Rightarrow> bool" where
  "quiet_resolver r \<longleftrightarrow> (\<forall>request s. quiet s (snd (r request s)))"

lemma quiet_refl [simp]: "quiet s s"
  by (simp add: quiet_def)

lemma quiet_default [simp]: "quiet_resolver defaultResolver"
  by (simp add: quiet_resolver_def defaultResolver_def)

lemma write_accepted:
  "accepts_writes s \<Longrightarrow> \<exists>s'. stream_write bytes s = (Inr (int (length bytes)), s') \<and>
     stream_sent s' = stream_sent s @ bytes"
  by (cases s) (auto simp: accepts_writes_def PlainStream_write_def SSLStream_write_def send_def Let_def)

lemma accepts_writes_quiet: "quiet s s' \<Longrightarrow> accepts_writes s \<Longrightarrow> accepts_writes s'"
  by (simp add: quiet_def accepts_writes_def)

lemma stream_write_result:
  "stream_write bytes s = (Inl e, s') \<Longrightarrow> (\<exists>msg code errno. e = LowLevelApi msg code errno)"
  by (cases s) (auto simp: PlainStream_write_def SSLStream_write_def Let_def
      split: prod.splits sum.splits list.splits ssl_write_event.splits)

text \<open>A matched pattern compiles, so the parameters of a routed request can be computed.\<close>

lemma compile_empty: "compile [] = Returns Eps"
  by (simp add: compile_def close_frame_def close_alt_def)

lemma getResolver_compiles:
  assumes "server_ok server"
  shows "\<exists>rgx. compile (snd (getResolver rank m uri [] server)) = Returns rgx"
proof (cases "\<exists>r. fst (getResolver rank m uri [] server) = Some r")
  case True
  then obtain mapper r p where find: "umap_find (srv_resolvers server) m = Some mapper"
    "UriMapper_match rank mapper uri = Some (r, p)" and "snd (getResolver rank m uri [] server) = p"
    by (auto simp: getResolver_def split: option.splits)
  moreover from assms find(1) have ok: "mapper_ok mapper" by (simp add: server_ok_def)
  with UriMapper_match_Some [OF this find(2)] obtain rgx where "compile p = Returns rgx"
    by (auto simp: mapper_ok_def)
  ultimately show ?thesis by simp
next
  case False
  then have "snd (getResolver rank m uri [] server) = []"
    by (auto simp: getResolver_def split: option.splits)
  with compile_empty show ?thesis by simp
qed

lemma computeUriParameters_Returns:
  "compile (matchedRegex (req_frameworkInfo r)) = Returns rgx \<Longrightarrow>
     \<exists>ps. computeUriParameters r = Returns (r\<lparr>req_uriParameters := ps\<rparr>)"
  by (auto simp: computeUriParameters_def split: option.splits)

text \<open>The request the resolver sees: the parsed one with the match, the parameters and the stream.\<close>

definition routed :: "env \<Rightarrow> HttpServer \<Rightarrow> HttpRequest \<Rightarrow> HttpRequest \<Rightarrow> bool" where
  "routed env server request request' \<longleftrightarrow>
     (\<exists>ps. request' = request\<lparr>req_frameworkInfo := \<lparr>matchedRegex =
           snd (getResolver (uri_rank env) (req_method request) (req_rawUri request) [] server),
         requestArrivalTime = clock_now env\<rparr>,
       req_uriParameters := ps, req_stream := True\<rparr>)"

lemma runRequestResolver_routed:
  assumes "server_ok server"
  shows "\<exists>request'. routed env server request request' \<and>
    runRequestResolver env server request s =
      (case resolver_for env server request request' s of
         (Inl e, s') \<Rightarrow> (Throws e, s') | (Inr response, s') \<Rightarrow> (Returns response, s'))"
proof -
  obtain found matched where lookup:
    "getResolver (uri_rank env) (req_method request) (req_rawUri request) [] server = (found, matched)"
    by force
  let ?request1 = "request\<lparr>req_frameworkInfo :=
      \<lparr>matchedRegex = matched, requestArrivalTime = clock_now env\<rparr>\<rparr>"
  from getResolver_compiles [OF assms] lookup obtain rgx where "compile matched = Returns rgx"
    by (metis snd_conv)
  with computeUriParameters_Returns [of ?request1] obtain ps where
    ps: "computeUriParameters ?request1 = Returns (?request1\<lparr>req_uriParameters := ps\<rparr>)" by auto
  have "routed env server request (setStream True (?request1\<lparr>req_uriParameters := ps\<rparr>))"
    using lookup by (auto simp: routed_def setStream_def)
  moreover have "runRequestResolver env server request s =
      (case resolver_for env server request (setStream True (?request1\<lparr>req_uriParameters := ps\<rparr>)) s of
         (Inl e, s') \<Rightarrow> (Throws e, s') | (Inr response, s') \<Rightarrow> (Returns response, s'))"
    using lookup ps by (simp add: runRequestResolver_def resolver_for_def)
  ultimately show ?thesis by blast
qed

lemma write_answer_accepted:
  assumes "accepts_writes s"
  shows "\<exists>rc. write_answer bytes keepAlive client s = Returns rc \<and>
    getFd (rc_client rc) = getFd client \<and> rc_keepAlive rc = keepAlive \<and>
    stream_sent (getStream (rc_client rc)) = stream_sent s @ bytes"
  using write_accepted [OF assms, of bytes] by (auto simp: write_answer_def)

text \<open>The bytes a handled head is answered with, and whether the connection is kept.\<close>

definition wants_keep_alive :: "HttpRequest \<Rightarrow> bool" where
  "wants_keep_alive request \<longleftrightarrow> req_getHeader ''Connection'' request = Some ''keep-alive''"

definition answer_bytes :: "env \<Rightarrow> bool \<Rightarrow> HttpResponse \<Rightarrow> string" where
  "answer_bytes env keep response =
     toHttpResponse (header_rank env) (behind_body env)
       (resp_setHeader ''Connection'' (if keep then ''keep-alive'' else ''close'') response)"

definition answers ::
    "env \<Rightarrow> HttpServer \<Rightarrow> istream \<Rightarrow> string \<Rightarrow> string \<Rightarrow> bool \<Rightarrow> bool" where
  "answers env server s head bytes keep \<longleftrightarrow>
     (case createRequest head of
        None \<Rightarrow> bytes = BAD_REQUEST_ERROR \<and> \<not> keep
      | Some request \<Rightarrow>
          (\<exists>request'. routed env server request request' \<and>
             (case fst (resolver_for env server request request' s) of
                Inl e \<Rightarrow> bytes = INTERNAL_SERVER_ERROR \<and> \<not> keep
              | Inr response \<Rightarrow>
                  keep = wants_keep_alive request \<and> bytes = answer_bytes env keep response)))"

lemma answersI:
  assumes "createRequest head = Some request" "routed env server request request'"
    and "resolver_for env server request request' s = (res, s1)"
  shows "res = Inl e \<Longrightarrow> answers env server s head INTERNAL_SERVER_ERROR False"
    and "res = Inr response \<Longrightarrow> keep = wants_keep_alive request \<Longrightarrow>
      answers env server s head (answer_bytes env keep response) keep"
  using assms by (auto simp: answers_def intro!: exI [of _ request'])

lemma handler_answers:
  assumes "server_ok server" "accepts_writes (getStream client)"
    and "\<And>request. createRequest head = Some request \<Longrightarrow> quiet_resolver (resolver_for env server request)"
  shows "\<exists>rc bytes. ClientRequestHandler env server client head = Returns rc \<and>
    getFd (rc_client rc) = getFd client \<and>
    stream_sent (getStream (rc_client rc)) = stream_sent (getStream client) @ bytes \<and>
    answers env server (getStream client) head bytes (rc_keepAlive rc)"
proof (cases "createRequest head")
  case None
  with write_answer_accepted [OF assms(2), of BAD_REQUEST_ERROR False client] show ?thesis
    by (auto simp: ClientRequestHandler_def answers_def)
next
  case (Some request)
  let ?s = "getStream client"
  obtain request' where routed: "routed env server request request'"
    and run: "runRequestResolver env server request ?s =
      (case resolver_for env server request request' ?s of
         (Inl e, s') \<Rightarrow> (Throws e, s') | (Inr response, s') \<Rightarrow> (Returns response, s'))"
    using runRequestResolver_routed [OF assms(1)] by blast
  obtain res s1 where res: "resolver_for env server request request' ?s = (res, s1)" by force
  with assms(3) [OF Some] have q: "quiet ?s s1"
    by (metis quiet_resolver_def snd_conv)
  note ok = accepts_writes_quiet [OF q assms(2)]
  show ?thesis
  proof (cases res)
    case (Inl e)
    with write_answer_accepted [OF ok, of INTERNAL_SERVER_ERROR False client] Some run res q
      answersI(1) [OF Some routed res Inl]
    show ?thesis
      by (auto simp: ClientRequestHandler_def quiet_def Let_def)
  next
    case (Inr response)
    obtain s2 where "stream_write (answer_bytes env (wants_keep_alive request) response) s1 =
        (Inr (int (length (answer_bytes env (wants_keep_alive request) response))), s2)"
      and "stream_sent s2 = stream_sent s1 @ answer_bytes env (wants_keep_alive request) response"
      using write_accepted [OF ok] by blast
    with Inr Some run res q answersI(2) [OF Some routed res Inr refl] show ?thesis
      by (auto simp: ClientRequestHandler_def quiet_def Let_def answer_bytes_def
          wants_keep_alive_def)
  qed
qed

lemma write_refused:
  "write_plan s = Inl (SendFail e # plan) \<Longrightarrow>
     \<exists>s'. stream_write bytes s = (Inl (LowLevelApi ''send() failed'' e e), s') \<and>
       write_plan s' = Inl plan \<and> stream_sent s' = stream_sent s"
  by (cases s) (auto simp: PlainStream_write_def send_def)

lemma write_cut_short:
  "write_plan s = Inl (Accept k # plan) \<Longrightarrow>
     \<exists>s'. stream_write bytes s = (Inr (int (min k (length bytes))), s') \<and>
       stream_sent s' = stream_sent s @ take k bytes"
  by (cases s) (auto simp: PlainStream_write_def send_def)

section \<open>Properties\<close>

text \<open>
  C4: Every request head is answered exactly once. On a server that satisfies its invariant, a
  connection that accepts what is written and a resolver that only reads from the stream, the
  handler always hands the connection back, having sent one answer: the bad-request text when the
  head does not parse, the internal-error text when the resolver throws (both close), and otherwise
  the serialised response of the resolver for the method and uri (the 404 resolver if there is none)
  with a \<^verbatim>\<open>Connection\<close> header that is \<^verbatim>\<open>keep-alive\<close> exactly when the request asked for it with exactly
  this value, in which case the connection is kept.
\<close>

theorem handler_answers_once:
  assumes "server_ok server" "accepts_writes (getStream client)"
    and "\<And>request. createRequest head = Some request \<Longrightarrow> quiet_resolver (resolver_for env server request)"
  shows "\<exists>rc bytes. ClientRequestHandler env server client head = Returns rc \<and>
    getFd (rc_client rc) = getFd client \<and>
    stream_sent (getStream (rc_client rc)) = stream_sent (getStream client) @ bytes \<and>
    answers env server (getStream client) head bytes (rc_keepAlive rc)"
  by (rule handler_answers [OF assms])

definition example_env :: env where
  "example_env = \<lparr>uri_rank = (\<lambda>_ _. 0), header_rank = (\<lambda>_ _. 0), behind_body = [NUL], clock_now = 0\<rparr>"

theorem handler_answers_once_witness:
  "\<exists>rc bytes. ClientRequestHandler example_env (HttpServer_new 1) example_client ''x'' = Returns rc \<and>
    answers example_env (HttpServer_new 1) (getStream example_client) ''x'' bytes (rc_keepAlive rc)"
proof -
  have "accepts_writes (getStream example_client)"
    by (simp add: accepts_writes_def example_client_def example_stream_def)
  moreover have "createRequest ''x'' = None"
    by (simp add: createRequest_def str_find_def CRLF_def)
  then have "createRequest ''x'' = Some request \<Longrightarrow>
      quiet_resolver (resolver_for example_env (HttpServer_new 1) request)" for request by simp
  ultimately show ?thesis using handler_answers_once [OF server_ok_new] by blast
qed

text \<open>
  Middlewares and the default GET resolver are never consulted. Whatever pre- and
  post-middlewares are installed and whatever resolver was registered for \<^verbatim>\<open>*\<close>, the handler does the
  same.
\<close>

theorem middlewares_never_run:
  "ClientRequestHandler env (s\<lparr>defaultGetResolver := d, middlewares := m\<rparr>) client head =
    ClientRequestHandler env s client head"
proof -
  have same: "getResolver rank name uri rgx (s\<lparr>defaultGetResolver := d, middlewares := m\<rparr>) =
      getResolver rank name uri rgx s" for rank name uri rgx
    by (simp add: getResolver_def)
  have "runRequestResolver env (s\<lparr>defaultGetResolver := d, middlewares := m\<rparr>) =
      runRequestResolver env s"
    by (rule ext)+ (simp only: runRequestResolver_def same)
  then show ?thesis by (simp only: ClientRequestHandler_def)
qed

text \<open>
  A request without headers is always refused. The head of a well-formed request that consists
  of a request line only is answered with status 400 and the connection is closed, whatever is
  registered: HTTP/1.0 clients, which need not send a header, cannot be served.
\<close>

theorem headerless_request_refused:
  assumes "request_token m" "request_token uri" "request_token version"
    and "accepts_writes (getStream client)"
  shows "\<exists>rc. ClientRequestHandler env server client (request_head m uri version []) = Returns rc \<and>
    stream_sent (getStream (rc_client rc)) = stream_sent (getStream client) @ BAD_REQUEST_ERROR \<and>
    \<not> rc_keepAlive rc \<and>
    BAD_REQUEST_ERROR = ''HTTP/1.1 400 BadRequest'' @ CRLF @ ''Content-Length:0'' @ DOUBLE_CRLF"
proof -
  have "to_string 400 = ''400''" "to_string 0 = ''0''"
    by code_simp+
  then have "BAD_REQUEST_ERROR =
      ''HTTP/1.1 400 BadRequest'' @ CRLF @ ''Content-Length:0'' @ DOUBLE_CRLF"
    by (simp add: BAD_REQUEST_ERROR_def toHttpResponse_def build_def HttpResponse_new_def
        resp_setHeader_def builder_defs umap_assign_def umap_empty_def cstr_def createStatusLine_def
        header_line_def DOUBLE_CRLF_CRLF)
  with write_answer_accepted [OF assms(4), of BAD_REQUEST_ERROR False client]
    createRequest_no_headers [OF assms(1-3)] show ?thesis
    by (auto simp: ClientRequestHandler_def)
qed

theorem headerless_request_refused_witness:
  "\<exists>rc. ClientRequestHandler example_env (HttpServer_new 1) example_client
      (request_head ''GET'' ''/'' ''HTTP/1.0'' []) = Returns rc \<and> \<not> rc_keepAlive rc"
proof -
  have "accepts_writes (getStream example_client)"
    by (simp add: accepts_writes_def example_client_def example_stream_def)
  from headerless_request_refused [OF _ _ _ this, of "''GET''" "''/''" "''HTTP/1.0''"]
  show ?thesis by (auto simp: request_token_def)
qed

text \<open>
  C37: A broken connection ends the process. When two writes in a row fail on a plain connection (as
  they do once the peer has reset it), an exception escapes from the worker thread for every head:
  the write in the \<^verbatim>\<open>catch\<close> block and the one on the bad-request path are not guarded.
\<close>

theorem broken_connection_escapes:
  assumes "server_ok server" "write_plan (getStream client) = Inl (SendFail e1 # SendFail e2 # plan)"
    and "\<And>request. createRequest head = Some request \<Longrightarrow> quiet_resolver (resolver_for env server request)"
  shows "\<exists>code. ClientRequestHandler env server client head = Throws (LowLevelApi ''send() failed'' code code)"
proof (cases "createRequest head")
  case None
  with write_refused [OF assms(2), of BAD_REQUEST_ERROR] show ?thesis
    by (auto simp: ClientRequestHandler_def write_answer_def)
next
  case (Some request)
  let ?s = "getStream client"
  obtain request' where run: "runRequestResolver env server request ?s =
      (case resolver_for env server request request' ?s of
         (Inl e, s') \<Rightarrow> (Throws e, s') | (Inr response, s') \<Rightarrow> (Returns response, s'))"
    using runRequestResolver_routed [OF assms(1)] by blast
  obtain res s1 where res: "resolver_for env server request request' ?s = (res, s1)" by force
  with assms(3) [OF Some] have "quiet ?s s1" by (metis quiet_resolver_def snd_conv)
  with assms(2) have plan: "write_plan s1 = Inl (SendFail e1 # SendFail e2 # plan)"
    by (simp add: quiet_def)
  show ?thesis
  proof (cases res)
    case (Inl e)
    with write_refused [OF plan, of INTERNAL_SERVER_ERROR] Some run res show ?thesis
      by (auto simp: ClientRequestHandler_def write_answer_def Let_def)
  next
    case (Inr response)
    obtain s2 where "stream_write (answer_bytes env (wants_keep_alive request) response) s1 =
        (Inl (LowLevelApi ''send() failed'' e1 e1), s2)" and "write_plan s2 = Inl (SendFail e2 # plan)"
      using write_refused [OF plan] by blast
    with write_refused [OF this(2), of INTERNAL_SERVER_ERROR] Inr Some run res show ?thesis
      by (auto simp: ClientRequestHandler_def write_answer_def Let_def answer_bytes_def
          wants_keep_alive_def)
  qed
qed

definition broken_client :: IClient where
  "broken_client = \<lparr>getFd = 5, getStream = PlainS (example_stream
     \<lparr>ps_sock := (ps_sock example_stream)\<lparr>send_plan := [SendFail 104, SendFail 32]\<rparr>\<rparr>)\<rparr>"

theorem broken_connection_escapes_witness:
  "\<exists>code. ClientRequestHandler example_env (HttpServer_new 1) broken_client ''x'' =
    Throws (LowLevelApi ''send() failed'' code code)"
proof -
  have "write_plan (getStream broken_client) = Inl (SendFail 104 # SendFail 32 # [])"
    by (simp add: broken_client_def)
  moreover have "createRequest ''x'' = None"
    by (simp add: createRequest_def str_find_def CRLF_def)
  then have "createRequest ''x'' = Some request \<Longrightarrow>
      quiet_resolver (resolver_for example_env (HttpServer_new 1) request)" for request by simp
  ultimately show ?thesis by (rule broken_connection_escapes [OF server_ok_new])
qed

end
