(* ===== verification/TaskExecutor.thy ===== *)
theory TaskExecutor
  imports MpmcQueue
begin

text \<open>
  \<^verbatim>\<open>MPMCTaskExecutor.hpp\<close>: a pool of \<open>thread_count\<close> workers over one queue of task pointers; a null
  pointer tells the worker that dequeues it to exit, and \<open>stop_all\<close> enqueues one for each worker.

  The threads interleave: \<open>exec_step\<close> is one atomic step of a caller or of a worker. A task is
  opaque; \<open>throws\<close> says of which tasks an exception escapes, which ends the process
  (\<open>std::terminate\<close>, since the worker does not catch).
\<close>

section \<open>State\<close>

datatype 't worker = Idle | Running 't | Exited

record 't executor =
  thread_count :: nat
  ex_threads :: "'t worker list"
  ex_tasks :: "'t option mpmc"
  kill_threads :: bool
  ex_stopper :: nat
  ex_nulls :: nat
  ex_done :: "'t list"
  ex_terminated :: bool

text \<open>
  \<open>ex_nulls\<close> is what the loop in \<open>stop_all\<close>, run by thread \<open>ex_stopper\<close>, still has to enqueue. The list
  \<open>ex_done\<close> of completed tasks is an observation. The constructor throws for less than one thread;
  its workers start by waiting.
\<close>

definition TaskExecutor_new :: "int \<Rightarrow> nat list \<Rightarrow> exn + 't executor" where
  "TaskExecutor_new n choice =
     (if n < 1 then Inl (InvalidArgument ''TaskExecutor: at least 1 thread is required.'')
      else Inr \<lparr>thread_count = nat n, ex_threads = replicate (nat n) Idle,
        ex_tasks = mpmc_new choice, kill_threads = False, ex_stopper = 0, ex_nulls = 0,
        ex_done = [], ex_terminated = False\<rparr>)"

section \<open>Steps\<close>

definition add_task :: "nat \<Rightarrow> 't \<Rightarrow> 't executor \<Rightarrow> 't executor" where
  "add_task caller t e = e\<lparr>ex_tasks := enqueue caller (Some t) (ex_tasks e)\<rparr>"

text \<open>\<open>stop_all\<close> up to its first loop: \<open>kill_threads.exchange(true)\<close> lets only the first call through.\<close>

definition stop_all :: "nat \<Rightarrow> 't executor \<Rightarrow> 't executor" where
  "stop_all caller e =
     (if kill_threads e then e
      else e\<lparr>kill_threads := True, ex_stopper := caller, ex_nulls := thread_count e\<rparr>)"

definition enqueue_null :: "'t executor \<Rightarrow> 't executor option" where
  "enqueue_null e =
     (if ex_nulls e = 0 then None
      else Some (e\<lparr>ex_nulls := ex_nulls e - 1,
        ex_tasks := enqueue (ex_stopper e) None (ex_tasks e)\<rparr>))"

text \<open>
  A worker's turn: \<open>wait_dequeue\<close> when it is idle (no step while the queue is empty), otherwise the
  end of the task it runs.
\<close>

definition worker_turn :: "('t \<Rightarrow> bool) \<Rightarrow> nat \<Rightarrow> 't executor \<Rightarrow> 't executor option" where
  "worker_turn throws w e =
     (if length (ex_threads e) \<le> w then None
      else case ex_threads e ! w of
        Exited \<Rightarrow> None
      | Idle \<Rightarrow>
          (case try_dequeue (ex_tasks e) of
             None \<Rightarrow> None
           | Some (None, q) \<Rightarrow> Some (e\<lparr>ex_tasks := q, ex_threads := (ex_threads e)[w := Exited]\<rparr>)
           | Some (Some t, q) \<Rightarrow>
               Some (e\<lparr>ex_tasks := q, ex_threads := (ex_threads e)[w := Running t]\<rparr>))
      | Running t \<Rightarrow>
          if throws t then Some (e\<lparr>ex_terminated := True\<rparr>)
          else Some (e\<lparr>ex_threads := (ex_threads e)[w := Idle], ex_done := ex_done e @ [t]\<rparr>))"

text \<open>The join loop of \<open>stop_all\<close> ends when every null has been enqueued and every worker has exited.\<close>

definition all_joined :: "'t executor \<Rightarrow> bool" where
  "all_joined e \<longleftrightarrow>
     kill_threads e \<and> ex_nulls e = 0 \<and> list_all (\<lambda>w. w = Exited) (ex_threads e)"

datatype 't exec_label = Add nat 't | Stop nat | Null | Turn nat

inductive exec_step ::
    "('t \<Rightarrow> bool) \<Rightarrow> 't executor \<Rightarrow> 't exec_label \<Rightarrow> 't executor \<Rightarrow> bool" for throws where
  step_add: "\<not> ex_terminated e \<Longrightarrow> exec_step throws e (Add p t) (add_task p t e)"
| step_stop: "\<not> ex_terminated e \<Longrightarrow> exec_step throws e (Stop p) (stop_all p e)"
| step_null: "\<not> ex_terminated e \<Longrightarrow> enqueue_null e = Some e' \<Longrightarrow> exec_step throws e Null e'"
| step_turn: "\<not> ex_terminated e \<Longrightarrow> worker_turn throws w e = Some e' \<Longrightarrow>
    exec_step throws e (Turn w) e'"

inductive exec_run ::
    "('t \<Rightarrow> bool) \<Rightarrow> 't executor \<Rightarrow> 't exec_label list \<Rightarrow> 't executor \<Rightarrow> bool" for throws where
  run_nil: "exec_run throws e [] e"
| run_snoc: "exec_run throws e ls e' \<Longrightarrow> exec_step throws e' l e'' \<Longrightarrow>
    exec_run throws e (ls @ [l]) e''"

inductive_cases exec_step_AddE: "exec_step throws e (Add p t) e'"
inductive_cases exec_step_TurnE: "exec_step throws e (Turn w) e'"
inductive_simps exec_step_add: "exec_step throws e (Add p t) e'"
inductive_simps exec_step_stop: "exec_step throws e (Stop p) e'"
inductive_simps exec_step_null: "exec_step throws e Null e'"
inductive_simps exec_step_turn: "exec_step throws e (Turn w) e'"

lemmas exec_step_simps = exec_step_add exec_step_stop exec_step_null exec_step_turn

section \<open>Accounting\<close>

fun tasks_in :: "(nat \<times> 't option) list \<Rightarrow> 't list" where
  "tasks_in [] = []"
| "tasks_in ((p, None) # xs) = tasks_in xs"
| "tasks_in ((p, Some t) # xs) = t # tasks_in xs"

fun nulls_in :: "(nat \<times> 't option) list \<Rightarrow> nat" where
  "nulls_in [] = 0"
| "nulls_in ((p, None) # xs) = Suc (nulls_in xs)"
| "nulls_in ((p, Some t) # xs) = nulls_in xs"

fun running_in :: "'t worker list \<Rightarrow> 't list" where
  "running_in [] = []"
| "running_in (Running t # ws) = t # running_in ws"
| "running_in (w # ws) = running_in ws"

fun exited_in :: "'t worker list \<Rightarrow> nat" where
  "exited_in [] = 0"
| "exited_in (Exited # ws) = Suc (exited_in ws)"
| "exited_in (w # ws) = exited_in ws"

fun added :: "'t exec_label list \<Rightarrow> 't list" where
  "added [] = []"
| "added (Add p t # ls) = t # added ls"
| "added (l # ls) = added ls"

abbreviation queued :: "'t executor \<Rightarrow> 't list" where
  "queued e \<equiv> tasks_in (q_items (ex_tasks e))"

abbreviation null_count :: "'t executor \<Rightarrow> nat" where
  "null_count e \<equiv> nulls_in (q_items (ex_tasks e))"

lemma tasks_in_append [simp]: "tasks_in (xs @ ys) = tasks_in xs @ tasks_in ys"
  by (induction xs rule: tasks_in.induct) simp_all

lemma nulls_in_append [simp]: "nulls_in (xs @ ys) = nulls_in xs + nulls_in ys"
  by (induction xs rule: nulls_in.induct) simp_all

lemma added_append [simp]: "added (xs @ ys) = added xs @ added ys"
  by (induction xs rule: added.induct) simp_all

lemma counts_update:
  "w < length ws \<Longrightarrow> ws ! w = Idle \<Longrightarrow> mset (running_in (ws[w := Running t])) = add_mset t (mset (running_in ws))"
  "w < length ws \<Longrightarrow> ws ! w = Idle \<Longrightarrow> exited_in (ws[w := Running t]) = exited_in ws"
  "w < length ws \<Longrightarrow> ws ! w = Idle \<Longrightarrow> running_in (ws[w := Exited]) = running_in ws"
  "w < length ws \<Longrightarrow> ws ! w = Idle \<Longrightarrow> exited_in (ws[w := Exited]) = Suc (exited_in ws)"
  "w < length ws \<Longrightarrow> ws ! w = Running t \<Longrightarrow> mset (running_in ws) = add_mset t (mset (running_in (ws[w := Idle])))"
  "w < length ws \<Longrightarrow> ws ! w = Running t \<Longrightarrow> exited_in (ws[w := Idle]) = exited_in ws"
proof (induction ws arbitrary: w)
  case (Cons x ws)
  {
    case 1 then show ?case using Cons(1) by (cases w; cases x) auto
  next
    case 2 then show ?case using Cons(2) by (cases w; cases x) auto
  next
    case 3 then show ?case using Cons(3) by (cases w; cases x) auto
  next
    case 4 then show ?case using Cons(4) by (cases w; cases x) auto
  next
    case 5 then show ?case using Cons(5) by (cases w; cases x) auto
  next
    case 6 then show ?case using Cons(6) by (cases w; cases x) auto
  }
qed simp_all

lemma counts_replicate [simp]: "running_in (replicate n Idle) = []" "exited_in (replicate n Idle) = 0"
  by (induction n) simp_all

lemma exited_bound: "exited_in ws \<le> length ws"
  by (induction ws rule: exited_in.induct) simp_all

lemma exited_all: "exited_in ws = length ws \<longleftrightarrow> list_all (\<lambda>w. w = Exited) ws"
proof (induction ws)
  case (Cons w ws)
  with exited_bound [of ws] show ?case by (cases w) auto
qed simp

lemma running_all_exited: "list_all (\<lambda>w. w = Exited) ws \<Longrightarrow> running_in ws = []"
  by (induction ws rule: running_in.induct) simp_all

section \<open>Invariants\<close>

text \<open>
  Every task is at one place, and once the executor is being stopped there is one null for every
  worker: still to be enqueued, in the queue, or consumed.
\<close>

definition exec_inv :: "'t list \<Rightarrow> 't executor \<Rightarrow> bool" where
  "exec_inv ts e \<longleftrightarrow>
     mset ts = mset (queued e) + mset (running_in (ex_threads e)) + mset (ex_done e) \<and>
     length (ex_threads e) = thread_count e \<and> 0 < thread_count e \<and>
     null_count e + ex_nulls e + exited_in (ex_threads e) =
       (if kill_threads e then thread_count e else 0)"

lemma exec_inv_new: "TaskExecutor_new n choice = Inr e \<Longrightarrow> exec_inv [] e"
  by (auto simp: TaskExecutor_new_def exec_inv_def split: if_splits)

lemma exec_inv_add: "exec_inv ts e \<Longrightarrow> exec_inv (ts @ [t]) (add_task p t e)"
  by (simp add: exec_inv_def add_task_def mpmc.items_enq)

lemma exec_inv_stop: "exec_inv ts e \<Longrightarrow> exec_inv ts (stop_all p e)"
  by (auto simp: exec_inv_def stop_all_def)

lemma exec_inv_null: "exec_inv ts e \<Longrightarrow> enqueue_null e = Some e' \<Longrightarrow> exec_inv ts e'"
  by (auto simp: exec_inv_def enqueue_null_def mpmc.items_enq split: if_splits)

text \<open>What a dequeue does to the counts.\<close>

lemma dequeue_counts:
  assumes "try_dequeue q = Some (x, q')"
  shows "x = Some t \<Longrightarrow> mset (tasks_in (q_items q)) = add_mset t (mset (tasks_in (q_items q'))) \<and>
      nulls_in (q_items q) = nulls_in (q_items q')"
    and "x = None \<Longrightarrow> tasks_in (q_items q) = tasks_in (q_items q') \<and>
      nulls_in (q_items q) = Suc (nulls_in (q_items q'))"
  using mpmc.deq_Some [OF assms] by auto

text \<open>The three things a worker can do.\<close>

lemma worker_turn_cases:
  assumes "worker_turn throws w e = Some e'"
  obtains
    (exits) q where "w < length (ex_threads e)" "ex_threads e ! w = Idle"
      "try_dequeue (ex_tasks e) = Some (None, q)"
      "e' = e\<lparr>ex_tasks := q, ex_threads := (ex_threads e)[w := Exited]\<rparr>"
  | (starts) t q where "w < length (ex_threads e)" "ex_threads e ! w = Idle"
      "try_dequeue (ex_tasks e) = Some (Some t, q)"
      "e' = e\<lparr>ex_tasks := q, ex_threads := (ex_threads e)[w := Running t]\<rparr>"
  | (finishes) t where "w < length (ex_threads e)" "ex_threads e ! w = Running t" "\<not> throws t"
      "e' = e\<lparr>ex_threads := (ex_threads e)[w := Idle], ex_done := ex_done e @ [t]\<rparr>"
  | (dies) t where "w < length (ex_threads e)" "ex_threads e ! w = Running t" "throws t"
      "e' = e\<lparr>ex_terminated := True\<rparr>"
  using assms
  by (auto simp: worker_turn_def not_le split: if_splits worker.splits option.splits)

lemma exec_inv_turn:
  assumes "exec_inv ts e" "worker_turn throws w e = Some e'"
  shows "exec_inv ts e'"
  using assms(2)
proof (cases rule: worker_turn_cases)
  case (exits q)
  with dequeue_counts(2) [OF exits(3)] counts_update(3,4) [OF exits(1,2)] assms(1)
  show ?thesis by (simp add: exec_inv_def)
next
  case (starts t q)
  with dequeue_counts(1) [OF starts(3), of t] counts_update(1,2) [OF starts(1,2), of t] assms(1)
  show ?thesis by (simp add: exec_inv_def)
next
  case (finishes t)
  with counts_update(5,6) [OF finishes(1,2)] assms(1) show ?thesis by (simp add: exec_inv_def)
next
  case (dies t)
  with assms(1) show ?thesis by (simp add: exec_inv_def)
qed

lemma exec_inv_run:
  "exec_run throws e ls e' \<Longrightarrow> exec_inv [] e \<Longrightarrow> exec_inv (added ls) e'"
proof (induction rule: exec_run.induct)
  case (run_snoc e ls e' l e'')
  from run_snoc(2) run_snoc(3) [OF run_snoc(4)] show ?case
    by (cases rule: exec_step.cases)
      (auto intro: exec_inv_add exec_inv_stop exec_inv_null exec_inv_turn)
qed simp

section \<open>Progress\<close>

text \<open>The steps of the executor itself, and a bound on how many of them can follow.\<close>

definition internal :: "'t exec_label \<Rightarrow> bool" where
  "internal l \<longleftrightarrow> (case l of Add p t \<Rightarrow> False | Stop p \<Rightarrow> False | _ \<Rightarrow> True)"

definition exec_measure :: "'t executor \<Rightarrow> nat" where
  "exec_measure e =
     3 * ex_nulls e + 2 * length (q_items (ex_tasks e)) + length (running_in (ex_threads e))
     + (if ex_terminated e then 0 else 1)"

lemma running_length_update:
  "w < length ws \<Longrightarrow> ws ! w = Idle \<Longrightarrow>
     length (running_in (ws[w := Running t])) = Suc (length (running_in ws))"
  "w < length ws \<Longrightarrow> ws ! w = Running t \<Longrightarrow>
     length (running_in ws) = Suc (length (running_in (ws[w := Idle])))"
  using counts_update(1,5) [of w ws t] by (metis size_mset size_add_mset)+

lemma internal_step_decreases:
  assumes "exec_step throws e l e'" "internal l"
  shows "exec_measure e' < exec_measure e"
  using assms(1)
proof (cases rule: exec_step.cases)
  case step_null
  then show ?thesis
    by (auto simp: enqueue_null_def exec_measure_def mpmc.items_enq split: if_splits)
next
  case (step_turn w)
  from step_turn(3) show ?thesis
  proof (cases rule: worker_turn_cases)
    case (exits q)
    with mpmc.deq_length [OF exits(3)] counts_update(3) [OF exits(1,2)] show ?thesis
      by (simp add: exec_measure_def)
  next
    case (starts t q)
    with mpmc.deq_length [OF starts(3)] running_length_update(1) [OF starts(1,2)] show ?thesis
      by (simp add: exec_measure_def)
  next
    case (finishes t)
    with running_length_update(2) [OF finishes(1,2)] show ?thesis by (simp add: exec_measure_def)
  next
    case (dies t)
    with step_turn(2) show ?thesis by (simp add: exec_measure_def)
  qed
qed (use assms(2) in \<open>simp_all add: internal_def\<close>)

lemma nulls_in_pos: "0 < nulls_in xs \<Longrightarrow> xs \<noteq> []"
  by auto

lemma not_all_exited: "\<not> list_all (\<lambda>w. w = Exited) ws \<Longrightarrow>
    (\<exists>w < length ws. ws ! w = Idle \<or> (\<exists>t. ws ! w = Running t))"
  unfolding list_all_length by (metis worker.exhaust)

lemma stopping_progress:
  assumes "exec_inv ts e" "kill_threads e" "\<not> all_joined e" "\<not> ex_terminated e"
  shows "\<exists>l e'. internal l \<and> exec_step throws e l e'"
proof (cases "ex_nulls e = 0")
  case False
  then obtain e' where "enqueue_null e = Some e'" by (simp add: enqueue_null_def)
  with assms(4) have "exec_step throws e Null e'" by (rule step_null)
  then show ?thesis by (intro exI [of _ Null]) (auto simp: internal_def)
next
  case True
  with assms(2,3) have live: "\<not> list_all (\<lambda>w. w = Exited) (ex_threads e)"
    by (simp add: all_joined_def)
  with exited_bound [of "ex_threads e"] have "exited_in (ex_threads e) < length (ex_threads e)"
    using exited_all le_neq_implies_less by blast
  with assms(1,2) True have "0 < null_count e" by (simp add: exec_inv_def)
  then have "try_dequeue (ex_tasks e) \<noteq> None" using mpmc.deq_None nulls_in_pos by blast
  then have ready: "w < length (ex_threads e) \<Longrightarrow>
      ex_threads e ! w = Idle \<or> (\<exists>t. ex_threads e ! w = Running t) \<Longrightarrow>
      worker_turn throws w e \<noteq> None" for w
    by (auto simp: worker_turn_def split: option.split)
  from not_all_exited [OF live] ready obtain w e' where "worker_turn throws w e = Some e'"
    by blast
  with assms(4) have "exec_step throws e (Turn w) e'" by (rule step_turn)
  then show ?thesis by (intro exI [of _ "Turn w"]) (auto simp: internal_def)
qed

section \<open>One owner\<close>

text \<open>
  A run in which one thread adds all tasks and then stops the executor (as the event loop does): the
  nulls come after all tasks, and one consumed null means that no task is left in the queue.
\<close>

fun calm :: "'t exec_label list \<Rightarrow> bool" where
  "calm [] \<longleftrightarrow> True"
| "calm (Stop p # ls) \<longleftrightarrow> added ls = []"
| "calm (l # ls) \<longleftrightarrow> calm ls"

fun stops :: "'t exec_label list \<Rightarrow> bool" where
  "stops [] \<longleftrightarrow> False"
| "stops (Stop p # ls) \<longleftrightarrow> True"
| "stops (l # ls) \<longleftrightarrow> stops ls"

definition owned_by :: "nat \<Rightarrow> 't exec_label list \<Rightarrow> bool" where
  "owned_by p ls \<longleftrightarrow>
     list_all (\<lambda>l. case l of Add q t \<Rightarrow> q = p | Stop q \<Rightarrow> q = p | _ \<Rightarrow> True) ls"

lemma calm_snoc: "calm (ls @ [l]) \<longleftrightarrow> calm ls \<and> (stops ls \<longrightarrow> added [l] = [])"
  by (induction ls rule: calm.induct) (cases l; auto)+

lemma stops_snoc [simp]: "stops (ls @ [l]) \<longleftrightarrow> stops ls \<or> (\<exists>p. l = Stop p)"
  by (induction ls rule: stops.induct) (cases l; auto)+

lemma owned_by_snoc: "owned_by p (ls @ [l]) \<longleftrightarrow> owned_by p ls \<and> owned_by p [l]"
  by (simp add: owned_by_def)

fun null_tail :: "(nat \<times> 't option) list \<Rightarrow> bool" where
  "null_tail [] \<longleftrightarrow> True"
| "null_tail ((p, None) # xs) \<longleftrightarrow> tasks_in xs = []"
| "null_tail ((p, Some t) # xs) \<longleftrightarrow> null_tail xs"

definition owner_inv :: "nat \<Rightarrow> 't exec_label list \<Rightarrow> 't executor \<Rightarrow> bool" where
  "owner_inv p ls e \<longleftrightarrow>
     (\<forall>x \<in> set (q_items (ex_tasks e)). fst x = p) \<and> null_tail (q_items (ex_tasks e)) \<and>
     kill_threads e = stops ls \<and> (kill_threads e \<longrightarrow> ex_stopper e = p) \<and>
     (\<not> kill_threads e \<longrightarrow> null_count e = 0 \<and> ex_nulls e = 0 \<and> exited_in (ex_threads e) = 0) \<and>
     (0 < exited_in (ex_threads e) \<longrightarrow> queued e = [])"

lemma null_tail_nulls: "tasks_in xs = [] \<Longrightarrow> null_tail xs"
  by (induction xs rule: null_tail.induct) simp_all

lemma null_tail_tasks: "nulls_in xs = 0 \<Longrightarrow> null_tail (xs @ [(p, Some t)])"
  by (induction xs rule: null_tail.induct) simp_all

lemma null_tail_null: "null_tail xs \<Longrightarrow> null_tail (xs @ [(p, None)])"
  by (induction xs rule: null_tail.induct) simp_all

lemma owner_inv_turn:
  assumes inv: "owner_inv p ls e" and turn: "worker_turn throws w e = Some e'"
  shows "owner_inv p ls e'"
  using turn
proof (cases rule: worker_turn_cases)
  case (exits q)
  have split: "q_items (ex_tasks e) = (p, None) # q_items q"
    using mpmc.deq_fifo [OF exits(3)] inv by (auto simp: owner_inv_def)
  from inv have "kill_threads e" using split by (auto simp: owner_inv_def)
  moreover from inv have "tasks_in (q_items q) = []"
    by (simp add: owner_inv_def split null_tail.simps)
  moreover from this have "null_tail (q_items q)"
    by (rule null_tail_nulls)
  ultimately show ?thesis using inv exits(4) counts_update(4) [OF exits(1,2)]
    by (simp add: owner_inv_def split)
next
  case (starts t q)
  have split: "q_items (ex_tasks e) = (p, Some t) # q_items q"
    using mpmc.deq_fifo [OF starts(3)] inv by (auto simp: owner_inv_def)
  with inv starts(4) counts_update(2) [OF starts(1,2)] show ?thesis
    by (auto simp: owner_inv_def)
next
  case (finishes t)
  with inv counts_update(6) [OF finishes(1,2)] show ?thesis by (simp add: owner_inv_def)
next
  case (dies t)
  with inv show ?thesis by (simp add: owner_inv_def)
qed

lemma owner_inv_step:
  assumes "owner_inv p ls e" "exec_step throws e l e'" "owned_by p [l]" "stops ls \<longrightarrow> added [l] = []"
  shows "owner_inv p (ls @ [l]) e'"
  using assms(2)
proof (cases rule: exec_step.cases)
  case (step_add q t)
  with assms show ?thesis
    by (auto simp: owner_inv_def add_task_def mpmc.items_enq owned_by_def intro: null_tail_tasks)
next
  case (step_stop q)
  with assms show ?thesis by (auto simp: owner_inv_def stop_all_def owned_by_def)
next
  case step_null
  with assms(1) show ?thesis
    by (auto simp: owner_inv_def enqueue_null_def mpmc.items_enq split: if_splits intro: null_tail_null)
next
  case (step_turn w)
  from owner_inv_turn [OF assms(1) step_turn(3)] step_turn(1) show ?thesis
    by (simp add: owner_inv_def)
qed

lemma owner_inv_run:
  "exec_run throws e ls e' \<Longrightarrow> owner_inv p [] e \<Longrightarrow> owned_by p ls \<Longrightarrow> calm ls \<Longrightarrow> owner_inv p ls e'"
  by (induction rule: exec_run.induct) (auto simp: calm_snoc owned_by_snoc intro: owner_inv_step)

lemma owner_inv_new: "TaskExecutor_new n choice = Inr e \<Longrightarrow> owner_inv p [] e"
  by (auto simp: TaskExecutor_new_def owner_inv_def split: if_splits)

section \<open>Executing a schedule\<close>

definition exec_apply :: "('t \<Rightarrow> bool) \<Rightarrow> 't executor \<Rightarrow> 't exec_label \<Rightarrow> 't executor option" where
  "exec_apply throws e l =
     (if ex_terminated e then None
      else case l of
        Add p t \<Rightarrow> Some (add_task p t e)
      | Stop p \<Rightarrow> Some (stop_all p e)
      | Null \<Rightarrow> enqueue_null e
      | Turn w \<Rightarrow> worker_turn throws w e)"

fun exec_labels :: "('t \<Rightarrow> bool) \<Rightarrow> 't executor \<Rightarrow> 't exec_label list \<Rightarrow> 't executor option" where
  "exec_labels throws e [] = Some e"
| "exec_labels throws e (l # ls) =
     (case exec_apply throws e l of None \<Rightarrow> None | Some e' \<Rightarrow> exec_labels throws e' ls)"

lemma exec_step_apply: "exec_step throws e l e' \<longleftrightarrow> exec_apply throws e l = Some e'"
  by (cases l) (auto simp: exec_step_simps exec_apply_def)

lemma exec_labels_snoc:
  "exec_labels throws e (ls @ [l]) =
     (case exec_labels throws e ls of None \<Rightarrow> None | Some e' \<Rightarrow> exec_apply throws e' l)"
  by (induction ls arbitrary: e) (auto split: option.split)

lemma exec_run_labels: "exec_labels throws e ls = Some e' \<Longrightarrow> exec_run throws e ls e'"
proof (induction ls arbitrary: e' rule: rev_induct)
  case Nil
  then show ?case by (auto intro: run_nil)
next
  case (snoc l ls)
  then show ?case
    by (auto simp: exec_labels_snoc exec_step_apply split: option.splits intro: run_snoc)
qed

lemmas exec_eval = exec_apply_def add_task_def stop_all_def enqueue_null_def worker_turn_def
  enqueue_def try_dequeue_def next_producer_def TaskExecutor_new_def mpmc_new_def all_joined_def

section \<open>Properties\<close>

lemma internal_run_bound:
  "exec_run throws e ls e' \<Longrightarrow> list_all internal ls \<Longrightarrow> exec_measure e' + length ls \<le> exec_measure e"
proof (induction rule: exec_run.induct)
  case (run_snoc e ls e' l e'')
  then have "exec_measure e'' < exec_measure e'" by (auto intro: internal_step_decreases)
  with run_snoc show ?case by simp
qed simp

lemma exec_run_append:
  "exec_run throws e' ls' e'' \<Longrightarrow> exec_run throws e ls e' \<Longrightarrow> exec_run throws e (ls @ ls') e''"
proof (induction rule: exec_run.induct)
  case (run_snoc e1 ls1 e2 l e3)
  then have "exec_run throws e ((ls @ ls1) @ [l]) e3" by (blast intro: exec_run.run_snoc)
  then show ?case by simp
qed simp

lemma internal_keeps_stopping:
  "exec_run throws e ls e' \<Longrightarrow> kill_threads e \<Longrightarrow> kill_threads e'"
proof (induction rule: exec_run.induct)
  case (run_snoc e ls e' l e'')
  then show ?case
    by (auto simp: exec_step_apply exec_apply_def add_task_def stop_all_def enqueue_null_def
        split: exec_label.splits if_splits elim!: worker_turn_cases)
qed

text \<open>
  C11: No task is lost, duplicated or made up. In every interleaving of callers and workers of an
  executor that could be constructed (which takes at least one thread), the tasks added so far are
  exactly those in the queue, those running and those completed.
\<close>

theorem executor_conserves_tasks:
  assumes "TaskExecutor_new n choice = Inr e0" "exec_run throws e0 ls e"
  shows "1 \<le> n \<and> mset (added ls) =
    mset (queued e) + mset (running_in (ex_threads e)) + mset (ex_done e)"
  using exec_inv_run [OF assms(2) exec_inv_new [OF assms(1)]] assms(1)
  by (auto simp: exec_inv_def TaskExecutor_new_def split: if_splits)

theorem executor_conserves_tasks_witness:
  "\<exists>e. exec_labels (\<lambda>t. False) \<lparr>thread_count = 1, ex_threads = [Idle], ex_tasks = mpmc_new [],
      kill_threads = False, ex_stopper = 0, ex_nulls = 0, ex_done = [], ex_terminated = False\<rparr>
      [Add 0 ''a'', Add 3 ''b'', Turn 0, Turn 0] = Some e \<and>
    mset [''a'', ''b''] = mset (queued e) + mset (running_in (ex_threads e)) + mset (ex_done e)"
proof -
  have new: "TaskExecutor_new 1 [] = Inr \<lparr>thread_count = 1, ex_threads = [Idle],
      ex_tasks = mpmc_new [], kill_threads = False, ex_stopper = 0, ex_nulls = 0, ex_done = [],
      ex_terminated = False\<rparr>"
    by (simp add: TaskExecutor_new_def)
  obtain e where run: "exec_labels (\<lambda>t. False) \<lparr>thread_count = 1, ex_threads = [Idle],
      ex_tasks = mpmc_new [], kill_threads = False, ex_stopper = 0, ex_nulls = 0, ex_done = [],
      ex_terminated = False\<rparr> [Add 0 ''a'', Add 3 ''b'', Turn 0, Turn 0] = Some e"
    by (simp add: exec_eval)
  with executor_conserves_tasks [OF new exec_run_labels [OF run]] show ?thesis by auto
qed

text \<open>
  C10: \<open>stop_all\<close> comes to an end. From any reachable state in which it has been called, the steps of
  the pool itself (enqueueing the nulls, dequeueing, finishing tasks) are bounded in number, and when
  none is possible any more every worker has exited and can be joined, unless an exception that
  escaped from a task has ended the process.
\<close>

theorem stop_all_returns:
  assumes "TaskExecutor_new n choice = Inr e0" "exec_run throws e0 ls e" "kill_threads e"
    and "exec_run throws e ls' e'" "list_all internal ls'"
  shows "length ls' \<le> exec_measure e \<and>
    (all_joined e' \<or> ex_terminated e' \<or> (\<exists>l e''. internal l \<and> exec_step throws e' l e''))"
proof -
  have "exec_inv (added (ls @ ls')) e'"
    by (rule exec_inv_run [OF exec_run_append [OF assms(4,2)] exec_inv_new [OF assms(1)]])
  from stopping_progress [OF this internal_keeps_stopping [OF assms(4,3)]]
    internal_run_bound [OF assms(4,5)] show ?thesis by auto
qed

theorem stop_all_returns_witness:
  "\<exists>e e'. exec_run (\<lambda>t :: nat. False) e [Null, Turn 0] e' \<and> length [Null, Turn 0 :: nat exec_label] \<le> exec_measure e \<and>
    (all_joined e' \<or> ex_terminated e' \<or> (\<exists>l e''. internal l \<and> exec_step (\<lambda>t :: nat. False) e' l e''))"
proof -
  have new: "TaskExecutor_new 1 [] = Inr \<lparr>thread_count = 1, ex_threads = [Idle],
      ex_tasks = mpmc_new [], kill_threads = False, ex_stopper = 0, ex_nulls = 0, ex_done = [],
      ex_terminated = False\<rparr>"
    by (simp add: TaskExecutor_new_def)
  obtain e where run: "exec_labels (\<lambda>t :: nat. False) \<lparr>thread_count = 1, ex_threads = [Idle],
      ex_tasks = mpmc_new [], kill_threads = False, ex_stopper = 0, ex_nulls = 0, ex_done = [],
      ex_terminated = False\<rparr> [Stop 0] = Some e" and stopping: "kill_threads e"
    by (simp add: exec_eval)
  obtain e' where run': "exec_labels (\<lambda>t :: nat. False) e [Null, Turn 0] = Some e'"
    using run by (auto simp: exec_eval)
  have "list_all internal [Null, Turn 0 :: nat exec_label]" by (simp add: internal_def)
  from stop_all_returns [OF new exec_run_labels [OF run] stopping exec_run_labels [OF run'] this]
    exec_run_labels [OF run'] show ?thesis by blast
qed

text \<open>
  C9: An orderly shutdown runs everything. When one thread adds all the tasks and then stops the
  executor (the event loop adds tasks and destroys its pool), then once all workers have exited
  every task has been completed exactly once.
\<close>

theorem shutdown_runs_all_tasks:
  assumes "TaskExecutor_new n choice = Inr e0" "exec_run throws e0 ls e"
    and "owned_by p ls" "calm ls" "all_joined e"
  shows "mset (ex_done e) = mset (added ls)"
proof -
  have inv: "exec_inv (added ls) e"
    by (rule exec_inv_run [OF assms(2) exec_inv_new [OF assms(1)]])
  have "owner_inv p ls e"
    by (rule owner_inv_run [OF assms(2) owner_inv_new [OF assms(1)] assms(3,4)])
  moreover have gone: "list_all (\<lambda>w. w = Exited) (ex_threads e)"
    using assms(5) by (simp add: all_joined_def)
  then have "exited_in (ex_threads e) = length (ex_threads e)" by (simp add: exited_all)
  with inv have "0 < exited_in (ex_threads e)" by (simp add: exec_inv_def)
  ultimately have "queued e = []" by (simp add: owner_inv_def)
  with inv running_all_exited [OF gone] show ?thesis by (simp add: exec_inv_def)
qed

theorem shutdown_runs_all_tasks_witness:
  "\<exists>e. exec_labels (\<lambda>t. False) \<lparr>thread_count = 1, ex_threads = [Idle], ex_tasks = mpmc_new [],
      kill_threads = False, ex_stopper = 0, ex_nulls = 0, ex_done = [], ex_terminated = False\<rparr>
      [Add 5 ''a'', Stop 5, Null, Turn 0, Turn 0, Turn 0] = Some e \<and> mset (ex_done e) = mset [''a'']"
proof -
  have new: "TaskExecutor_new 1 [] = Inr \<lparr>thread_count = 1, ex_threads = [Idle],
      ex_tasks = mpmc_new [], kill_threads = False, ex_stopper = 0, ex_nulls = 0, ex_done = [],
      ex_terminated = False\<rparr>"
    by (simp add: TaskExecutor_new_def)
  obtain e where run: "exec_labels (\<lambda>t. False) \<lparr>thread_count = 1, ex_threads = [Idle],
      ex_tasks = mpmc_new [], kill_threads = False, ex_stopper = 0, ex_nulls = 0, ex_done = [],
      ex_terminated = False\<rparr> [Add 5 ''a'', Stop 5, Null, Turn 0, Turn 0, Turn 0] = Some e"
    and joined: "all_joined e"
    by (simp add: exec_eval)
  from shutdown_runs_all_tasks [OF new exec_run_labels [OF run], of 5] joined run show ?thesis
    by (auto simp: owned_by_def)
qed


end
