(* ===== verification/ClientManager.thy ===== *)
theory ClientManager
  imports ClientRequestHandler TaskExecutor
begin

text \<open>
  \<^verbatim>\<open>NonblockingClientManagerTask.cpp\<close>: the event loop. It owns the connections that wait for a
  request head, moves a connection with a complete head to the worker pool, and takes it back through
  the return channel.

  The kernel's interest list is \<open>epollFd\<close>: the events registered for a descriptor, and whether a
  one-shot registration has fired and not been re-armed. \<open>mg_closed\<close> is an observation, the
  connections the loop has closed. \<open>epoll_thread\<close> is the number of the loop's thread as a producer.
\<close>

unbundle bit_operations_syntax

section \<open>epoll\<close>

type_synonym events = "32 word"

definition EPOLLIN :: events where "EPOLLIN = 0x001"
definition EPOLLERR :: events where "EPOLLERR = 0x008"
definition EPOLLHUP :: events where "EPOLLHUP = 0x010"
definition EPOLLONESHOT :: events where "EPOLLONESHOT = 0x40000000"

record interest =
  in_events :: events
  in_fired :: bool

type_synonym epoll_set = "(int, interest) umap"

text \<open>Adding a registered descriptor and modifying an unregistered one fail; the results are ignored.\<close>

definition epoll_ctl_add :: "int \<Rightarrow> events \<Rightarrow> epoll_set \<Rightarrow> epoll_set" where
  "epoll_ctl_add fd ev es = umap_insert fd \<lparr>in_events = ev, in_fired = False\<rparr> es"

definition epoll_ctl_mod :: "int \<Rightarrow> events \<Rightarrow> epoll_set \<Rightarrow> epoll_set" where
  "epoll_ctl_mod fd ev es =
     (case umap_find es fd of
        None \<Rightarrow> es
      | Some i \<Rightarrow> umap_assign fd \<lparr>in_events = ev, in_fired = False\<rparr> es)"

text \<open>Reporting a one-shot registration disarms it.\<close>

definition epoll_fire :: "int \<Rightarrow> epoll_set \<Rightarrow> epoll_set" where
  "epoll_fire fd es =
     (case umap_find es fd of
        None \<Rightarrow> es
      | Some i \<Rightarrow> if in_events i AND EPOLLONESHOT \<noteq> 0 then umap_assign fd (i\<lparr>in_fired := True\<rparr>) es else es)"

text \<open>Closing a plain stream closes the descriptor, which removes it from the set; TLS keeps it open.\<close>

fun epoll_close :: "int \<Rightarrow> istream \<Rightarrow> epoll_set \<Rightarrow> epoll_set" where
  "epoll_close fd (PlainS s) es = umap_erase fd es"
| "epoll_close fd (TlsS s) es = es"

section \<open>State\<close>

type_synonym task = "IClient \<times> string"

record manager =
  newFdChannel :: NewFdChannel
  returnChannel :: ReturnChannel
  newPipeRead :: int
  returnPipeRead :: int
  workerPool :: "task executor"
  epollFd :: epoll_set
  connections :: "(int, IClient) umap"
  mg_closed :: "IClient list"

definition MAX_HEADER_BYTES :: int where "MAX_HEADER_BYTES = 65536"

definition epoll_thread :: nat where "epoll_thread = 0"

definition addToEpoll :: "int \<Rightarrow> events \<Rightarrow> manager \<Rightarrow> manager" where
  "addToEpoll fd ev m = m\<lparr>epollFd := epoll_ctl_add fd ev (epollFd m)\<rparr>"

definition rearmFd :: "int \<Rightarrow> manager \<Rightarrow> manager" where
  "rearmFd fd m = m\<lparr>epollFd := epoll_ctl_mod fd (EPOLLIN OR EPOLLONESHOT) (epollFd m)\<rparr>"

text \<open>The constructor (its pool throws for less than one thread), then the registrations of \<open>operator()\<close>.\<close>

definition ClientManager_new ::
    "NewFdChannel \<Rightarrow> ReturnChannel \<Rightarrow> int \<Rightarrow> int \<Rightarrow> int \<Rightarrow> nat list \<Rightarrow> exn + manager" where
  "ClientManager_new newFd ret newPipe retPipe threads choice =
     (case TaskExecutor_new threads choice of
        Inl e \<Rightarrow> Inl e
      | Inr pool \<Rightarrow>
          Inr (addToEpoll retPipe EPOLLIN (addToEpoll newPipe EPOLLIN
            \<lparr>newFdChannel = newFd, returnChannel = ret, newPipeRead = newPipe,
             returnPipeRead = retPipe, workerPool = pool, epollFd = umap_empty,
             connections = umap_empty, mg_closed = []\<rparr>)))"

section \<open>Draining the channels\<close>

text \<open>\<open>emplace\<close> keeps an entry that is already there; the new client is destroyed then.\<close>

definition connect :: "IClient \<Rightarrow> manager \<Rightarrow> manager" where
  "connect client m = m\<lparr>connections := umap_insert (getFd client) client (connections m)\<rparr>"

function drainNewFdChannel :: "manager \<Rightarrow> manager" where
  "drainNewFdChannel m =
     (case try_dequeue (nf_clients (newFdChannel m)) of
        None \<Rightarrow> m
      | Some (client, q) \<Rightarrow>
          drainNewFdChannel
            (connect client
              (m\<lparr>newFdChannel := (newFdChannel m)\<lparr>nf_clients := q\<rparr>,
                 epollFd := epoll_ctl_add (getFd client) (EPOLLIN OR EPOLLONESHOT) (epollFd m)\<rparr>)))"
  by pat_completeness auto
termination
  by (relation "measure (\<lambda>m. length (q_items (nf_clients (newFdChannel m))))")
    (auto simp: connect_def dest: mpmc.deq_length)

declare drainNewFdChannel.simps [simp del]

definition closed_client :: "IClient \<Rightarrow> IClient" where
  "closed_client c = c\<lparr>getStream := stream_close (getStream c)\<rparr>"

definition take_back :: "ReturnedConnection \<Rightarrow> manager \<Rightarrow> manager" where
  "take_back rc m =
     (let client = rc_client rc; fd = getFd client
      in if rc_keepAlive rc then rearmFd fd (connect client m)
         else m\<lparr>mg_closed := mg_closed m @ [closed_client client],
                epollFd := epoll_close fd (getStream client) (epollFd m)\<rparr>)"

lemma take_back_channels [simp]:
  "newFdChannel (take_back rc m) = newFdChannel m" "returnChannel (take_back rc m) = returnChannel m"
  "workerPool (take_back rc m) = workerPool m"
  by (simp_all add: take_back_def rearmFd_def connect_def Let_def)

function drainReturnChannel :: "manager \<Rightarrow> manager" where
  "drainReturnChannel m =
     (case try_dequeue (rt_connections (returnChannel m)) of
        None \<Rightarrow> m
      | Some (rc, q) \<Rightarrow>
          drainReturnChannel
            (take_back rc (m\<lparr>returnChannel := (returnChannel m)\<lparr>rt_connections := q\<rparr>\<rparr>)))"
  by pat_completeness auto
termination
  by (relation "measure (\<lambda>m. length (q_items (rt_connections (returnChannel m))))")
    (auto dest: mpmc.deq_length)

declare drainReturnChannel.simps [simp del]

section \<open>Events\<close>

definition handleClientEvent :: "int \<Rightarrow> events \<Rightarrow> manager \<Rightarrow> exn + manager" where
  "handleClientEvent fd ev m =
     (case umap_find (connections m) fd of
        None \<Rightarrow> Inr m
      | Some client \<Rightarrow>
          if ev AND (EPOLLERR OR EPOLLHUP) \<noteq> 0
          then Inr (m\<lparr>connections := umap_erase fd (connections m),
                 mg_closed := mg_closed m @ [closed_client client],
                 epollFd := epoll_close (getFd client) (getStream client) (epollFd m)\<rparr>)
          else
            (case stream_peek MAX_HEADER_BYTES (getStream client) of
               (view, s1) \<Rightarrow>
                 (case find_str DOUBLE_CRLF view of
                    None \<Rightarrow>
                      Inr (rearmFd fd (m\<lparr>connections :=
                        umap_assign fd (client\<lparr>getStream := s1\<rparr>) (connections m)\<rparr>))
                  | Some pos \<Rightarrow>
                      (case stream_read (int (pos + 4)) s1 of
                         (Inl e, s2) \<Rightarrow> Inl e
                       | (Inr consumed, s2) \<Rightarrow>
                           Inr (m\<lparr>connections := umap_erase fd (connections m),
                             workerPool := add_task epoll_thread
                               (client\<lparr>getStream := s2\<rparr>, take pos consumed) (workerPool m)\<rparr>)))))"

text \<open>
  One event of a batch. The read of 0 bytes on the pipe of new clients is the shutdown signal; an
  exception out of \<open>handleClientEvent\<close> would end the process.
\<close>

datatype loop_result = Goes_on manager | Shut_down manager | Crashed exn

definition process_event :: "int \<times> events \<Rightarrow> manager \<Rightarrow> loop_result" where
  "process_event event m =
     (case event of (fd, ev) \<Rightarrow>
        if fd = newPipeRead m then
          (let (r, p) = pipe_read 256 (nf_pipe (newFdChannel m));
               m' = m\<lparr>newFdChannel := (newFdChannel m)\<lparr>nf_pipe := p\<rparr>\<rparr>
           in if r = 0 then Shut_down (m'\<lparr>epollFd := umap_empty\<rparr>) else Goes_on (drainNewFdChannel m'))
        else if fd = returnPipeRead m then
          (let (r, p) = pipe_read 256 (rt_pipe (returnChannel m))
           in Goes_on (drainReturnChannel
                (m\<lparr>returnChannel := (returnChannel m)\<lparr>rt_pipe := p\<rparr>\<rparr>)))
        else
          (case handleClientEvent fd ev m of Inl e \<Rightarrow> Crashed e | Inr m' \<Rightarrow> Goes_on m'))"

fun process_events :: "(int \<times> events) list \<Rightarrow> manager \<Rightarrow> loop_result" where
  "process_events [] m = Goes_on m"
| "process_events (event # events) m =
     (case process_event event m of
        Goes_on m' \<Rightarrow> process_events events m'
      | Shut_down m' \<Rightarrow> Shut_down m'
      | Crashed e \<Rightarrow> Crashed e)"

text \<open>
  The loop of \<open>operator()\<close>: a wait gives a batch of events, is interrupted by a signal, or fails for
  good, which ends the loop. The argument is what the successive waits do; when it is used up, the
  loop waits. \<open>Left\<close> is the return of \<open>operator()\<close>, after \<open>close(epollFd)\<close>.
\<close>

datatype wait_result = Ready "(int \<times> events) list" | Interrupted | Wait_failed

datatype loop_state = Waiting manager | Left manager | Terminated exn

definition close_epoll :: "manager \<Rightarrow> manager" where
  "close_epoll m = m\<lparr>epollFd := umap_empty\<rparr>"

fun event_loop :: "wait_result list \<Rightarrow> manager \<Rightarrow> loop_state" where
  "event_loop [] m = Waiting m"
| "event_loop (Ready events # waits) m =
     (case process_events events m of
        Goes_on m' \<Rightarrow> event_loop waits m'
      | Shut_down m' \<Rightarrow> Left m'
      | Crashed e \<Rightarrow> Terminated e)"
| "event_loop (Interrupted # waits) m = event_loop waits m"
| "event_loop (Wait_failed # waits) m = Left (close_epoll m)"

text \<open>
  What \<open>epoll_wait\<close> may report: a registered, armed descriptor with something to read. The stream of
  a connection is readable when its transport has something, whatever its own buffer holds.
\<close>

fun transport_readable :: "istream \<Rightarrow> bool" where
  "transport_readable (PlainS s) \<longleftrightarrow> incoming (ps_sock s) \<noteq> [] \<or> fin (ps_sock s)"
| "transport_readable (TlsS s) \<longleftrightarrow> ssl_events (ss_ssl s) \<noteq> []"

definition armed :: "int \<Rightarrow> epoll_set \<Rightarrow> bool" where
  "armed fd es \<longleftrightarrow> (case umap_find es fd of None \<Rightarrow> False | Some i \<Rightarrow> \<not> in_fired i)"

definition reportable :: "manager \<Rightarrow> int \<Rightarrow> bool" where
  "reportable m fd \<longleftrightarrow> armed fd (epollFd m) \<and>
     (if fd = newPipeRead m then pipe_readable (nf_pipe (newFdChannel m))
      else if fd = returnPipeRead m then pipe_readable (rt_pipe (returnChannel m))
      else case umap_find (connections m) fd of
             None \<Rightarrow> False | Some client \<Rightarrow> transport_readable (getStream client))"

section \<open>One event of a client\<close>

definition no_error_flags :: "events \<Rightarrow> bool" where
  "no_error_flags ev \<longleftrightarrow> ev AND (EPOLLERR OR EPOLLHUP) = 0"

lemma handle_unknown: "umap_find (connections m) fd = None \<Longrightarrow> handleClientEvent fd ev m = Inr m"
  by (simp add: handleClientEvent_def)

lemma handle_error_flags:
  "umap_find (connections m) fd = Some client \<Longrightarrow> \<not> no_error_flags ev \<Longrightarrow>
   handleClientEvent fd ev m = Inr (m\<lparr>connections := umap_erase fd (connections m),
     mg_closed := mg_closed m @ [closed_client client],
     epollFd := epoll_close (getFd client) (getStream client) (epollFd m)\<rparr>)"
  by (simp add: handleClientEvent_def no_error_flags_def)

lemma handle_incomplete:
  assumes "umap_find (connections m) fd = Some client" "no_error_flags ev"
    and "stream_peek MAX_HEADER_BYTES (getStream client) = (view, s1)"
    and "find_str DOUBLE_CRLF view = None"
  shows "handleClientEvent fd ev m = Inr (rearmFd fd (m\<lparr>connections :=
    umap_assign fd (client\<lparr>getStream := s1\<rparr>) (connections m)\<rparr>))"
  using assms by (simp add: handleClientEvent_def no_error_flags_def)

text \<open>A complete head: the task gets exactly the bytes before the blank line.\<close>

lemma handle_complete:
  assumes "umap_find (connections m) fd = Some client" "no_error_flags ev"
    and "stream_peek MAX_HEADER_BYTES (getStream client) = (view, s1)"
    and "find_str DOUBLE_CRLF view = Some pos"
  shows "\<exists>s2. handleClientEvent fd ev m = Inr (m\<lparr>connections := umap_erase fd (connections m),
      workerPool := add_task epoll_thread (client\<lparr>getStream := s2\<rparr>, take pos view) (workerPool m)\<rparr>) \<and>
    stream_content (getStream client) = take pos view @ DOUBLE_CRLF @ stream_content s2 \<and>
    stream_wire s2 = stream_wire s1 \<and> stream_buffered s2 = drop (pos + 4) view \<and>
    (\<exists>r. stream_read (int (pos + 4)) s1 = (r, s2))"
proof -
  obtain r s2 where rd: "stream_read (int (pos + length DOUBLE_CRLF)) s1 = (r, s2)" by force
  note cut = streams.peek_then_cut [OF assms(3,4) rd]
  have "pos \<le> length view" using find_str_bound [OF assms(4)] by simp
  with cut(1) have "r = Inr (take pos view @ DOUBLE_CRLF)" "take pos (take pos view @ DOUBLE_CRLF) = take pos view"
    by simp_all
  with rd assms cut(2-4) show ?thesis
    by (auto simp: handleClientEvent_def no_error_flags_def intro!: exI [of _ s2])
qed

lemma handle_never_throws: "\<exists>m'. handleClientEvent fd ev m = Inr m'"
proof (cases "umap_find (connections m) fd")
  case None
  then show ?thesis by (simp add: handle_unknown)
next
  case (Some client)
  obtain view s1 where pk: "stream_peek MAX_HEADER_BYTES (getStream client) = (view, s1)" by force
  show ?thesis
  proof (cases "no_error_flags ev")
    case True
    with handle_incomplete [OF Some True pk] handle_complete [OF Some True pk] show ?thesis
      by (cases "find_str DOUBLE_CRLF view") blast+
  next
    case False
    with handle_error_flags [OF Some] show ?thesis by blast
  qed
qed

lemma umap_ok_ctl_mod [simp]: "umap_ok es \<Longrightarrow> umap_ok (epoll_ctl_mod fd ev es)"
  by (simp add: epoll_ctl_mod_def split: option.split)

lemma armed_ctl [simp]:
  "armed fd (epoll_ctl_mod fd ev es) \<longleftrightarrow> umap_find es fd \<noteq> None"
  "fd \<noteq> fd' \<Longrightarrow> armed fd (epoll_ctl_mod fd' ev es) = armed fd es"
  "umap_find es fd = None \<Longrightarrow> armed fd (epoll_ctl_add fd ev es)"
  "armed fd es \<Longrightarrow> armed fd (epoll_ctl_add fd' ev es)"
  by (auto simp: armed_def epoll_ctl_mod_def epoll_ctl_add_def split: option.splits)

text \<open>A plain stream without receive errors shows everything it has, up to the requested size.\<close>

lemma peek_plain_view:
  assumes "no_failure (incoming (ps_sock s))" "stream_peek MAX_HEADER_BYTES (PlainS s) = (view, s1)"
  shows "prefix view (pending s) \<and> (65536 \<le> length view \<or> view = pending s)"
proof -
  obtain v s' where pk: "PlainStream_peek MAX_HEADER_BYTES s = (v, s')" by force
  with assms(2) have "view = v" by simp
  with PlainStream_peek_spec [OF pk] plain.peek_is_prefix [OF pk] assms(1) show ?thesis
    by (auto simp: MAX_HEADER_BYTES_def)
qed

lemma stream_content_plain [simp]: "stream_content (PlainS s) = pending s"
  by (simp add: stream_content_def pending_def)

lemma handle_complete_plain:
  assumes "umap_find (connections m) fd = Some client" "no_error_flags ev"
    and "getStream client = PlainS s" "no_failure (incoming (ps_sock s))"
    and "find_str DOUBLE_CRLF (pending s) = Some n" "n + 4 \<le> 65536"
  shows "\<exists>t. handleClientEvent fd ev m = Inr (m\<lparr>connections := umap_erase fd (connections m),
      workerPool := add_task epoll_thread (client\<lparr>getStream := PlainS t\<rparr>, take n (pending s)) (workerPool m)\<rparr>) \<and>
    pending t = drop (n + 4) (pending s) \<and> no_failure (incoming (ps_sock t)) \<and>
    same_sending (ps_sock s) (ps_sock t)"
proof -
  obtain view s1 where pk: "PlainStream_peek MAX_HEADER_BYTES s = (view, s1)" by force
  then have pk': "stream_peek MAX_HEADER_BYTES (getStream client) = (view, PlainS s1)"
    using assms(3) by simp
  note spec = PlainStream_peek_spec [OF pk]
  from peek_plain_view [OF assms(4)] pk assms(6) find_str_bound [OF assms(5)]
  have view: "prefix view (pending s)" "n + length DOUBLE_CRLF \<le> length view" by fastforce+
  have found: "find_str DOUBLE_CRLF view = Some n"
    by (rule find_str_in_prefix [OF view(1) assms(5) view(2)])
  from view have same: "take n view = take n (pending s)" by (auto simp: prefix_def)
  obtain s2 where
    s2: "handleClientEvent fd ev m = Inr (m\<lparr>connections := umap_erase fd (connections m),
      workerPool := add_task epoll_thread (client\<lparr>getStream := s2\<rparr>, take n (pending s)) (workerPool m)\<rparr>)"
    "pending s = take n (pending s) @ DOUBLE_CRLF @ stream_content s2"
    and rd: "\<exists>r. stream_read (int (n + 4)) (PlainS s1) = (r, s2)"
    using handle_complete [OF assms(1,2) pk' found] same assms(3) by auto
  from rd obtain r t where t: "PlainStream_read (int (n + 4)) s1 = (r, t)" "s2 = PlainS t"
    by (auto split: prod.splits)
  have "n + 4 \<le> length (leftoverBuffer s1)" using view(2) spec(1) by simp
  from PlainStream_read_buffered(2) [OF this t(1)] spec(5,7) assms(4)
  have "ps_sock t = ps_sock s1" "no_failure (incoming (ps_sock s1))" "same_sending (ps_sock s) (ps_sock s1)"
    by simp_all
  moreover have "drop (n + 4) (take n (pending s) @ DOUBLE_CRLF @ stream_content s2) = stream_content s2"
    using find_str_bound [OF assms(5)] by simp
  then have "pending t = drop (n + 4) (pending s)" using s2(2) t(2) by (metis stream_content_plain)
  ultimately show ?thesis using s2(1) t(2) by (intro exI [of _ t]) simp
qed

section \<open>Ownership\<close>

text \<open>
  The descriptors the server holds, by place: waiting in the channel of new clients, connected to the
  event loop, with a worker (queued or running), on the way back. A closed one is held no more.
\<close>

definition waiting_fds :: "manager \<Rightarrow> int list" where
  "waiting_fds m = map (\<lambda>x. getFd (snd x)) (q_items (nf_clients (newFdChannel m)))"

definition connected_fds :: "manager \<Rightarrow> int list" where
  "connected_fds m = map fst (connections m)"

definition pool_fds :: "task executor \<Rightarrow> int list" where
  "pool_fds e = map (\<lambda>t. getFd (fst t)) (queued e @ running_in (ex_threads e))"

definition returned_fds :: "manager \<Rightarrow> int list" where
  "returned_fds m = map (\<lambda>x. getFd (rc_client (snd x))) (q_items (rt_connections (returnChannel m)))"

definition live_fds :: "manager \<Rightarrow> int list" where
  "live_fds m = waiting_fds m @ connected_fds m @ pool_fds (workerPool m) @ returned_fds m"

definition closed_fds :: "manager \<Rightarrow> int list" where
  "closed_fds m = map getFd (mg_closed m)"

definition conns_ok :: "manager \<Rightarrow> bool" where
  "conns_ok m \<longleftrightarrow> umap_ok (connections m) \<and> list_all (\<lambda>(fd, c). getFd c = fd) (connections m)"

lemma closed_client_fd [simp]: "getFd (closed_client c) = getFd c"
  by (simp add: closed_client_def)

lemma connect_fresh:
  "getFd c \<notin> set (connected_fds m) \<Longrightarrow>
     connections (connect c m) = connections m @ [(getFd c, c)]"
  by (auto simp: connect_def umap_insert_def connected_fds_def)

lemma conns_ok_connect:
  "conns_ok m \<Longrightarrow> getFd c \<notin> set (connected_fds m) \<Longrightarrow> conns_ok (connect c m)"
proof -
  assume ok: "conns_ok m" and fresh: "getFd c \<notin> set (connected_fds m)"
  from ok have "umap_ok (connections (connect c m))" by (simp add: conns_ok_def connect_def)
  with ok connect_fresh [OF fresh] show ?thesis by (simp add: conns_ok_def)
qed

lemma connect_frame [simp]:
  "newFdChannel (connect c m) = newFdChannel m" "returnChannel (connect c m) = returnChannel m"
  "workerPool (connect c m) = workerPool m" "mg_closed (connect c m) = mg_closed m"
  "epollFd (connect c m) = epollFd m" "newPipeRead (connect c m) = newPipeRead m"
  "returnPipeRead (connect c m) = returnPipeRead m"
  by (simp_all add: connect_def)

lemma conns_ok_find: "conns_ok m \<Longrightarrow> umap_find (connections m) fd = Some c \<Longrightarrow> getFd c = fd"
  by (auto simp: conns_ok_def umap_find_def list_all_iff dest: map_of_SomeD)

lemma connected_find: "umap_find (connections m) fd \<noteq> None \<longleftrightarrow> fd \<in> set (connected_fds m)"
  by (simp add: umap_find_def connected_fds_def map_of_eq_None_iff del: not_None_eq)

lemma distinct_connected: "conns_ok m \<Longrightarrow> distinct (connected_fds m)"
  by (simp add: conns_ok_def connected_fds_def umap_ok_def)

text \<open>Taking one client out of the channel of new clients.\<close>

lemma take_waiting:
  assumes "try_dequeue (nf_clients (newFdChannel m)) = Some (c, q)"
  shows "mset (waiting_fds m) = add_mset (getFd c) (mset (map (\<lambda>x. getFd (snd x)) (q_items q)))"
  using mpmc.deq_Some [OF assms] by (auto simp: waiting_fds_def)

lemma take_returned:
  assumes "try_dequeue (rt_connections (returnChannel m)) = Some (rc, q)"
  shows "mset (returned_fds m) =
    add_mset (getFd (rc_client rc)) (mset (map (\<lambda>x. getFd (rc_client (snd x))) (q_items q)))"
  using mpmc.deq_Some [OF assms] by (auto simp: returned_fds_def)

definition drained_new :: "manager \<Rightarrow> manager \<Rightarrow> bool" where
  "drained_new m m' \<longleftrightarrow>
     conns_ok m' \<and> waiting_fds m' = [] \<and>
     mset (connected_fds m') = mset (waiting_fds m) + mset (connected_fds m) \<and>
     (\<forall>fd c. umap_find (connections m) fd = Some c \<longrightarrow> umap_find (connections m') fd = Some c) \<and>
     (\<forall>p c. (p, c) \<in> set (q_items (nf_clients (newFdChannel m))) \<longrightarrow>
        umap_find (connections m') (getFd c) = Some c) \<and>
     (\<forall>fd. armed fd (epollFd m) \<longrightarrow> armed fd (epollFd m')) \<and>
     (\<forall>fd \<in> set (waiting_fds m). umap_find (epollFd m) fd = None \<longrightarrow> armed fd (epollFd m')) \<and>
     returnChannel m' = returnChannel m \<and> workerPool m' = workerPool m \<and> mg_closed m' = mg_closed m \<and>
     nf_pipe (newFdChannel m') = nf_pipe (newFdChannel m) \<and>
     newPipeRead m' = newPipeRead m \<and> returnPipeRead m' = returnPipeRead m"

text \<open>The body of the loop, and what it does to the accounting.\<close>

definition admit :: "IClient \<Rightarrow> IClient mpmc \<Rightarrow> manager \<Rightarrow> manager" where
  "admit c q m = connect c (m\<lparr>newFdChannel := (newFdChannel m)\<lparr>nf_clients := q\<rparr>,
     epollFd := epoll_ctl_add (getFd c) (EPOLLIN OR EPOLLONESHOT) (epollFd m)\<rparr>)"

lemma admit_frame [simp]:
  "waiting_fds (admit c q m) = map (\<lambda>x. getFd (snd x)) (q_items q)"
  "nf_clients (newFdChannel (admit c q m)) = q"
  "returnChannel (admit c q m) = returnChannel m" "workerPool (admit c q m) = workerPool m"
  "mg_closed (admit c q m) = mg_closed m" "nf_pipe (newFdChannel (admit c q m)) = nf_pipe (newFdChannel m)"
  "newPipeRead (admit c q m) = newPipeRead m" "returnPipeRead (admit c q m) = returnPipeRead m"
  "epollFd (admit c q m) = epoll_ctl_add (getFd c) (EPOLLIN OR EPOLLONESHOT) (epollFd m)"
  by (simp_all add: admit_def waiting_fds_def)

lemma admit_fresh:
  assumes "conns_ok m" "distinct (waiting_fds m @ connected_fds m)"
    and deq: "try_dequeue (nf_clients (newFdChannel m)) = Some (c, q)"
  shows "getFd c \<in> set (waiting_fds m)" "getFd c \<notin> set (connected_fds m)"
    "connected_fds (admit c q m) = connected_fds m @ [getFd c]" "conns_ok (admit c q m)"
    "mset (waiting_fds (admit c q m)) + {#getFd c#} = mset (waiting_fds m)"
    "distinct (waiting_fds (admit c q m) @ connected_fds (admit c q m))"
    "umap_find (connections (admit c q m)) fd =
      (if fd = getFd c then Some c else umap_find (connections m) fd)"
proof -
  let ?m0 = "m\<lparr>newFdChannel := (newFdChannel m)\<lparr>nf_clients := q\<rparr>,
     epollFd := epoll_ctl_add (getFd c) (EPOLLIN OR EPOLLONESHOT) (epollFd m)\<rparr>"
  from take_waiting [OF deq] show mem: "getFd c \<in> set (waiting_fds m)"
    by (metis set_mset_mset union_single_eq_member)
  with assms(2) show fresh: "getFd c \<notin> set (connected_fds m)" by auto
  then have fresh0: "getFd c \<notin> set (connected_fds ?m0)" by (simp add: connected_fds_def)
  show connected: "connected_fds (admit c q m) = connected_fds m @ [getFd c]"
    using connect_fresh [OF fresh0] by (simp add: connected_fds_def admit_def)
  show "conns_ok (admit c q m)"
    unfolding admit_def using assms(1) fresh0 by (intro conns_ok_connect) (simp_all add: conns_ok_def)
  show all: "mset (waiting_fds (admit c q m)) + {#getFd c#} = mset (waiting_fds m)"
    using take_waiting [OF deq] by simp
  then have "mset (waiting_fds (admit c q m) @ connected_fds (admit c q m)) =
      mset (waiting_fds m @ connected_fds m)"
    using connected by (simp add: union_commute)
  with assms(2) mset_eq_imp_distinct_iff
  show "distinct (waiting_fds (admit c q m) @ connected_fds (admit c q m))" by blast
  show "umap_find (connections (admit c q m)) fd =
      (if fd = getFd c then Some c else umap_find (connections m) fd)"
    using fresh connected_find [of m fd] by (auto simp: connect_def admit_def)
qed

lemma drained_new_admit:
  assumes pre: "conns_ok m" "distinct (waiting_fds m @ connected_fds m)"
    and deq: "try_dequeue (nf_clients (newFdChannel m)) = Some (c, q)"
    and step: "drained_new (admit c q m) m'"
  shows "drained_new m m'"
proof -
  note facts = admit_fresh [OF pre deq]
  obtain p us vs where split: "q_items (nf_clients (newFdChannel m)) = us @ (p, c) # vs"
    "q_items q = us @ vs" using mpmc.deq_Some [OF deq] by blast
  have keep: "umap_find (connections m') fd = Some d"
    if "umap_find (connections (admit c q m)) fd = Some d" for fd d
    using step that unfolding drained_new_def by blast
  have old: "umap_find (connections m') fd = Some d" if "umap_find (connections m) fd = Some d" for fd d
  proof -
    from that connected_find [of m fd] have "fd \<in> set (connected_fds m)" by simp
    with facts(2) have "fd \<noteq> getFd c" by blast
    with that keep [of fd d] facts(7) [of fd] show ?thesis by simp
  qed
  have new: "umap_find (connections m') (getFd d) = Some d"
    if "(p', d) \<in> set (q_items (nf_clients (newFdChannel m)))" for p' d
  proof (cases "(p', d) = (p, c)")
    case True
    then show ?thesis using keep [of "getFd c" c] facts(7) [of "getFd c"] by simp
  next
    case False
    with that split have "(p', d) \<in> set (q_items (nf_clients (newFdChannel (admit c q m))))" by auto
    with step show ?thesis unfolding drained_new_def by blast
  qed
  have arm: "armed fd (epollFd m')" if "armed fd (epollFd (admit c q m))" for fd
    using step that unfolding drained_new_def by blast
  have arm1: "armed fd (epollFd m')" if "armed fd (epollFd m)" for fd
    using that arm [of fd] by simp
  have arm2: "armed fd (epollFd m')"
    if "fd \<in> set (waiting_fds m)" "umap_find (epollFd m) fd = None" for fd
  proof (cases "fd = getFd c")
    case False
    with that(1) facts(5) have "fd \<in> set (waiting_fds (admit c q m))"
      by (metis add_mset_add_single insert_iff set_mset_add_mset_insert set_mset_mset)
    moreover from that(2) False have "umap_find (epollFd (admit c q m)) fd = None"
      by (simp add: epoll_ctl_add_def)
    ultimately show ?thesis using step unfolding drained_new_def by blast
  qed (use that(2) arm [of fd] in simp)
  have fds: "mset (connected_fds m') = mset (waiting_fds m) + mset (connected_fds m)"
    using step facts(3,5) unfolding drained_new_def by (simp add: ac_simps)
  from step old new arm1 arm2 fds show ?thesis unfolding drained_new_def by simp
qed

lemma drain_new:
  "conns_ok m \<Longrightarrow> distinct (waiting_fds m @ connected_fds m) \<Longrightarrow> drained_new m (drainNewFdChannel m)"
proof (induction m rule: drainNewFdChannel.induct)
  case (1 m)
  show ?case
  proof (cases "try_dequeue (nf_clients (newFdChannel m))")
    case None
    then have "q_items (nf_clients (newFdChannel m)) = []" by (simp add: mpmc.deq_None)
    with None 1(2) drainNewFdChannel.simps [of m] show ?thesis
      by (simp add: drained_new_def waiting_fds_def)
  next
    case (Some cq)
    obtain c q where cq: "cq = (c, q)" by force
    with Some have deq: "try_dequeue (nf_clients (newFdChannel m)) = Some (c, q)" by simp
    note facts = admit_fresh [OF 1(2,3) deq]
    have "drained_new (admit c q m) (drainNewFdChannel (admit c q m))"
      using 1(1) [OF deq refl] facts(4,6) by (simp add: admit_def)
    moreover have "drainNewFdChannel m = drainNewFdChannel (admit c q m)"
      using deq by (simp add: drainNewFdChannel.simps [of m] admit_def)
    ultimately show ?thesis using drained_new_admit [OF 1(2,3) deq] by simp
  qed
qed

text \<open>The same for the return channel.\<close>

definition drained_return :: "manager \<Rightarrow> manager \<Rightarrow> bool" where
  "drained_return m m' \<longleftrightarrow>
     conns_ok m' \<and> returned_fds m' = [] \<and>
     (\<exists>cs. mg_closed m' = mg_closed m @ cs \<and>
        mset (connected_fds m') + mset (map getFd cs) = mset (connected_fds m) + mset (returned_fds m)) \<and>
     (\<forall>fd c. umap_find (connections m) fd = Some c \<longrightarrow> umap_find (connections m') fd = Some c) \<and>
     (\<forall>p rc. (p, rc) \<in> set (q_items (rt_connections (returnChannel m))) \<longrightarrow>
        (if rc_keepAlive rc then umap_find (connections m') (getFd (rc_client rc)) = Some (rc_client rc)
         else closed_client (rc_client rc) \<in> set (mg_closed m'))) \<and>
     newFdChannel m' = newFdChannel m \<and> workerPool m' = workerPool m \<and>
     rt_pipe (returnChannel m') = rt_pipe (returnChannel m) \<and>
     newPipeRead m' = newPipeRead m \<and> returnPipeRead m' = returnPipeRead m"

definition settle :: "ReturnedConnection \<Rightarrow> ReturnedConnection mpmc \<Rightarrow> manager \<Rightarrow> manager" where
  "settle rc q m = take_back rc (m\<lparr>returnChannel := (returnChannel m)\<lparr>rt_connections := q\<rparr>\<rparr>)"

lemma settle_frame [simp]:
  "returned_fds (settle rc q m) = map (\<lambda>x. getFd (rc_client (snd x))) (q_items q)"
  "rt_connections (returnChannel (settle rc q m)) = q"
  "rt_pipe (returnChannel (settle rc q m)) = rt_pipe (returnChannel m)"
  "newFdChannel (settle rc q m) = newFdChannel m" "workerPool (settle rc q m) = workerPool m"
  "newPipeRead (settle rc q m) = newPipeRead m" "returnPipeRead (settle rc q m) = returnPipeRead m"
  by (simp_all add: settle_def returned_fds_def)
    (simp_all add: take_back_def rearmFd_def Let_def)

lemma settle_keep:
  assumes "rc_keepAlive rc" "getFd (rc_client rc) \<notin> set (connected_fds m)"
  shows "connections (settle rc q m) = connections m @ [(getFd (rc_client rc), rc_client rc)]"
    "mg_closed (settle rc q m) = mg_closed m"
  using assms connect_fresh [of "rc_client rc" "m\<lparr>returnChannel := (returnChannel m)\<lparr>rt_connections := q\<rparr>\<rparr>"]
  by (simp_all add: settle_def take_back_def rearmFd_def Let_def connected_fds_def)

lemma settle_close:
  assumes "\<not> rc_keepAlive rc"
  shows "connections (settle rc q m) = connections m"
    "mg_closed (settle rc q m) = mg_closed m @ [closed_client (rc_client rc)]"
  using assms by (simp_all add: settle_def take_back_def Let_def)

lemma settle_facts:
  assumes "conns_ok m" "distinct (returned_fds m @ connected_fds m)"
    and deq: "try_dequeue (rt_connections (returnChannel m)) = Some (rc, q)"
  shows "conns_ok (settle rc q m)"
    "distinct (returned_fds (settle rc q m) @ connected_fds (settle rc q m))"
    "\<exists>cs. mg_closed (settle rc q m) = mg_closed m @ cs \<and>
       mset (connected_fds (settle rc q m)) + mset (map getFd cs) + mset (returned_fds (settle rc q m)) =
       mset (connected_fds m) + mset (returned_fds m)"
    "umap_find (connections (settle rc q m)) fd =
       (if rc_keepAlive rc \<and> fd = getFd (rc_client rc) then Some (rc_client rc)
        else umap_find (connections m) fd)"
proof -
  let ?c = "rc_client rc"
  from take_returned [OF deq] have mem: "getFd ?c \<in> set (returned_fds m)"
    by (metis set_mset_mset union_single_eq_member)
  with assms(2) have fresh: "getFd ?c \<notin> set (connected_fds m)" by auto
  then have unknown: "umap_find (connections m) (getFd ?c) = None" using connected_find by blast
  have here: "mset (returned_fds (settle rc q m)) + {#getFd ?c#} = mset (returned_fds m)"
    using take_returned [OF deq] by simp
  have sub: "distinct (returned_fds (settle rc q m)) \<and> getFd ?c \<notin> set (returned_fds (settle rc q m)) \<and>
      set (returned_fds (settle rc q m)) \<subseteq> set (returned_fds m)"
  proof -
    have "mset (getFd ?c # returned_fds (settle rc q m)) = mset (returned_fds m)" using here by simp
    with assms(2) mset_eq_imp_distinct_iff [OF this] mset_eq_setD [OF this] show ?thesis by auto
  qed
  have kept: "connected_fds (settle rc q m) = connected_fds m @ [getFd ?c]" if "rc_keepAlive rc"
    using settle_keep(1) [OF that fresh] by (simp add: connected_fds_def)
  have gone: "connected_fds (settle rc q m) = connected_fds m" if "\<not> rc_keepAlive rc"
    using settle_close(1) [OF that] by (simp add: connected_fds_def)
  show "conns_ok (settle rc q m)"
  proof (cases "rc_keepAlive rc")
    case True
    have "umap_ok (umap_insert (getFd ?c) ?c (connections m))" using assms(1) by (simp add: conns_ok_def)
    then have "umap_ok (connections m @ [(getFd ?c, ?c)])"
      using fresh by (simp add: umap_insert_def connected_fds_def)
    with assms(1) settle_keep(1) [OF True fresh] show ?thesis by (simp add: conns_ok_def)
  qed (use assms(1) in \<open>simp add: conns_ok_def settle_close(1)\<close>)
  show "distinct (returned_fds (settle rc q m) @ connected_fds (settle rc q m))"
    using sub fresh assms(2) kept gone by (cases "rc_keepAlive rc") (auto simp del: settle_frame(1))
  show "\<exists>cs. mg_closed (settle rc q m) = mg_closed m @ cs \<and>
       mset (connected_fds (settle rc q m)) + mset (map getFd cs) + mset (returned_fds (settle rc q m)) =
       mset (connected_fds m) + mset (returned_fds m)"
  proof (cases "rc_keepAlive rc")
    case True
    with here kept settle_keep(2) [OF _ fresh] show ?thesis
      by (intro exI [of _ "[]"]) (simp del: settle_frame(1) flip: here)
  next
    case False
    with here gone settle_close(2) show ?thesis
      by (intro exI [of _ "[closed_client ?c]"]) (simp del: settle_frame(1) flip: here)
  qed
  show "umap_find (connections (settle rc q m)) fd =
       (if rc_keepAlive rc \<and> fd = getFd ?c then Some ?c else umap_find (connections m) fd)"
    using unknown settle_keep(1) [OF _ fresh] settle_close(1)
    by (cases "rc_keepAlive rc") (auto simp: umap_find_def map_add_def split: option.split)
qed

lemma chain_accounts:
  fixes a b c :: "'a multiset"
  assumes "a + x + b = t" "c + y = a + b"
  shows "c + (x + y) = t"
proof -
  have "c + (x + y) = (c + y) + x" by (simp add: ac_simps)
  with assms show ?thesis by (simp add: ac_simps)
qed

lemma drained_return_settle:
  assumes pre: "conns_ok m" "distinct (returned_fds m @ connected_fds m)"
    and deq: "try_dequeue (rt_connections (returnChannel m)) = Some (rc, q)"
    and step: "drained_return (settle rc q m) m'"
  shows "drained_return m m'"
proof -
  note facts = settle_facts [OF pre deq]
  obtain p us vs where split: "q_items (rt_connections (returnChannel m)) = us @ (p, rc) # vs"
    "q_items q = us @ vs" using mpmc.deq_Some [OF deq] by blast
  have keep: "umap_find (connections m') fd = Some d"
    if "umap_find (connections (settle rc q m)) fd = Some d" for fd d
    using step that unfolding drained_return_def by blast
  have "getFd (rc_client rc) \<in> set (returned_fds m)"
    using take_returned [OF deq] by (metis set_mset_mset union_single_eq_member)
  with pre(2) have "getFd (rc_client rc) \<notin> set (connected_fds m)" by auto
  then have "umap_find (connections m) (getFd (rc_client rc)) = None" using connected_find by blast
  then have old: "umap_find (connections m') fd = Some d" if "umap_find (connections m) fd = Some d" for fd d
    using that keep [of fd d] facts(4) [of fd] by (auto split: if_splits)
  have mono: "set (mg_closed (settle rc q m)) \<subseteq> set (mg_closed m')"
    using step unfolding drained_return_def by auto
  have new: "if rc_keepAlive rc' then umap_find (connections m') (getFd (rc_client rc')) = Some (rc_client rc')
      else closed_client (rc_client rc') \<in> set (mg_closed m')"
    if "(p', rc') \<in> set (q_items (rt_connections (returnChannel m)))" for p' rc'
  proof (cases "(p', rc') = (p, rc)")
    case True
    with keep [of "getFd (rc_client rc)" "rc_client rc"] facts(4) [of "getFd (rc_client rc)"]
      settle_close(2) [of rc q m] mono show ?thesis by auto
  next
    case False
    with that split have "(p', rc') \<in> set (q_items (rt_connections (returnChannel (settle rc q m))))"
      by auto
    with step show ?thesis unfolding drained_return_def by blast
  qed
  obtain cs1 cs2 where "mg_closed (settle rc q m) = mg_closed m @ cs1"
    "mset (connected_fds (settle rc q m)) + mset (map getFd cs1) + mset (returned_fds (settle rc q m)) =
      mset (connected_fds m) + mset (returned_fds m)"
    "mg_closed m' = mg_closed (settle rc q m) @ cs2"
    "mset (connected_fds m') + mset (map getFd cs2) =
      mset (connected_fds (settle rc q m)) + mset (returned_fds (settle rc q m))"
    using facts(3) step unfolding drained_return_def by blast
  then have "\<exists>cs. mg_closed m' = mg_closed m @ cs \<and>
      mset (connected_fds m') + mset (map getFd cs) = mset (connected_fds m) + mset (returned_fds m)"
    by (intro exI [of _ "cs1 @ cs2"]) (simp del: settle_frame(1) add: chain_accounts)
  with step old new show ?thesis unfolding drained_return_def by simp
qed

lemma drain_return:
  "conns_ok m \<Longrightarrow> distinct (returned_fds m @ connected_fds m) \<Longrightarrow>
     drained_return m (drainReturnChannel m)"
proof (induction m rule: drainReturnChannel.induct)
  case (1 m)
  show ?case
  proof (cases "try_dequeue (rt_connections (returnChannel m))")
    case None
    then have "q_items (rt_connections (returnChannel m)) = []" by (simp add: mpmc.deq_None)
    with None 1(2) drainReturnChannel.simps [of m] show ?thesis
      by (simp add: drained_return_def returned_fds_def)
  next
    case (Some cq)
    obtain rc q where cq: "cq = (rc, q)" by force
    with Some have deq: "try_dequeue (rt_connections (returnChannel m)) = Some (rc, q)" by simp
    note facts = settle_facts [OF 1(2,3) deq]
    have "drained_return (settle rc q m) (drainReturnChannel (settle rc q m))"
      using 1(1) [OF deq refl] facts(1,2) by (simp add: settle_def)
    moreover have "drainReturnChannel m = drainReturnChannel (settle rc q m)"
      using deq by (simp add: drainReturnChannel.simps [of m] settle_def)
    ultimately show ?thesis using drained_return_settle [OF 1(2,3) deq] by simp
  qed
qed

section \<open>Idle connections\<close>

lemma umap_assign_assign: "umap_assign k v (umap_assign k w es) = umap_assign k v es"
proof (cases "k \<in> fst ` set es")
  case True
  then have "k \<in> fst ` set (umap_assign k w es)" by (force simp: umap_assign_def)
  with True show ?thesis by (simp add: umap_assign_def comp_def case_prod_beta)
next
  case False
  then show ?thesis
    by (auto simp: umap_assign_def map_assign_absent)
qed

lemma umap_assign_same:
  assumes "umap_ok es" "umap_find es k = Some v"
  shows "umap_assign k v es = es"
proof -
  have "k \<in> fst ` set es" using assms(2) by (force simp: umap_find_def dest: map_of_SomeD)
  moreover have "w = v" if "(k, w) \<in> set es" for w
    using assms that by (simp add: umap_ok_def umap_find_def)
  then have "map (\<lambda>(k', v'). if k' = k then (k', v) else (k', v')) es = es"
    by (intro map_idI) auto
  ultimately show ?thesis by (simp add: umap_assign_def)
qed

lemma peek_idle:
  assumes "65536 \<le> length (leftoverBuffer s) \<or> incoming (ps_sock s) = [] \<and> fin (ps_sock s)"
  shows "PlainStream_peek MAX_HEADER_BYTES s = (leftoverBuffer s, s)"
  using assms
  by (auto simp: PlainStream_peek_def plain_fill.simps [of 65536] MAX_HEADER_BYTES_def
      recv_def)

lemma EPOLLONESHOT_set: "(EPOLLIN OR EPOLLONESHOT) AND EPOLLONESHOT \<noteq> 0"
  by (simp add: EPOLLIN_def EPOLLONESHOT_def)

lemma rearm_fire_rearm:
  assumes "umap_find es fd \<noteq> None"
  shows "epoll_ctl_mod fd (EPOLLIN OR EPOLLONESHOT)
      (epoll_fire fd (epoll_ctl_mod fd (EPOLLIN OR EPOLLONESHOT) es)) =
    epoll_ctl_mod fd (EPOLLIN OR EPOLLONESHOT) es"
  using assms EPOLLONESHOT_set
  by (auto simp: epoll_ctl_mod_def epoll_fire_def umap_assign_assign)

lemma handle_idle:
  assumes "conns_ok m" "umap_find (connections m) fd = Some client" "no_error_flags ev"
    and "getStream client = PlainS s" "find_str DOUBLE_CRLF (leftoverBuffer s) = None"
    and "65536 \<le> length (leftoverBuffer s) \<or> incoming (ps_sock s) = [] \<and> fin (ps_sock s)"
  shows "handleClientEvent fd ev m = Inr (rearmFd fd m)"
proof -
  have "client\<lparr>getStream := PlainS s\<rparr> = client" using assms(4) by simp
  with handle_incomplete [OF assms(2,3), of "leftoverBuffer s" "PlainS s"] peek_idle [OF assms(6)]
    assms(4,5) umap_assign_same [OF _ assms(2)] assms(1)
  show ?thesis by (simp add: conns_ok_def)
qed

section \<open>The loop\<close>

lemma process_event_never_crashes: "process_event event m \<noteq> Crashed e"
proof -
  have "handleClientEvent fd ev m \<noteq> Inl e" for fd ev using handle_never_throws [of fd ev m] by auto
  then show ?thesis by (auto simp: process_event_def Let_def split: prod.splits sum.splits)
qed

lemma process_events_append:
  "process_events (es @ fs) m =
     (case process_events es m of
        Goes_on m' \<Rightarrow> process_events fs m' | Shut_down m' \<Rightarrow> Shut_down m' | Crashed e \<Rightarrow> Crashed e)"
  by (induction es arbitrary: m) (auto split: loop_result.splits)

lemma process_events_never_crash: "process_events events m \<noteq> Crashed e"
  by (induction events arbitrary: m) (auto split: loop_result.splits simp: process_event_never_crashes)

text \<open>The events that the waits deliver before one of them fails.\<close>

fun delivered :: "wait_result list \<Rightarrow> (int \<times> events) list" where
  "delivered [] = []"
| "delivered (Ready events # waits) = events @ delivered waits"
| "delivered (Interrupted # waits) = delivered waits"
| "delivered (Wait_failed # waits) = []"

lemma event_loop_delivered:
  "event_loop waits m =
     (case process_events (delivered waits) m of
        Goes_on m' \<Rightarrow> if Wait_failed \<in> set waits then Left (close_epoll m') else Waiting m'
      | Shut_down m' \<Rightarrow> Left m'
      | Crashed e \<Rightarrow> Terminated e)"
  by (induction waits m rule: event_loop.induct)
    (auto simp: process_events_append split: loop_result.splits)

section \<open>Properties\<close>

text \<open>
  C29: how the kernel cuts the events into batches, and how often a signal interrupts the wait, does not
  matter: the loop does what processing the events one after the other does. It never ends by an
  exception; it ends only by the shutdown signal on the pipe of new clients or by a wait that fails.
\<close>

theorem event_loop_is_its_events:
  shows "event_loop waits m =
      (case process_events (delivered waits) m of
         Goes_on m' \<Rightarrow> if Wait_failed \<in> set waits then Left (close_epoll m') else Waiting m'
       | Shut_down m' \<Rightarrow> Left m'
       | Crashed e \<Rightarrow> Terminated e) \<and>
    event_loop waits m \<noteq> Terminated e"
  using process_events_never_crash [of "delivered waits" m]
  unfolding event_loop_delivered by (auto split: loop_result.splits)

text \<open>
  C3: A complete head is dispatched, and cut exactly. When a plain connection without receive errors
  has a blank line within its first 65536 pending bytes, an event moves it to the worker pool: the
  task gets precisely the bytes before the first blank line, the stream keeps precisely the bytes
  after it (the body and whatever follows), and the loop no longer holds the connection.
\<close>

theorem complete_head_dispatched:
  assumes "umap_find (connections m) fd = Some client" "no_error_flags ev"
    and "getStream client = PlainS s" "no_failure (incoming (ps_sock s))"
    and "find_str DOUBLE_CRLF (pending s) = Some n" "n + 4 \<le> 65536"
  shows "\<exists>s2. handleClientEvent fd ev m = Inr (m\<lparr>connections := umap_erase fd (connections m),
      workerPool := add_task epoll_thread (client\<lparr>getStream := s2\<rparr>, take n (pending s)) (workerPool m)\<rparr>) \<and>
    stream_content s2 = drop (n + 4) (pending s)"
proof -
  from handle_complete_plain [OF assms] obtain t where
    "handleClientEvent fd ev m = Inr (m\<lparr>connections := umap_erase fd (connections m),
      workerPool := add_task epoll_thread (client\<lparr>getStream := PlainS t\<rparr>, take n (pending s)) (workerPool m)\<rparr>)"
    "stream_content (PlainS t) = drop (n + 4) (pending s)" by auto
  then show ?thesis by blast
qed

definition example_manager :: "IClient \<Rightarrow> manager" where
  "example_manager c =
     \<lparr>newFdChannel = NewFdChannel_new [], returnChannel = ReturnChannel_new [], newPipeRead = 3,
      returnPipeRead = 4, workerPool = \<lparr>thread_count = 1, ex_threads = [Idle], ex_tasks = mpmc_new [],
        kill_threads = False, ex_stopper = 0, ex_nulls = 0, ex_done = [], ex_terminated = False\<rparr>,
      epollFd = [(getFd c, \<lparr>in_events = EPOLLIN OR EPOLLONESHOT, in_fired = True\<rparr>)],
      connections = [(getFd c, c)], mg_closed = []\<rparr>"

definition client_with :: "string \<Rightarrow> net_event list \<Rightarrow> bool \<Rightarrow> IClient" where
  "client_with buf inc eof = \<lparr>getFd = 5, getStream = PlainS \<lparr>ps_fd = 5, leftoverBuffer = buf,
     ps_sock = \<lparr>incoming = inc, fin = eof, send_plan = [], sent = [], recv_timeout = 0,
       sock_closed = False\<rparr>\<rparr>\<rparr>"

lemma example_manager_find [simp]:
  "umap_find (connections (example_manager (client_with b i e))) 5 = Some (client_with b i e)"
  "umap_find (epollFd (example_manager (client_with b i e))) 5 \<noteq> None"
  "conns_ok (example_manager (client_with b i e))"
  by (simp_all add: example_manager_def client_with_def umap_find_def conns_ok_def umap_ok_def)

theorem complete_head_dispatched_witness:
  "\<exists>m' s2. handleClientEvent 5 EPOLLIN
      (example_manager (client_with ''G'' [Arrive (''ET'' @ DOUBLE_CRLF), Arrive ''body''] False)) = Inr m' \<and>
    stream_content s2 = ''body''"
proof -
  let ?c = "client_with ''G'' [Arrive (''ET'' @ DOUBLE_CRLF), Arrive ''body''] False"
  let ?s = "\<lparr>ps_fd = 5, leftoverBuffer = ''G'',
     ps_sock = \<lparr>incoming = [Arrive (''ET'' @ DOUBLE_CRLF), Arrive ''body''], fin = False,
       send_plan = [], sent = [], recv_timeout = 0, sock_closed = False\<rparr>\<rparr>"
  have flags: "no_error_flags EPOLLIN"
    by (simp add: no_error_flags_def EPOLLIN_def EPOLLERR_def EPOLLHUP_def)
  have s: "getStream ?c = PlainS ?s" "no_failure (incoming (ps_sock ?s))"
    by (simp_all add: client_with_def)
  have pend: "pending ?s = ''GET'' @ DOUBLE_CRLF @ ''body''" by (simp add: pending_def)
  have "find_str DOUBLE_CRLF (pending ?s) = Some 3"
    unfolding pend using find_str_first [of DOUBLE_CRLF "''GET''" "''body''"]
    by (simp add: DOUBLE_CRLF_def)
  from complete_head_dispatched [OF example_manager_find(1) flags s this] pend
  show ?thesis by force
qed

text \<open>
  C30: An incomplete head waits and loses nothing. If what can be seen of the connection (plain or
  TLS, with or without errors on the way) holds no blank line, the connection stays with the loop,
  its bytes are all still there, no task is created, nothing is closed, and its registration is
  armed again. In no case does an event raise an exception in the loop's thread.
\<close>

theorem incomplete_head_waits:
  assumes "umap_find (connections m) fd = Some client" "no_error_flags ev"
    and "find_str DOUBLE_CRLF (fst (stream_peek MAX_HEADER_BYTES (getStream client))) = None"
  shows "(\<exists>m' client'. handleClientEvent fd ev m = Inr m' \<and>
      umap_find (connections m') fd = Some client' \<and> getFd client' = getFd client \<and>
      stream_content (getStream client') = stream_content (getStream client) \<and>
      workerPool m' = workerPool m \<and> mg_closed m' = mg_closed m \<and>
      armed fd (epollFd m') = (umap_find (epollFd m) fd \<noteq> None)) \<and>
    (\<forall>fd' ev'. \<exists>m'. handleClientEvent fd' ev' m = Inr m')"
proof -
  obtain view s1 where pk: "stream_peek MAX_HEADER_BYTES (getStream client) = (view, s1)" by force
  from handle_incomplete [OF assms(1,2) pk] assms(3) pk streams.peek_content [OF pk]
    handle_never_throws [of _ _ m]
  show ?thesis by (auto simp: rearmFd_def)
qed

theorem incomplete_head_waits_witness:
  "\<exists>m' client'. handleClientEvent 5 EPOLLIN (example_manager (client_with ''GE'' [] False)) = Inr m' \<and>
    umap_find (connections m') 5 = Some client' \<and> stream_content (getStream client') = ''GE''"
proof -
  let ?c = "client_with ''GE'' [] False"
  have flags: "no_error_flags EPOLLIN"
    by (simp add: no_error_flags_def EPOLLIN_def EPOLLERR_def EPOLLHUP_def)
  have "fst (stream_peek MAX_HEADER_BYTES (getStream ?c)) = ''GE''"
    by (simp add: client_with_def PlainStream_peek_def plain_fill.simps MAX_HEADER_BYTES_def recv_def)
  then have "find_str DOUBLE_CRLF (fst (stream_peek MAX_HEADER_BYTES (getStream ?c))) = None"
    by (simp add: DOUBLE_CRLF_def)
  from incomplete_head_waits [OF example_manager_find(1) flags this] show ?thesis
    by (auto simp: client_with_def pending_def)
qed

text \<open>
  C38: A connection that can never complete a head keeps the loop spinning. When a plain connection
  without a blank line in its buffer either has 65536 bytes in it with more arriving, or has been
  closed by the peer, an event changes nothing but re-arms it; the descriptor is reportable again at
  once, and the next event leads to exactly the same state: it is neither answered nor closed.
\<close>

theorem hopeless_connection_spins:
  assumes "conns_ok m" "umap_find (connections m) fd = Some client" "no_error_flags ev"
    and "getStream client = PlainS s" "find_str DOUBLE_CRLF (leftoverBuffer s) = None"
    and "65536 \<le> length (leftoverBuffer s) \<and> incoming (ps_sock s) \<noteq> [] \<or>
      incoming (ps_sock s) = [] \<and> fin (ps_sock s)"
    and "umap_find (epollFd m) fd \<noteq> None" "fd \<noteq> newPipeRead m" "fd \<noteq> returnPipeRead m"
  shows "\<exists>m'. handleClientEvent fd ev m = Inr m' \<and> mg_closed m' = mg_closed m \<and>
    connections m' = connections m \<and> reportable m' fd \<and>
    handleClientEvent fd ev (m'\<lparr>epollFd := epoll_fire fd (epollFd m')\<rparr>) = Inr m'"
proof -
  let ?m' = "rearmFd fd m" and ?m'' = "(rearmFd fd m)\<lparr>epollFd := epoll_fire fd (epollFd (rearmFd fd m))\<rparr>"
  have idle: "65536 \<le> length (leftoverBuffer s) \<or> incoming (ps_sock s) = [] \<and> fin (ps_sock s)"
    using assms(6) by blast
  have "handleClientEvent fd ev m = Inr ?m'"
    by (rule handle_idle [OF assms(1-5) idle])
  moreover have "handleClientEvent fd ev ?m'' = Inr (rearmFd fd ?m'')"
    using assms(1-5) idle by (intro handle_idle [of _ _ client _ s]) (simp_all add: conns_ok_def rearmFd_def)
  moreover have "rearmFd fd ?m'' = ?m'"
    using rearm_fire_rearm [OF assms(7)] by (simp add: rearmFd_def)
  moreover have "reportable ?m' fd"
    using assms(2,4,6-9) by (auto simp: reportable_def rearmFd_def)
  ultimately show ?thesis by (auto simp: rearmFd_def)
qed

theorem hopeless_connection_spins_witness:
  "\<exists>m'. handleClientEvent 5 EPOLLIN (example_manager (client_with ''GE'' [] True)) = Inr m' \<and>
    reportable m' 5 \<and> handleClientEvent 5 EPOLLIN (m'\<lparr>epollFd := epoll_fire 5 (epollFd m')\<rparr>) = Inr m'"
proof -
  let ?s = "\<lparr>ps_fd = 5, leftoverBuffer = ''GE'', ps_sock = \<lparr>incoming = [], fin = True,
       send_plan = [], sent = [], recv_timeout = 0, sock_closed = False\<rparr>\<rparr>"
  have flags: "no_error_flags EPOLLIN"
    by (simp add: no_error_flags_def EPOLLIN_def EPOLLERR_def EPOLLHUP_def)
  have "getStream (client_with ''GE'' [] True) = PlainS ?s" by (simp add: client_with_def)
  from hopeless_connection_spins [OF example_manager_find(3,1) flags this _ _ example_manager_find(2)]
  show ?thesis by (auto simp: DOUBLE_CRLF_def example_manager_def)
qed

text \<open>
  The loop takes over every announced client and settles every returned one. Draining the
  channel of new clients connects each of them and arms its registration; draining the return channel
  reconnects exactly those that are to be kept and closes the others; descriptors are neither lost
  nor duplicated on the way.
\<close>

theorem channels_are_drained:
  assumes "conns_ok m" "distinct (waiting_fds m @ connected_fds m)"
    and "distinct (returned_fds m @ connected_fds m)"
  shows "drained_new m (drainNewFdChannel m) \<and> drained_return m (drainReturnChannel m)"
  using drain_new [OF assms(1,2)] drain_return [OF assms(1,3)] by blast

theorem channels_are_drained_witness:
  "drained_new ((example_manager (client_with [] [] False))
      \<lparr>newFdChannel := announce_client 1 (example_client\<lparr>getFd := 7\<rparr>) (NewFdChannel_new [])\<rparr>)
    (drainNewFdChannel ((example_manager (client_with [] [] False))
      \<lparr>newFdChannel := announce_client 1 (example_client\<lparr>getFd := 7\<rparr>) (NewFdChannel_new [])\<rparr>))"
proof -
  let ?m = "(example_manager (client_with [] [] False))
      \<lparr>newFdChannel := announce_client 1 (example_client\<lparr>getFd := 7\<rparr>) (NewFdChannel_new [])\<rparr>"
  have "conns_ok ?m" using example_manager_find(3) [of "[]" "[]" False] by (simp add: conns_ok_def)
  moreover have "waiting_fds ?m = [7]" "connected_fds ?m = [5]" "returned_fds ?m = []"
    by (simp_all add: waiting_fds_def connected_fds_def returned_fds_def example_manager_def
        NewFdChannel_new_def ReturnChannel_new_def client_with_def)
  ultimately show ?thesis using channels_are_drained [of ?m] by simp
qed

text \<open>
  A pipelined request is left lying. When a plain connection comes back to be kept and a
  complete further request head is already in its buffer, but nothing more is arriving, the loop
  takes it back and arms it, yet \<open>epoll\<close> has nothing to report, so the request is not dispatched until
  the client sends more; had the loop looked at the buffer, it would have dispatched the request.
\<close>

theorem pipelined_request_stalls:
  assumes "conns_ok m" "distinct (returned_fds m @ connected_fds m)"
    and "(p, rc) \<in> set (q_items (rt_connections (returnChannel m)))" "rc_keepAlive rc"
    and "getStream (rc_client rc) = PlainS s" "incoming (ps_sock s) = []" "\<not> fin (ps_sock s)"
    and "find_str DOUBLE_CRLF (leftoverBuffer s) = Some n" "n + 4 \<le> 65536"
    and "getFd (rc_client rc) \<noteq> newPipeRead m" "getFd (rc_client rc) \<noteq> returnPipeRead m"
  shows "let m' = drainReturnChannel m; fd = getFd (rc_client rc) in
    umap_find (connections m') fd = Some (rc_client rc) \<and> \<not> reportable m' fd \<and>
    (\<exists>m'' s2. handleClientEvent fd EPOLLIN m' = Inr m'' \<and>
      workerPool m'' = add_task epoll_thread
        ((rc_client rc)\<lparr>getStream := s2\<rparr>, take n (leftoverBuffer s)) (workerPool m'))"
proof -
  let ?m' = "drainReturnChannel m" and ?fd = "getFd (rc_client rc)"
  from drain_return [OF assms(1,2)] assms(3,4) have
    conn: "umap_find (connections ?m') ?fd = Some (rc_client rc)"
    and pipes: "newPipeRead ?m' = newPipeRead m" "returnPipeRead ?m' = returnPipeRead m"
    by (auto simp: drained_return_def)
  have "\<not> reportable ?m' ?fd"
    using conn pipes assms(5-7,10,11) by (simp add: reportable_def)
  moreover have "no_error_flags EPOLLIN"
    by (simp add: no_error_flags_def EPOLLIN_def EPOLLERR_def EPOLLHUP_def)
  with handle_complete_plain [OF conn this assms(5)] assms(6,8,9) have
    "\<exists>m'' s2. handleClientEvent ?fd EPOLLIN ?m' = Inr m'' \<and>
      workerPool m'' = add_task epoll_thread
        ((rc_client rc)\<lparr>getStream := s2\<rparr>, take n (leftoverBuffer s)) (workerPool ?m')"
    by (fastforce simp: pending_def)
  ultimately show ?thesis using conn by (simp add: Let_def)
qed

theorem pipelined_request_stalls_witness:
  "\<not> reportable (drainReturnChannel ((example_manager example_client)
      \<lparr>connections := [], returnChannel := announce_return 1
        \<lparr>rc_client = client_with (''GET'' @ DOUBLE_CRLF) [] False, rc_keepAlive = True\<rparr>
        (ReturnChannel_new [])\<rparr>)) 5"
proof -
  let ?c = "client_with (''GET'' @ DOUBLE_CRLF) [] False"
  let ?rc = "\<lparr>rc_client = ?c, rc_keepAlive = True\<rparr>"
  let ?m = "(example_manager example_client)
      \<lparr>connections := [], returnChannel := announce_return 1 ?rc (ReturnChannel_new [])\<rparr>"
  let ?s = "\<lparr>ps_fd = 5, leftoverBuffer = ''GET'' @ DOUBLE_CRLF, ps_sock = \<lparr>incoming = [], fin = False,
       send_plan = [], sent = [], recv_timeout = 0, sock_closed = False\<rparr>\<rparr>"
  have m: "conns_ok ?m" "distinct (returned_fds ?m @ connected_fds ?m)"
    "(1, ?rc) \<in> set (q_items (rt_connections (returnChannel ?m)))"
    by (simp_all add: conns_ok_def umap_ok_def returned_fds_def connected_fds_def ReturnChannel_new_def)
  have s: "getStream (rc_client ?rc) = PlainS ?s" "find_str DOUBLE_CRLF (leftoverBuffer ?s) = Some 3"
    using find_str_first [of DOUBLE_CRLF "''GET''" "[]"] by (simp_all add: client_with_def DOUBLE_CRLF_def)
  from pipelined_request_stalls [OF m _ s(1) _ _ s(2)] show ?thesis
    by (simp add: Let_def client_with_def example_manager_def)
qed

end
