(* ===== verification/ServerSystem.thy ===== *)
theory ServerSystem
  imports ClientManager
begin

text \<open>
  The server as a whole: the accepting thread, the event loop and the workers as one transition
  system. A step is one iteration of a loop of one thread: announcing an accepted client, processing
  one event, dequeueing a task, or running a request handler to its end and handing the connection
  back. The threads share the channels and the queue of the pool only, so handlers of different
  connections do not interfere.
\<close>

section \<open>Steps\<close>

datatype status = Up | Down | Dead exn

record system =
  sys_manager :: manager
  sys_status :: status

datatype label =
    Accept IClient
  | CloseNew
  | Event int events
  | Fetch nat
  | Finish nat env

definition accept_thread :: nat where "accept_thread = 0"

text \<open>The task a worker is running.\<close>

definition runs_task :: "task executor \<Rightarrow> nat \<Rightarrow> task \<Rightarrow> bool" where
  "runs_task e w t \<longleftrightarrow> w < length (ex_threads e) \<and> ex_threads e ! w = Running t"

text \<open>
  The kernel gives an accepted connection a descriptor that no open one has. An event is any report
  of \<open>epoll_wait\<close>, and reporting disarms a one-shot registration.
\<close>

inductive sys_step :: "HttpServer \<Rightarrow> system \<Rightarrow> label \<Rightarrow> system \<Rightarrow> bool" for server where
  sys_accept: "sys_status s = Up \<Longrightarrow> getFd c \<notin> set (live_fds (sys_manager s)) \<Longrightarrow>
    m' = (sys_manager s)\<lparr>newFdChannel := announce_client accept_thread c (newFdChannel (sys_manager s))\<rparr> \<Longrightarrow>
    sys_step server s (Accept c) (s\<lparr>sys_manager := m'\<rparr>)"
| sys_close: "sys_status s = Up \<Longrightarrow>
    m' = (sys_manager s)\<lparr>newFdChannel := (newFdChannel (sys_manager s))
      \<lparr>nf_pipe := pipe_close_write (nf_pipe (newFdChannel (sys_manager s)))\<rparr>\<rparr> \<Longrightarrow>
    sys_step server s CloseNew (s\<lparr>sys_manager := m'\<rparr>)"
| sys_event: "sys_status s = Up \<Longrightarrow>
    process_event (fd, ev) ((sys_manager s)\<lparr>epollFd := epoll_fire fd (epollFd (sys_manager s))\<rparr>) =
      Goes_on m' \<Longrightarrow>
    sys_step server s (Event fd ev) (s\<lparr>sys_manager := m'\<rparr>)"
| sys_shutdown: "sys_status s = Up \<Longrightarrow>
    process_event (fd, ev) ((sys_manager s)\<lparr>epollFd := epoll_fire fd (epollFd (sys_manager s))\<rparr>) =
      Shut_down m' \<Longrightarrow>
    sys_step server s (Event fd ev) (s\<lparr>sys_manager := m', sys_status := Down\<rparr>)"
| sys_crash: "sys_status s = Up \<Longrightarrow>
    process_event (fd, ev) ((sys_manager s)\<lparr>epollFd := epoll_fire fd (epollFd (sys_manager s))\<rparr>) =
      Crashed e \<Longrightarrow>
    sys_step server s (Event fd ev) (s\<lparr>sys_status := Dead e\<rparr>)"
| sys_fetch: "sys_status s = Up \<Longrightarrow> \<not> (\<exists>t. runs_task (workerPool (sys_manager s)) w t) \<Longrightarrow>
    worker_turn (\<lambda>t. False) w (workerPool (sys_manager s)) = Some pool' \<Longrightarrow>
    sys_step server s (Fetch w) (s\<lparr>sys_manager := (sys_manager s)\<lparr>workerPool := pool'\<rparr>\<rparr>)"
| sys_finish: "sys_status s = Up \<Longrightarrow> runs_task (workerPool (sys_manager s)) w (c, head) \<Longrightarrow>
    ClientRequestHandler env server c head = Returns rc \<Longrightarrow>
    worker_turn (\<lambda>t. False) w (workerPool (sys_manager s)) = Some pool' \<Longrightarrow>
    sys_step server s (Finish w env) (s\<lparr>sys_manager := (sys_manager s)\<lparr>workerPool := pool',
      returnChannel := announce_return (Suc w) rc (returnChannel (sys_manager s))\<rparr>\<rparr>)"
| sys_escape: "sys_status s = Up \<Longrightarrow> runs_task (workerPool (sys_manager s)) w (c, head) \<Longrightarrow>
    ClientRequestHandler env server c head = Throws e \<Longrightarrow>
    sys_step server s (Finish w env) (s\<lparr>sys_status := Dead e\<rparr>)"

inductive sys_run :: "HttpServer \<Rightarrow> system \<Rightarrow> label list \<Rightarrow> system \<Rightarrow> bool" for server where
  sys_nil: "sys_run server s [] s"
| sys_snoc: "sys_run server s ls s' \<Longrightarrow> sys_step server s' l s'' \<Longrightarrow> sys_run server s (ls @ [l]) s''"

inductive_cases sys_step_FinishE: "sys_step server s (Finish w env) s'"
inductive_cases sys_step_AcceptE: "sys_step server s (Accept c) s'"

fun accepted_fds :: "label list \<Rightarrow> int list" where
  "accepted_fds [] = []"
| "accepted_fds (Accept c # ls) = getFd c # accepted_fds ls"
| "accepted_fds (l # ls) = accepted_fds ls"

lemma accepted_fds_append [simp]: "accepted_fds (xs @ ys) = accepted_fds xs @ accepted_fds ys"
  by (induction xs rule: accepted_fds.induct) simp_all

section \<open>Accounting of connections\<close>

definition sys_inv :: "int list \<Rightarrow> manager \<Rightarrow> bool" where
  "sys_inv acc m \<longleftrightarrow> conns_ok m \<and> distinct (live_fds m) \<and>
     mset acc = mset (live_fds m) + mset (closed_fds m)"

lemma sys_inv_same:
  assumes "sys_inv acc m" "conns_ok m'"
    and "mset (live_fds m') + mset (closed_fds m') = mset (live_fds m) + mset (closed_fds m)"
    and "mset (live_fds m') \<subseteq># mset (live_fds m)"
  shows "sys_inv acc m'"
proof -
  have "distinct (live_fds m')"
    using assms(1,4) unfolding sys_inv_def distinct_count_atmost_1
    by (metis count_mset_0_iff le_antisym le_zero_eq mset_subset_eq_count not_one_le_zero
        nat_le_linear le_SucE One_nat_def in_multiset_in_set count_eq_zero_iff)
  with assms(1-3) show ?thesis by (simp add: sys_inv_def)
qed

lemma erase_keys:
  assumes "umap_ok es" "umap_find es k = Some v"
  shows "mset (map fst es) = add_mset k (mset (map fst (umap_erase k es)))"
  using assms
proof (induction es)
  case (Cons e es)
  obtain a b where e: "e = (a, b)" by force
  show ?case
  proof (cases "a = k")
    case True
    with Cons.prems e have "k \<notin> fst ` set es" by (simp add: umap_ok_def)
    then have "umap_erase k es = es" by (force simp: umap_erase_def filter_id_conv)
    with True e show ?thesis by (simp add: umap_erase_def)
  next
    case False
    with Cons e show ?thesis by (simp add: umap_erase_def umap_ok_def umap_find_def)
  qed
qed (simp add: umap_find_def)

lemma sys_inv_accept:
  assumes "sys_inv acc m" "getFd c \<notin> set (live_fds m)"
  shows "sys_inv (acc @ [getFd c])
    (m\<lparr>newFdChannel := announce_client accept_thread c (newFdChannel m)\<rparr>)"
  using assms
  by (auto simp: sys_inv_def live_fds_def waiting_fds_def connected_fds_def returned_fds_def
      closed_fds_def conns_ok_def)

lemma sys_inv_frame:
  assumes "sys_inv acc m" "waiting_fds m' = waiting_fds m" "connections m' = connections m"
    "pool_fds (workerPool m') = pool_fds (workerPool m)" "returned_fds m' = returned_fds m"
    "mg_closed m' = mg_closed m"
  shows "sys_inv acc m'"
  using assms
  by (simp add: sys_inv_def live_fds_def connected_fds_def closed_fds_def conns_ok_def)

lemma sys_inv_drain_new:
  assumes "sys_inv acc m"
  shows "sys_inv acc (drainNewFdChannel m)"
proof -
  from assms have pre: "conns_ok m" "distinct (waiting_fds m @ connected_fds m)"
    by (auto simp: sys_inv_def live_fds_def)
  have returned: "returned_fds (drainNewFdChannel m) = returned_fds m"
    using drain_new [OF pre] by (simp add: drained_new_def returned_fds_def)
  with drain_new [OF pre] have "mset (live_fds (drainNewFdChannel m)) = mset (live_fds m)"
    by (simp add: drained_new_def live_fds_def)
  with drain_new [OF pre] assms show ?thesis
    by (intro sys_inv_same [OF assms]) (simp_all add: drained_new_def closed_fds_def)
qed

lemma sys_inv_drain_return:
  assumes "sys_inv acc m"
  shows "sys_inv acc (drainReturnChannel m)"
proof -
  from assms have pre: "conns_ok m" "distinct (returned_fds m @ connected_fds m)"
    by (auto simp: sys_inv_def live_fds_def)
  let ?m' = "drainReturnChannel m"
  note settled = drain_return [OF pre]
  obtain cs where cs: "mg_closed ?m' = mg_closed m @ cs"
    "mset (connected_fds ?m') + mset (map getFd cs) = mset (connected_fds m) + mset (returned_fds m)"
    using settled unfolding drained_return_def by blast
  have live: "mset (live_fds ?m') + mset (map getFd cs) = mset (live_fds m)"
    using settled cs(2) by (simp add: drained_return_def live_fds_def waiting_fds_def ac_simps)
  then have "mset (live_fds ?m') \<subseteq># mset (live_fds m)"
    by (metis mset_subset_eq_add_left)
  moreover have "mset (live_fds ?m') + mset (closed_fds ?m') = mset (live_fds m) + mset (closed_fds m)"
    unfolding live [symmetric] by (simp add: closed_fds_def cs(1) ac_simps)
  ultimately show ?thesis
    using settled by (intro sys_inv_same [OF assms]) (simp_all add: drained_return_def)
qed

lemma connected_erase:
  assumes "conns_ok m" "umap_find (connections m) fd = Some c"
  shows "mset (connected_fds m) = add_mset fd (mset (map fst (umap_erase fd (connections m))))"
    "umap_ok (umap_erase fd (connections m)) \<and>
      list_all (\<lambda>(fd, c). getFd c = fd) (umap_erase fd (connections m))"
  using assms erase_keys [of "connections m" fd c]
  by (auto simp: connected_fds_def conns_ok_def list_all_iff) (auto simp: umap_erase_def)

lemma sys_inv_client_event:
  assumes "sys_inv acc m" "handleClientEvent fd ev m = Inr m'"
  shows "sys_inv acc m'"
proof (cases "umap_find (connections m) fd")
  case None
  with assms show ?thesis by (simp add: handle_unknown)
next
  case (Some c)
  from assms(1) have ok: "conns_ok m" by (simp add: sys_inv_def)
  note fd = conns_ok_find [OF ok Some] and erased = connected_erase [OF ok Some]
  obtain view s1 where pk: "stream_peek MAX_HEADER_BYTES (getStream c) = (view, s1)" by force
  consider (err) "\<not> no_error_flags ev"
    | (wait) "no_error_flags ev" "find_str DOUBLE_CRLF view = None"
    | (go) pos where "no_error_flags ev" "find_str DOUBLE_CRLF view = Some pos"
    by blast
  then show ?thesis
  proof cases
    case err
    with handle_error_flags [OF Some] assms(2) have m': "m' = m\<lparr>connections := umap_erase fd (connections m),
        mg_closed := mg_closed m @ [closed_client c],
        epollFd := epoll_close (getFd c) (getStream c) (epollFd m)\<rparr>" by simp
    have "mset (live_fds m) = add_mset fd (mset (live_fds m'))"
      using erased(1) m' by (simp add: live_fds_def waiting_fds_def returned_fds_def connected_fds_def)
    moreover have "mset (closed_fds m') = add_mset fd (mset (closed_fds m))"
      using fd m' by (simp add: closed_fds_def)
    ultimately show ?thesis
      using erased(2) m' by (intro sys_inv_same [OF assms(1)]) (simp_all add: conns_ok_def)
  next
    case wait
    with handle_incomplete [OF Some wait(1) pk wait(2)] assms(2) have
      m': "m' = rearmFd fd (m\<lparr>connections := umap_assign fd (c\<lparr>getStream := s1\<rparr>) (connections m)\<rparr>)"
      by simp
    from Some have known: "fd \<in> fst ` set (connections m)" using known_key [of fd "connections m"]
      by (simp add: umap_find_def)
    have keys: "connected_fds m' = connected_fds m"
      using known map_fst_assign by (simp add: m' rearmFd_def connected_fds_def umap_assign_def)
    have "list_all (\<lambda>(fd, c). getFd c = fd) (connections m')"
      using ok known fd by (auto simp: m' rearmFd_def umap_assign_def conns_ok_def list_all_iff split: if_splits)
    moreover have "umap_ok (connections m')" using ok by (simp add: m' rearmFd_def conns_ok_def)
    ultimately have "conns_ok m'" by (simp add: conns_ok_def)
    moreover have "live_fds m' = live_fds m" "closed_fds m' = closed_fds m"
      using keys by (simp_all add: live_fds_def closed_fds_def waiting_fds_def returned_fds_def m' rearmFd_def
          connected_fds_def)
    ultimately show ?thesis by (intro sys_inv_same [OF assms(1)]) simp_all
  next
    case (go pos)
    with handle_complete [OF Some go(1) pk go(2)] assms(2) obtain s2 where
      m': "m' = m\<lparr>connections := umap_erase fd (connections m), workerPool :=
        add_task epoll_thread (c\<lparr>getStream := s2\<rparr>, take pos view) (workerPool m)\<rparr>"
      by auto
    have "mset (live_fds m') = mset (live_fds m)"
      using erased(1) fd by (simp add: m' live_fds_def waiting_fds_def returned_fds_def connected_fds_def
          pool_fds_def add_task_def mpmc.items_enq)
    then show ?thesis
      using erased(2) m' by (intro sys_inv_same [OF assms(1)]) (simp_all add: conns_ok_def closed_fds_def)
  qed
qed

text \<open>The workers.\<close>

lemma pool_fds_fetch:
  assumes "worker_turn (\<lambda>t. False) w e = Some e'" "\<not> (\<exists>t. runs_task e w t)"
  shows "mset (pool_fds e') = mset (pool_fds e)"
  using assms(1)
proof (cases rule: worker_turn_cases)
  case (exits q)
  with dequeue_counts(2) [OF exits(3)] counts_update(3) [OF exits(1,2)] show ?thesis
    by (simp add: pool_fds_def)
next
  case (starts t q)
  have "mset (queued e) = add_mset t (mset (tasks_in (q_items q)))"
    using dequeue_counts(1) [OF starts(3)] by simp
  with starts(4) counts_update(1) [OF starts(1,2), of t] show ?thesis by (simp add: pool_fds_def)
qed (use assms(2) in \<open>auto simp: runs_task_def\<close>)

lemma pool_fds_finish:
  assumes "worker_turn (\<lambda>t. False) w e = Some e'" "runs_task e w t"
  shows "mset (pool_fds e) = add_mset (getFd (fst t)) (mset (pool_fds e'))"
  using assms(1)
proof (cases rule: worker_turn_cases)
  case (finishes t')
  with assms(2) counts_update(5) [OF finishes(1,2)] show ?thesis
    by (simp add: pool_fds_def runs_task_def)
qed (use assms(2) in \<open>auto simp: runs_task_def\<close>)

lemma write_answer_fd: "write_answer b k c s = Returns rc \<Longrightarrow> getFd (rc_client rc) = getFd c"
  by (auto simp: write_answer_def split: prod.splits sum.splits)

lemma handler_fd: "ClientRequestHandler env server c head = Returns rc \<Longrightarrow> getFd (rc_client rc) = getFd c"
  by (auto simp: ClientRequestHandler_def Let_def dest: write_answer_fd
      split: option.splits prod.splits outcome.splits sum.splits)

lemma sys_inv_finish:
  assumes "sys_inv acc m" "runs_task (workerPool m) w (c, head)"
    and "worker_turn (\<lambda>t. False) w (workerPool m) = Some pool'" "getFd (rc_client rc) = getFd c"
  shows "sys_inv acc (m\<lparr>workerPool := pool',
    returnChannel := announce_return (Suc w) rc (returnChannel m)\<rparr>)" (is "sys_inv acc ?m'")
proof -
  from pool_fds_finish [OF assms(3,2)] assms(4)
  have "mset (live_fds ?m') = mset (live_fds m)"
    by (simp add: live_fds_def waiting_fds_def connected_fds_def returned_fds_def)
  with assms(1) show ?thesis
    by (intro sys_inv_same [OF assms(1)]) (simp_all add: sys_inv_def conns_ok_def closed_fds_def)
qed

lemma sys_inv_fetch:
  assumes "sys_inv acc m" "\<not> (\<exists>t. runs_task (workerPool m) w t)"
    and "worker_turn (\<lambda>t. False) w (workerPool m) = Some pool'"
  shows "sys_inv acc (m\<lparr>workerPool := pool'\<rparr>)" (is "sys_inv acc ?m'")
proof -
  from pool_fds_fetch [OF assms(3,2)] have "mset (live_fds ?m') = mset (live_fds m)"
    by (simp add: live_fds_def waiting_fds_def connected_fds_def returned_fds_def)
  with assms(1) show ?thesis
    by (intro sys_inv_same [OF assms(1)]) (simp_all add: sys_inv_def conns_ok_def closed_fds_def)
qed

lemma sys_inv_event:
  assumes "sys_inv acc m"
  shows "process_event (fd, ev) (m\<lparr>epollFd := es\<rparr>) = Goes_on m' \<Longrightarrow> sys_inv acc m'"
    "process_event (fd, ev) (m\<lparr>epollFd := es\<rparr>) = Shut_down m' \<Longrightarrow> sys_inv acc m'"
proof -
  let ?m = "m\<lparr>epollFd := es\<rparr>"
  have inv: "sys_inv acc ?m"
    by (rule sys_inv_frame [OF assms]) (simp_all add: waiting_fds_def returned_fds_def)
  have new: "sys_inv acc (?m\<lparr>newFdChannel := (newFdChannel ?m)\<lparr>nf_pipe := p\<rparr>\<rparr>)" for p
    by (rule sys_inv_frame [OF inv]) (simp_all add: waiting_fds_def returned_fds_def)
  have ret: "sys_inv acc (?m\<lparr>returnChannel := (returnChannel ?m)\<lparr>rt_pipe := p\<rparr>\<rparr>)" for p
    by (rule sys_inv_frame [OF inv]) (simp_all add: waiting_fds_def returned_fds_def)
  have down: "sys_inv acc (?m\<lparr>newFdChannel := (newFdChannel ?m)\<lparr>nf_pipe := p\<rparr>, epollFd := es'\<rparr>)" for p es'
    by (rule sys_inv_frame [OF inv]) (simp_all add: waiting_fds_def returned_fds_def)
  show "process_event (fd, ev) ?m = Goes_on m' \<Longrightarrow> sys_inv acc m'"
    using sys_inv_drain_new [OF new] sys_inv_drain_return [OF ret] sys_inv_client_event [OF inv]
    by (auto simp: process_event_def Let_def split: if_splits prod.splits sum.splits)
  show "process_event (fd, ev) ?m = Shut_down m' \<Longrightarrow> sys_inv acc m'"
    using down by (auto simp: process_event_def Let_def split: if_splits prod.splits sum.splits)
qed

lemma sys_inv_step:
  assumes "sys_step server s l s'" "sys_inv acc (sys_manager s)"
  shows "sys_inv (acc @ accepted_fds [l]) (sys_manager s')"
  using assms(1)
proof (cases rule: sys_step.cases)
  case (sys_accept c m')
  with sys_inv_accept [OF assms(2)] show ?thesis by simp
next
  case (sys_close m')
  then show ?thesis
    using sys_inv_frame [OF assms(2), of m'] by (simp add: waiting_fds_def returned_fds_def)
next
  case (sys_event fd ev m')
  with sys_inv_event(1) [OF assms(2)] show ?thesis by simp
next
  case (sys_shutdown fd ev m')
  with sys_inv_event(2) [OF assms(2)] show ?thesis by simp
next
  case (sys_crash fd ev e)
  with assms(2) show ?thesis by simp
next
  case (sys_fetch w pool')
  with sys_inv_fetch [OF assms(2)] show ?thesis by simp
next
  case (sys_finish w c head env rc pool')
  with sys_inv_finish [OF assms(2) sys_finish(4,6) handler_fd [OF sys_finish(5)]] show ?thesis by simp
next
  case (sys_escape w c head env e)
  with assms(2) show ?thesis by simp
qed

lemma sys_inv_run:
  "sys_run server s ls s' \<Longrightarrow> sys_inv acc (sys_manager s) \<Longrightarrow>
     sys_inv (acc @ accepted_fds ls) (sys_manager s')"
proof (induction rule: sys_run.induct)
  case (sys_snoc s ls s' l s'')
  from sys_inv_step [OF sys_snoc(2) sys_snoc(3) [OF sys_snoc(4)]] show ?case by simp
qed simp

lemma sys_inv_new:
  "ClientManager_new (NewFdChannel_new c1) (ReturnChannel_new c2) p1 p2 n choice = Inr m \<Longrightarrow> sys_inv [] m"
  by (auto simp: ClientManager_new_def TaskExecutor_new_def addToEpoll_def sys_inv_def conns_ok_def
      live_fds_def waiting_fds_def connected_fds_def returned_fds_def closed_fds_def pool_fds_def
      NewFdChannel_new_def ReturnChannel_new_def split: if_splits)
    (simp_all add: umap_empty_def)

section \<open>One request through the server\<close>

lemma request_head_first:
  assumes "request_token m" "request_token uri" "request_token version" "\<forall>h \<in> set hs. header_pair h"
  shows "find_str DOUBLE_CRLF (request_head m uri version hs @ DOUBLE_CRLF @ body) =
    Some (length (request_head m uri version hs))"
proof -
  let ?ls = "request_line m uri version # map render_header hs"
  have lines: "\<forall>l \<in> set ?ls. text_line l"
    using assms by (auto intro: text_line_render text_line_request)
  have block: "request_head m uri version hs @ CRLF = lines_block ?ls"
    unfolding request_head_def by (rule join_lines_block) simp
  have "request_head m uri version hs @ DOUBLE_CRLF @ body =
      (request_head m uri version hs @ CRLF) @ CRLF @ body"
    by (simp only: DOUBLE_CRLF_CRLF append_assoc)
  also have "\<dots> = lines_block ?ls @ CRLF @ body" by (simp only: block)
  finally have "find_str DOUBLE_CRLF (request_head m uri version hs @ DOUBLE_CRLF @ body) =
      Some (length (lines_block ?ls) - 2)"
    by (simp only:) (rule find_blank_line [OF lines], simp)
  moreover have "length (lines_block ?ls) = length (request_head m uri version hs) + 2"
    unfolding block [symmetric] by simp
  ultimately show ?thesis by simp
qed

text \<open>Writing leaves the receiving side of a plain stream alone.\<close>

definition same_receiving :: "PlainStream \<Rightarrow> PlainStream \<Rightarrow> bool" where
  "same_receiving s t \<longleftrightarrow>
     leftoverBuffer t = leftoverBuffer s \<and> incoming (ps_sock t) = incoming (ps_sock s)"

lemma same_receiving_pending: "same_receiving s t \<Longrightarrow> pending t = pending s"
  by (simp add: same_receiving_def pending_def)

lemma write_same_receiving:
  "stream_write b (PlainS s) = (r, s') \<Longrightarrow> \<exists>t. s' = PlainS t \<and> same_receiving s t"
  by (auto simp: PlainStream_write_def send_def same_receiving_def
      split: prod.splits sum.splits list.splits send_event.splits)

lemma write_answer_same_receiving:
  assumes "write_answer b k c (PlainS s) = Returns rc"
  shows "\<exists>t. getStream (rc_client rc) = PlainS t \<and> same_receiving s t"
proof -
  obtain r s' where "stream_write b (PlainS s) = (r, s')" by force
  with write_same_receiving [OF this] assms show ?thesis
    by (auto simp: write_answer_def simp del: stream_write.simps split: sum.splits)
qed

text \<open>A resolver that does not read the body leaves it in the stream.\<close>

lemma handler_keeps_unread:
  assumes "server_ok server" "ClientRequestHandler env server client head = Returns rc"
    and "getStream client = PlainS s"
    and "\<And>request request' s. createRequest head = Some request \<Longrightarrow>
      snd (resolver_for env server request request' s) = s"
  shows "\<exists>t. getStream (rc_client rc) = PlainS t \<and> same_receiving s t"
proof (cases "createRequest head")
  case None
  with assms(2,3) show ?thesis
    by (auto simp: ClientRequestHandler_def dest: write_answer_same_receiving)
next
  case (Some request)
  obtain request' where run: "runRequestResolver env server request (PlainS s) =
      (case resolver_for env server request request' (PlainS s) of
         (Inl e, s') \<Rightarrow> (Throws e, s') | (Inr response, s') \<Rightarrow> (Returns response, s'))"
    using runRequestResolver_routed [OF assms(1)] by blast
  obtain res where res: "resolver_for env server request request' (PlainS s) = (res, PlainS s)"
    using assms(4) [OF Some] by (metis prod.collapse)
  show ?thesis
  proof (cases res)
    case (Inl e)
    with assms(2,3) Some run res show ?thesis
      by (auto simp: ClientRequestHandler_def dest: write_answer_same_receiving)
  next
    case (Inr response)
    obtain r s2 where w: "stream_write (answer_bytes env (wants_keep_alive request) response) (PlainS s) =
        (r, s2)" by force
    from write_same_receiving [OF w] obtain t where t: "s2 = PlainS t" "same_receiving s t" by blast
    show ?thesis
    proof (cases r)
      case (Inl e)
      with assms(2,3) Some run res Inr w t have
        "write_answer INTERNAL_SERVER_ERROR False client (PlainS t) = Returns rc"
        by (simp add: ClientRequestHandler_def answer_bytes_def wants_keep_alive_def Let_def
            split: prod.splits sum.splits)
      from write_answer_same_receiving [OF this] t(2) show ?thesis
        by (auto simp: same_receiving_def)
    next
      case (Inr n)
      with assms(2,3) Some run res \<open>res = Inr response\<close> w t show ?thesis
        by (auto simp: ClientRequestHandler_def answer_bytes_def wants_keep_alive_def Let_def
            split: prod.splits sum.splits)
    qed
  qed
qed

lemma dispatch_request:
  assumes "umap_find (connections mg) fd = Some client" "no_error_flags ev"
    and "getStream client = PlainS s" "no_failure (incoming (ps_sock s))"
    and "pending s = request_head m uri version hs @ DOUBLE_CRLF @ body"
    and "length (request_head m uri version hs) \<le> 65532"
    and "request_token m" "request_token uri" "request_token version" "\<forall>h \<in> set hs. header_pair h"
  shows "\<exists>t. handleClientEvent fd ev mg = Inr (mg\<lparr>connections := umap_erase fd (connections mg),
      workerPool := add_task epoll_thread (client\<lparr>getStream := PlainS t\<rparr>, request_head m uri version hs)
        (workerPool mg)\<rparr>) \<and>
    pending t = body \<and> no_failure (incoming (ps_sock t)) \<and> same_sending (ps_sock s) (ps_sock t)"
proof -
  let ?head = "request_head m uri version hs"
  have found: "find_str DOUBLE_CRLF (pending s) = Some (length ?head)"
    unfolding assms(5) by (rule request_head_first [OF assms(7-10)])
  have "take (length ?head) (pending s) = ?head" "drop (length ?head + 4) (pending s) = body"
    unfolding assms(5) by simp_all
  with handle_complete_plain [OF assms(1-4) found] assms(6) show ?thesis by simp
qed

text \<open>The handler on the task the event loop made of a rendered request with headers.\<close>

lemma handle_request:
  assumes "server_ok server" "accepts_writes (getStream client)"
    and "request_token m" "request_token uri" "request_token version"
    and "\<forall>h \<in> set hs. header_pair h" "hs \<noteq> []"
    and "fst (getResolver (uri_rank env) m uri [] server) = Some r" "quiet_resolver r"
  shows "\<exists>request request' rc. createRequest (request_head m uri version hs) = Some request \<and>
    parsed_as m uri version hs request \<and> routed env server request request' \<and>
    resolver_for env server request = r \<and>
    ClientRequestHandler env server client (request_head m uri version hs) = Returns rc \<and>
    (case fst (r request' (getStream client)) of
       Inl e \<Rightarrow> stream_sent (getStream (rc_client rc)) = stream_sent (getStream client) @ INTERNAL_SERVER_ERROR \<and>
         \<not> rc_keepAlive rc
     | Inr response \<Rightarrow>
         rc_keepAlive rc = (map_of hs ''Connection'' = Some ''keep-alive'') \<and>
         stream_sent (getStream (rc_client rc)) =
           stream_sent (getStream client) @ answer_bytes env (rc_keepAlive rc) response)"
proof -
  obtain request where parsed: "createRequest (request_head m uri version hs) = Some request"
    "parsed_as m uri version hs request"
    using createRequest_head [OF assms(3-7)] by blast
  then have r: "resolver_for env server request = r"
    using assms(8) by (simp add: parsed_as_def resolver_for_def)
  from parsed(2) have "(\<lambda>key. req_getHeader key request) = map_of hs" by (simp add: parsed_as_def)
  from fun_cong [OF this, of "''Connection''"]
  have "req_getHeader ''Connection'' request = map_of hs ''Connection''" .
  then have keep: "wants_keep_alive request = (map_of hs ''Connection'' = Some ''keep-alive'')"
    by (simp add: wants_keep_alive_def)
  from handler_answers [OF assms(1,2), of "request_head m uri version hs" env] parsed(1) r assms(9)
  obtain rc bytes where run:
    "ClientRequestHandler env server client (request_head m uri version hs) = Returns rc"
    "stream_sent (getStream (rc_client rc)) = stream_sent (getStream client) @ bytes"
    "answers env server (getStream client) (request_head m uri version hs) bytes (rc_keepAlive rc)"
    by auto
  from run(3) parsed(1) r obtain request' where req: "routed env server request request'"
    "case fst (r request' (getStream client)) of
       Inl e \<Rightarrow> bytes = INTERNAL_SERVER_ERROR \<and> \<not> rc_keepAlive rc
     | Inr response \<Rightarrow> rc_keepAlive rc = wants_keep_alive request \<and>
         bytes = answer_bytes env (rc_keepAlive rc) response"
    by (auto simp: answers_def)
  from parsed req(1) r run(1) show ?thesis
    by (intro exI [of _ request] exI [of _ request'] exI [of _ rc])
      (use req(2) run(2) keep in \<open>auto split: sum.splits\<close>)
qed

section \<open>Properties\<close>

text \<open>
  C2: No connection is lost or owned twice. From the start, under every interleaving of the accepting
  thread, the event loop and the workers, every accepted connection is at exactly one place (the
  channel of new clients, the event loop, the pool, the return channel) or has been closed by the
  loop, and the descriptors held at any time are distinct.
\<close>

theorem connections_accounted:
  assumes "ClientManager_new (NewFdChannel_new c1) (ReturnChannel_new c2) p1 p2 n choice = Inr mg"
    and "sys_run server \<lparr>sys_manager = mg, sys_status = Up\<rparr> ls s"
  shows "mset (accepted_fds ls) = mset (live_fds (sys_manager s)) + mset (closed_fds (sys_manager s)) \<and>
    distinct (live_fds (sys_manager s))"
  using sys_inv_run [OF assms(2), of "[]"] sys_inv_new [OF assms(1)] by (simp add: sys_inv_def)

theorem connections_accounted_witness:
  "\<exists>mg s. sys_run (HttpServer_new 1) \<lparr>sys_manager = mg, sys_status = Up\<rparr>
      [Accept (client_with [] [] False)] s \<and>
    mset [5] = mset (live_fds (sys_manager s)) + mset (closed_fds (sys_manager s))"
proof -
  obtain mg where new: "ClientManager_new (NewFdChannel_new []) (ReturnChannel_new []) 3 4 1 [] = Inr mg"
    by (simp add: ClientManager_new_def TaskExecutor_new_def)
  then have "live_fds mg = []"
    using sys_inv_new by (auto simp: sys_inv_def)
  then have step: "sys_step (HttpServer_new 1) \<lparr>sys_manager = mg, sys_status = Up\<rparr>
      (Accept (client_with [] [] False)) (\<lparr>sys_manager = mg, sys_status = Up\<rparr>
        \<lparr>sys_manager := mg\<lparr>newFdChannel :=
          announce_client accept_thread (client_with [] [] False) (newFdChannel mg)\<rparr>\<rparr>)"
    by (intro sys_accept) simp_all
  from sys_snoc [OF sys_nil step] have run: "sys_run (HttpServer_new 1) \<lparr>sys_manager = mg, sys_status = Up\<rparr>
      [Accept (client_with [] [] False)] (\<lparr>sys_manager = mg, sys_status = Up\<rparr>
        \<lparr>sys_manager := mg\<lparr>newFdChannel :=
          announce_client accept_thread (client_with [] [] False) (newFdChannel mg)\<rparr>\<rparr>)" by simp
  from connections_accounted [OF new run] run show ?thesis
    by (intro exI conjI) (assumption, simp add: client_with_def)
qed

text \<open>
  C1: A request is served. When the bytes of a plain connection are a rendered request with at least
  one header, whose head fits the look-ahead, and a resolver that only reads is found for its method
  and uri: the event hands exactly the head to the pool and leaves exactly the body in the stream;
  the handler of this task parses the request back, calls the resolver with it on this stream, and
  answers once, with the resolver's response (or the internal-error text if it throws); the
  connection is kept exactly when the response went out and the first \<^verbatim>\<open>Connection\<close> header is
  \<^verbatim>\<open>keep-alive\<close>.
\<close>

theorem request_served:
  assumes "umap_find (connections mg) fd = Some client" "no_error_flags ev"
    and "getStream client = PlainS s" "no_failure (incoming (ps_sock s))" "send_plan (ps_sock s) = []"
    and "pending s = request_head m uri version hs @ DOUBLE_CRLF @ body"
    and "length (request_head m uri version hs) \<le> 65532"
    and "request_token m" "request_token uri" "request_token version"
    and "\<forall>h \<in> set hs. header_pair h" "hs \<noteq> []"
    and "server_ok server" "fst (getResolver (uri_rank env) m uri [] server) = Some r" "quiet_resolver r"
  shows "\<exists>client' request request' rc.
    handleClientEvent fd ev mg = Inr (mg\<lparr>connections := umap_erase fd (connections mg),
      workerPool := add_task epoll_thread (client', request_head m uri version hs) (workerPool mg)\<rparr>) \<and>
    stream_content (getStream client') = body \<and>
    createRequest (request_head m uri version hs) = Some request \<and>
    parsed_as m uri version hs request \<and> routed env server request request' \<and>
    ClientRequestHandler env server client' (request_head m uri version hs) = Returns rc \<and>
    (case fst (r request' (getStream client')) of
       Inl e \<Rightarrow> stream_sent (getStream (rc_client rc)) = stream_sent (getStream client) @ INTERNAL_SERVER_ERROR \<and>
         \<not> rc_keepAlive rc
     | Inr response \<Rightarrow>
         rc_keepAlive rc = (map_of hs ''Connection'' = Some ''keep-alive'') \<and>
         stream_sent (getStream (rc_client rc)) =
           stream_sent (getStream client) @ answer_bytes env (rc_keepAlive rc) response)"
proof -
  from dispatch_request [OF assms(1-4,6-11)] obtain t where
    t: "handleClientEvent fd ev mg = Inr (mg\<lparr>connections := umap_erase fd (connections mg),
      workerPool := add_task epoll_thread (client\<lparr>getStream := PlainS t\<rparr>, request_head m uri version hs)
        (workerPool mg)\<rparr>)"
    "pending t = body" "same_sending (ps_sock s) (ps_sock t)" by blast
  let ?c = "client\<lparr>getStream := PlainS t\<rparr>"
  have writes: "accepts_writes (getStream ?c)"
    and sent: "stream_sent (getStream ?c) = stream_sent (getStream client)"
    using t(3) assms(3,5) by (simp_all add: accepts_writes_def same_sending_def)
  have "stream_content (getStream ?c) = body" using t(2) by simp
  with handle_request [OF assms(13) writes assms(8-12,14,15)] t(1) show ?thesis
    unfolding sent by blast
qed

text \<open>
  An unread body is taken for the next request. Under the same conditions, when the resolver does
  not read the body and the connection is kept, the body is still in the stream of the connection
  that comes back: if it contains a blank line, the next event on it dispatches the text before this
  blank line as a request head (so the sender of a body can smuggle in requests).
\<close>

theorem unread_body_becomes_request:
  assumes "umap_find (connections mg) fd = Some client" "no_error_flags ev"
    and "getStream client = PlainS s" "no_failure (incoming (ps_sock s))" "send_plan (ps_sock s) = []"
    and "pending s = request_head m uri version hs @ DOUBLE_CRLF @ body"
    and "length (request_head m uri version hs) \<le> 65532"
    and "request_token m" "request_token uri" "request_token version"
    and "\<forall>h \<in> set hs. header_pair h" "hs \<noteq> []"
    and "server_ok server" "fst (getResolver (uri_rank env) m uri [] server) = Some r"
    and "\<And>request s. snd (r request s) = s"
    and "find_str DOUBLE_CRLF body = Some k" "k + 4 \<le> 65536"
  shows "\<exists>client' rc.
    handleClientEvent fd ev mg = Inr (mg\<lparr>connections := umap_erase fd (connections mg),
      workerPool := add_task epoll_thread (client', request_head m uri version hs) (workerPool mg)\<rparr>) \<and>
    ClientRequestHandler env server client' (request_head m uri version hs) = Returns rc \<and>
    stream_content (getStream (rc_client rc)) = body \<and>
    (\<forall>mg2 ev2. umap_find (connections mg2) fd = Some (rc_client rc) \<longrightarrow> no_error_flags ev2 \<longrightarrow>
      (\<exists>client2. handleClientEvent fd ev2 mg2 = Inr (mg2\<lparr>connections := umap_erase fd (connections mg2),
        workerPool := add_task epoll_thread (client2, take k body) (workerPool mg2)\<rparr>)))"
proof -
  let ?head = "request_head m uri version hs"
  from dispatch_request [OF assms(1-4,6-11)] obtain t where
    t: "handleClientEvent fd ev mg = Inr (mg\<lparr>connections := umap_erase fd (connections mg),
      workerPool := add_task epoll_thread (client\<lparr>getStream := PlainS t\<rparr>, ?head) (workerPool mg)\<rparr>)"
    "pending t = body" "no_failure (incoming (ps_sock t))" "same_sending (ps_sock s) (ps_sock t)" by blast
  let ?c = "client\<lparr>getStream := PlainS t\<rparr>"
  have writes: "accepts_writes (getStream ?c)"
    using t(4) assms(5) by (simp add: accepts_writes_def same_sending_def)
  have quiet: "quiet_resolver r" using assms(15) by (simp add: quiet_resolver_def)
  from handle_request [OF assms(13) writes assms(8-12,14) quiet] obtain request rc where
    run: "createRequest ?head = Some request" "resolver_for env server request = r"
      "ClientRequestHandler env server ?c ?head = Returns rc" by blast
  have "snd (resolver_for env server request0 request1 s0) = s0"
    if "createRequest ?head = Some request0" for request0 request1 s0
    using that run(1,2) assms(15) by simp
  with handler_keeps_unread [OF assms(13) run(3), of t] obtain t' where
    ret: "getStream (rc_client rc) = PlainS t'" "same_receiving t t'" by auto
  have left: "pending t' = body" "no_failure (incoming (ps_sock t'))"
    using ret(2) t(2,3) same_receiving_pending by (simp_all add: same_receiving_def pending_def)
  have later: "\<exists>client2. handleClientEvent fd ev2 mg2 = Inr (mg2\<lparr>connections := umap_erase fd (connections mg2),
        workerPool := add_task epoll_thread (client2, take k body) (workerPool mg2)\<rparr>)"
    if "umap_find (connections mg2) fd = Some (rc_client rc)" "no_error_flags ev2" for mg2 ev2
    using handle_complete_plain [OF that ret(1) left(2) _ assms(17), unfolded left(1), OF assms(16)]
    by blast
  have "stream_content (getStream (rc_client rc)) = body" using ret(1) left(1) by simp
  with t(1) run(3) later show ?thesis by blast
qed

text \<open>A server with one route, and a connection with a request for it and a body with another one.\<close>

definition example_body :: string where
  "example_body = ''DELETE /x HTTP/1.1'' @ CRLF @ ''A: b'' @ DOUBLE_CRLF"

definition example_headers :: "(string \<times> string) list" where
  "example_headers = [(''Connection'', ''keep-alive'')]"

definition posting_client :: IClient where
  "posting_client = client_with [] [Arrive (request_head ''POST'' ''/'' ''HTTP/1.1'' example_headers),
     Arrive (DOUBLE_CRLF @ example_body)] False"

lemma example_route:
  "\<exists>server. server_ok server \<and>
    fst (getResolver (uri_rank example_env) ''POST'' ''/'' [] server) = Some defaultResolver"
proof -
  have plain: "plain_uri ''/''" "containsWildcard ''/'' = None"
    by (simp_all add: plain_uri_def unescaped_meta_def containsWildcard_def str_find_def)
  have "convertMethodToString Post = Returns ''POST''"
    by (simp add: convertMethodToString_def supportedHttpMethods_def)
  moreover have "umap_find (srv_resolvers (HttpServer_new 1)) ''POST'' = Some UriMapper_new"
    by (simp add: server_new_find supportedHttpMethods_def)
  moreover have "others_reject UriMapper_new (''^'' @ escape special_chars ''/'' @ ''$'') ''/''"
    by (simp add: others_reject_def UriMapper_new_def umap_empty_def)
  ultimately obtain s' where "server_ok s'" "getResolver (uri_rank example_env) ''POST'' ''/'' [] s' =
      (if rx_accepts (exact_rx ''/'') ''/''
       then (Some defaultResolver, ''^'' @ escape special_chars ''/'' @ ''$'') else (None, []))"
    using addResolver_pattern [OF server_ok_new _ _ uri_pattern_exact [OF plain] compile_exact [OF plain(1)],
        of Post "''POST''" 1 UriMapper_new "''/''" defaultResolver "uri_rank example_env" "[]"] by blast
  moreover have "rx_accepts (exact_rx ''/'') ''/''" by (simp add: exact_rx_accepts cstr_def)
  ultimately show ?thesis by (metis fst_conv)
qed

lemma posting_client_facts:
  "umap_find (connections (example_manager posting_client)) 5 = Some posting_client"
  "no_error_flags EPOLLIN"
  "\<exists>s. getStream posting_client = PlainS s \<and> no_failure (incoming (ps_sock s)) \<and>
    send_plan (ps_sock s) = [] \<and> pending s =
      request_head ''POST'' ''/'' ''HTTP/1.1'' example_headers @ DOUBLE_CRLF @ example_body"
  "length (request_head ''POST'' ''/'' ''HTTP/1.1'' example_headers) \<le> 65532"
  "request_token ''POST''" "request_token ''/''" "request_token ''HTTP/1.1''"
  "\<forall>h \<in> set example_headers. header_pair h" "example_headers \<noteq> []"
  by (simp_all add: posting_client_def no_error_flags_def EPOLLIN_def EPOLLERR_def EPOLLHUP_def
      client_with_def pending_def request_head_def request_line_def render_header_def example_headers_def
      request_token_def header_pair_def example_manager_def umap_find_def)

theorem request_served_witness:
  "\<exists>server client' request rc.
    handleClientEvent 5 EPOLLIN (example_manager posting_client) =
      Inr ((example_manager posting_client)\<lparr>
        connections := umap_erase 5 (connections (example_manager posting_client)),
        workerPool := add_task epoll_thread
          (client', request_head ''POST'' ''/'' ''HTTP/1.1'' example_headers)
          (workerPool (example_manager posting_client))\<rparr>) \<and>
    parsed_as ''POST'' ''/'' ''HTTP/1.1'' example_headers request \<and>
    ClientRequestHandler example_env server client'
      (request_head ''POST'' ''/'' ''HTTP/1.1'' example_headers) = Returns rc \<and> rc_keepAlive rc"
proof -
  from example_route obtain server where srv: "server_ok server"
    "fst (getResolver (uri_rank example_env) ''POST'' ''/'' [] server) = Some defaultResolver" by blast
  from posting_client_facts(3) obtain s where s: "getStream posting_client = PlainS s"
    "no_failure (incoming (ps_sock s))" "send_plan (ps_sock s) = []"
    "pending s = request_head ''POST'' ''/'' ''HTTP/1.1'' example_headers @ DOUBLE_CRLF @ example_body"
    by blast
  from request_served [OF posting_client_facts(1,2) s posting_client_facts(4-9) srv quiet_default]
  show ?thesis by (auto simp: defaultResolver_def example_headers_def)
qed

theorem unread_body_becomes_request_witness:
  "\<exists>server client' rc.
    ClientRequestHandler example_env server client'
      (request_head ''POST'' ''/'' ''HTTP/1.1'' example_headers) = Returns rc \<and>
    stream_content (getStream (rc_client rc)) = example_body"
proof -
  from example_route obtain server where srv: "server_ok server"
    "fst (getResolver (uri_rank example_env) ''POST'' ''/'' [] server) = Some defaultResolver" by blast
  from posting_client_facts(3) obtain s where s: "getStream posting_client = PlainS s"
    "no_failure (incoming (ps_sock s))" "send_plan (ps_sock s) = []"
    "pending s = request_head ''POST'' ''/'' ''HTTP/1.1'' example_headers @ DOUBLE_CRLF @ example_body"
    by blast
  have alone: "snd (defaultResolver request0 s0) = s0" for request0 s0
    by (simp add: defaultResolver_def)
  have "find_str DOUBLE_CRLF example_body = Some 24" "(24::nat) + 4 \<le> 65536"
    by (simp_all add: example_body_def DOUBLE_CRLF_def CRLF_def)
  from unread_body_becomes_request [OF posting_client_facts(1,2) s posting_client_facts(4-9) srv alone this]
  show ?thesis by blast
qed

end
