(* ===== verification/Servers.thy ===== *)
theory Servers
  imports HttpServer
begin

text \<open>
  \<^verbatim>\<open>PlainServer.cpp\<close>, \<^verbatim>\<open>SSLServer.cpp\<close>, \<^verbatim>\<open>SmartResource.cpp\<close> and \<^verbatim>\<open>sockets.hpp\<close>: the two implementations of
  \<open>ILowLevelSocketServer\<close>. What the system calls and OpenSSL return is an argument: an error number on
  the left, a descriptor or nothing of interest on the right. \<open>GetLastError\<close> is \<open>errno\<close>.
\<close>

section \<open>Creating a listening socket\<close>

record socket_api =
  api_socket :: "int + int"
  api_bind :: "int option"
  api_listen :: "int option"

record PlainServer =
  plain_port :: int
  plain_rawSocketFd :: int

definition PlainServer_createSocket :: "socket_api \<Rightarrow> PlainServer \<Rightarrow> exn + PlainServer" where
  "PlainServer_createSocket api s =
     (case api_socket api of
        Inl e \<Rightarrow> Inl (LowLevelApi ''socket() failed'' e e)
      | Inr fd \<Rightarrow>
          (case api_bind api of
             Some e \<Rightarrow> Inl (LowLevelApi ''bind() failed'' e e)
           | None \<Rightarrow>
               (case api_listen api of
                  Some e \<Rightarrow> Inl (LowLevelApi ''listen() failed'' e e)
                | None \<Rightarrow> Inr (s\<lparr>plain_rawSocketFd := fd\<rparr>))))"

definition PlainServer_new :: "socket_api \<Rightarrow> int \<Rightarrow> exn + PlainServer" where
  "PlainServer_new api port =
     PlainServer_createSocket api \<lparr>plain_port = port, plain_rawSocketFd = 0\<rparr>"

definition PlainServer_accept :: "int + (int \<times> socket) \<Rightarrow> PlainServer \<Rightarrow> accept_event" where
  "PlainServer_accept res s =
     (case res of
        Inl e \<Rightarrow> AcceptFails (LowLevelApi ''accept() failed'' e e)
      | Inr (clientFd, sock) \<Rightarrow> Accepted (PlainClient_new clientFd sock))"

section \<open>TLS\<close>

text \<open>The returns of \<open>SSL_CTX_new\<close> and of the two calls that load the certificate and the key.\<close>

record ssl_ctx_api =
  ctx_created :: bool
  use_certificate :: int
  use_private_key :: int

record SSLServer =
  ssl_port :: int
  ssl_rawSocketFd :: int
  certificatePath :: string
  privateKeyPath :: string
  sslContext :: bool

definition SSLServer_configureContex :: "ssl_ctx_api \<Rightarrow> SSLServer \<Rightarrow> exn + SSLServer" where
  "SSLServer_configureContex api s =
     (if \<not> ctx_created api then Inl (RuntimeError ''Error while creating context'')
      else if use_certificate api \<le> 0
        then Inl (RuntimeError ''Error while configuring the certificate path.'')
      else if use_private_key api \<le> 0
        then Inl (RuntimeError ''Error while configuring the private key path.'')
      else Inr (s\<lparr>sslContext := True\<rparr>))"

text \<open>The errno argument of the first exception is left at its default.\<close>

definition SSLServer_createSocket :: "socket_api \<Rightarrow> SSLServer \<Rightarrow> exn + SSLServer" where
  "SSLServer_createSocket api s =
     (case api_socket api of
        Inl e \<Rightarrow> Inl (LowLevelApi ''Calling socket() has failed'' e 0)
      | Inr fd \<Rightarrow>
          (case api_bind api of
             Some e \<Rightarrow> Inl (LowLevelApi ''Calling bind() has failed'' e e)
           | None \<Rightarrow>
               (case api_listen api of
                  Some e \<Rightarrow> Inl (LowLevelApi ''Calling listen() has failed'' e e)
                | None \<Rightarrow> Inr (s\<lparr>ssl_rawSocketFd := fd\<rparr>))))"

definition SSLServer_new ::
    "ssl_ctx_api \<Rightarrow> socket_api \<Rightarrow> int \<Rightarrow> string \<Rightarrow> string \<Rightarrow> exn + SSLServer" where
  "SSLServer_new ctx api port certPath keyPath =
     (case SSLServer_configureContex ctx
        \<lparr>ssl_port = port, ssl_rawSocketFd = 0, certificatePath = certPath,
         privateKeyPath = keyPath, sslContext = False\<rparr> of
        Inl e \<Rightarrow> Inl e
      | Inr s \<Rightarrow> SSLServer_createSocket api s)"

text \<open>
  \<open>accept\<close>: the handshake runs here, in the accepting thread; its failure is printed and otherwise
  ignored (\<open>handleSslAcceptError\<close> has no effect), and the client is returned all the same.
\<close>

definition handleSslAcceptError :: "int \<Rightarrow> ssl \<Rightarrow> ssl" where
  "handleSslAcceptError ret s = s"

definition SSLServer_accept :: "int + (int \<times> ssl) \<Rightarrow> int \<Rightarrow> SSLServer \<Rightarrow> accept_event" where
  "SSLServer_accept res acceptRet s =
     (case res of
        Inl e \<Rightarrow> AcceptFails (LowLevelApi ''Error while calling accept()'' e 0)
      | Inr (clientFd, ssl) \<Rightarrow>
          Accepted (SSLClient_new clientFd
            (if acceptRet \<noteq> 1 then handleSslAcceptError acceptRet ssl else ssl)))"

text \<open>The deleter of an SSL object: the calls it makes for the state \<open>SSL_get_shutdown\<close> reports.\<close>

datatype ssl_call = SSL_shutdown | SSL_free

definition sslObjectDeleter :: "int \<Rightarrow> ssl_call list" where
  "sslObjectDeleter shutdownState = (if shutdownState = 0 then [SSL_shutdown, SSL_free] else [])"

text \<open>
  \<open>SmartResource\<close> is a \<open>std::unique_ptr\<close> with its own deleter: destroying it calls the deleter unless the
  pointer is null. A deleter is the list of the calls it makes.
\<close>

record ('a, 'c) SmartResource =
  managed :: "'a option"
  deleter :: "'a \<Rightarrow> 'c list"

definition destroy_resource :: "('a, 'c) SmartResource \<Rightarrow> 'c list" where
  "destroy_resource r = (case managed r of None \<Rightarrow> [] | Some p \<Rightarrow> deleter r p)"

text \<open>\<open>SSL_get_shutdown\<close> is the function \<open>shutdown_state\<close> from SSL objects.\<close>

definition constructSmartSslResource :: "('s \<Rightarrow> int) \<Rightarrow> 's option \<Rightarrow> ('s, ssl_call) SmartResource" where
  "constructSmartSslResource shutdown_state ssl =
     \<lparr>managed = ssl, deleter = \<lambda>s. sslObjectDeleter (shutdown_state s)\<rparr>"

text \<open>\<open>initWSData\<close> on Unix: a null pointer and a deleter that does nothing.\<close>

definition initWSData :: "(int, 'c) SmartResource" where
  "initWSData = \<lparr>managed = None, deleter = \<lambda>_. []\<rparr>"

lemma initWSData_harmless: "destroy_resource initWSData = []"
  by (simp add: destroy_resource_def initWSData_def)

text \<open>An SSL object that the peer has shut down is never freed.\<close>

lemma ssl_resource_freed:
  "SSL_free \<in> set (destroy_resource (constructSmartSslResource shutdown_state (Some ssl))) \<longleftrightarrow> shutdown_state ssl = 0"
  by (simp add: destroy_resource_def constructSmartSslResource_def sslObjectDeleter_def)

section \<open>The virtual interface\<close>

datatype low_level_server = PlainSrv PlainServer | SslSrv SSLServer

text \<open>A new listening socket is bound and listening; a plain accept yields a client or an exception.\<close>

lemma PlainServer_new_ok:
  "PlainServer_new api port = Inr s \<longleftrightarrow>
     (\<exists>fd. api_socket api = Inr fd \<and> api_bind api = None \<and> api_listen api = None \<and>
       s = \<lparr>plain_port = port, plain_rawSocketFd = fd\<rparr>)"
  by (auto simp: PlainServer_new_def PlainServer_createSocket_def split: sum.splits option.splits)

end
