(* ===== verification/ServerBuilder.thy ===== *)
theory ServerBuilder
  imports Servers TaskExecutor
begin

text \<open>\<^verbatim>\<open>ServerBuilder.cpp\<close>: the fluent builder, whose setters throw on invalid arguments.\<close>

section \<open>State and operations\<close>

record ServerBuilder =
  underlyingServer :: "low_level_server option"
  sb_threadCount :: int
  sb_port :: int

definition createNew :: "int \<Rightarrow> ServerBuilder" where
  "createNew port = \<lparr>underlyingServer = None, sb_threadCount = 1, sb_port = port\<rparr>"

definition withThreads :: "int \<Rightarrow> ServerBuilder \<Rightarrow> exn + ServerBuilder" where
  "withThreads threads b =
     (if threads \<le> 0
      then Inl (RuntimeError ''Error: argument <threadCount> must be higher then 0.'')
      else Inr (b\<lparr>sb_threadCount := threads\<rparr>))"

text \<open>A null pointer is \<^term>\<open>None\<close>.\<close>

definition withUnderlyingServer :: "low_level_server option \<Rightarrow> ServerBuilder \<Rightarrow> exn + ServerBuilder" where
  "withUnderlyingServer server b =
     (case server of
        None \<Rightarrow> Inl (RuntimeError ''Error underlying server cannot be nullptr.'')
      | Some s \<Rightarrow> Inr (b\<lparr>underlyingServer := Some s\<rparr>))"

definition withSsl ::
    "ssl_ctx_api \<Rightarrow> socket_api \<Rightarrow> string \<Rightarrow> string \<Rightarrow> ServerBuilder \<Rightarrow> exn + ServerBuilder" where
  "withSsl ctx api publicKey privateKey b =
     (case SSLServer_new ctx api (sb_port b) (cstr publicKey) (cstr privateKey) of
        Inl e \<Rightarrow> Inl e
      | Inr s \<Rightarrow> withUnderlyingServer (Some (SslSrv s)) b)"

text \<open>\<open>build\<close> moves the low-level server out of the builder; without one it makes a plain server.\<close>

definition sb_build ::
    "socket_api \<Rightarrow> ServerBuilder \<Rightarrow> exn + ((low_level_server \<times> HttpServer) \<times> ServerBuilder)" where
  "sb_build api b =
     (case underlyingServer b of
        Some s \<Rightarrow> Inr ((s, HttpServer_new (sb_threadCount b)), b\<lparr>underlyingServer := None\<rparr>)
      | None \<Rightarrow>
          (case PlainServer_new api (sb_port b) of
             Inl e \<Rightarrow> Inl e
           | Inr s \<Rightarrow> Inr ((PlainSrv s, HttpServer_new (sb_threadCount b)), b)))"

section \<open>Sequences of calls\<close>

datatype setter =
    WithThreads int
  | WithUnderlying "low_level_server option"
  | WithSsl ssl_ctx_api socket_api string string

fun apply_setter :: "setter \<Rightarrow> ServerBuilder \<Rightarrow> exn + ServerBuilder" where
  "apply_setter (WithThreads n) b = withThreads n b"
| "apply_setter (WithUnderlying s) b = withUnderlyingServer s b"
| "apply_setter (WithSsl ctx api pub priv) b = withSsl ctx api pub priv b"

fun apply_setters :: "setter list \<Rightarrow> ServerBuilder \<Rightarrow> exn + ServerBuilder" where
  "apply_setters [] b = Inr b"
| "apply_setters (x # xs) b =
     (case apply_setter x b of Inl e \<Rightarrow> Inl e | Inr b' \<Rightarrow> apply_setters xs b')"

fun last_threads :: "setter list \<Rightarrow> int \<Rightarrow> int" where
  "last_threads [] n = n"
| "last_threads (WithThreads k # xs) n = last_threads xs k"
| "last_threads (x # xs) n = last_threads xs n"

definition builder_inv :: "ServerBuilder \<Rightarrow> bool" where
  "builder_inv b \<longleftrightarrow> 0 < sb_threadCount b"

lemma apply_setter_frame:
  assumes "apply_setter x b = Inr b'"
  shows "sb_port b' = sb_port b" "builder_inv b \<Longrightarrow> builder_inv b'"
    "sb_threadCount b' = last_threads [x] (sb_threadCount b)"
  using assms
  by (cases x; auto simp: withThreads_def withUnderlyingServer_def withSsl_def builder_inv_def
      split: if_splits option.splits sum.splits)+

lemma last_threads_Cons: "last_threads (x # xs) n = last_threads xs (last_threads [x] n)"
  by (cases x) simp_all

lemma apply_setters_frame:
  "apply_setters xs b = Inr b' \<Longrightarrow> builder_inv b \<Longrightarrow>
     sb_port b' = sb_port b \<and> builder_inv b' \<and> sb_threadCount b' = last_threads xs (sb_threadCount b)"
proof (induction xs arbitrary: b)
  case (Cons x xs)
  then obtain b1 where b1: "apply_setter x b = Inr b1" "apply_setters xs b1 = Inr b'"
    by (auto split: sum.splits)
  with Cons apply_setter_frame [OF b1(1)] show ?case
    by (simp add: last_threads_Cons [of x xs])
qed simp

section \<open>Properties\<close>

text \<open>
  A built server can be run. After any sequence of setter calls none of which threw, building
  succeeds whenever a server was supplied or the plain listening socket can be created (it does not
  insist on a supplied one), the result has the thread count that was set last, 1 by default, and
  with it the constructor of the worker pool does not throw.
\<close>

theorem built_server_runs:
  assumes "apply_setters xs (createNew port) = Inr b"
  shows "(\<forall>server http b'. sb_build api b = Inr ((server, http), b') \<longrightarrow>
      http = HttpServer_new (last_threads xs 1) \<and> server_ok http \<and>
      (\<exists>pool. TaskExecutor_new (threadCount http) choice = Inr pool)) \<and>
    ((\<exists>r. sb_build api b = Inr r) \<longleftrightarrow>
      underlyingServer b \<noteq> None \<or> (\<exists>s. PlainServer_new api port = Inr s))"
proof -
  have "builder_inv (createNew port)" by (simp add: createNew_def builder_inv_def)
  from apply_setters_frame [OF assms this] have b: "sb_port b = port" "0 < sb_threadCount b"
    "sb_threadCount b = last_threads xs 1"
    by (simp_all add: createNew_def builder_inv_def)
  have "threadCount (HttpServer_new n) = n" for n by (simp add: HttpServer_new_def)
  with b show ?thesis
    by (auto simp: sb_build_def server_ok_new TaskExecutor_new_def split: option.splits sum.splits)
qed

theorem built_server_runs_witness:
  "\<exists>server b'. sb_build \<lparr>api_socket = Inr 3, api_bind = None, api_listen = None\<rparr>
      \<lparr>underlyingServer = None, sb_threadCount = 7, sb_port = 8080\<rparr> =
    Inr ((server, HttpServer_new 7), b')"
proof -
  let ?api = "\<lparr>api_socket = Inr 3, api_bind = None, api_listen = None\<rparr>"
  have "apply_setters [WithThreads 7] (createNew 8080) =
      Inr \<lparr>underlyingServer = None, sb_threadCount = 7, sb_port = 8080\<rparr>"
    by (simp add: withThreads_def createNew_def)
  note runs = built_server_runs [OF this, where api = ?api and choice = "[]"]
  have "\<exists>s. PlainServer_new ?api 8080 = Inr s" by (simp add: PlainServer_new_ok)
  with runs obtain server http b' where built: "sb_build ?api
      \<lparr>underlyingServer = None, sb_threadCount = 7, sb_port = 8080\<rparr> = Inr ((server, http), b')"
    by (metis surj_pair)
  with runs have "http = HttpServer_new (last_threads [WithThreads 7] 1)" by blast
  with built show ?thesis by auto
qed

end
