(* ===== verification/Exceptions.thy ===== *)
theory Exceptions
  imports Prelude
begin

text \<open>
  \<^verbatim>\<open>LowLevelApiException\<close> and \<^verbatim>\<open>OpenSslErrorQueueException\<close> as objects. In the flow of control they are the
  constructors \<^const>\<open>LowLevelApi\<close> and \<^const>\<open>OpenSslErrorQueue\<close> of \<^typ>\<open>exn\<close>, which carry the arguments of
  the throw expression; here is what the constructors make of these.
\<close>

record LowLevelApiException =
  what :: string
  appErrorCode :: int
  capturedErrno :: int

text \<open>
  The parameter is spelt \<open>caputredErrno\<close> in the definition, so the initialiser
  \<open>capturedErrno(capturedErrno)\<close> initialises the member from itself: its value is whatever the memory
  held (\<open>indeterminate\<close>). The message uses the parameter.
\<close>

definition LowLevelApiException_new ::
    "string \<Rightarrow> int \<Rightarrow> int \<Rightarrow> int \<Rightarrow> LowLevelApiException" where
  "LowLevelApiException_new msg code caputredErrno indeterminate =
     \<lparr>what = ''Error Code'' @ [CHR 0x09] @ to_string code @ [CHR 0x09] @ ''with errno'' @ [CHR 0x09]
        @ to_string caputredErrno @ ''::'' @ [CHR 0x09] @ cstr msg,
      appErrorCode = code, capturedErrno = indeterminate\<rparr>"

text \<open>
  The derived constructor empties the error queue of OpenSSL, up to an entry with code 0, onto the
  standard output; nothing of it is stored. \<open>queue\<close> holds the codes and texts of the entries.
\<close>

definition OpenSslErrorQueueException_new ::
    "string \<Rightarrow> int \<Rightarrow> int \<Rightarrow> int \<Rightarrow> (int \<times> string) list
      \<Rightarrow> LowLevelApiException \<times> (int \<times> string) list \<times> (int \<times> string) list" where
  "OpenSslErrorQueueException_new msg code errno indeterminate queue =
     (let printed = takeWhile (\<lambda>e. fst e \<noteq> 0) queue
      in (LowLevelApiException_new msg code errno indeterminate, printed,
          drop (Suc (length printed)) queue))"

text \<open>The printed entries and what is left account for the queue, less the terminating entry.\<close>

lemma error_queue_drained:
  assumes "OpenSslErrorQueueException_new msg code errno ind queue = (e, printed, rest)"
  shows "(\<forall>x \<in> set printed. fst x \<noteq> 0) \<and>
    (queue = printed \<and> rest = [] \<or> (\<exists>data. queue = printed @ (0, data) # rest))"
proof -
  let ?p = "takeWhile (\<lambda>e. fst e \<noteq> 0) queue"
  from assms have p: "printed = ?p" "rest = drop (Suc (length ?p)) queue"
    by (auto simp: OpenSslErrorQueueException_new_def Let_def)
  show ?thesis
  proof (cases "length ?p < length queue")
    case True
    from nth_length_takeWhile [OF this] obtain data where "queue ! length ?p = (0, data)"
      by (cases "queue ! length ?p") simp
    moreover have "queue = ?p @ queue ! length ?p # drop (Suc (length ?p)) queue"
      using id_take_nth_drop [OF True] by (simp add: takeWhile_eq_take [symmetric])
    ultimately show ?thesis using p by (auto dest: set_takeWhileD)
  next
    case False
    then have "?p = queue"
      by (metis length_takeWhile_le le_antisym not_less takeWhile_eq_take take_all_iff)
    with p show ?thesis by (auto dest: set_takeWhileD)
  qed
qed

end
