(* ===== verification/QueueDetails.thy ===== *)
theory QueueDetails
  imports Prelude "HOL-Library.Word" "HOL-Library.While_Combinator" "HOL-Library.Signed_Division"
begin

text \<open>
  \<^verbatim>\<open>moodycamel::details\<close> and the default traits (\<^verbatim>\<open>src/lightning/moodycamel/concurrentqueue.h\<close>): the
  arithmetic on machine words that the lock-free queue rests on. \<open>std::size_t\<close>, \<open>index_t\<close> and the
  thread identifier (the address of a thread-local variable) are 64 bits wide, as on the platforms
  the program is built for.

  \<^item> \<open>hash32\<close>, \<open>hash64\<close>, \<open>hash_thread_id\<close>: the MurmurHash3 finalisers.
  \<^item> \<open>circular_less_than\<close>: the comparison of indices that may wrap around.
  \<^item> \<open>ceil_to_pow_2\<close>, \<open>align_for\<close>: rounding up.
  \<^item> \<open>block_base\<close>, \<open>block_offset\<close>, \<open>block_distance\<close>: the masks and the signed division by which
    the queue finds the block and the slot of an index.
\<close>

unbundle bit_operations_syntax

type_synonym size_t = "64 word"
type_synonym index_t = "64 word"
type_synonym thread_id = "64 word"

named_theorems index_simps "indices of the queue, read as natural numbers"

section \<open>Traits\<close>

definition const_numeric_max :: "size_t" where
  "const_numeric_max = - 1"

definition BLOCK_SIZE :: nat where "BLOCK_SIZE = 32"
definition EXPLICIT_BLOCK_EMPTY_COUNTER_THRESHOLD :: nat where
  "EXPLICIT_BLOCK_EMPTY_COUNTER_THRESHOLD = 32"
definition EXPLICIT_INITIAL_INDEX_SIZE :: nat where "EXPLICIT_INITIAL_INDEX_SIZE = 32"
definition IMPLICIT_INITIAL_INDEX_SIZE :: nat where "IMPLICIT_INITIAL_INDEX_SIZE = 32"
definition INITIAL_IMPLICIT_PRODUCER_HASH_SIZE :: nat where
  "INITIAL_IMPLICIT_PRODUCER_HASH_SIZE = 32"
definition CONSUMPTION_QUOTA_BEFORE_ROTATE :: "32 word" where
  "CONSUMPTION_QUOTA_BEFORE_ROTATE = 256"
definition MAX_SEMA_SPINS :: nat where "MAX_SEMA_SPINS = 10000"

text \<open>\<^verbatim>\<open>MAX_SUBQUEUE_SIZE\<close> of the queue is the trait rounded up to whole blocks.\<close>

definition round_subqueue_size :: "size_t \<Rightarrow> size_t" where
  "round_subqueue_size trait =
     (if const_numeric_max - trait < of_nat BLOCK_SIZE then const_numeric_max
      else (trait + (of_nat BLOCK_SIZE - 1)) div of_nat BLOCK_SIZE * of_nat BLOCK_SIZE)"

definition MAX_SUBQUEUE_SIZE :: size_t where
  "MAX_SUBQUEUE_SIZE = round_subqueue_size const_numeric_max"

lemma MAX_SUBQUEUE_SIZE_unbounded: "MAX_SUBQUEUE_SIZE = const_numeric_max"
  by (simp add: MAX_SUBQUEUE_SIZE_def round_subqueue_size_def BLOCK_SIZE_def)

section \<open>Hashing of thread identifiers\<close>

definition xor_shift :: "nat \<Rightarrow> 'a::len word \<Rightarrow> 'a word" where
  "xor_shift k h = h XOR drop_bit k h"

definition hash32 :: "32 word \<Rightarrow> 32 word" where
  "hash32 h0 =
     (let h1 = h0 XOR drop_bit 16 h0;
          h2 = h1 * 0x85ebca6b;
          h3 = h2 XOR drop_bit 13 h2;
          h4 = h3 * 0xc2b2ae35
      in h4 XOR drop_bit 16 h4)"

definition hash64 :: "64 word \<Rightarrow> 64 word" where
  "hash64 h0 =
     (let h1 = h0 XOR drop_bit 33 h0;
          h2 = h1 * 0xff51afd7ed558ccd;
          h3 = h2 XOR drop_bit 33 h2;
          h4 = h3 * 0xc4ceb9fe1a85ec53
      in h4 XOR drop_bit 33 h4)"

definition hash_thread_id :: "thread_id \<Rightarrow> size_t" where
  "hash_thread_id tid = hash64 tid"

lemma hash32_alt:
  "hash32 h = xor_shift 16 (xor_shift 13 (xor_shift 16 h * 0x85ebca6b) * 0xc2b2ae35)"
  by (simp add: hash32_def xor_shift_def Let_def)

lemma hash64_alt:
  "hash64 h = xor_shift 33 (xor_shift 33 (xor_shift 33 h * 0xff51afd7ed558ccd) * 0xc4ceb9fe1a85ec53)"
  by (simp add: hash64_def xor_shift_def Let_def)

lemma drop_bit_word_zero: "LENGTH('a) \<le> k \<Longrightarrow> drop_bit k (h :: 'a::len word) = 0"
  by (rule bit_eqI) (auto simp: bit_drop_bit_eq dest: bit_imp_le_length)

text \<open>A shift by at least a third of the width can be undone by xoring twice more.\<close>

lemma xor_shift_inverse:
  fixes h :: "'a::len word"
  assumes "LENGTH('a) \<le> 3 * k"
  shows "(let g = xor_shift k h in g XOR drop_bit k g XOR drop_bit (2 * k) g) = h"
proof (rule bit_eqI)
  fix n
  have "\<not> bit h (3 * k + n)" using assms bit_imp_le_length [of h "3 * k + n"] by linarith
  then show "bit (let g = xor_shift k h in g XOR drop_bit k g XOR drop_bit (2 * k) g) n = bit h n"
    by (auto simp: xor_shift_def Let_def bit_xor_iff bit_drop_bit_eq add.assoc mult_2 eval_nat_numeral add.left_commute)
qed

lemma xor_shift_inj: "LENGTH('a) \<le> 3 * k \<Longrightarrow> xor_shift k (g :: 'a::len word) = xor_shift k h \<Longrightarrow> g = h"
  by (metis xor_shift_inverse)

lemma mult_word_inj:
  fixes g h c :: "'a::len word"
  assumes "c * d = 1" "g * c = h * c"
  shows "g = h"
  using assms by (metis mult.assoc mult.right_neutral)

lemma inj_hash32: "inj hash32"
proof (rule injI)
  fix g h assume "hash32 g = hash32 h"
  then have "xor_shift 13 (xor_shift 16 g * 0x85ebca6b) * 0xc2b2ae35
      = xor_shift 13 (xor_shift 16 h * 0x85ebca6b) * 0xc2b2ae35"
    unfolding hash32_alt by (rule xor_shift_inj [rotated]) simp
  then have "xor_shift 13 (xor_shift 16 g * 0x85ebca6b) = xor_shift 13 (xor_shift 16 h * 0x85ebca6b)"
    by (rule mult_word_inj [where d = "0x7ed1b41d", rotated]) simp
  then have "xor_shift 16 g * 0x85ebca6b = xor_shift 16 h * 0x85ebca6b"
    by (rule xor_shift_inj [rotated]) simp
  then have "xor_shift 16 g = xor_shift 16 h"
    by (rule mult_word_inj [where d = "0xa5cb9243", rotated]) simp
  then show "g = h" by (rule xor_shift_inj [rotated]) simp
qed

lemma inj_hash64: "inj hash64"
proof (rule injI)
  fix g h assume "hash64 g = hash64 h"
  then have "xor_shift 33 (xor_shift 33 g * 0xff51afd7ed558ccd) * 0xc4ceb9fe1a85ec53
      = xor_shift 33 (xor_shift 33 h * 0xff51afd7ed558ccd) * 0xc4ceb9fe1a85ec53"
    unfolding hash64_alt by (rule xor_shift_inj [rotated]) simp
  then have "xor_shift 33 (xor_shift 33 g * 0xff51afd7ed558ccd)
      = xor_shift 33 (xor_shift 33 h * 0xff51afd7ed558ccd)"
    by (rule mult_word_inj [where d = "0x9cb4b2f8129337db", rotated]) simp
  then have "xor_shift 33 g * 0xff51afd7ed558ccd = xor_shift 33 h * 0xff51afd7ed558ccd"
    by (rule xor_shift_inj [rotated]) simp
  then have "xor_shift 33 g = xor_shift 33 h"
    by (rule mult_word_inj [where d = "0x4f74430c22a54005", rotated]) simp
  then show "g = h" by (rule xor_shift_inj [rotated]) simp
qed

section \<open>Comparison of indices\<close>

definition circular_less_than :: "'a::len word \<Rightarrow> 'a word \<Rightarrow> bool" where
  "circular_less_than a b \<longleftrightarrow> a - b > push_bit (LENGTH('a) - 1) 1"

lemma unat_of_nat_small: "n < 2 ^ LENGTH('a) \<Longrightarrow> unat (of_nat n :: 'a::len word) = n"
  by (simp add: unat_of_nat take_bit_eq_mod)

lemma unat_exp: "n < LENGTH('a) \<Longrightarrow> unat (2 ^ n :: 'a::len word) = 2 ^ n"
  using unat_of_nat_small [of "2 ^ n", where 'a = 'a] by simp

lemma unat_push_one: "unat (push_bit (LENGTH('a) - 1) 1 :: 'a::len word) = 2 ^ (LENGTH('a) - 1)"
  by (simp add: push_bit_eq_mult unat_exp)

lemma unat_minus_nonzero:
  fixes x :: "'a::len word"
  assumes "x \<noteq> 0"
  shows "unat (- x) = 2 ^ LENGTH('a) - unat x"
proof -
  have "unat x \<le> 2 ^ LENGTH('a)" by (rule less_imp_le) simp
  then have "- x = of_nat (2 ^ LENGTH('a) - unat x)" by (simp add: of_nat_diff)
  moreover have "0 < unat x" using assms by (simp add: unat_gt_0)
  then have "2 ^ LENGTH('a) - unat x < 2 ^ LENGTH('a)" by simp
  ultimately show ?thesis by (simp add: unat_of_nat take_bit_eq_mod)
qed

lemma two_power_length: "2 ^ LENGTH('a::len) = 2 * (2 :: nat) ^ (LENGTH('a) - 1)"
  by (simp flip: power_Suc)

lemma circular_less_than_iff:
  "circular_less_than a b \<longleftrightarrow>
     0 < unat (b - a) \<and> unat (b - a) < 2 ^ (LENGTH('a) - 1)" for a b :: "'a::len word"
proof (cases "a = b")
  case True
  then show ?thesis by (simp add: circular_less_than_def)
next
  case False
  then have "unat (a - b) = 2 ^ LENGTH('a) - unat (b - a)"
    using unat_minus_nonzero [of "b - a"] by simp
  moreover have "unat (b - a) < 2 ^ LENGTH('a)" by simp
  moreover have "0 < unat (b - a)" using False by (simp add: unat_gt_0)
  ultimately show ?thesis
    unfolding circular_less_than_def word_less_nat_alt unat_push_one two_power_length by linarith
qed

lemma unat_of_nat_diff:
  fixes m n :: nat
  assumes "m \<le> n" "n - m < 2 ^ LENGTH('a)"
  shows "unat (of_nat n - of_nat m :: 'a::len word) = n - m"
  using assms by (simp flip: of_nat_diff add: unat_of_nat take_bit_eq_mod)

lemma circular_less_than_of_nat:
  fixes m n :: nat
  assumes "m \<le> n" "n - m < 2 ^ (LENGTH('a) - 1)"
  shows "circular_less_than (of_nat m :: 'a::len word) (of_nat n) \<longleftrightarrow> m < n"
    and "\<not> circular_less_than (of_nat n :: 'a::len word) (of_nat m)"
proof -
  have "n - m < 2 ^ LENGTH('a)" using assms(2) by (simp add: two_power_length)
  then have "unat (of_nat n - of_nat m :: 'a word) = n - m" by (rule unat_of_nat_diff [OF assms(1)])
  moreover
  have "unat (of_nat m - of_nat n :: 'a word) = (if m = n then 0 else 2 ^ LENGTH('a) - (n - m))"
  proof (cases "m = n")
    case False
    then have "(of_nat n - of_nat m :: 'a word) \<noteq> 0" using calculation assms(1) by auto
    from unat_minus_nonzero [OF this] False calculation show ?thesis by simp
  qed simp
  ultimately show "circular_less_than (of_nat m :: 'a word) (of_nat n) \<longleftrightarrow> m < n"
    and "\<not> circular_less_than (of_nat n :: 'a word) (of_nat m)"
    using assms by (auto simp: circular_less_than_iff two_power_length)
qed

section \<open>Rounding up\<close>

definition align_for :: "nat \<Rightarrow> nat \<Rightarrow> nat" where
  "align_for alignment ptr = ptr + (alignment - ptr mod alignment) mod alignment"

lemma align_for_spec:
  assumes "0 < alignment"
  shows "alignment dvd align_for alignment ptr" "ptr \<le> align_for alignment ptr"
    "align_for alignment ptr < ptr + alignment"
proof -
  show "alignment dvd align_for alignment ptr"
  proof (cases "ptr mod alignment = 0")
    case False
    then have "(alignment - ptr mod alignment) mod alignment = alignment - ptr mod alignment"
      using assms by simp
    moreover have "ptr + (alignment - ptr mod alignment) = ptr div alignment * alignment + alignment"
      using assms mod_less_divisor [OF assms, of ptr] div_mult_mod_eq [of ptr alignment] by linarith
    ultimately show ?thesis by (simp add: align_for_def)
  qed (auto simp: align_for_def)
qed (use assms in \<open>simp_all add: align_for_def\<close>)

definition ceil_to_pow_2 :: "size_t \<Rightarrow> size_t" where
  "ceil_to_pow_2 x0 =
     (let x1 = x0 - 1;
          x2 = x1 OR drop_bit 1 x1;
          x3 = x2 OR drop_bit 2 x2;
          x4 = x3 OR drop_bit 4 x3;
          x5 = snd (while (\<lambda>(i, x). i < 8) (\<lambda>(i, x). (push_bit 1 i, x OR drop_bit (push_bit 3 i) x)) (1 :: nat, x4))
      in x5 + 1)"

definition smeared :: "nat \<Rightarrow> size_t \<Rightarrow> size_t \<Rightarrow> bool" where
  "smeared k x y \<longleftrightarrow> (\<forall>n. bit y n \<longleftrightarrow> (\<exists>m. n \<le> m \<and> m < n + k \<and> bit x m))"

lemma smeared_double:
  assumes "smeared k x y"
  shows "smeared (2 * k) x (y OR drop_bit k y)"
proof -
  have "bit (y OR drop_bit k y) n \<longleftrightarrow> (\<exists>m. n \<le> m \<and> m < n + 2 * k \<and> bit x m)" for n
  proof -
    have "bit (y OR drop_bit k y) n \<longleftrightarrow>
        (\<exists>m. n \<le> m \<and> m < n + k \<and> bit x m) \<or> (\<exists>m. k + n \<le> m \<and> m < k + n + k \<and> bit x m)"
      using assms by (simp add: smeared_def bit_or_iff bit_drop_bit_eq)
    moreover have "n \<le> m \<and> m < n + 2 * k \<longleftrightarrow>
        n \<le> m \<and> m < n + k \<or> k + n \<le> m \<and> m < k + n + k" for m
      by linarith
    ultimately show ?thesis by blast
  qed
  then show ?thesis by (simp add: smeared_def)
qed

lemma smeared_once: "smeared 1 x x"
  by (auto simp: smeared_def less_Suc_eq_le dest: le_antisym)

lemma smeared_all:
  assumes "smeared 64 x y" "x \<noteq> 0"
  obtains p where "p < 64" "y = mask (Suc p)" "2 ^ p \<le> unat x" "unat x < 2 ^ Suc p"
proof -
  define p where "p = Max {n. bit x n}"
  have fin: "finite {n. bit x n}"
    by (rule finite_subset [of _ "{..<64}"]) (auto dest: bit_imp_le_length)
  have ne: "{n. bit x n} \<noteq> {}" using assms(2) by (auto simp: bit_eq_iff)
  have top: "bit x p" using Max_in [OF fin ne] by (simp add: p_def)
  have above: "n \<le> p" if "bit x n" for n using Max_ge [OF fin] that by (simp add: p_def)
  have "p < 64" using bit_imp_le_length [OF top] by simp
  have y_bit: "bit y n \<longleftrightarrow> n \<le> p" for n
  proof -
    have "bit y n \<longleftrightarrow> (\<exists>m. n \<le> m \<and> m < n + 64 \<and> bit x m)"
      using assms(1) by (simp add: smeared_def)
    also have "\<dots> \<longleftrightarrow> n \<le> p"
      using top above \<open>p < 64\<close> by (meson order_trans trans_less_add2)
    finally show ?thesis .
  qed
  then have "y = mask (Suc p)"
    using \<open>p < 64\<close> by (intro bit_eqI) (simp add: y_bit bit_mask_iff less_Suc_eq_le)
  have "x = take_bit (Suc p) x"
    by (intro bit_eqI) (use above in \<open>auto simp: bit_take_bit_iff less_Suc_eq_le\<close>)
  then have "unat x = take_bit (Suc p) (unat x)" by (metis unsigned_take_bit_eq)
  also have "\<dots> < 2 ^ Suc p" by (rule take_bit_nat_less_exp)
  finally have "unat x < 2 ^ Suc p" .
  moreover have "2 ^ p \<le> unat x"
  proof -
    have "bit (unat x) p" using top by (simp add: bit_unsigned_iff)
    then have "unat x div 2 ^ p \<noteq> 0" by (metis bit_iff_odd even_zero)
    then show ?thesis by (metis div_less not_less)
  qed
  ultimately show thesis using that \<open>p < 64\<close> \<open>y = mask (Suc p)\<close> by blast
qed

lemma ceil_to_pow_2_smear:
  "\<exists>y. smeared 64 (x - 1) y \<and> ceil_to_pow_2 x = y + 1"
proof -
  let ?s = "\<lambda>k x. x OR drop_bit k x :: size_t"
  let ?y = "?s 32 (?s 16 (?s 8 (?s 4 (?s 2 (?s 1 (x - 1))))))"
  have "smeared 64 (x - 1) ?y"
    using smeared_double [OF smeared_double [OF smeared_double [OF smeared_double
      [OF smeared_double [OF smeared_double [OF smeared_once [of "x - 1"]]]]]]]
    by simp
  moreover have "ceil_to_pow_2 x = ?y + 1"
    by (simp add: ceil_to_pow_2_def Let_def while_unfold push_bit_eq_mult)
  ultimately show ?thesis by blast
qed

lemma ceil_to_pow_2_least:
  assumes "0 < unat x" "unat x \<le> 2 ^ 63"
  shows "\<exists>k. unat (ceil_to_pow_2 x) = 2 ^ k \<and> unat x \<le> 2 ^ k \<and> 2 ^ k < 2 * unat x"
proof -
  obtain y where y: "smeared 64 (x - 1) y" "ceil_to_pow_2 x = y + 1"
    using ceil_to_pow_2_smear by blast
  have x1: "unat (x - 1) = unat x - 1" using assms(1) by (simp add: unat_minus_one unat_gt_0)
  show ?thesis
  proof (cases "x - 1 = 0")
    case True
    then have "x = 1" by simp
    then have "y = 0" using y(1) by (intro bit_eqI) (simp add: smeared_def)
    note this and \<open>x = 1\<close>
    moreover have "unat (1 :: size_t) = 1" by simp
    ultimately show ?thesis using y(2) by (intro exI [of _ 0]) simp
  next
    case False
    then obtain p where p: "p < 64" "y = mask (Suc p)" "2 ^ p \<le> unat x - 1" "unat x - 1 < 2 ^ Suc p"
      using smeared_all [OF y(1)] x1 by metis
    have "p < 63"
    proof (rule ccontr)
      assume "\<not> p < 63"
      with p(1) have "p = 63" by simp
      with p(3) assms show False by simp
    qed
    then have "unat (ceil_to_pow_2 x) = 2 ^ Suc p"
      using p(2) by (simp add: y(2) mask_eq_exp_minus_1 unat_exp del: power_Suc)
    with p assms(1) show ?thesis by (intro exI [of _ "Suc p"]) auto
  qed
qed

section \<open>Blocks and slots of an index\<close>

text \<open>The base index of the block of an index, its offset in the block, and the number of blocks
  between two bases: \<^verbatim>\<open>static_cast<size_t>(make_signed(a - b) / make_signed(BLOCK_SIZE))\<close>.\<close>

definition block_base :: "index_t \<Rightarrow> index_t" where
  "block_base i = i AND NOT (of_nat BLOCK_SIZE - 1)"

definition block_offset :: "index_t \<Rightarrow> nat" where
  "block_offset i = unat (i AND (of_nat BLOCK_SIZE - 1))"

definition block_distance :: "index_t \<Rightarrow> index_t \<Rightarrow> size_t" where
  "block_distance a b = word_of_int (sint (a - b) sdiv sint (of_nat BLOCK_SIZE :: index_t))"

lemma unat_and_pow2_minus_one:
  fixes x :: "'a::len word"
  shows "unat (x AND (2 ^ k - 1)) = unat x mod 2 ^ k"
proof -
  have "x AND (2 ^ k - 1) = take_bit k x" by (simp add: take_bit_eq_mask mask_eq_exp_minus_1)
  then have "unat (x AND (2 ^ k - 1)) = take_bit k (unat x)" by (simp only: unsigned_take_bit_eq)
  then show ?thesis by (simp only: take_bit_eq_mod)
qed

lemma block_size_minus_one: "(of_nat BLOCK_SIZE - 1 :: index_t) = 2 ^ 5 - 1"
  by (simp add: BLOCK_SIZE_def)

lemma block_offset_of_nat [index_simps]: "block_offset (of_nat n) = n mod 32"
proof -
  have "block_offset (of_nat n) = unat (of_nat n :: index_t) mod 2 ^ 5"
    unfolding block_offset_def block_size_minus_one by (rule unat_and_pow2_minus_one)
  also have "\<dots> = n mod 2 ^ 64 mod 2 ^ 5" by (simp only: unat_of_nat take_bit_eq_mod) simp
  also have "\<dots> = n mod 2 ^ 5" by (rule mod_mod_cancel) simp
  finally show ?thesis by simp
qed

lemma and_not_eq_minus: "i AND NOT m = i - (i AND m)" for i m :: "'a::len word"
proof -
  have "NOT i AND (i AND m) = 0" by (rule bit_eqI) (auto simp: bit_and_iff bit_not_iff)
  from disjunctive_diff_eq_and_not [OF this] have "i - (i AND m) = i AND NOT (i AND m)" .
  also have "\<dots> = i AND NOT m"
    by (rule bit_eqI) (auto simp: bit_and_iff bit_or_iff bit_not_iff)
  finally show ?thesis by simp
qed

lemma block_base_of_nat [index_simps]: "block_base (of_nat n) = of_nat (n div 32 * 32)"
proof -
  have "of_nat n AND (of_nat BLOCK_SIZE - 1 :: index_t) = of_nat (n mod 32)"
    using block_offset_of_nat [of n] unfolding block_offset_def word_unat_eq_iff
    by (simp add: unat_of_nat_small [where 'a = 64] less_imp_le less_le_trans [OF mod_less_divisor])
  then have "block_base (of_nat n) = of_nat n - of_nat (n mod 32)"
    by (simp add: block_base_def and_not_eq_minus)
  also have "\<dots> = of_nat (n div 32 * 32)"
    by (simp add: minus_mod_eq_div_mult flip: of_nat_diff)
  finally show ?thesis .
qed

lemma sint_word_of_int_small:
  assumes "- (2 ^ (LENGTH('a) - 1)) \<le> z" "z < 2 ^ (LENGTH('a) - 1)"
  shows "sint (word_of_int z :: 'a::len word) = z"
  using assms by (simp add: sint_sbintrunc' signed_take_bit_int_eq_self_iff)

lemma block_distance_of_nat [index_simps]:
  fixes a b :: nat
  assumes "\<bar>int a - int b\<bar> < 2 ^ 58"
  shows "block_distance (of_nat (32 * a)) (of_nat (32 * b)) = word_of_int (int a - int b)"
proof -
  have diff: "(of_nat (32 * a) - of_nat (32 * b) :: index_t) = word_of_int (32 * (int a - int b))"
    by (simp add: algebra_simps)
  have "sint (of_nat (32 * a) - of_nat (32 * b) :: index_t) = 32 * (int a - int b)"
    unfolding diff by (rule sint_word_of_int_small) (use assms in simp_all)
  moreover have "sint (of_nat BLOCK_SIZE :: index_t) = 32" by (simp add: BLOCK_SIZE_def)
  moreover have "32 * z sdiv 32 = z" for z :: int
    by (simp add: signed_divide_int_def abs_mult sgn_mult abs_sgn_eq mult_sgn_abs flip: abs_sgn)
  ultimately show ?thesis unfolding block_distance_def by (simp only:)
qed

text \<open>Masked positions in a circular table of \<open>2 ^ k\<close> slots.\<close>

lemma masked_position:
  assumes "k < 64"
  shows "int (unat ((of_nat p + word_of_int z :: size_t) AND (2 ^ k - 1))) = (int p + z) mod 2 ^ k"
proof -
  have "int (unat (w AND (2 ^ k - 1))) = uint w mod 2 ^ k" for w :: size_t
    by (simp add: unat_and_pow2_minus_one of_nat_mod)
  moreover have "uint (of_nat p + word_of_int z :: size_t) = (int p + z) mod 2 ^ 64"
    proof -
    have "(of_nat p + word_of_int z :: size_t) = word_of_int (int p + z)" by simp
    then show ?thesis by (simp only: uint_word_of_int) simp
  qed
  moreover have "(2 :: int) ^ k dvd 2 ^ 64" using assms by (intro le_imp_power_dvd) simp
  ultimately show ?thesis by (simp only: mod_mod_cancel)
qed

lemma masked_slot:
  assumes "c < 64"
  shows "unat ((of_nat t + word_of_int z :: size_t) AND (2 ^ c - 1)) = nat ((int t + z) mod 2 ^ c)"
  by (metis masked_position [OF assms] nat_int)

lemma tail_plus_one:
  assumes "c < 64" "t < 2 ^ c"
  shows "unat ((of_nat t + 1 :: size_t) AND (2 ^ c - 1)) = Suc t mod 2 ^ c"
  using masked_slot [OF assms(1), of t 1] by (simp add: nat_mod_distrib nat_add_distrib nat_power_eq)

section \<open>What the arithmetic guarantees\<close>

text \<open>Beyond the largest power of two, and for zero, the sum wraps around.\<close>

lemma ceil_to_pow_2_wraps:
  assumes "x = 0 \<or> 2 ^ 63 < unat x"
  shows "ceil_to_pow_2 x = 0"
proof -
  obtain y where y: "smeared 64 (x - 1) y" "ceil_to_pow_2 x = y + 1"
    using ceil_to_pow_2_smear by blast
  have "2 ^ 63 \<le> unat (x - 1)"
  proof (cases "x = 0")
    case False
    then have "unat (x - 1) = unat x - 1" by (simp add: unat_minus_one)
    with assms False show ?thesis by simp
  next
    case True
    have "unat (- (1 :: size_t)) = 2 ^ LENGTH(64) - 1" by (subst unat_minus_nonzero) simp_all
    with True show ?thesis by simp
  qed
  note large = this
  then have "x - 1 \<noteq> 0" by (metis unat_0 not_less zero_less_numeral zero_less_power)
  from smeared_all [OF y(1) this] obtain p where p: "p < 64" "y = mask (Suc p)" "unat (x - 1) < 2 ^ Suc p"
    by metis
  with large have "(2 :: nat) ^ 63 < 2 ^ Suc p" by (meson le_less_trans)
  then have "63 < Suc p" by (rule power_less_imp_less_exp [rotated]) simp
  with p(1) have "Suc p = 64" by simp
  with p(2) have "y = mask 64" by (simp only:)
  then show ?thesis by (simp add: y(2) mask_eq_exp_minus_1)
qed

text \<open>
  Rounding a size up gives the least power of two that is not below it, for all sizes for which
  there is one in 64 bits; for zero and for the sizes beyond \<open>2 ^ 63\<close> it gives zero.\<close>

theorem ceil_to_pow_2_rounds_up:
  "(0 < unat x \<and> unat x \<le> 2 ^ 63 \<longrightarrow>
     (\<exists>k. unat (ceil_to_pow_2 x) = 2 ^ k \<and> unat x \<le> 2 ^ k \<and> 2 ^ k < 2 * unat x)) \<and>
   (x = 0 \<or> 2 ^ 63 < unat x \<longrightarrow> ceil_to_pow_2 x = 0)"
  by (intro conjI impI ceil_to_pow_2_least ceil_to_pow_2_wraps) auto

theorem ceil_to_pow_2_rounds_up_witness:
  "(\<exists>k. unat (ceil_to_pow_2 33) = 2 ^ k \<and> 33 \<le> (2 :: nat) ^ k \<and> (2 :: nat) ^ k < 66) \<and>
   ceil_to_pow_2 0 = 0 \<and> ceil_to_pow_2 0x8000000000000001 = 0"
  using ceil_to_pow_2_rounds_up [of 33] ceil_to_pow_2_rounds_up [of 0]
    ceil_to_pow_2_rounds_up [of "0x8000000000000001"] by simp



end
