(* ===== verification/BlockPool.thy ===== *)
theory BlockPool
  imports QueueDetails
begin

text \<open>
  The memory of \<^verbatim>\<open>moodycamel::ConcurrentQueue\<close> (\<^verbatim>\<open>src/lightning/moodycamel/concurrentqueue.h\<close>):
  blocks of 32 slots, the pool allocated by the constructor, the free list, and the requisition of
  a block from these or from the heap.

  A block pointer is a number, \<open>blocks\<close> is the store. The blocks of the initial pool have the
  addresses \<open>0 ..< initialBlockPoolSize\<close>; later ones are allocated at \<open>next_addr\<close>. \<open>mem\<close> is the script
  of the allocator: one entry per call of \<open>malloc\<close>, \<open>False\<close> where it fails; when it is used up
  allocations succeed. A result \<open>None\<close> is the dereference of a pointer to no block, or a loop that
  the thread does not leave.

  The operations are executed without interference, each as a whole; the atomic
  compare-exchanges of the free list then succeed at the first attempt. \<^verbatim>\<open>FreeListThreads\<close> has the free
  list with interference.
\<close>

section \<open>Blocks\<close>

type_synonym addr = nat

record 'a block =
  elements :: "'a option list"
  next_block :: "addr option"
  elementsCompletelyDequeued :: nat
  emptyFlags :: "bool list"
  freeListRefs :: "32 word"
  freeListNext :: "addr option"
  dynamicallyAllocated :: bool

definition Block_new :: "'a block" where
  "Block_new = \<lparr>elements = replicate BLOCK_SIZE None, next_block = None,
     elementsCompletelyDequeued = 0, emptyFlags = replicate BLOCK_SIZE False,
     freeListRefs = 0, freeListNext = None, dynamicallyAllocated = True\<rparr>"

datatype inner_queue_context = implicit_context | explicit_context

definition uses_flags :: "inner_queue_context \<Rightarrow> bool" where
  "uses_flags ctx \<longleftrightarrow> ctx = explicit_context \<and> BLOCK_SIZE \<le> EXPLICIT_BLOCK_EMPTY_COUNTER_THRESHOLD"

definition is_empty :: "inner_queue_context \<Rightarrow> 'a block \<Rightarrow> bool" where
  "is_empty ctx b =
     (if uses_flags ctx then \<forall>i \<in> set [0 ..< BLOCK_SIZE]. emptyFlags b ! i
      else elementsCompletelyDequeued b = BLOCK_SIZE)"

definition set_empty :: "inner_queue_context \<Rightarrow> index_t \<Rightarrow> 'a block \<Rightarrow> bool \<times> 'a block" where
  "set_empty ctx i b =
     (if uses_flags ctx
      then (False, b\<lparr>emptyFlags := (emptyFlags b)[BLOCK_SIZE - 1 - block_offset i := True]\<rparr>)
      else (elementsCompletelyDequeued b = BLOCK_SIZE - 1,
            b\<lparr>elementsCompletelyDequeued := elementsCompletelyDequeued b + 1\<rparr>))"

definition set_many_empty :: "inner_queue_context \<Rightarrow> index_t \<Rightarrow> nat \<Rightarrow> 'a block \<Rightarrow> bool \<times> 'a block" where
  "set_many_empty ctx i count b =
     (if uses_flags ctx
      then let first = unat (of_nat BLOCK_SIZE - 1 - of_nat (block_offset i) - of_nat count + 1 :: index_t)
           in (False, b\<lparr>emptyFlags := fold (\<lambda>j fs. fs[first + j := True]) [0 ..< count] (emptyFlags b)\<rparr>)
      else (elementsCompletelyDequeued b + count = BLOCK_SIZE,
            b\<lparr>elementsCompletelyDequeued := elementsCompletelyDequeued b + count\<rparr>))"

definition set_all_empty :: "inner_queue_context \<Rightarrow> 'a block \<Rightarrow> 'a block" where
  "set_all_empty ctx b =
     (if uses_flags ctx
      then b\<lparr>emptyFlags := fold (\<lambda>i fs. fs[i := True]) [0 ..< BLOCK_SIZE] (emptyFlags b)\<rparr>
      else b\<lparr>elementsCompletelyDequeued := BLOCK_SIZE\<rparr>)"

definition reset_empty :: "inner_queue_context \<Rightarrow> 'a block \<Rightarrow> 'a block" where
  "reset_empty ctx b =
     (if uses_flags ctx
      then b\<lparr>emptyFlags := fold (\<lambda>i fs. fs[i := False]) [0 ..< BLOCK_SIZE] (emptyFlags b)\<rparr>
      else b\<lparr>elementsCompletelyDequeued := 0\<rparr>)"

definition slot :: "'a block \<Rightarrow> index_t \<Rightarrow> 'a option" where
  "slot b idx = elements b ! block_offset idx"

definition write_slot :: "index_t \<Rightarrow> 'a option \<Rightarrow> 'a block \<Rightarrow> 'a block" where
  "write_slot idx v b = b\<lparr>elements := (elements b)[block_offset idx := v]\<rparr>"

section \<open>The pool\<close>

record 'a pool =
  blocks :: "addr \<Rightarrow> 'a block option"
  initialBlockPoolIndex :: nat
  initialBlockPoolSize :: nat
  freeListHead :: "addr option"
  next_addr :: addr
  mem :: "bool list"

definition malloc :: "'a pool \<Rightarrow> bool \<times> 'a pool" where
  "malloc q = (case mem q of [] \<Rightarrow> (True, q) | ok # rest \<Rightarrow> (ok, q\<lparr>mem := rest\<rparr>))"

definition update_block :: "addr \<Rightarrow> ('a block \<Rightarrow> 'a block) \<Rightarrow> 'a pool \<Rightarrow> 'a pool option" where
  "update_block a f q =
     (case blocks q a of None \<Rightarrow> None | Some b \<Rightarrow> Some (q\<lparr>blocks := (blocks q)(a := Some (f b))\<rparr>))"

text \<open>The number of blocks that the two constructors ask for.\<close>

definition blocks_for_capacity :: "size_t \<Rightarrow> size_t" where
  "blocks_for_capacity capacity =
     capacity div of_nat BLOCK_SIZE + (if capacity AND (of_nat BLOCK_SIZE - 1) = 0 then 0 else 1)"

definition blocks_for_producers :: "size_t \<Rightarrow> size_t \<Rightarrow> size_t \<Rightarrow> size_t" where
  "blocks_for_producers minCapacity maxExplicitProducers maxImplicitProducers =
     ((minCapacity + of_nat BLOCK_SIZE - 1) div of_nat BLOCK_SIZE - 1) * (maxExplicitProducers + 1)
       + 2 * (maxExplicitProducers + maxImplicitProducers)"

definition pool_empty :: "bool list \<Rightarrow> 'a pool" where
  "pool_empty script = \<lparr>blocks = (\<lambda>_. None), initialBlockPoolIndex = 0, initialBlockPoolSize = 0,
     freeListHead = None, next_addr = 0, mem = script\<rparr>"

definition populate_initial_block_list :: "nat \<Rightarrow> 'a pool \<Rightarrow> 'a pool" where
  "populate_initial_block_list blockCount q =
     (if blockCount = 0 then q\<lparr>initialBlockPoolSize := 0\<rparr>
      else case malloc q of
        (False, q1) \<Rightarrow> q1\<lparr>initialBlockPoolSize := 0\<rparr>
      | (True, q1) \<Rightarrow> q1\<lparr>initialBlockPoolSize := blockCount, next_addr := blockCount,
          blocks := (\<lambda>a. if a < blockCount then Some (Block_new\<lparr>dynamicallyAllocated := False\<rparr>)
                        else blocks q1 a)\<rparr>)"

definition try_get_block_from_initial_pool :: "'a pool \<Rightarrow> addr option \<times> 'a pool" where
  "try_get_block_from_initial_pool q =
     (if initialBlockPoolIndex q \<ge> initialBlockPoolSize q then (None, q)
      else let index = initialBlockPoolIndex q;
               q1 = q\<lparr>initialBlockPoolIndex := index + 1\<rparr>
           in (if index < initialBlockPoolSize q1 then Some index else None, q1))"

section \<open>The free list\<close>

definition REFS_MASK :: "32 word" where "REFS_MASK = 0x7FFFFFFF"
definition SHOULD_BE_ON_FREELIST :: "32 word" where "SHOULD_BE_ON_FREELIST = 0x80000000"

definition add_knowing_refcount_is_zero :: "addr \<Rightarrow> 'a pool \<Rightarrow> 'a pool option" where
  "add_knowing_refcount_is_zero node q =
     map_option (\<lambda>q1. q1\<lparr>freeListHead := Some node\<rparr>)
       (update_block node (\<lambda>b. b\<lparr>freeListNext := freeListHead q, freeListRefs := 1\<rparr>) q)"

definition free_list_add :: "addr \<Rightarrow> 'a pool \<Rightarrow> 'a pool option" where
  "free_list_add node q =
     (case blocks q node of
        None \<Rightarrow> None
      | Some b \<Rightarrow>
          (case update_block node (\<lambda>b. b\<lparr>freeListRefs := freeListRefs b + SHOULD_BE_ON_FREELIST\<rparr>) q of
             None \<Rightarrow> None
           | Some q1 \<Rightarrow> if freeListRefs b = 0 then add_knowing_refcount_is_zero node q1 else Some q1))"

definition free_list_try_get :: "'a pool \<Rightarrow> (addr option \<times> 'a pool) option" where
  "free_list_try_get q =
     (case freeListHead q of
        None \<Rightarrow> Some (None, q)
      | Some head \<Rightarrow>
          (case blocks q head of
             None \<Rightarrow> None
           | Some b \<Rightarrow>
               if freeListRefs b AND REFS_MASK = 0 then None
               else map_option (\<lambda>q2. (Some head, q2))
                      (update_block head (\<lambda>b. b\<lparr>freeListRefs := freeListRefs b - 2\<rparr>)
                         (q\<lparr>blocks := (blocks q)(head := Some (b\<lparr>freeListRefs := freeListRefs b + 1\<rparr>)),
                            freeListHead := freeListNext b\<rparr>))))"

definition RECYCLE_ALLOCATED_BLOCKS :: bool where "RECYCLE_ALLOCATED_BLOCKS = False"

definition destroy_block :: "addr \<Rightarrow> 'a pool \<Rightarrow> 'a pool" where
  "destroy_block a q = q\<lparr>blocks := (blocks q)(a := None)\<rparr>"

definition add_block_to_free_list :: "addr \<Rightarrow> 'a pool \<Rightarrow> 'a pool option" where
  "add_block_to_free_list a q =
     (case blocks q a of
        None \<Rightarrow> None
      | Some b \<Rightarrow> if \<not> RECYCLE_ALLOCATED_BLOCKS \<and> dynamicallyAllocated b then Some (destroy_block a q)
                  else free_list_add a q)"

text \<open>\<open>add_blocks_to_free_list\<close> walks the chain of \<open>next_block\<close> pointers; the fuel bounds its length.\<close>

fun add_blocks_to_free_list :: "nat \<Rightarrow> addr option \<Rightarrow> 'a pool \<Rightarrow> 'a pool option" where
  "add_blocks_to_free_list fuel None q = Some q"
| "add_blocks_to_free_list 0 (Some a) q = None"
| "add_blocks_to_free_list (Suc fuel) (Some a) q =
     (case blocks q a of
        None \<Rightarrow> None
      | Some b \<Rightarrow>
          (case add_block_to_free_list a q of
             None \<Rightarrow> None
           | Some q1 \<Rightarrow> add_blocks_to_free_list fuel (next_block b) q1))"

datatype alloc_mode = CanAlloc | CannotAlloc

definition create_block :: "'a pool \<Rightarrow> addr option \<times> 'a pool" where
  "create_block q =
     (case malloc q of
        (False, q1) \<Rightarrow> (None, q1)
      | (True, q1) \<Rightarrow> (Some (next_addr q1),
          q1\<lparr>blocks := (blocks q1)(next_addr q1 := Some Block_new), next_addr := next_addr q1 + 1\<rparr>))"

definition requisition_block :: "alloc_mode \<Rightarrow> 'a pool \<Rightarrow> (addr option \<times> 'a pool) option" where
  "requisition_block canAlloc q =
     (case try_get_block_from_initial_pool q of
        (Some a, q1) \<Rightarrow> Some (Some a, q1)
      | (None, q1) \<Rightarrow>
          (case free_list_try_get q1 of
             None \<Rightarrow> None
           | Some (Some a, q2) \<Rightarrow> Some (Some a, q2)
           | Some (None, q2) \<Rightarrow>
               Some (if canAlloc = CanAlloc then create_block q2 else (None, q2))))"

section \<open>Emptiness of a block\<close>

lemma block_offset_mod: "block_offset i = unat i mod 32"
  unfolding block_offset_def block_size_minus_one unat_and_pow2_minus_one by simp

lemma block_offset_add:
  assumes "block_offset i + j < 32"
  shows "block_offset (i + of_nat j) = block_offset i + j"
proof -
  have "i + of_nat j = of_nat (unat i + j)" by simp
  then have "block_offset (i + of_nat j) = (unat i + j) mod 32" by (simp only: block_offset_of_nat)
  with assms show ?thesis by (simp add: block_offset_mod mod_add_left_eq [symmetric, of "unat i"])
qed

lemma block_offset_less [simp]: "block_offset i < 32"
  by (simp add: block_offset_mod)

text \<open>A fold of updates sets exactly the positions it visits.\<close>

lemma length_fold_update [simp]: "length (fold (\<lambda>j fs. fs[f j := v]) js xs) = length xs"
  by (induction js arbitrary: xs) auto

lemma fold_update_nth:
  "p < length xs \<Longrightarrow> fold (\<lambda>j fs. fs[f j := v]) js xs ! p = (if p \<in> f ` set js then v else xs ! p)"
  by (induction js arbitrary: xs) (auto simp: nth_list_update)

lemma uses_flags [simp]: "uses_flags explicit_context" "\<not> uses_flags implicit_context"
  by (auto simp: uses_flags_def BLOCK_SIZE_def EXPLICIT_BLOCK_EMPTY_COUNTER_THRESHOLD_def)

definition set_each_empty :: "inner_queue_context \<Rightarrow> index_t \<Rightarrow> nat \<Rightarrow> 'a block \<Rightarrow> 'a block" where
  "set_each_empty ctx i count b = fold (\<lambda>j b. snd (set_empty ctx (i + of_nat j) b)) [0 ..< count] b"

lemma fold_emptyFlags:
  "fold (\<lambda>j b. b\<lparr>emptyFlags := (emptyFlags b)[f j := True]\<rparr>) js b =
     b\<lparr>emptyFlags := fold (\<lambda>j fs. fs[f j := True]) js (emptyFlags b)\<rparr>" for b :: "'a block"
  by (induction js arbitrary: b) auto

lemma fold_counter:
  "fold (\<lambda>j b. b\<lparr>elementsCompletelyDequeued := Suc (elementsCompletelyDequeued b)\<rparr>) js b =
     b\<lparr>elementsCompletelyDequeued := elementsCompletelyDequeued b + length js\<rparr>" for b :: "'a block"
  by (induction js arbitrary: b) auto

lemma first_flag:
  assumes "block_offset i + count \<le> 32"
  shows "unat (of_nat BLOCK_SIZE - 1 - of_nat (block_offset i) - of_nat count + 1 :: index_t)
    = 32 - block_offset i - count"
proof -
  have "(of_nat BLOCK_SIZE - 1 - of_nat (block_offset i) - of_nat count + 1 :: index_t)
      = of_nat (32 - block_offset i - count)"
    using assms by (simp add: BLOCK_SIZE_def of_nat_diff)
  then show ?thesis by (simp only:) (simp add: unat_of_nat_small)
qed

lemma set_many_empty_each:
  assumes "block_offset i + count \<le> 32" "length (emptyFlags b) = 32"
  shows "snd (set_many_empty ctx i count b) = set_each_empty ctx i count b"
proof (cases ctx)
  case implicit_context
  then show ?thesis
    by (simp add: set_many_empty_def set_each_empty_def set_empty_def fold_counter)
next
  case explicit_context
  have flags: "set_each_empty ctx i count b = b\<lparr>emptyFlags :=
      fold (\<lambda>j fs. fs[31 - block_offset (i + of_nat j) := True]) [0 ..< count] (emptyFlags b)\<rparr>"
    by (simp add: explicit_context set_each_empty_def set_empty_def BLOCK_SIZE_def fold_emptyFlags)
  have "(\<lambda>j. 31 - block_offset (i + of_nat j)) ` {0 ..< count} =
      (\<lambda>j. 32 - block_offset i - count + j) ` {0 ..< count}" (is "?f ` _ = ?g ` _")
  proof -
    have "?f j = ?g (count - Suc j)" if "j < count" for j
      using assms(1) that by (simp add: block_offset_add)
    then have "?f ` {0 ..< count} = ?g ` (\<lambda>j. count - Suc j) ` {0 ..< count}"
      by (simp add: image_image cong: image_cong_simp)
    also have "(\<lambda>j. count - Suc j) ` {0 ..< count} = {0 ..< count}"
    proof (intro equalityI subsetI)
      fix x assume "x \<in> {0 ..< count}"
      then show "x \<in> (\<lambda>j. count - Suc j) ` {0 ..< count}"
        by (intro image_eqI [of _ _ "count - Suc x"]) auto
    qed auto
    finally show ?thesis .
  qed
  then have "fold (\<lambda>j fs. fs[?f j := True]) [0 ..< count] (emptyFlags b) =
      fold (\<lambda>j fs. fs[?g j := True]) [0 ..< count] (emptyFlags b)"
    by (intro nth_equalityI) (simp_all add: fold_update_nth)
  then have "set_each_empty ctx i count b = b\<lparr>emptyFlags := fold (\<lambda>j fs. fs[?g j := True]) [0 ..< count] (emptyFlags b)\<rparr>"
    unfolding flags by simp
  also have "\<dots> = snd (set_many_empty ctx i count b)"
    unfolding set_many_empty_def Let_def first_flag [OF assms(1)] explicit_context by simp
  finally show ?thesis by simp
qed

lemma is_empty_reset: "length (emptyFlags b) = 32 \<Longrightarrow> \<not> is_empty ctx (reset_empty ctx b)"
  by (cases ctx) (auto simp: is_empty_def reset_empty_def fold_update_nth BLOCK_SIZE_def intro: exI [of _ 0])

lemma is_empty_all: "length (emptyFlags b) = 32 \<Longrightarrow> is_empty ctx (set_all_empty ctx b)"
  by (cases ctx) (auto simp: is_empty_def set_all_empty_def fold_update_nth BLOCK_SIZE_def)

text \<open>After a reset the block is empty exactly when all its slots have been marked.\<close>

lemma is_empty_set_many:
  assumes "length (emptyFlags b) = 32" "count \<le> 32"
  shows "is_empty ctx (snd (set_many_empty ctx 0 count (reset_empty ctx b))) \<longleftrightarrow> count = 32"
proof (cases ctx)
  case implicit_context
  then show ?thesis by (simp add: is_empty_def set_many_empty_def reset_empty_def BLOCK_SIZE_def)
next
  case explicit_context
  have off: "block_offset 0 = 0" using block_offset_of_nat [of 0] by simp
  have first: "unat (of_nat BLOCK_SIZE - 1 - of_nat (block_offset 0) - of_nat count + 1 :: index_t) = 32 - count"
    using first_flag [of 0 count] assms(2) by (simp add: off)
  have img: "(\<lambda>j. 32 - count + j) ` {0 ..< count} = {32 - count ..< 32}"
    using assms(2) image_add_atLeastLessThan [of "32 - count" 0 count] by (simp add: add.commute)
  have "is_empty ctx (snd (set_many_empty ctx 0 count (reset_empty ctx b))) \<longleftrightarrow>
      (\<forall>p < 32. p \<in> {32 - count ..< 32})"
    unfolding explicit_context is_empty_def set_many_empty_def Let_def first
    using assms(1)
    by (simp add: reset_empty_def fold_update_nth [where f = "\<lambda>j. 32 - count + j"] fold_update_nth
        BLOCK_SIZE_def img del: upt_rec_numeral cong: all_cong)
      (auto simp: fold_update_nth [where f = "\<lambda>j. 32 - count + j"] img simp del: upt_rec_numeral)
  also have "\<dots> \<longleftrightarrow> count = 32" using assms(2) by (auto dest: spec [of _ 0])
  finally show ?thesis .
qed

section \<open>The blocks in the store\<close>

lemma div_ceiling_32: "(n + 31) div 32 = n div 32 + (if n mod 32 = 0 then 0 else 1)" for n :: nat
proof -
  define q r where "q = n div 32" and "r = n mod 32"
  have "n = 32 * q + r" "r < 32" by (simp_all add: q_def r_def)
  then have "(n + 31) div 32 = q + (if r = 0 then 0 else 1)" by (intro div_nat_eqI) auto
  then show ?thesis by (simp only: q_def r_def)
qed

lemma blocks_for_capacity_ceiling:
  "unat (blocks_for_capacity capacity) = (unat capacity + 31) div 32"
proof -
  have base: "capacity AND (of_nat BLOCK_SIZE - 1) = 0 \<longleftrightarrow> unat capacity mod 32 = 0"
    unfolding block_offset_mod [symmetric] block_offset_def by (simp add: unat_eq_0)
  have blocks: "unat (capacity div of_nat BLOCK_SIZE) = unat capacity div 32"
    by (simp add: BLOCK_SIZE_def unat_div)
  have "unat capacity div 32 + 1 < 2 ^ 64"
    using unsigned_less [of capacity, where 'a = nat] by simp
  then have "unat (capacity div of_nat BLOCK_SIZE + 1) = unat capacity div 32 + 1"
    using blocks by (simp add: unat_word_ariths(1) del: unat_div)
  then have "unat (blocks_for_capacity capacity) =
      unat capacity div 32 + (if unat capacity mod 32 = 0 then 0 else 1)"
    unfolding blocks_for_capacity_def base using blocks by (simp split: if_split)
  then show ?thesis by (simp only: div_ceiling_32)
qed

definition wf_block :: "'a block \<Rightarrow> bool" where
  "wf_block b \<longleftrightarrow> length (elements b) = 32 \<and> length (emptyFlags b) = 32"

definition next_free :: "'a pool \<Rightarrow> addr \<Rightarrow> addr option" where
  "next_free q a = (case blocks q a of None \<Rightarrow> None | Some b \<Rightarrow> freeListNext b)"

fun free_chain :: "(addr \<Rightarrow> addr option) \<Rightarrow> addr option \<Rightarrow> addr list \<Rightarrow> bool" where
  "free_chain nx p [] \<longleftrightarrow> p = None"
| "free_chain nx p (a # F) \<longleftrightarrow> p = Some a \<and> free_chain nx (nx a) F"

lemma free_chain_cong: "free_chain nx p F \<Longrightarrow> (\<And>a. a \<in> set F \<Longrightarrow> nx' a = nx a) \<Longrightarrow> free_chain nx' p F"
  by (induction nx p F rule: free_chain.induct) auto

definition unused :: "'a pool \<Rightarrow> addr set" where
  "unused q = {initialBlockPoolIndex q ..< initialBlockPoolSize q}"

text \<open>
  \<open>U\<close> are the blocks that producers own, \<open>F\<close> those on the free list in its order. Every block of
  the store is one of these or still unused in the initial pool: nothing leaks. The reference
  count of a block is 1 on the free list and 0 elsewhere.
\<close>

definition pool_inv :: "addr set \<Rightarrow> addr list \<Rightarrow> 'a pool \<Rightarrow> bool" where
  "pool_inv U F q \<longleftrightarrow>
     free_chain (next_free q) (freeListHead q) F \<and> distinct F \<and>
     U \<inter> set F = {} \<and> U \<inter> unused q = {} \<and> set F \<inter> unused q = {} \<and>
     dom (blocks q) = U \<union> set F \<union> unused q \<and>
     (\<forall>a b. blocks q a = Some b \<longrightarrow>
        wf_block b \<and> freeListRefs b = (if a \<in> set F then 1 else 0) \<and> a < next_addr q) \<and>
     initialBlockPoolSize q \<le> next_addr q"

lemma wf_Block_new [simp]: "wf_block Block_new" "wf_block (Block_new\<lparr>dynamicallyAllocated := d\<rparr>)"
  "freeListRefs Block_new = 0"
  by (simp_all add: wf_block_def Block_new_def BLOCK_SIZE_def)

lemma pool_inv_owned:
  assumes "pool_inv U F q" "a \<in> U"
  obtains b where "blocks q a = Some b" "wf_block b" "freeListRefs b = 0" "a < next_addr q"
  using assms unfolding pool_inv_def by (metis UnCI disjoint_iff domD)

lemma pool_inv_populate: "pool_inv {} [] (populate_initial_block_list n (pool_empty script))"
  by (auto simp: pool_inv_def populate_initial_block_list_def pool_empty_def malloc_def unused_def
      next_free_def split: list.splits bool.splits prod.splits if_splits)

lemma pool_inv_update:
  assumes "pool_inv U F q" "a \<in> U" "\<And>b. wf_block b \<Longrightarrow> wf_block (f b)"
    "\<And>b. freeListRefs (f b) = freeListRefs b"
  shows "\<exists>q'. update_block a f q = Some q' \<and> pool_inv U F q' \<and>
    blocks q' = (blocks q)(a := map_option f (blocks q a))"
proof -
  obtain b where b: "blocks q a = Some b" using pool_inv_owned [OF assms(1,2)] .
  let ?q = "q\<lparr>blocks := (blocks q)(a := Some (f b))\<rparr>"
  have "a \<notin> set F" using assms(1,2) by (auto simp: pool_inv_def)
  then have "free_chain (next_free ?q) (freeListHead q) F"
    using assms(1) unfolding pool_inv_def
    by (elim conjE) (rule free_chain_cong, assumption, auto simp: next_free_def)
  moreover have "dom (blocks ?q) = dom (blocks q)" using b by auto
  ultimately have "pool_inv U F ?q"
    using assms b by (auto simp: pool_inv_def unused_def)
  with b show ?thesis by (simp add: update_block_def)
qed

lemma take_from_pool:
  assumes "pool_inv U F q" "try_get_block_from_initial_pool q = (Some a, q')"
  shows "a \<notin> U" "pool_inv (insert a U) F q'" "blocks q' = blocks q" "mem q' = mem q"
proof -
  from assms(2) have a: "a = initialBlockPoolIndex q" "a < initialBlockPoolSize q"
    and q': "q' = q\<lparr>initialBlockPoolIndex := a + 1\<rparr>"
    by (auto simp: try_get_block_from_initial_pool_def Let_def split: if_splits)
  have un: "unused q = insert a (unused q')" "a \<notin> unused q'"
    using a unfolding unused_def q' by auto
  with assms(1) show "a \<notin> U" by (auto simp: pool_inv_def)
  have "next_free q' = next_free q" by (simp add: q' next_free_def fun_eq_iff)
  with assms(1) un show "pool_inv (insert a U) F q'" unfolding pool_inv_def
    by (auto simp: q')
  show "blocks q' = blocks q" "mem q' = mem q" by (simp_all add: q')
qed

lemma no_unused: "try_get_block_from_initial_pool q = (None, q') \<Longrightarrow> q' = q"
  by (auto simp: try_get_block_from_initial_pool_def Let_def split: if_splits)

lemma refs_one: "(1 :: 32 word) AND REFS_MASK \<noteq> 0" "(1 + 1 - 2 :: 32 word) = 0"
  by (simp_all add: REFS_MASK_def)

lemma free_list_try_get_spec:
  assumes "pool_inv U F q"
  shows "case F of
      [] \<Rightarrow> free_list_try_get q = Some (None, q)
    | a # F' \<Rightarrow> \<exists>q'. free_list_try_get q = Some (Some a, q') \<and> a \<notin> U \<and> pool_inv (insert a U) F' q' \<and>
        (\<forall>x. x \<noteq> a \<longrightarrow> blocks q' x = blocks q x) \<and> mem q' = mem q"
proof (cases F)
  case Nil
  with assms show ?thesis by (auto simp: pool_inv_def free_list_try_get_def)
next
  case (Cons a F')
  from assms Cons have head: "freeListHead q = Some a" and a: "a \<notin> U" "a \<notin> set F'" "a \<notin> unused q"
    by (auto simp: pool_inv_def)
  from assms Cons have "a \<in> dom (blocks q)" by (auto simp: pool_inv_def)
  with assms Cons obtain b where b: "blocks q a = Some b" "wf_block b" "freeListRefs b = 1"
    by (fastforce simp: pool_inv_def)
  let ?b = "b\<lparr>freeListRefs := 0\<rparr>"
  let ?q = "q\<lparr>blocks := (blocks q)(a := Some ?b), freeListHead := freeListNext b\<rparr>"
  have "free_list_try_get q = Some (Some a, ?q)"
    using b refs_one by (simp add: free_list_try_get_def head update_block_def)
  moreover have "free_chain (next_free ?q) (freeListNext b) F'"
  proof -
    have "free_chain (next_free q) (freeListNext b) F'"
      using assms Cons b by (simp add: pool_inv_def next_free_def)
    then show ?thesis by (rule free_chain_cong) (use a in \<open>auto simp: next_free_def\<close>)
  qed
  moreover have "dom (blocks ?q) = dom (blocks q)" using b by auto
  ultimately show ?thesis
    using assms Cons a b by (auto simp: pool_inv_def unused_def wf_block_def)
qed

lemma create_block_spec:
  assumes "pool_inv U [] q" "unused q = {}"
  shows "case create_block q of
      (None, q') \<Rightarrow> pool_inv U [] q' \<and> blocks q' = blocks q \<and> mem q \<noteq> []
    | (Some a, q') \<Rightarrow> a \<notin> U \<and> pool_inv (insert a U) [] q' \<and> (\<forall>x. x \<noteq> a \<longrightarrow> blocks q' x = blocks q x)"
proof -
  have "next_addr q \<notin> dom (blocks q)" using assms(1) by (auto simp: pool_inv_def)
  with assms show ?thesis
    by (auto simp: create_block_def malloc_def pool_inv_def unused_def next_free_def
        split: list.splits bool.splits dest: less_SucI)
qed

lemma requisition_block_spec:
  assumes "pool_inv U F q"
  shows "\<exists>r q' F'. requisition_block m q = Some (r, q') \<and> set F' \<subseteq> set F \<and>
    (\<forall>x \<in> U. blocks q' x = blocks q x) \<and>
    (case r of
       None \<Rightarrow> pool_inv U F' q' \<and> (m = CannotAlloc \<or> mem q \<noteq> [])
     | Some a \<Rightarrow> a \<notin> U \<and> pool_inv (insert a U) F' q')"
proof (cases "try_get_block_from_initial_pool q")
  case (Pair r q1)
  show ?thesis
  proof (cases r)
    case (Some a)
    with Pair have init: "try_get_block_from_initial_pool q = (Some a, q1)" by simp
    then show ?thesis
      using take_from_pool [OF assms init] by (auto simp: requisition_block_def)
  next
    case None
    with Pair have init: "try_get_block_from_initial_pool q = (None, q)"
      using no_unused by blast
    then have un: "unused q = {}"
      by (auto simp: try_get_block_from_initial_pool_def unused_def Let_def split: if_splits)
    note free = free_list_try_get_spec [OF assms]
    show ?thesis
    proof (cases F)
      case (Cons a F')
      with free obtain q' where "free_list_try_get q = Some (Some a, q')" "a \<notin> U"
        "pool_inv (insert a U) F' q'" "\<forall>x. x \<noteq> a \<longrightarrow> blocks q' x = blocks q x"
        by auto
      with init Cons show ?thesis
        by (intro exI [of _ "Some a"] exI [of _ q'] exI [of _ F']) (auto simp: requisition_block_def)
    next
      case Nil
      with free have none: "free_list_try_get q = Some (None, q)" by simp
      obtain r2 q2 where create: "create_block q = (r2, q2)" by force
      show ?thesis
      proof (cases m)
        case CannotAlloc
        with init none assms show ?thesis by (auto simp: requisition_block_def)
      next
        case CanAlloc
        with init none create have "requisition_block m q = Some (r2, q2)"
          by (simp add: requisition_block_def)
        with create_block_spec [of U q] assms Nil un create CanAlloc show ?thesis
          by (intro exI [of _ r2] exI [of _ q2] exI [of _ "[]"]) (force split: option.splits)
      qed
    qed
  qed
qed

lemma free_list_add_spec:
  assumes "pool_inv U F q" "a \<in> U"
  shows "\<exists>q'. free_list_add a q = Some q' \<and> pool_inv (U - {a}) (a # F) q' \<and>
    (\<forall>x. x \<noteq> a \<longrightarrow> blocks q' x = blocks q x)"
proof -
  obtain b where b: "blocks q a = Some b" "wf_block b" "freeListRefs b = 0" "a < next_addr q"
    using pool_inv_owned [OF assms] .
  have a: "a \<notin> set F" "a \<notin> unused q" using assms by (auto simp: pool_inv_def)
  let ?b = "b\<lparr>freeListNext := freeListHead q, freeListRefs := 1\<rparr>"
  let ?q = "q\<lparr>blocks := (blocks q)(a := Some ?b), freeListHead := Some a\<rparr>"
  have "free_list_add a q = Some ?q"
    using b by (simp add: free_list_add_def add_knowing_refcount_is_zero_def update_block_def)
  moreover have "free_chain (next_free ?q) (freeListHead q) F"
    using assms(1) unfolding pool_inv_def
    by (elim conjE) (rule free_chain_cong, assumption, use a in \<open>auto simp: next_free_def\<close>)
  then have "free_chain (next_free ?q) (Some a) (a # F)" by (simp add: next_free_def)
  moreover have "dom (blocks ?q) = dom (blocks q)" using b by auto
  ultimately show ?thesis
    using assms a b by (auto simp: pool_inv_def unused_def wf_block_def)
qed

lemma destroy_block_spec:
  assumes "pool_inv U F q" "a \<in> U"
  shows "pool_inv (U - {a}) F (destroy_block a q)"
proof -
  have a: "a \<notin> set F" "a \<notin> unused q" using assms by (auto simp: pool_inv_def)
  have "free_chain (next_free (destroy_block a q)) (freeListHead q) F"
    using assms(1) unfolding pool_inv_def
    by (elim conjE) (rule free_chain_cong, assumption, use a in \<open>auto simp: next_free_def destroy_block_def\<close>)
  moreover have "dom (blocks (destroy_block a q)) = dom (blocks q) - {a}"
    by (auto simp: destroy_block_def)
  ultimately show ?thesis
    using assms a by (auto simp: pool_inv_def unused_def destroy_block_def)
qed

lemma add_block_to_free_list_spec:
  assumes "pool_inv U F q" "a \<in> U"
  shows "\<exists>q' F'. add_block_to_free_list a q = Some q' \<and> pool_inv (U - {a}) F' q' \<and>
    (\<forall>x. x \<noteq> a \<longrightarrow> blocks q' x = blocks q x)"
proof -
  obtain b where b: "blocks q a = Some b" using pool_inv_owned [OF assms] .
  show ?thesis
  proof (cases "dynamicallyAllocated b")
    case True
    with b destroy_block_spec [OF assms] show ?thesis
      by (auto simp: add_block_to_free_list_def RECYCLE_ALLOCATED_BLOCKS_def destroy_block_def)
  next
    case False
    with b free_list_add_spec [OF assms] show ?thesis
      by (auto simp: add_block_to_free_list_def)
  qed
qed

text \<open>Without a failing \<open>malloc\<close> a block is always found.\<close>

lemma update_block_mem: "update_block a f q = Some q' \<Longrightarrow> mem q' = mem q"
  by (auto simp: update_block_def split: option.splits)

lemma mem_requisition: "requisition_block m q = Some (r, q') \<Longrightarrow> mem q = [] \<Longrightarrow> mem q' = []"
  by (auto simp: requisition_block_def try_get_block_from_initial_pool_def free_list_try_get_def
      create_block_def malloc_def update_block_def Let_def split: if_splits option.splits prod.splits)

section \<open>Marking slots\<close>

text \<open>
  marking a range of slots empty at once is marking them one after the other, for blocks that
  keep flags and for blocks that keep a counter; and when a block has been reset, it counts as empty
  exactly when all its slots have been marked.\<close>

theorem set_many_empty_one_by_one:
  assumes "block_offset i + count \<le> 32" "length (emptyFlags b) = 32"
  shows "snd (set_many_empty ctx i count b) = set_each_empty ctx i count b \<and>
    (is_empty ctx (snd (set_many_empty ctx 0 count (reset_empty ctx b))) \<longleftrightarrow> count = 32)"
  using set_many_empty_each [OF assms] is_empty_set_many [OF assms(2), of count ctx] assms(1) by simp

theorem set_many_empty_one_by_one_witness:
  "snd (set_many_empty explicit_context 3 2 Block_new) =
   set_each_empty explicit_context 3 2 (Block_new :: string block)"
  by (rule set_many_empty_one_by_one [THEN conjunct1]) (simp_all add: block_offset_mod Block_new_def BLOCK_SIZE_def)

end
