(* ===== verification/BlockIndex.thy ===== *)
theory BlockIndex
  imports BlockPool
begin

text \<open>
  The block index of \<^verbatim>\<open>ConcurrentQueue::ImplicitProducer\<close>
  (\<^verbatim>\<open>src/lightning/moodycamel/concurrentqueue.h\<close>): a circular table of pointers to entries, each
  with the base index of a block (\<open>bkey\<close>) and the block (\<open>bvalue\<close>). The table has a power of two of
  slots and doubles when the slot after its tail is still in use. Entries are objects of their own,
  shared by the old and the new table, so the table holds numbers of entries. The value of a new
  entry is not initialised by the code.

  The invariant \<open>bidx_inv lo hi A\<close> says that the table maps the block numbers \<open>lo ..< hi\<close> (base index
  divided by 32) to the blocks \<open>A\<close>, in order and ending at the tail, and that all other slots are
  free.
\<close>

unbundle bit_operations_syntax

section \<open>State\<close>

datatype block_ptr = Uninit | Null | Ptr addr

record bentry =
  bkey :: index_t
  bvalue :: block_ptr

record bindex =
  bi_capacity :: size_t
  bi_tail :: size_t
  bi_index :: "nat list"

record iproducer =
  tailIndex :: index_t
  headIndex :: index_t
  dequeueOptimisticCount :: index_t
  dequeueOvercommit :: index_t
  tailBlock :: "addr option"
  nextBlockIndexCapacity :: size_t
  bentries :: "bentry list"
  blockIndex :: "bindex option"

definition INVALID_BLOCK_BASE :: index_t where "INVALID_BLOCK_BASE = 1"

definition set_key :: "nat \<Rightarrow> index_t \<Rightarrow> iproducer \<Rightarrow> iproducer" where
  "set_key e k p = p\<lparr>bentries := (bentries p)[e := (bentries p ! e)\<lparr>bkey := k\<rparr>]\<rparr>"

definition set_value :: "nat \<Rightarrow> block_ptr \<Rightarrow> iproducer \<Rightarrow> iproducer" where
  "set_value e v p = p\<lparr>bentries := (bentries p)[e := (bentries p ! e)\<lparr>bvalue := v\<rparr>]\<rparr>"

section \<open>Operations\<close>

text \<open>The copying loop of \<open>new_block_index\<close>: from the slot after the tail round to the tail. The
  fuel is the capacity.\<close>

fun copy_index :: "nat \<Rightarrow> bindex \<Rightarrow> size_t \<Rightarrow> nat list" where
  "copy_index 0 prev prevPos = []"
| "copy_index (Suc n) prev prevPos =
     (let pos = (prevPos + 1) AND (bi_capacity prev - 1)
      in bi_index prev ! unat pos # (if pos = bi_tail prev then [] else copy_index n prev pos))"

definition new_block_index :: "iproducer \<Rightarrow> 'a pool \<Rightarrow> bool \<times> iproducer \<times> 'a pool" where
  "new_block_index p q =
     (let prevCapacity = (case blockIndex p of None \<Rightarrow> 0 | Some prev \<Rightarrow> bi_capacity prev);
          entryCount = (case blockIndex p of None \<Rightarrow> nextBlockIndexCapacity p | Some prev \<Rightarrow> prevCapacity)
      in case malloc q of
        (False, q1) \<Rightarrow> (False, p, q1)
      | (True, q1) \<Rightarrow>
          let copied = (case blockIndex p of None \<Rightarrow> []
                | Some prev \<Rightarrow> copy_index (unat prevCapacity) prev (bi_tail prev));
              fresh = [length (bentries p) ..< length (bentries p) + unat entryCount];
              header = \<lparr>bi_capacity = nextBlockIndexCapacity p,
                bi_tail = (prevCapacity - 1) AND (nextBlockIndexCapacity p - 1),
                bi_index = copied @ fresh\<rparr>
          in (True,
              p\<lparr>bentries := bentries p
                    @ replicate (unat entryCount) \<lparr>bkey = INVALID_BLOCK_BASE, bvalue = Uninit\<rparr>,
                blockIndex := Some header,
                nextBlockIndexCapacity := push_bit 1 (nextBlockIndexCapacity p)\<rparr>, q1))"

definition claim_entry :: "index_t \<Rightarrow> bindex \<Rightarrow> iproducer \<Rightarrow> nat \<times> iproducer" where
  "claim_entry blockStartIndex h p =
     (let newTail = (bi_tail h + 1) AND (bi_capacity h - 1);
          e = bi_index h ! unat newTail
      in (e, set_key e blockStartIndex (p\<lparr>blockIndex := Some (h\<lparr>bi_tail := newTail\<rparr>)\<rparr>)))"

definition entry_free :: "bentry \<Rightarrow> bool" where
  "entry_free e \<longleftrightarrow> bkey e = INVALID_BLOCK_BASE \<or> bvalue e = Null"

definition insert_block_index_entry ::
    "alloc_mode \<Rightarrow> index_t \<Rightarrow> iproducer \<Rightarrow> 'a pool \<Rightarrow> nat option \<times> iproducer \<times> 'a pool" where
  "insert_block_index_entry allocMode blockStartIndex p q =
     (case blockIndex p of
        None \<Rightarrow> (None, p, q)
      | Some h \<Rightarrow>
          let newTail = (bi_tail h + 1) AND (bi_capacity h - 1);
              e = bi_index h ! unat newTail
          in if entry_free (bentries p ! e)
             then (case claim_entry blockStartIndex h p of (e, p') \<Rightarrow> (Some e, p', q))
             else if allocMode = CannotAlloc then (None, p, q)
             else (case new_block_index p q of
                 (False, p', q') \<Rightarrow> (None, p', q')
               | (True, p', q') \<Rightarrow>
                   (case claim_entry blockStartIndex (the (blockIndex p')) p' of
                      (e, p'') \<Rightarrow> (Some e, p'', q'))))"

definition rewind_block_index_tail :: "iproducer \<Rightarrow> iproducer" where
  "rewind_block_index_tail p =
     p\<lparr>blockIndex := map_option (\<lambda>h. h\<lparr>bi_tail := (bi_tail h - 1) AND (bi_capacity h - 1)\<rparr>) (blockIndex p)\<rparr>"

definition get_block_index_index_for_index :: "index_t \<Rightarrow> bindex \<Rightarrow> iproducer \<Rightarrow> size_t" where
  "get_block_index_index_for_index index0 h p =
     (let index = block_base index0;
          tail = bi_tail h;
          tailBase = bkey (bentries p ! (bi_index h ! unat tail));
          offset = block_distance index tailBase
      in (tail + offset) AND (bi_capacity h - 1))"

definition get_block_index_entry_for_index :: "index_t \<Rightarrow> iproducer \<Rightarrow> nat option" where
  "get_block_index_entry_for_index index p =
     map_option (\<lambda>h. bi_index h ! unat (get_block_index_index_for_index index h p)) (blockIndex p)"

section \<open>Slots of the circular table\<close>

text \<open>The slot of block number \<open>k\<close> in a table of \<open>2 ^ c\<close> slots whose last entry, in slot \<open>t\<close>, is
  for block \<open>hi - 1\<close>.\<close>

definition slot_of :: "nat \<Rightarrow> nat \<Rightarrow> nat \<Rightarrow> nat \<Rightarrow> nat" where
  "slot_of c t hi k = nat ((int t + int k + 1 - int hi) mod 2 ^ c)"

lemma slot_of_less [simp]: "slot_of c t hi k < 2 ^ c"
  by (simp add: slot_of_def nat_less_iff)

lemma slot_of_inj:
  assumes "slot_of c t hi k = slot_of c t hi k'" "\<bar>int k - int k'\<bar> < 2 ^ c"
  shows "k = k'"
proof -
  have "(int t + int k + 1 - int hi) mod 2 ^ c = (int t + int k' + 1 - int hi) mod 2 ^ c"
    using assms(1) by (simp add: slot_of_def eq_nat_nat_iff)
  then have "2 ^ c dvd (int k - int k')" by (simp add: mod_eq_dvd_iff)
  with assms(2) show ?thesis by (metis dvd_imp_le_int abs_0 leD right_minus_eq of_nat_eq_iff abs_of_nonneg zero_le_numeral zero_le_power)
qed

lemma slot_of_fresh:
  assumes "lo \<le> k" "k < hi" "hi < lo + 2 ^ c"
  shows "slot_of c t hi k \<noteq> slot_of c t hi hi"
proof
  assume "slot_of c t hi k = slot_of c t hi hi"
  moreover have "hi - k < 2 ^ c" using assms by linarith
  then have "int (hi - k) < 2 ^ c" by (simp only: of_nat_less_numeral_power_cancel_iff)
  then have "\<bar>int k - int hi\<bar> < 2 ^ c" using assms(2) by simp
  ultimately have "k = hi" by (rule slot_of_inj)
  with assms(2) show False by simp
qed

lemma slot_of_next: "slot_of c t hi hi = Suc t mod 2 ^ c"
  by (simp add: slot_of_def nat_mod_distrib nat_add_distrib nat_power_eq)

lemma slot_of_tail: "t < 2 ^ c \<Longrightarrow> slot_of c t (Suc k) k = t"
  by (simp add: slot_of_def)

lemma slot_of_Suc: "slot_of c (Suc t) (Suc hi) k = slot_of c t hi k"
  by (simp add: slot_of_def algebra_simps)

lemma slot_of_mod: "slot_of c (t mod 2 ^ c) hi k = slot_of c t hi k"
  using mod_add_left_eq [of "int t" "2 ^ c" "int k + 1 - int hi"]
  by (simp add: slot_of_def of_nat_mod add.assoc add_diff_eq)

section \<open>The invariant\<close>

text \<open>Changes to the index leave the rest of the producer alone.\<close>

definition index_frame :: "iproducer \<Rightarrow> iproducer \<Rightarrow> bool" where
  "index_frame p p' \<longleftrightarrow> tailIndex p' = tailIndex p \<and> headIndex p' = headIndex p \<and>
     dequeueOptimisticCount p' = dequeueOptimisticCount p \<and> dequeueOvercommit p' = dequeueOvercommit p \<and>
     tailBlock p' = tailBlock p"

definition bslot :: "iproducer \<Rightarrow> bindex \<Rightarrow> nat \<Rightarrow> bentry" where
  "bslot p h j = bentries p ! (bi_index h ! j)"

text \<open>\<open>table_inv c h p\<close>: the table has \<open>2 ^ c\<close> slots with entries of their own.\<close>

definition table_inv :: "nat \<Rightarrow> bindex \<Rightarrow> iproducer \<Rightarrow> bool" where
  "table_inv c h p \<longleftrightarrow> blockIndex p = Some h \<and> c < 60 \<and> bi_capacity h = 2 ^ c \<and>
     nextBlockIndexCapacity p = 2 ^ Suc c \<and> unat (bi_tail h) < 2 ^ c \<and>
     length (bi_index h) = 2 ^ c \<and> distinct (bi_index h) \<and>
     (\<forall>e \<in> set (bi_index h). e < length (bentries p))"

definition window_inv ::
    "nat \<Rightarrow> bindex \<Rightarrow> nat \<Rightarrow> nat \<Rightarrow> (nat \<Rightarrow> addr) \<Rightarrow> (nat \<Rightarrow> bentry) \<Rightarrow> bool" where
  "window_inv c h lo hi A entry \<longleftrightarrow> lo \<le> hi \<and> hi \<le> lo + 2 ^ c \<and>
     (\<forall>k. lo \<le> k \<and> k < hi \<longrightarrow>
        entry (slot_of c (unat (bi_tail h)) hi k) = \<lparr>bkey = of_nat (32 * k), bvalue = Ptr (A k)\<rparr>) \<and>
     (\<forall>j < 2 ^ c. (\<forall>k. lo \<le> k \<and> k < hi \<longrightarrow> j \<noteq> slot_of c (unat (bi_tail h)) hi k) \<longrightarrow>
        entry_free (entry j))"

definition bidx_inv :: "nat \<Rightarrow> nat \<Rightarrow> (nat \<Rightarrow> addr) \<Rightarrow> iproducer \<Rightarrow> bool" where
  "bidx_inv lo hi A p \<longleftrightarrow> (\<exists>c h. table_inv c h p \<and> window_inv c h lo hi A (bslot p h))"

lemma live_not_free: "\<not> entry_free \<lparr>bkey = of_nat (32 * k), bvalue = Ptr a\<rparr>"
proof -
  have "unat (of_nat (32 * k) :: index_t) = 32 * k mod 2 ^ 64"
    by (simp only: unat_of_nat take_bit_eq_mod len_of_numeral_defs) simp
  moreover have "32 * k mod 2 ^ 64 mod 32 = 0" by (simp add: mod_mod_cancel)
  ultimately have "(of_nat (32 * k) :: index_t) \<noteq> 1" by (metis mod_less one_less_numeral_iff semiring_norm(76) unat_1 zero_neq_one)
  then show ?thesis by (simp add: entry_free_def INVALID_BLOCK_BASE_def)
qed

lemmas live_not_free_simp = live_not_free [simplified]

lemma bslot_set:
  assumes "table_inv c h p" "j < 2 ^ c" "i < 2 ^ c"
  shows "bslot (set_key (bi_index h ! j) k p) h i = (if i = j then (bslot p h j)\<lparr>bkey := k\<rparr> else bslot p h i)"
    and "bslot (set_value (bi_index h ! j) v p) h i = (if i = j then (bslot p h j)\<lparr>bvalue := v\<rparr> else bslot p h i)"
  using assms by (auto simp: bslot_def set_key_def set_value_def table_inv_def nth_list_update nth_eq_iff_index_eq)

lemma table_inv_set:
  "table_inv c h p \<Longrightarrow> table_inv c h (set_key e k p)" "table_inv c h p \<Longrightarrow> table_inv c h (set_value e v p)"
  by (auto simp: table_inv_def set_key_def set_value_def)

section \<open>Insertion\<close>

lemma window_next_slot:
  assumes "window_inv c h lo hi A entry" "unat (bi_tail h) < 2 ^ c"
  shows "entry_free (entry (Suc (unat (bi_tail h)) mod 2 ^ c)) \<longleftrightarrow> hi < lo + 2 ^ c"
proof -
  let ?t = "unat (bi_tail h)"
  note nxt = slot_of_next [of c ?t hi, symmetric]
  show ?thesis
  proof (cases "hi < lo + 2 ^ c")
    case True
    have "slot_of c ?t hi hi \<noteq> slot_of c ?t hi k" if "lo \<le> k" "k < hi" for k
      by (rule not_sym, rule slot_of_fresh [OF that True])
    with assms(1) True show ?thesis unfolding nxt window_inv_def by simp
  next
    case False
    with assms(1) have hi: "hi = lo + 2 ^ c" by (simp add: window_inv_def)
    then have "slot_of c ?t hi hi = slot_of c ?t hi lo"
      by (simp add: slot_of_def mod_diff_right_eq [symmetric, of _ "2 ^ c"] algebra_simps)
    with assms(1) hi show ?thesis
      unfolding nxt window_inv_def by (simp add: live_not_free_simp)
  qed
qed

lemma claim_entry_spec:
  assumes tab: "table_inv c h p" and win: "window_inv c h lo hi A (bslot p h)"
    and room: "hi < lo + 2 ^ c" and claim: "claim_entry (of_nat (32 * hi)) h p = (e, p')"
  shows "bidx_inv lo (Suc hi) (A(hi := a)) (set_value e (Ptr a) p')"
    and "bidx_inv lo hi A (set_value e Null (rewind_block_index_tail p'))"
    and "index_frame p p'" "blockIndex p' \<noteq> None"
proof -
  let ?t = "unat (bi_tail h)" and ?t' = "Suc (unat (bi_tail h)) mod 2 ^ c"
  define w where "w = (bi_tail h + 1) AND (bi_capacity h - 1)"
  from tab have c: "c < 64" "bi_capacity h = 2 ^ c" "?t < 2 ^ c" by (auto simp: table_inv_def)
  have w: "unat w = ?t'" using tail_plus_one [OF c(1,3)] by (simp add: w_def c(2))
  define h' where "h' = h\<lparr>bi_tail := w\<rparr>"
  have e: "e = bi_index h ! ?t'" and p': "p' = set_key e (of_nat (32 * hi)) (p\<lparr>blockIndex := Some h'\<rparr>)"
    using claim by (auto simp: claim_entry_def Let_def w h'_def simp flip: w_def)
  have t': "?t' < 2 ^ c" by simp
  have tab': "table_inv c h' (p\<lparr>blockIndex := Some h'\<rparr>)"
    using tab t' by (simp add: table_inv_def h'_def w del: mod_less_divisor)
  have bs: "bslot (p\<lparr>blockIndex := Some h'\<rparr>) h' = bslot p h" by (simp add: bslot_def h'_def fun_eq_iff)
  have e': "e = bi_index h' ! ?t'" by (simp add: e h'_def)
  have entry: "bslot (set_value e v p') h' i =
      (if i = ?t' then \<lparr>bkey = of_nat (32 * hi), bvalue = v\<rparr> else bslot p h i)" if "i < 2 ^ c" for v i
    unfolding p' e'
    using bslot_set(2) [OF table_inv_set(1) [OF tab'] t' that] bslot_set(1) [OF tab' t' that]
      bslot_set(1) [OF tab' t' t'] by (simp add: bs)
  have slots: "slot_of c ?t' (Suc hi) k = slot_of c ?t hi k" for k
    by (simp add: slot_of_mod slot_of_Suc)
  have old: "slot_of c ?t hi k \<noteq> ?t'" if "lo \<le> k" "k < hi" for k
    using slot_of_fresh [OF that room] by (simp add: slot_of_next)
  note last = slot_of_next [of c ?t hi]
  have "window_inv c h' lo (Suc hi) (A(hi := a)) (bslot (set_value e (Ptr a) p') h')"
    using win room unfolding window_inv_def
    by (auto simp: h'_def w slots entry [unfolded h'_def] old last less_Suc_eq)
  moreover have tabv: "table_inv c h' (set_value e v p')" for v
    unfolding p' by (intro table_inv_set tab')
  ultimately show "bidx_inv lo (Suc hi) (A(hi := a)) (set_value e (Ptr a) p')"
    unfolding bidx_inv_def by blast
  have "(of_nat ?t' - 1 :: size_t) = of_nat ?t' + word_of_int (- 1)" by simp
  then have "unat ((of_nat ?t' - 1 :: size_t) AND (2 ^ c - 1)) = nat ((int ?t' - 1) mod 2 ^ c)"
    using masked_slot [OF c(1), of ?t' "- 1"] by simp
  also have "\<dots> = ?t"
    using c(3) by (simp add: of_nat_mod mod_diff_left_eq nat_mod_distrib nat_power_eq)
  finally have "unat ((of_nat ?t' - 1 :: size_t) AND (bi_capacity h - 1)) = ?t" by (simp only: c(2))
  moreover have "w = of_nat ?t'" by (metis w ucast_id of_nat_unat)
  ultimately have "(w - 1) AND (bi_capacity h - 1) = bi_tail h"
    by (metis word_unat_eq_iff)
  then have rewound: "rewind_block_index_tail p' = set_key e (of_nat (32 * hi)) p\<lparr>blockIndex := Some h\<rparr>"
    by (simp add: p' rewind_block_index_tail_def set_key_def h'_def)
  have bi: "blockIndex p = Some h" using tab by (simp add: table_inv_def)
  have rw: "rewind_block_index_tail p' = set_key e (of_nat (32 * hi)) p"
    unfolding rewound by (simp add: set_key_def bi)
  have "bslot (set_value e Null (rewind_block_index_tail p')) h i =
      (if i = ?t' then \<lparr>bkey = of_nat (32 * hi), bvalue = Null\<rparr> else bslot p h i)" if "i < 2 ^ c" for i
    unfolding rw e
    using bslot_set(2) [OF table_inv_set(1) [OF tab] t' that] bslot_set(1) [OF tab t' that]
      bslot_set(1) [OF tab t' t'] by simp
  then have "window_inv c h lo hi A (bslot (set_value e Null (rewind_block_index_tail p')) h)"
    using win old by (auto simp: window_inv_def entry_free_def)
  moreover have "table_inv c h (set_value e Null (rewind_block_index_tail p'))"
    unfolding rw by (intro table_inv_set tab)
  ultimately show "bidx_inv lo hi A (set_value e Null (rewind_block_index_tail p'))"
    unfolding bidx_inv_def by blast
  show "index_frame p p'" "blockIndex p' \<noteq> None"
    by (simp_all add: p' set_key_def index_frame_def)
qed

section \<open>Growth\<close>

lemma copy_index_upto:
  assumes "bi_capacity h = 2 ^ c" "c < 64" "unat (bi_tail h) = t"
  shows "n < 2 ^ c \<Longrightarrow> (p + Suc n) mod 2 ^ c = t \<Longrightarrow> p < 2 ^ c \<Longrightarrow>
    copy_index (Suc n) h (of_nat p) = map (\<lambda>i. bi_index h ! ((p + 1 + i) mod 2 ^ c)) [0 ..< Suc n]"
proof (induction n arbitrary: p)
  case (0 p)
  then have "unat ((of_nat p + 1 :: size_t) AND (bi_capacity h - 1)) = t"
    using tail_plus_one [OF assms(2), of p] assms(1) by simp
  then have "(of_nat p + 1 :: size_t) AND (bi_capacity h - 1) = bi_tail h"
    using assms(3) by (metis word_unat_eq_iff)
  with 0 assms(3) show ?case by (simp add: Let_def)
next
  case (Suc n p)
  let ?p = "Suc p mod 2 ^ c" and ?w = "(of_nat p + 1 :: size_t) AND (bi_capacity h - 1)"
  have w: "unat ?w = ?p" using tail_plus_one [OF assms(2) Suc.prems(3)] assms(1) by simp
  have rest: "(?p + Suc n) mod 2 ^ c = t" 
    using Suc.prems(2) by (simp only: mod_add_left_eq) simp
  have "?p \<noteq> t"
  proof
    assume "?p = t"
    with rest have "(t + Suc n) mod 2 ^ c = t mod 2 ^ c" using \<open>?p = t\<close> by auto
    then have "2 ^ c dvd Suc n" by (simp add: mod_eq_dvd_iff_nat)
    with Suc.prems(1) show False by (auto dest: dvd_imp_le)
  qed
  then have "?w \<noteq> bi_tail h" using w assms(3) by auto
  moreover have "?w = of_nat ?p" by (metis w ucast_id of_nat_unat)
  moreover have "copy_index (Suc n) h (of_nat ?p) =
      map (\<lambda>i. bi_index h ! ((?p + 1 + i) mod 2 ^ c)) [0 ..< Suc n]"
    using Suc.prems(1) by (intro Suc.IH rest) simp_all
  moreover have "(?p + 1 + i) mod 2 ^ c = (p + 1 + Suc i) mod 2 ^ c" for i
    using mod_add_left_eq [of "Suc p" "2 ^ c" "Suc i"] by simp
  ultimately have "copy_index (Suc (Suc n)) h (of_nat p) =
      bi_index h ! ?p # map (\<lambda>i. bi_index h ! ((p + 1 + Suc i) mod 2 ^ c)) [0 ..< Suc n]"
    using w by (simp only: copy_index.simps Let_def if_False)
  also have "\<dots> = map (\<lambda>i. bi_index h ! ((p + 1 + i) mod 2 ^ c)) [0 ..< Suc (Suc n)]"
    by (simp add: map_upt_Suc del: upt_Suc)
  finally show ?case .
qed

lemma copy_index_rotates:
  assumes "table_inv c h p"
  shows "copy_index (2 ^ c) h (bi_tail h) =
    map (\<lambda>i. bi_index h ! ((unat (bi_tail h) + 1 + i) mod 2 ^ c)) [0 ..< 2 ^ c]"
proof -
  obtain n where n: "2 ^ c = Suc n" by (metis not0_implies_Suc power_not_zero zero_neq_numeral)
  have "copy_index (Suc n) h (of_nat (unat (bi_tail h))) =
      map (\<lambda>i. bi_index h ! ((unat (bi_tail h) + 1 + i) mod 2 ^ c)) [0 ..< Suc n]"
  proof (rule copy_index_upto)
    have "unat (bi_tail h) < 2 ^ c" using assms by (simp add: table_inv_def)
    then show "(unat (bi_tail h) + Suc n) mod 2 ^ c = unat (bi_tail h)" "unat (bi_tail h) < 2 ^ c"
      by (simp_all flip: n)
    show "bi_capacity h = 2 ^ c" "c < 64" "unat (bi_tail h) = unat (bi_tail h)" "n < 2 ^ c"
      using assms n by (auto simp: table_inv_def)
  qed
  with n show ?thesis by simp
qed

lemma unat_pow2_size: "c < 64 \<Longrightarrow> unat (2 ^ c :: size_t) = 2 ^ c"
  by (simp add: unat_exp)

lemma unat_last_slot: "c < 60 \<Longrightarrow> unat ((2 ^ c - 1 :: size_t) AND (2 ^ Suc c - 1)) = 2 ^ c - 1"
proof -
  assume c: "c < 60"
  then have "unat (2 ^ c - 1 :: size_t) = 2 ^ c - 1" by (simp add: unat_pow2_size unat_minus_one)
  then have "unat ((2 ^ c - 1 :: size_t) AND (2 ^ Suc c - 1)) = (2 ^ c - 1) mod 2 ^ Suc c"
    by (simp only: unat_and_pow2_minus_one)
  also have "\<dots> = 2 ^ c - 1" by (rule mod_less) (simp add: less_imp_diff_less)
  finally show ?thesis .
qed

lemma shifted_mod_inj:
  fixes i j m a :: nat
  assumes "i < m" "j < m" "(a + i) mod m = (a + j) mod m"
  shows "i = j"
  using assms
proof (induction i j rule: linorder_wlog)
  case (le i j)
  then have "m dvd (a + j) - (a + i)" by (metis add_le_cancel_left mod_eq_dvd_iff_nat)
  with le show ?case by (auto dest: dvd_imp_le)
qed auto

lemma new_block_index_grows:
  assumes tab: "table_inv c h p" and win: "window_inv c h lo hi A (bslot p h)" and c: "c < 59"
    and new: "new_block_index p q = (True, p', q')"
  shows "\<exists>h'. table_inv (Suc c) h' p' \<and> window_inv (Suc c) h' lo hi A (bslot p' h') \<and> index_frame p p'"
proof -
  let ?t = "unat (bi_tail h)" and ?n = "length (bentries p)"
  from tab have bi: "blockIndex p = Some h" "bi_capacity h = 2 ^ c" "nextBlockIndexCapacity p = 2 ^ Suc c"
    "?t < 2 ^ c" "length (bi_index h) = 2 ^ c" "distinct (bi_index h)" "\<forall>e \<in> set (bi_index h). e < ?n"
    by (auto simp: table_inv_def)
  have u: "unat (2 ^ c :: size_t) = 2 ^ c" using c unat_pow2_size [of c] by simp
  define copied where "copied = map (\<lambda>i. bi_index h ! ((?t + 1 + i) mod 2 ^ c)) [0 ..< 2 ^ c]"
  define h' where "h' = \<lparr>bi_capacity = 2 ^ Suc c, bi_tail = (2 ^ c - 1) AND (2 ^ Suc c - 1),
      bi_index = copied @ [?n ..< ?n + 2 ^ c]\<rparr>"
  have p': "p' = p\<lparr>bentries := bentries p @ replicate (2 ^ c) \<lparr>bkey = INVALID_BLOCK_BASE, bvalue = Uninit\<rparr>,
      blockIndex := Some h', nextBlockIndexCapacity := 2 ^ Suc (Suc c)\<rparr>"
    using new copy_index_rotates [OF tab]
    by (auto simp: new_block_index_def bi u Let_def h'_def copied_def push_bit_eq_mult split: prod.splits bool.splits)
  have copied: "length copied = 2 ^ c" by (simp add: copied_def)
  have copied_nth: "copied ! j = bi_index h ! ((?t + 1 + j) mod 2 ^ c)" if "j < 2 ^ c" for j
    using that by (simp add: copied_def)
  have copied_set: "set copied \<subseteq> set (bi_index h)"
    using bi(5) by (auto simp: copied_def intro!: nth_mem)
  have tail: "unat (bi_tail h') = 2 ^ c - 1" using unat_last_slot [of c] c by (simp add: h'_def)
  have inj: "inj_on (\<lambda>i. (?t + 1 + i) mod 2 ^ c) {0 ..< 2 ^ c}"
  proof (rule inj_onI)
    fix i j assume ij: "i \<in> {0 ..< 2 ^ c}" "j \<in> {0 ..< 2 ^ c}"
      and eq: "(?t + 1 + i) mod 2 ^ c = (?t + 1 + j) mod 2 ^ c"
    from ij have "i < 2 ^ c" "j < 2 ^ c" by simp_all
    with eq show "i = j" by (rule shifted_mod_inj [rotated 2])
  qed
  have "distinct copied"
    unfolding copied_def distinct_map
  proof
    show "inj_on (\<lambda>i. bi_index h ! ((?t + 1 + i) mod 2 ^ c)) (set [0 ..< 2 ^ c])"
    proof (rule inj_onI)
      fix i j :: nat
      assume ij: "i \<in> set [0 ..< 2 ^ c]" "j \<in> set [0 ..< 2 ^ c]"
        and "bi_index h ! ((?t + 1 + i) mod 2 ^ c) = bi_index h ! ((?t + 1 + j) mod 2 ^ c)"
      then have "(?t + 1 + i) mod 2 ^ c = (?t + 1 + j) mod 2 ^ c"
        using bi(5,6) by (simp add: nth_eq_iff_index_eq)
      from inj_onD [OF inj this] ij show "i = j" by simp
    qed
  qed simp
  then have "table_inv (Suc c) h' p'"
    using bi copied copied_set c tail
    by (auto simp: table_inv_def p' h'_def dest: bspec)
  moreover have slot: "bslot p' h' j =
      (if j < 2 ^ c then bslot p h ((?t + 1 + j) mod 2 ^ c) else \<lparr>bkey = INVALID_BLOCK_BASE, bvalue = Uninit\<rparr>)"
    if "j < 2 ^ Suc c" for j
  proof (cases "j < 2 ^ c")
    case True
    have "bi_index h ! ((?t + 1 + j) mod 2 ^ c) < ?n" using bi(5,7) by simp
    with True show ?thesis
      by (simp add: bslot_def p' h'_def nth_append copied copied_nth)
  next
    case False
    with that show ?thesis by (simp add: bslot_def p' h'_def nth_append copied)
  qed
  have pos: "slot_of (Suc c) (unat (bi_tail h')) hi k = 2 ^ c - (hi - k)"
      "(?t + 1 + (2 ^ c - (hi - k))) mod 2 ^ c = slot_of c ?t hi k" if "lo \<le> k" "k < hi" for k
  proof -
    have le: "hi - k \<le> 2 ^ c" using win that by (auto simp: window_inv_def)
    then have d: "int (2 ^ c - (hi - k)) = 2 ^ c + int k - int hi"
      using that by (simp add: of_nat_diff)
    have "int (2 ^ c - 1) + int k + 1 - int hi = int (2 ^ c - (hi - k))"
      unfolding d by (simp add: of_nat_diff)
    moreover have "2 ^ c - (hi - k) < 2 ^ Suc c" by (simp add: less_imp_diff_less)
    then have "int (2 ^ c - (hi - k)) < 2 ^ Suc c" by (simp only: of_nat_less_numeral_power_cancel_iff)
    ultimately show "slot_of (Suc c) (unat (bi_tail h')) hi k = 2 ^ c - (hi - k)"
      unfolding slot_of_def tail by simp
    have "int (?t + 1 + (2 ^ c - (hi - k))) = int ?t + int k + 1 - int hi + 2 ^ c"
      unfolding of_nat_add d by simp
    then have "int ((?t + 1 + (2 ^ c - (hi - k))) mod 2 ^ c) = (int ?t + int k + 1 - int hi + 2 ^ c) mod 2 ^ c"
      by (simp only: of_nat_mod of_nat_power of_nat_numeral)
    also have "\<dots> = (int ?t + int k + 1 - int hi) mod 2 ^ c" by simp
    finally show "(?t + 1 + (2 ^ c - (hi - k))) mod 2 ^ c = slot_of c ?t hi k"
      unfolding slot_of_def by (metis nat_int)
  qed
  have "window_inv (Suc c) h' lo hi A (bslot p' h')"
    unfolding window_inv_def
  proof (intro conjI allI impI)
    show "lo \<le> hi" "hi \<le> lo + 2 ^ Suc c" using win by (auto simp: window_inv_def)
    fix k assume k: "lo \<le> k \<and> k < hi"
    have "2 ^ c - (hi - k) < 2 ^ c" using k by (intro diff_less) auto
    then have j: "2 ^ c - (hi - k) < 2 ^ c" "2 ^ c - (hi - k) < 2 ^ Suc c" by simp_all
    have "bslot p' h' (slot_of (Suc c) (unat (bi_tail h')) hi k) = bslot p h (slot_of c ?t hi k)"
      using k by (simp only: pos slot [OF j(2)] j(1) if_True)
    with k win show "bslot p' h' (slot_of (Suc c) (unat (bi_tail h')) hi k)
        = \<lparr>bkey = of_nat (32 * k), bvalue = Ptr (A k)\<rparr>"
      by (simp only: window_inv_def)
  next
    fix j :: nat assume j: "j < 2 ^ Suc c"
      "\<forall>k. lo \<le> k \<and> k < hi \<longrightarrow> j \<noteq> slot_of (Suc c) (unat (bi_tail h')) hi k"
    show "entry_free (bslot p' h' j)"
    proof (cases "j < 2 ^ c")
      case False
      then show ?thesis by (simp add: slot [OF j(1)] entry_free_def)
    next
      case True
      have "(?t + 1 + j) mod 2 ^ c \<noteq> slot_of c ?t hi k" if k: "lo \<le> k" "k < hi" for k
      proof
        assume "(?t + 1 + j) mod 2 ^ c = slot_of c ?t hi k"
        then have "(?t + 1 + j) mod 2 ^ c = (?t + 1 + (2 ^ c - (hi - k))) mod 2 ^ c"
          by (simp only: pos(2) [OF k])
        moreover have "2 ^ c - (hi - k) < 2 ^ c" using k by (intro diff_less) auto
        ultimately have "j = 2 ^ c - (hi - k)" by (rule shifted_mod_inj [OF True, rotated])
        moreover have "j \<noteq> slot_of (Suc c) (unat (bi_tail h')) hi k" using j(2) k by simp
        ultimately show False by (simp only: pos(1) [OF k] not_True_eq_False)
      qed
      with win True show ?thesis by (auto simp: slot [OF j(1)] window_inv_def)
    qed
  qed
  with \<open>table_inv (Suc c) h' p'\<close> show ?thesis by (intro exI [of _ h']) (simp add: p' index_frame_def)
qed

text \<open>The index that the constructor builds has 32 free slots.\<close>

lemma new_block_index_first:
  assumes "blockIndex p = None" "nextBlockIndexCapacity p = 2 ^ c" "c < 59"
    "new_block_index p q = (True, p', q')"
  shows "bidx_inv lo lo A p'"
    "index_frame p p'"
proof -
  have u: "unat (2 ^ c :: size_t) = 2 ^ c" using assms(3) unat_pow2_size [of c] by simp
  define w where "w = ((0 :: size_t) - 1) AND (2 ^ c - 1)"
  have w: "unat w < 2 ^ c" unfolding w_def unat_and_pow2_minus_one by simp
  define h where "h = \<lparr>bi_capacity = 2 ^ c, bi_tail = w,
      bi_index = [length (bentries p) ..< length (bentries p) + 2 ^ c]\<rparr>"
  have p': "p' = p\<lparr>bentries := bentries p @ replicate (2 ^ c) \<lparr>bkey = INVALID_BLOCK_BASE, bvalue = Uninit\<rparr>,
      blockIndex := Some h, nextBlockIndexCapacity := 2 ^ Suc c\<rparr>"
    using assms by (auto simp: new_block_index_def u Let_def h_def w_def push_bit_eq_mult split: prod.splits bool.splits)
  have "table_inv c h p'"
    using assms(3) by (auto simp: table_inv_def p' h_def w)
  moreover have "window_inv c h lo lo A (bslot p' h)"
    by (auto simp: window_inv_def bslot_def p' h_def nth_append entry_free_def)
  ultimately show "bidx_inv lo lo A p'" unfolding bidx_inv_def by blast
  show "index_frame p p'"
    by (simp add: p' index_frame_def)
qed

lemma new_block_index_fails:
  "new_block_index p q = (False, p', q') \<Longrightarrow> p' = p \<and> mem q \<noteq> [] \<and> q' = q\<lparr>mem := mem q'\<rparr>"
  by (auto simp: new_block_index_def malloc_def Let_def split: prod.splits bool.splits list.splits)

lemma new_block_index_pool: "new_block_index p q = (r, p', q') \<Longrightarrow> q' = q\<lparr>mem := mem q'\<rparr>"
  by (auto simp: new_block_index_def malloc_def Let_def split: prod.splits bool.splits list.splits)

section \<open>The operations keep the window\<close>

lemma bidx_inv_cong:
  assumes "bidx_inv lo hi A p" "bentries p' = bentries p" "blockIndex p' = blockIndex p"
    "nextBlockIndexCapacity p' = nextBlockIndexCapacity p"
  shows "bidx_inv lo hi A p'"
  using assms by (simp add: bidx_inv_def table_inv_def bslot_def[abs_def])

lemma bidx_inv_blocks: "bidx_inv lo hi A p \<Longrightarrow> (\<And>k. lo \<le> k \<Longrightarrow> k < hi \<Longrightarrow> A' k = A k) \<Longrightarrow> bidx_inv lo hi A' p"
  unfolding bidx_inv_def window_inv_def by (metis (no_types, lifting))

definition only_mem :: "'a pool \<Rightarrow> 'a pool \<Rightarrow> bool" where
  "only_mem q q' \<longleftrightarrow> q' = q\<lparr>mem := mem q'\<rparr>"

lemma pool_inv_mem: "only_mem q q' \<Longrightarrow> pool_inv U F q' = pool_inv U F q"
proof -
  assume "only_mem q q'"
  then obtain m where "q' = q\<lparr>mem := m\<rparr>" unfolding only_mem_def by blast
  then show ?thesis by (simp add: pool_inv_def unused_def next_free_def[abs_def])
qed

lemma only_mem_blocks: "only_mem q q' \<Longrightarrow> blocks q' = blocks q"
  unfolding only_mem_def by (metis pool.select_convs(1) pool.surjective pool.update_convs(6))

definition inserted :: "nat \<Rightarrow> nat \<Rightarrow> (nat \<Rightarrow> addr) \<Rightarrow> nat \<Rightarrow> iproducer \<Rightarrow> bool" where
  "inserted lo hi A e p \<longleftrightarrow>
     (\<forall>a. bidx_inv lo (Suc hi) (A(hi := a)) (set_value e (Ptr a) p)) \<and>
     bidx_inv lo hi A (set_value e Null (rewind_block_index_tail p))"

lemma insert_block_index_entry_spec:
  assumes inv: "bidx_inv lo hi A p" and bound: "hi - lo \<le> 2 ^ 58"
    and ins: "insert_block_index_entry m (of_nat (32 * hi)) p q = (r, p', q')"
  shows "index_frame p p' \<and> only_mem q q' \<and>
    (case r of None \<Rightarrow> p' = p \<and> (m = CannotAlloc \<or> mem q \<noteq> []) | Some e \<Rightarrow> inserted lo hi A e p')"
proof -
  obtain c h where tab: "table_inv c h p" and win: "window_inv c h lo hi A (bslot p h)"
    using inv by (auto simp: bidx_inv_def)
  from tab have c: "c < 64" "bi_capacity h = 2 ^ c" "unat (bi_tail h) < 2 ^ c" "blockIndex p = Some h"
    by (auto simp: table_inv_def)
  define w where "w = (bi_tail h + 1) AND (bi_capacity h - 1)"
  have w: "unat w = Suc (unat (bi_tail h)) mod 2 ^ c"
    using tail_plus_one [OF c(1,3)] by (simp add: w_def c(2))
  have free: "entry_free (bentries p ! (bi_index h ! unat w)) \<longleftrightarrow> hi < lo + 2 ^ c"
    using window_next_slot [OF win c(3)] by (simp add: bslot_def w)
  have ins: "(if hi < lo + 2 ^ c
      then (case claim_entry (of_nat (32 * hi)) h p of (e, p') \<Rightarrow> (Some e, p', q))
      else if m = CannotAlloc then (None, p, q)
      else (case new_block_index p q of
          (False, p', q') \<Rightarrow> (None, p', q')
        | (True, p', q') \<Rightarrow> (case claim_entry (of_nat (32 * hi)) (the (blockIndex p')) p' of
              (e, p'') \<Rightarrow> (Some e, p'', q')))) = (r, p', q')"
    using ins unfolding insert_block_index_entry_def c(4) option.case Let_def free [unfolded w_def] .
  show ?thesis
  proof (cases "hi < lo + 2 ^ c")
    case True
    obtain e p1 where cl: "claim_entry (of_nat (32 * hi)) h p = (e, p1)" by force
    with ins True have "r = Some e" "p' = p1" "q' = q" by auto
    with claim_entry_spec [OF tab win True cl] show ?thesis
      by (auto simp: inserted_def only_mem_def)
  next
    case False
    with win have hi: "hi = lo + 2 ^ c" by (simp add: window_inv_def)
    then have "(2 :: nat) ^ c \<le> 2 ^ 58" using bound by simp
    then have c59: "c < 59" using power_le_imp_le_exp [of "2 :: nat" c 58] by simp
    show ?thesis
    proof (cases "m = CannotAlloc")
      case True
      with ins False show ?thesis by (simp add: index_frame_def only_mem_def)
    next
      case grow: False
      obtain ok p1 q1 where new: "new_block_index p q = (ok, p1, q1)" by (metis prod_cases3)
      note q1 = new_block_index_pool [OF new]
      show ?thesis
      proof (cases ok)
        case False
        with new_block_index_fails [of p q p1 q1] new have "p1 = p" "mem q \<noteq> []" by auto
        with ins new q1 False hi grow show ?thesis by (auto simp: index_frame_def only_mem_def)
      next
        case True
        with new have grown: "new_block_index p q = (True, p1, q1)" by simp
        from new_block_index_grows [OF tab win c59 this] obtain h1 where
          tab1: "table_inv (Suc c) h1 p1" and win1: "window_inv (Suc c) h1 lo hi A (bslot p1 h1)"
          and fr: "index_frame p p1" by blast
        obtain e p2 where cl: "claim_entry (of_nat (32 * hi)) h1 p1 = (e, p2)" by force
        have "blockIndex p1 = Some h1" using tab1 by (simp add: table_inv_def)
        with ins new True grow hi cl have res: "r = Some e" "p' = p2" "q' = q1" by auto
        have room: "hi < lo + 2 ^ Suc c" using hi by simp
        note spec = claim_entry_spec [OF tab1 win1 room cl]
        have "index_frame p p2" using fr spec(3) by (simp add: index_frame_def)
        with spec q1 show ?thesis by (simp add: res inserted_def only_mem_def)
      qed
    qed
  qed
qed

text \<open>The lookup starts from the entry at the tail, which is for block \<open>l\<close>.\<close>

lemma index_slot:
  assumes tab: "table_inv c h p" and key: "bkey (bslot p h (unat (bi_tail h))) = of_nat (32 * l)"
    and near: "\<bar>int (i div 32) - int l\<bar> < 2 ^ 58"
  shows "unat (get_block_index_index_for_index (of_nat i) h p) = slot_of c (unat (bi_tail h)) (Suc l) (i div 32)"
proof -
  from tab have c: "c < 64" "bi_capacity h = 2 ^ c" by (auto simp: table_inv_def)
  from key have key: "bkey (bentries p ! (bi_index h ! unat (bi_tail h))) = of_nat (32 * l)" by (simp add: bslot_def)
  from near have dist: "block_distance (block_base (of_nat i)) (of_nat (32 * l)) = word_of_int (int (i div 32) - int l)"
    using block_distance_of_nat [of "i div 32" l] by (simp add: block_base_of_nat mult.commute)
  show ?thesis
    unfolding get_block_index_index_for_index_def Let_def key dist c(2)
    using masked_slot [OF c(1), of "unat (bi_tail h)" "int (i div 32) - int l"] by (simp add: slot_of_def algebra_simps)
qed

lemma get_entry_spec:
  assumes inv: "bidx_inv lo hi A p" and bound: "hi - lo \<le> 2 ^ 58"
    and i: "lo \<le> i div 32" "i div 32 < hi"
  obtains e where "get_block_index_entry_for_index (of_nat i) p = Some e"
    "bentries p ! e = \<lparr>bkey = of_nat (32 * (i div 32)), bvalue = Ptr (A (i div 32))\<rparr>"
    "lo = i div 32 \<Longrightarrow> bidx_inv (Suc lo) hi A (set_value e Null p)"
proof -
  obtain c h where tab: "table_inv c h p" and win: "window_inv c h lo hi A (bslot p h)"
    using inv by (auto simp: bidx_inv_def)
  let ?t = "unat (bi_tail h)" and ?k = "i div 32"
  from tab have c: "c < 64" "bi_capacity h = 2 ^ c" "?t < 2 ^ c" "blockIndex p = Some h"
    by (auto simp: table_inv_def)
  from i(2) obtain l where l: "hi = Suc l" by (cases hi) auto
  have live: "bslot p h (slot_of c ?t hi k) = \<lparr>bkey = of_nat (32 * k), bvalue = Ptr (A k)\<rparr>"
    if "lo \<le> k" "k < hi" for k
    using win that by (simp add: window_inv_def)
  have "bslot p h ?t = \<lparr>bkey = of_nat (32 * l), bvalue = Ptr (A l)\<rparr>"
    using live [of l] i slot_of_tail [OF c(3)] by (simp add: l)
  then have key: "bkey (bslot p h ?t) = of_nat (32 * l)" by simp
  have near: "\<bar>int ?k - int l\<bar> < 2 ^ 58"
  proof -
    have "int (hi - lo) \<le> 2 ^ 58" using bound by simp
    with i l show ?thesis by linarith
  qed
  have slot: "unat (get_block_index_index_for_index (of_nat i) h p) = slot_of c ?t hi ?k"
    using index_slot [OF tab key near] by (simp add: l)
  define j where "j = slot_of c ?t hi ?k"
  have j: "j < 2 ^ c" by (simp add: j_def)
  define e where "e = bi_index h ! j"
  have entry: "bslot p h j = \<lparr>bkey = of_nat (32 * ?k), bvalue = Ptr (A ?k)\<rparr>"
    using live [OF i] by (simp add: j_def)
  show thesis
  proof (rule that)
    show "get_block_index_entry_for_index (of_nat i) p = Some e"
      by (simp add: get_block_index_entry_for_index_def c(4) slot e_def j_def)
    show "bentries p ! e = \<lparr>bkey = of_nat (32 * ?k), bvalue = Ptr (A ?k)\<rparr>"
      using entry by (simp add: e_def bslot_def)
    assume lo: "lo = ?k"
    have new: "bslot (set_value e Null p) h n =
        (if n = j then \<lparr>bkey = of_nat (32 * ?k), bvalue = Null\<rparr> else bslot p h n)" if "n < 2 ^ c" for n
      unfolding e_def using bslot_set(2) [OF tab j that] entry by simp
    have other: "slot_of c ?t hi k \<noteq> j" if k: "Suc lo \<le> k" "k < hi" for k
    proof
      assume "slot_of c ?t hi k = j"
      then have eq: "slot_of c ?t hi k = slot_of c ?t hi ?k" by (simp add: j_def)
      have "k - ?k < 2 ^ c" using k win lo by (auto simp: window_inv_def)
      then have "int (k - ?k) < 2 ^ c" by (simp only: of_nat_less_numeral_power_cancel_iff)
      then have "\<bar>int k - int ?k\<bar> < 2 ^ c" using k lo by simp
      from slot_of_inj [OF eq this] k lo show False by simp
    qed
    have "window_inv c h (Suc lo) hi A (bslot (set_value e Null p) h)"
      unfolding window_inv_def
    proof (intro conjI allI impI)
      show "Suc lo \<le> hi" "hi \<le> Suc lo + 2 ^ c" using win i lo by (auto simp: window_inv_def)
      fix k assume "Suc lo \<le> k \<and> k < hi"
      then show "bslot (set_value e Null p) h (slot_of c ?t hi k) = \<lparr>bkey = of_nat (32 * k), bvalue = Ptr (A k)\<rparr>"
        using other [of k] live [of k] by (simp add: new)
    next
      fix n :: nat assume n: "n < 2 ^ c" "\<forall>k. Suc lo \<le> k \<and> k < hi \<longrightarrow> n \<noteq> slot_of c ?t hi k"
      show "entry_free (bslot (set_value e Null p) h n)"
      proof (cases "n = j")
        case True
        with new [OF n(1)] show ?thesis by (simp add: entry_free_def)
      next
        case False
        have "\<forall>k. lo \<le> k \<and> k < hi \<longrightarrow> n \<noteq> slot_of c ?t hi k"
        proof (intro allI impI notI)
          fix k assume k: "lo \<le> k \<and> k < hi" "n = slot_of c ?t hi k"
          show False
          proof (cases "k = lo")
            case True
            with k lo False show False by (simp add: j_def)
          next
            case False
            with k n(2) show False by (auto dest: spec [of _ k])
          qed
        qed
        with win n(1) False show ?thesis by (simp add: new [OF n(1)] window_inv_def)
      qed
    qed
    with table_inv_set(2) [OF tab] show "bidx_inv (Suc lo) hi A (set_value e Null p)"
      unfolding bidx_inv_def by blast
  qed
qed

end
