(* ===== verification/ImplicitProducer.thy ===== *)
theory ImplicitProducer
  imports BlockIndex
begin

text \<open>
  \<^verbatim>\<open>ConcurrentQueue::ImplicitProducer\<close> (\<^verbatim>\<open>src/lightning/moodycamel/concurrentqueue.h\<close>): the sub-queue
  of one producing thread. Elements are written at \<open>tailIndex\<close> into blocks of 32 slots taken from
  the shared pool, read at \<open>headIndex\<close>, and a block whose slots have all been read goes back to the
  pool. Indices are 64-bit words that wrap around.

  An operation works on the producer and the pool and is executed without interference. The element
  types of the program (\<open>std::unique_ptr\<close> and \<open>ReturnedConnection\<close>) have constructors and
  assignments that do not throw, so the branches compiled only for the others are absent. The
  result \<open>None\<close> is a crash: a null or dangling block, or the reading of an empty slot.

  \<open>ip_inv H T A xs p q\<close> relates a producer to the list \<open>xs\<close> of its elements; \<open>H\<close> and \<open>T\<close> are the head
  and the tail without wrap-around and \<open>A k\<close> is the block for the indices \<open>32 * k ..< 32 * k + 32\<close>.
\<close>

unbundle bit_operations_syntax

section \<open>Operations\<close>

definition ImplicitProducer_new :: "'a pool \<Rightarrow> iproducer \<times> 'a pool" where
  "ImplicitProducer_new q =
     (let p = \<lparr>tailIndex = 0, headIndex = 0, dequeueOptimisticCount = 0, dequeueOvercommit = 0,
                tailBlock = None, nextBlockIndexCapacity = of_nat IMPLICIT_INITIAL_INDEX_SIZE,
                bentries = [], blockIndex = None\<rparr>
      in case new_block_index p q of (_, p', q') \<Rightarrow> (p', q'))"

definition size_approx :: "iproducer \<Rightarrow> size_t" where
  "size_approx p =
     (if circular_less_than (headIndex p) (tailIndex p) then tailIndex p - headIndex p else 0)"

definition subqueue_full :: "index_t \<Rightarrow> index_t \<Rightarrow> bool" where
  "subqueue_full currentTailIndex head \<longleftrightarrow>
     \<not> circular_less_than head (currentTailIndex + of_nat BLOCK_SIZE) \<or>
     (MAX_SUBQUEUE_SIZE \<noteq> const_numeric_max \<and>
        (MAX_SUBQUEUE_SIZE = 0 \<or> MAX_SUBQUEUE_SIZE - of_nat BLOCK_SIZE < currentTailIndex - head))"

text \<open>The last two statements: construct the element and publish the new tail.\<close>

definition ip_publish :: "index_t \<Rightarrow> 'a \<Rightarrow> iproducer \<Rightarrow> 'a pool \<Rightarrow> (bool \<times> iproducer \<times> 'a pool) option" where
  "ip_publish currentTailIndex element p q =
     (case tailBlock p of
        None \<Rightarrow> None
      | Some blk \<Rightarrow>
          map_option (\<lambda>q'. (True, p\<lparr>tailIndex := 1 + currentTailIndex\<rparr>, q'))
            (update_block blk (write_slot currentTailIndex (Some element)) q))"

definition ip_enqueue ::
    "alloc_mode \<Rightarrow> 'a \<Rightarrow> iproducer \<Rightarrow> 'a pool \<Rightarrow> (bool \<times> iproducer \<times> 'a pool) option" where
  "ip_enqueue allocMode element p q =
     (let currentTailIndex = tailIndex p in
      if block_offset currentTailIndex = 0 then
        if subqueue_full currentTailIndex (headIndex p) then Some (False, p, q)
        else (case insert_block_index_entry allocMode currentTailIndex p q of
            (None, p1, q1) \<Rightarrow> Some (False, p1, q1)
          | (Some idxEntry, p1, q1) \<Rightarrow>
              (case requisition_block allocMode q1 of
                 None \<Rightarrow> None
               | Some (None, q2) \<Rightarrow>
                   Some (False, set_value idxEntry Null (rewind_block_index_tail p1), q2)
               | Some (Some newBlock, q2) \<Rightarrow>
                   (case update_block newBlock (reset_empty implicit_context) q2 of
                      None \<Rightarrow> None
                    | Some q3 \<Rightarrow>
                        ip_publish currentTailIndex element
                          ((set_value idxEntry (Ptr newBlock) p1)\<lparr>tailBlock := Some newBlock\<rparr>) q3)))
      else ip_publish currentTailIndex element p q)"

text \<open>Taking the element at \<open>index\<close> out of its block.\<close>

definition ip_take :: "index_t \<Rightarrow> iproducer \<Rightarrow> 'a pool \<Rightarrow> ('a \<times> iproducer \<times> 'a pool) option" where
  "ip_take index p q =
     (case get_block_index_entry_for_index index p of
        None \<Rightarrow> None
      | Some entry \<Rightarrow>
          (case bvalue (bentries p ! entry) of
             Ptr blk \<Rightarrow>
               (case blocks q blk of
                  None \<Rightarrow> None
                | Some b \<Rightarrow>
                    (case slot b index of
                       None \<Rightarrow> None
                     | Some el \<Rightarrow>
                         (case set_empty implicit_context index (write_slot index None b) of
                            (emptied, b') \<Rightarrow>
                              let q1 = q\<lparr>blocks := (blocks q)(blk := Some b')\<rparr> in
                              if emptied
                              then map_option (\<lambda>q2. (el, set_value entry Null p, q2)) (add_block_to_free_list blk q1)
                              else Some (el, p, q1))))
           | _ \<Rightarrow> None))"

definition ip_dequeue :: "iproducer \<Rightarrow> 'a pool \<Rightarrow> ('a option \<times> iproducer \<times> 'a pool) option" where
  "ip_dequeue p q =
     (let tail = tailIndex p; overcommit = dequeueOvercommit p in
      if circular_less_than (dequeueOptimisticCount p - overcommit) tail then
        let myDequeueCount = dequeueOptimisticCount p;
            p1 = p\<lparr>dequeueOptimisticCount := myDequeueCount + 1\<rparr>;
            tail = tailIndex p1
        in if circular_less_than (myDequeueCount - overcommit) tail then
             let index = headIndex p1; p2 = p1\<lparr>headIndex := index + 1\<rparr>
             in map_option (\<lambda>(el, p3, q3). (Some el, p3, q3)) (ip_take index p2 q)
           else Some (None, p1\<lparr>dequeueOvercommit := dequeueOvercommit p1 + 1\<rparr>, q)
      else Some (None, p, q))"

section \<open>Invariant\<close>

definition live :: "nat \<Rightarrow> nat \<Rightarrow> nat set" where
  "live H T = {H div 32 ..< (T + 31) div 32}"

definition block_holds :: "nat \<Rightarrow> nat \<Rightarrow> 'a list \<Rightarrow> nat \<Rightarrow> 'a block \<Rightarrow> bool" where
  "block_holds H T xs k b \<longleftrightarrow>
     elementsCompletelyDequeued b = (if k = H div 32 then H mod 32 else 0) \<and>
     (\<forall>i. H \<le> i \<and> i < T \<and> i div 32 = k \<longrightarrow> elements b ! (i mod 32) = Some (xs ! (i - H)))"

definition ip_inv :: "nat \<Rightarrow> nat \<Rightarrow> (nat \<Rightarrow> addr) \<Rightarrow> 'a list \<Rightarrow> iproducer \<Rightarrow> 'a pool \<Rightarrow> bool" where
  "ip_inv H T A xs p q \<longleftrightarrow>
     headIndex p = of_nat H \<and> tailIndex p = of_nat T \<and> T = H + length xs \<and>
     (T + 31) div 32 * 32 < H + 2 ^ 63 \<and>
     dequeueOptimisticCount p - dequeueOvercommit p = of_nat H \<and>
     inj_on A (live H T) \<and>
     (\<forall>k \<in> live H T. \<exists>b. blocks q (A k) = Some b \<and> block_holds H T xs k b) \<and>
     (T mod 32 \<noteq> 0 \<longrightarrow> tailBlock p = Some (A (T div 32))) \<and>
     (if blockIndex p = None then H = 0 \<and> T = 0 else bidx_inv (H div 32) ((T + 31) div 32) A p)"

lemma live_bound:
  fixes H T :: nat
  assumes T: "H \<le> T" "(T + 31) div 32 * 32 < H + 2 ^ 63"
  shows "(T + 31) div 32 - H div 32 \<le> 2 ^ 58"
proof -
  define a b where "a = (T + 31) div 32" and "b = H div 32"
  have "H < 32 * b + 32"
    using div_mult_mod_eq [of H 32] mod_less_divisor [of 32 H] unfolding b_def by linarith
  with T(2) have "a * 32 < 32 * b + 32 + 2 ^ 63" by (simp add: a_def)
  then have "a \<le> b + 2 ^ 58" by simp
  then show ?thesis by (simp add: a_def b_def)
qed

lemma mem_live: "H \<le> i \<Longrightarrow> i < T \<Longrightarrow> i div 32 \<in> live H T"
  by (auto simp: live_def div_le_mono)

lemma ip_bounds:
  assumes "ip_inv H T A xs p q"
  shows "H \<le> T" "T - H < 2 ^ 63" "T < H + 2 ^ 63"
proof -
  have "T \<le> (T + 31) div 32 * 32" by presburger
  with assms show "H \<le> T" "T - H < 2 ^ 63" "T < H + 2 ^ 63" by (auto simp: ip_inv_def)
qed

text \<open>The approximate size of an undisturbed producer is its length.\<close>

lemma size_approx_length:
  assumes "ip_inv H T A xs p q"
  shows "unat (size_approx p) = length xs"
proof -
  note b = ip_bounds [OF assms]
  have "circular_less_than (of_nat H :: index_t) (of_nat T) \<longleftrightarrow> H < T"
    by (rule circular_less_than_of_nat(1)) (use b in simp_all)
  moreover have "unat (of_nat T - of_nat H :: index_t) = T - H"
    by (rule unat_of_nat_diff) (use b in simp_all)
  ultimately show ?thesis using assms by (auto simp: ip_inv_def size_approx_def)
qed

lemma may_dequeue:
  assumes "ip_inv H T A xs p q"
  shows "circular_less_than (dequeueOptimisticCount p - dequeueOvercommit p) (tailIndex p) \<longleftrightarrow> xs \<noteq> []"
proof -
  note b = ip_bounds [OF assms]
  have "circular_less_than (of_nat H :: index_t) (of_nat T) \<longleftrightarrow> H < T"
    by (rule circular_less_than_of_nat(1)) (use b in simp_all)
  with assms show ?thesis by (auto simp: ip_inv_def)
qed

section \<open>Publishing an element\<close>

text \<open>\<open>ip_ready\<close>: as the invariant, and the block for the tail is there.\<close>

definition ip_ready :: "nat \<Rightarrow> nat \<Rightarrow> (nat \<Rightarrow> addr) \<Rightarrow> 'a list \<Rightarrow> iproducer \<Rightarrow> 'a pool \<Rightarrow> bool" where
  "ip_ready H T A xs p q \<longleftrightarrow>
     headIndex p = of_nat H \<and> tailIndex p = of_nat T \<and> T = H + length xs \<and>
     (T div 32 + 1) * 32 < H + 2 ^ 63 \<and>
     dequeueOptimisticCount p - dequeueOvercommit p = of_nat H \<and>
     inj_on A (live H (Suc T)) \<and>
     (\<forall>k \<in> live H (Suc T). \<exists>b. blocks q (A k) = Some b \<and> block_holds H T xs k b) \<and>
     tailBlock p = Some (A (T div 32)) \<and>
     blockIndex p \<noteq> None \<and> bidx_inv (H div 32) (T div 32 + 1) A p"

lemma next_block: "(Suc T + 31) div 32 = T div 32 + 1"
  using div_add_self2 [of 32 T] by simp

lemma live_Suc: "live H (Suc T) = {H div 32 ..< T div 32 + 1}"
  by (simp only: live_def next_block)

lemma ready_of_inv:
  assumes "ip_inv H T A xs p q" "T mod 32 \<noteq> 0"
  shows "ip_ready H T A xs p q" "live H T = live H (Suc T)"
proof -
  have e: "(T + 31) div 32 = T div 32 + 1" using assms(2) by (simp add: div_ceiling_32)
  show live: "live H T = live H (Suc T)" by (simp only: live_def next_block e)
  have "blockIndex p \<noteq> None" using assms by (auto simp: ip_inv_def split: if_splits)
  with assms show "ip_ready H T A xs p q"
    unfolding ip_inv_def ip_ready_def e live by (elim conjE, intro conjI) simp_all
qed

lemma same_block_offset: "i div 32 = j div 32 \<Longrightarrow> i mod 32 = j mod 32 \<Longrightarrow> i = (j :: nat)"
  by (metis div_mult_mod_eq)

lemma block_holds_publish:
  assumes "block_holds H T xs k b" "T = H + length xs" "wf_block b"
  shows "k = T div 32 \<Longrightarrow> block_holds H (Suc T) (xs @ [x]) k (write_slot (of_nat T) (Some x) b)"
    and "k \<noteq> T div 32 \<Longrightarrow> block_holds H (Suc T) (xs @ [x]) k b"
proof -
  have old: "elements b ! (i mod 32) = Some ((xs @ [x]) ! (i - H))" if "H \<le> i" "i < T" "i div 32 = k" for i
    using assms that by (auto simp: block_holds_def nth_append)
  have len: "length (elements b) = 32" using assms(3) by (simp add: wf_block_def)
  have el: "elements (write_slot (of_nat T) (Some x) b) ! (i mod 32) = Some ((xs @ [x]) ! (i - H))"
    if "H \<le> i" "i < Suc T" "i div 32 = k" "k = T div 32" for i
  proof (cases "i = T")
    case True
    moreover have "(xs @ [x]) ! (T - H) = x" using assms(2) by simp
    ultimately show ?thesis using len by (simp only: write_slot_def block_offset_of_nat) simp
  next
    case False
    then have "i mod 32 \<noteq> T mod 32" using that same_block_offset [of i T] by auto
    with False that old [of i] show ?thesis by (simp add: write_slot_def block_offset_of_nat)
  qed
  then show "k = T div 32 \<Longrightarrow> block_holds H (Suc T) (xs @ [x]) k (write_slot (of_nat T) (Some x) b)"
    using assms(1) by (simp add: block_holds_def write_slot_def)
  show "k \<noteq> T div 32 \<Longrightarrow> block_holds H (Suc T) (xs @ [x]) k b"
    using assms(1) old by (auto simp: block_holds_def less_Suc_eq)
qed

lemma ip_publish_spec:
  assumes "ip_ready H T A xs p q" "pool_inv U F q" "A ` live H (Suc T) \<subseteq> U"
  shows "\<exists>p' q'. ip_publish (of_nat T) x p q = Some (True, p', q') \<and>
    ip_inv H (Suc T) A (xs @ [x]) p' q' \<and> pool_inv U F q' \<and>
    (\<forall>a. a \<notin> A ` live H (Suc T) \<longrightarrow> blocks q' a = blocks q a) \<and> mem q' = mem q"
proof -
  let ?k = "T div 32" and ?w = "write_slot (of_nat T) (Some x)"
  from assms(1) have r: "T = H + length xs" "tailBlock p = Some (A ?k)" "inj_on A (live H (Suc T))"
    "blockIndex p \<noteq> None"
    by (auto simp: ip_ready_def)
  have k: "?k \<in> live H (Suc T)" using r(1) by (auto simp: live_Suc div_le_mono)
  then have "A ?k \<in> U" using assms(3) by blast
  from pool_inv_update [OF assms(2) this, of ?w] obtain q' where q': "update_block (A ?k) ?w q = Some q'"
    "pool_inv U F q'" "blocks q' = (blocks q)(A ?k := map_option ?w (blocks q (A ?k)))"
    by (auto simp: wf_block_def write_slot_def)
  have mem: "mem q' = mem q" using q'(1) by (auto simp: update_block_def split: option.splits)
  let ?p = "p\<lparr>tailIndex := 1 + of_nat T\<rparr>"
  have holds: "\<exists>b. blocks q' (A k) = Some b \<and> block_holds H (Suc T) (xs @ [x]) k b"
    if k': "k \<in> live H (Suc T)" for k
  proof -
    from assms(1) k' obtain b where b: "blocks q (A k) = Some b" "block_holds H T xs k b"
      by (auto simp: ip_ready_def)
    have "wf_block b" using assms(2) b(1) by (auto simp: pool_inv_def)
    note pub = block_holds_publish [OF b(2) r(1) this]
    show ?thesis
    proof (cases "k = ?k")
      case True
      with pub(1) b q'(3) show ?thesis by simp
    next
      case False
      then have "A k \<noteq> A ?k" using r(3) k k' by (auto dest: inj_onD)
      with pub(2) [OF False] b q'(3) show ?thesis by simp
    qed
  qed
  have idx: "bidx_inv (H div 32) (?k + 1) A ?p"
  proof (rule bidx_inv_cong)
    show "bidx_inv (H div 32) (?k + 1) A p" using assms(1) unfolding ip_ready_def by (elim conjE)
  qed simp_all
  have "ip_inv H (Suc T) A (xs @ [x]) ?p q'"
    unfolding ip_inv_def
  proof (intro conjI)
    show "(Suc T + 31) div 32 * 32 < H + 2 ^ 63"
      unfolding next_block using assms(1) by (auto simp: ip_ready_def)
    show "Suc T mod 32 \<noteq> 0 \<longrightarrow> tailBlock ?p = Some (A (Suc T div 32))"
      using r(2) by (simp add: div_Suc)
    show "\<forall>k \<in> live H (Suc T). \<exists>b. blocks q' (A k) = Some b \<and> block_holds H (Suc T) (xs @ [x]) k b"
      using holds by simp
    show "if blockIndex ?p = None then H = 0 \<and> Suc T = 0
        else bidx_inv (H div 32) ((Suc T + 31) div 32) A ?p"
      unfolding next_block using idx r(4) by simp
  qed (use assms(1) in \<open>auto simp: ip_ready_def\<close>)
  with q' r mem show ?thesis
    by (intro exI [of _ ?p] exI [of _ q']) (use k in \<open>auto simp: ip_publish_def\<close>)
qed

section \<open>Enqueue\<close>

lemma subqueue_full_iff:
  assumes "H \<le> T" "T - H < 2 ^ 63"
  shows "subqueue_full (of_nat T) (of_nat H) \<longleftrightarrow> H + 2 ^ 63 \<le> T + 32"
proof -
  have "(of_nat T + of_nat BLOCK_SIZE :: index_t) = of_nat (T + 32)" by (simp add: BLOCK_SIZE_def)
  moreover have "unat (of_nat (T + 32) - of_nat H :: index_t) = T + 32 - H"
    by (rule unat_of_nat_diff) (use assms in simp_all)
  ultimately show ?thesis
    using assms by (auto simp: subqueue_full_def circular_less_than_iff MAX_SUBQUEUE_SIZE_unbounded
        simp del: of_nat_add)
qed

text \<open>The owned blocks before and after: \<open>U\<close> loses the old blocks of the producer and gains the new.\<close>

definition reown :: "addr set \<Rightarrow> addr set \<Rightarrow> addr set \<Rightarrow> addr set" where
  "reown U old new = (U - old) \<union> new"

lemma ready_of_new_block:
  assumes inv: "ip_inv H T A xs p q" and T: "T mod 32 = 0" "T + 32 < H + 2 ^ 63"
    and own: "A ` live H T \<subseteq> U" and a: "a \<notin> U"
    and keep: "\<forall>x \<in> U. blocks q' x = blocks q x"
    and blk: "blocks q' a = Some b" "elementsCompletelyDequeued b = 0"
    and idx: "bidx_inv (H div 32) (T div 32 + 1) (A(T div 32 := a)) p'" "blockIndex p' \<noteq> None"
    and frame: "headIndex p' = headIndex p" "tailIndex p' = tailIndex p" "tailBlock p' = Some a"
      "dequeueOptimisticCount p' = dequeueOptimisticCount p" "dequeueOvercommit p' = dequeueOvercommit p"
  shows "ip_ready H T (A(T div 32 := a)) xs p' q'"
proof -
  let ?k = "T div 32" and ?A = "A(T div 32 := a)"
  have e: "(T + 31) div 32 = ?k" using T(1) by (simp add: div_ceiling_32)
  have HT: "H \<le> T" using ip_bounds [OF inv] by simp
  have k: "?k \<notin> live H T" by (simp add: live_def e)
  have live: "live H (Suc T) = insert ?k (live H T)"
    using HT by (auto simp: live_Suc live_def e div_le_mono)
  have "inj_on ?A (live H (Suc T))"
    unfolding live using inv own a k by (auto simp: ip_inv_def inj_on_def)
  moreover have "\<exists>b. blocks q' (?A k) = Some b \<and> block_holds H T xs k b" if k': "k \<in> live H (Suc T)" for k
  proof (cases "k = ?k")
    case True
    have "\<not> (i < T \<and> i div 32 = ?k)" for i
      using T(1) by (metis div_mult_mod_eq add.right_neutral less_mult_imp_div_less mult.commute nat_less_le)
    moreover have "?k = H div 32 \<Longrightarrow> H mod 32 = 0"
      using T(1) HT by (metis div_mult_mod_eq add.right_neutral le_add1 le_antisym add_left_cancel)
    ultimately have "block_holds H T xs ?k b" using blk(2) by (auto simp: block_holds_def)
    with True blk(1) show ?thesis by simp
  next
    case False
    with k' have "k \<in> live H T" by (simp add: live)
    with inv obtain b where b: "blocks q (A k) = Some b" "block_holds H T xs k b"
      by (auto simp: ip_inv_def)
    with own \<open>k \<in> live H T\<close> keep have "blocks q' (A k) = Some b" by auto
    with b(2) False show ?thesis by simp
  qed
  ultimately show ?thesis
    using inv T idx frame unfolding ip_ready_def by (auto simp: ip_inv_def)
qed

lemma mem_nonempty: "only_mem q q' \<Longrightarrow> (case mem q of [] \<Rightarrow> mem q' = [] | _ \<Rightarrow> True) \<Longrightarrow> mem q' \<noteq> [] \<Longrightarrow> mem q \<noteq> []"
  by (auto split: list.splits)

lemma insert_mem_nil:
  assumes "insert_block_index_entry m b p q = (r, p', q')" "mem q = []"
  shows "mem q' = []"
  using assms by (auto simp: insert_block_index_entry_def new_block_index_def malloc_def claim_entry_def Let_def
      split: option.splits if_splits prod.splits list.splits bool.splits)

definition may_refuse :: "alloc_mode \<Rightarrow> nat \<Rightarrow> nat \<Rightarrow> iproducer \<Rightarrow> 'a pool \<Rightarrow> bool" where
  "may_refuse m H T p q \<longleftrightarrow> T mod 32 = 0 \<and>
     (H + 2 ^ 63 \<le> T + 32 \<or> blockIndex p = None \<or> m = CannotAlloc \<or> mem q \<noteq> [])"

lemma ip_inv_index_change:
  assumes "ip_inv H T A xs p q" "index_frame p p'" "blockIndex p' \<noteq> None"
    "bidx_inv (H div 32) ((T + 31) div 32) A p'" "\<And>k. k \<in> live H T \<Longrightarrow> blocks q' (A k) = blocks q (A k)"
  shows "ip_inv H T A xs p' q'"
  using assms unfolding ip_inv_def index_frame_def by (auto split: if_splits)

lemma ip_enqueue_spec:
  assumes inv: "ip_inv H T A xs p q" and pool: "pool_inv U F q" and own: "A ` live H T \<subseteq> U"
  shows "\<exists>ok p' q' F' A'. ip_enqueue m x p q = Some (ok, p', q') \<and>
    (if ok then ip_inv H (Suc T) A' (xs @ [x]) p' q' \<and> A' ` live H (Suc T) \<inter> (U - A ` live H T) = {} \<and>
         pool_inv (reown U (A ` live H T) (A' ` live H (Suc T))) F' q'
     else ip_inv H T A xs p' q' \<and> pool_inv U F' q' \<and> may_refuse m H T p q) \<and>
    (\<forall>a \<in> U - A ` live H T. blocks q' a = blocks q a)"
proof (cases "T mod 32 = 0")
  case False
  note ready = ready_of_inv [OF inv False]
  from ip_publish_spec [OF ready(1) pool] own ready(2) obtain p' q' where
    pub: "ip_publish (of_nat T) x p q = Some (True, p', q')" "ip_inv H (Suc T) A (xs @ [x]) p' q'"
    "pool_inv U F q'" "\<forall>a. a \<notin> A ` live H (Suc T) \<longrightarrow> blocks q' a = blocks q a"
    by metis
  have "tailIndex p = of_nat T" using inv by (simp add: ip_inv_def)
  then have "ip_enqueue m x p q = Some (True, p', q')"
    using pub(1) False by (simp add: ip_enqueue_def Let_def block_offset_of_nat)
  moreover have "reown U (A ` live H T) (A ` live H (Suc T)) = U"
    using own ready(2) by (auto simp: reown_def)
  ultimately show ?thesis
    using pub ready(2) by (intro exI [of _ True] exI [of _ p'] exI [of _ q'] exI [of _ F] exI [of _ A]) auto
next
  case True
  let ?k = "T div 32"
  note b = ip_bounds [OF inv]
  have e: "(T + 31) div 32 = ?k" using True by (simp add: div_ceiling_32)
  have "32 * ?k = T" using True by presburger
  then have T32: "of_nat T = (of_nat (32 * ?k) :: index_t)" by (simp only:)
  have fields: "tailIndex p = of_nat T" "headIndex p = of_nat H" using inv by (simp_all add: ip_inv_def)
  have full: "subqueue_full (of_nat T) (of_nat H) \<longleftrightarrow> H + 2 ^ 63 \<le> T + 32"
    using b by (intro subqueue_full_iff) simp_all
  show ?thesis
  proof (cases "H + 2 ^ 63 \<le> T + 32")
    case is_full: True
    then have "ip_enqueue m x p q = Some (False, p, q)"
      using True full by (simp add: ip_enqueue_def Let_def fields block_offset_of_nat)
    with inv pool True is_full show ?thesis
      by (intro exI [of _ False] exI [of _ p] exI [of _ q] exI [of _ F]) (auto simp: may_refuse_def)
  next
    case room: False
    obtain r p1 q1 where ins: "insert_block_index_entry m (of_nat T) p q = (r, p1, q1)"
      by (metis prod_cases3)
    have enq: "ip_enqueue m x p q = (case (r, p1, q1) of
            (None, p1, q1) \<Rightarrow> Some (False, p1, q1)
          | (Some idxEntry, p1, q1) \<Rightarrow>
              (case requisition_block m q1 of
                 None \<Rightarrow> None
               | Some (None, q2) \<Rightarrow>
                   Some (False, set_value idxEntry Null (rewind_block_index_tail p1), q2)
               | Some (Some newBlock, q2) \<Rightarrow>
                   (case update_block newBlock (reset_empty implicit_context) q2 of
                      None \<Rightarrow> None
                    | Some q3 \<Rightarrow>
                        ip_publish (of_nat T) x
                          ((set_value idxEntry (Ptr newBlock) p1)\<lparr>tailBlock := Some newBlock\<rparr>) q3)))"
      using True room full ins by (simp add: ip_enqueue_def Let_def fields block_offset_of_nat)
    show ?thesis
    proof (cases "blockIndex p")
      case None
      then have "r = None" "p1 = p" "q1 = q" using ins by (auto simp: insert_block_index_entry_def)
      with enq inv pool True None show ?thesis
        by (intro exI [of _ False] exI [of _ p] exI [of _ q] exI [of _ F]) (auto simp: may_refuse_def)
    next
      case (Some h)
      then have idx: "bidx_inv (H div 32) ?k A p" using inv unfolding ip_inv_def e by auto
      have bound: "?k - H div 32 \<le> 2 ^ 58"
        using live_bound [of H T] inv b unfolding ip_inv_def e by auto
      note spec = insert_block_index_entry_spec [OF idx bound ins [unfolded T32]]
      then have fr: "index_frame p p1" and om: "only_mem q q1" by simp_all
      have pool1: "pool_inv U F q1" using pool by (simp add: pool_inv_mem [OF om])
      note bl1 = only_mem_blocks [OF om]
      show ?thesis
      proof (cases r)
        case None
        with spec have "p1 = p" "m = CannotAlloc \<or> mem q \<noteq> []" by simp_all
        with enq None inv pool1 bl1 True show ?thesis
          by (intro exI [of _ False] exI [of _ p] exI [of _ q1] exI [of _ F])
            (auto simp: may_refuse_def ip_inv_def)
      next
        case ent: (Some e)
        with spec have insd: "inserted (H div 32) ?k A e p1" by simp
        obtain r2 q2 F2 where req: "requisition_block m q1 = Some (r2, q2)" "set F2 \<subseteq> set F"
          "\<forall>y \<in> U. blocks q2 y = blocks q1 y"
          "case r2 of None \<Rightarrow> pool_inv U F2 q2 \<and> (m = CannotAlloc \<or> mem q1 \<noteq> [])
             | Some a \<Rightarrow> a \<notin> U \<and> pool_inv (insert a U) F2 q2"
          using requisition_block_spec [OF pool1, of m] by blast
        show ?thesis
        proof (cases r2)
          case None
          let ?p = "set_value e Null (rewind_block_index_tail p1)"
          have "bidx_inv (H div 32) ?k A ?p" using insd by (simp add: inserted_def)
          moreover from this have "blockIndex ?p \<noteq> None" by (auto simp: bidx_inv_def table_inv_def)
          moreover have "index_frame p ?p"
            using fr by (simp add: index_frame_def set_value_def rewind_block_index_tail_def)
          ultimately have "ip_inv H T A xs ?p q2"
            using ip_inv_index_change [OF inv, of ?p q2] own req(3) bl1 by (auto simp: e)
          moreover have "mem q \<noteq> []" if "mem q1 \<noteq> []" using insert_mem_nil [OF ins] that by auto
          ultimately show ?thesis
            using enq ent None req True bl1
            by (intro exI [of _ False] exI [of _ ?p] exI [of _ q2] exI [of _ F2]) (auto simp: may_refuse_def)
        next
          case blk: (Some a)
          with req(4) have a: "a \<notin> U" "pool_inv (insert a U) F2 q2" by simp_all
          from pool_inv_update [OF a(2), of a "reset_empty implicit_context"] obtain q3 where
            q3: "update_block a (reset_empty implicit_context) q2 = Some q3" "pool_inv (insert a U) F2 q3"
              "blocks q3 = (blocks q2)(a := map_option (reset_empty implicit_context) (blocks q2 a))"
            by (auto simp: reset_empty_def wf_block_def)
          obtain b0 where b0: "blocks q2 a = Some b0" using pool_inv_owned [OF a(2), of a] by auto
          let ?p = "(set_value e (Ptr a) p1)\<lparr>tailBlock := Some a\<rparr>" and ?A = "A(?k := a)"
          have idx': "bidx_inv (H div 32) (?k + 1) ?A ?p"
            using insd by (auto simp: inserted_def intro: bidx_inv_cong [where p = "set_value e (Ptr a) p1"])
          have "ip_ready H T ?A xs ?p q3"
          proof (rule ready_of_new_block [OF inv True _ own a(1) _ _ _ idx'])
            show "T + 32 < H + 2 ^ 63" using room by simp
            show "\<forall>y \<in> U. blocks q3 y = blocks q y" using req(3) a(1) bl1 by (auto simp: q3(3))
            show "blocks q3 a = Some (reset_empty implicit_context b0)" by (simp add: q3(3) b0)
            show "blockIndex ?p \<noteq> None" using idx' by (auto simp: bidx_inv_def table_inv_def)
          qed (use fr in \<open>simp_all add: index_frame_def set_value_def reset_empty_def\<close>)
          moreover have new: "?A ` live H (Suc T) = insert a (A ` live H T)"
          proof -
            have "live H (Suc T) = insert ?k (live H T)" "?k \<notin> live H T"
              using b(1) by (auto simp: live_Suc live_def e div_le_mono)
            then show ?thesis by auto
          qed
          ultimately obtain p' q' where
            pub: "ip_publish (of_nat T) x ?p q3 = Some (True, p', q')" "ip_inv H (Suc T) ?A (xs @ [x]) p' q'"
              "pool_inv (insert a U) F2 q'" "\<forall>y. y \<notin> insert a (A ` live H T) \<longrightarrow> blocks q' y = blocks q3 y"
            using ip_publish_spec [of H T ?A xs ?p q3 "insert a U" F2 x] q3(2) own by fastforce
          have "reown U (A ` live H T) (?A ` live H (Suc T)) = insert a U"
            unfolding new using own by (auto simp: reown_def)
          moreover have "ip_enqueue m x p q = Some (True, p', q')"
            using enq ent blk req(1) q3(1) pub(1) by simp
          moreover have "blocks q' y = blocks q y" if "y \<in> U - A ` live H T" for y
            using that pub(4) a(1) req(3) bl1 by (auto simp: q3(3))
          ultimately show ?thesis
            using pub a(1) new
            by (intro exI [of _ True] exI [of _ p'] exI [of _ q'] exI [of _ F2] exI [of _ ?A]) auto
        qed
      qed
    qed
  qed
qed

section \<open>Dequeue\<close>

lemma live_tail: "live (Suc H) T = (if H mod 32 = 31 then live H T - {H div 32} else live H T)"
proof -
  have "Suc H div 32 = (if H mod 32 = 31 then Suc (H div 32) else H div 32)" by (simp add: div_Suc mod_Suc)
  then show ?thesis by (auto simp: live_def)
qed

lemma block_holds_take:
  assumes "block_holds H T (y # ys) k b" "H < T" "wf_block b"
  shows "k = H div 32 \<Longrightarrow> H mod 32 \<noteq> 31 \<Longrightarrow>
      block_holds (Suc H) T ys k (snd (set_empty implicit_context (of_nat H) (write_slot (of_nat H) None b)))"
    and "k \<noteq> H div 32 \<Longrightarrow> block_holds (Suc H) T ys k b"
proof -
  have shift: "(y # ys) ! (i - H) = ys ! (i - Suc H)" if "Suc H \<le> i" for i
    using that by (simp add: nth_Cons' Suc_diff_le)
  show "block_holds (Suc H) T ys k (snd (set_empty implicit_context (of_nat H) (write_slot (of_nat H) None b)))"
    if k: "k = H div 32" "H mod 32 \<noteq> 31"
  proof -
    have "(elements b)[H mod 32 := None] ! (i mod 32) = Some (ys ! (i - Suc H))"
      if i: "Suc H \<le> i" "i < T" "i div 32 = k" for i
    proof -
      have "i mod 32 \<noteq> H mod 32" using i k same_block_offset [of i H] by auto
      then have "(elements b)[H mod 32 := None] ! (i mod 32) = elements b ! (i mod 32)" by simp
      also have "\<dots> = Some ((y # ys) ! (i - H))" using assms(1) i by (simp add: block_holds_def)
      finally show ?thesis by (simp only: shift [OF i(1)])
    qed
    moreover have "Suc H div 32 = H div 32" "Suc H mod 32 = Suc (H mod 32)" using k(2) by (simp_all add: div_Suc mod_Suc)
    ultimately show ?thesis using assms k
      by (auto simp: block_holds_def set_empty_def write_slot_def block_offset_of_nat)
  qed
  show "block_holds (Suc H) T ys k b" if k: "k \<noteq> H div 32"
  proof -
    have "k = Suc H div 32 \<Longrightarrow> Suc H mod 32 = 0" using k by (auto simp: div_Suc split: if_splits)
    with assms k show ?thesis by (auto simp: block_holds_def shift)
  qed
qed

lemma ip_dequeue_empty:
  "ip_inv H T A [] p q \<Longrightarrow> ip_dequeue p q = Some (None, p, q)"
  using may_dequeue [of H T A "[]" p q] by (simp add: ip_dequeue_def Let_def)

lemma ip_take_spec:
  assumes inv: "ip_inv H T A (y # ys) p0 q" and p: "bentries p = bentries p0" "blockIndex p = blockIndex p0"
      "nextBlockIndexCapacity p = nextBlockIndexCapacity p0"
    and pool: "pool_inv U F q" and own: "A ` live H T \<subseteq> U"
  shows "\<exists>p' q' F'. ip_take (of_nat H) p q = Some (y, p', q') \<and> index_frame p p' \<and> blockIndex p' \<noteq> None \<and>
    bidx_inv (Suc H div 32) ((T + 31) div 32) A p' \<and>
    (\<forall>k \<in> live (Suc H) T. \<exists>b. blocks q' (A k) = Some b \<and> block_holds (Suc H) T ys k b) \<and>
    pool_inv (reown U (A ` live H T) (A ` live (Suc H) T)) F' q' \<and>
    (\<forall>a \<in> U - A ` live H T. blocks q' a = blocks q a)"
proof -
  let ?k = "H div 32" and ?hi = "(T + 31) div 32"
  have HT: "H < T" and inj: "inj_on A (live H T)" using inv by (auto simp: ip_inv_def)
  have k: "?k \<in> live H T" using mem_live [of H H T] HT by simp
  have idx: "bidx_inv ?k ?hi A p"
  proof (rule bidx_inv_cong)
    show "bidx_inv ?k ?hi A p0" using inv HT unfolding ip_inv_def by (auto split: if_splits)
  qed (simp_all add: p)
  have bound: "?hi - ?k \<le> 2 ^ 58"
    using live_bound [of H T] HT inv unfolding ip_inv_def by auto
  obtain e where e: "get_block_index_entry_for_index (of_nat H) p = Some e"
      "bentries p ! e = \<lparr>bkey = of_nat (32 * ?k), bvalue = Ptr (A ?k)\<rparr>"
      "bidx_inv (Suc ?k) ?hi A (set_value e Null p)"
    using get_entry_spec [OF idx bound, of H] k by (auto simp: live_def)
  from inv k obtain b where b: "blocks q (A ?k) = Some b" "block_holds H T (y # ys) ?k b"
    by (auto simp: ip_inv_def)
  have wf: "wf_block b" using pool b(1) by (auto simp: pool_inv_def)
  have sl: "slot b (of_nat H) = Some y"
    using b(2) HT by (auto simp: block_holds_def slot_def block_offset_of_nat)
  have cnt: "elementsCompletelyDequeued b = H mod 32" using b(2) by (simp add: block_holds_def)
  define f where "f = (\<lambda>b :: 'a block. snd (set_empty implicit_context (of_nat H) (write_slot (of_nat H) None b)))"
  have f: "set_empty implicit_context (of_nat H) (write_slot (of_nat H) None b) = (H mod 32 = 31, f b)"
    by (simp add: f_def set_empty_def write_slot_def cnt BLOCK_SIZE_def)
  let ?q1 = "q\<lparr>blocks := (blocks q)(A ?k := Some (f b))\<rparr>"
  have Ak: "A ?k \<in> U" using own k by auto
  have q1: "update_block (A ?k) f q = Some ?q1" by (simp add: update_block_def b(1))
  moreover have "\<exists>q'. update_block (A ?k) f q = Some q' \<and> pool_inv U F q' \<and>
      blocks q' = (blocks q)(A ?k := map_option f (blocks q (A ?k)))"
    by (rule pool_inv_update [OF pool Ak]) (simp_all add: f_def set_empty_def write_slot_def wf_block_def)
  ultimately have pool1: "pool_inv U F ?q1" using b(1) by simp
  have other: "A k \<noteq> A ?k" if "k \<in> live H T" "k \<noteq> ?k" for k
    using inj_onD [OF inj, of k ?k] that k by auto
  have take: "ip_take (of_nat H) p q =
      (if H mod 32 = 31 then map_option (\<lambda>q2. (y, set_value e Null p, q2)) (add_block_to_free_list (A ?k) ?q1)
       else Some (y, p, ?q1))"
    by (simp add: ip_take_def e b(1) sl f Let_def)
  have bi: "blockIndex p \<noteq> None" using idx by (auto simp: bidx_inv_def table_inv_def)
  have holds: "\<exists>b'. blocks q (A k) = Some b' \<and> block_holds (Suc H) T ys k b'" if "k \<in> live H T" "k \<noteq> ?k" for k
  proof -
    from inv that obtain b' where b': "blocks q (A k) = Some b'" "block_holds H T (y # ys) k b'"
      by (auto simp: ip_inv_def)
    moreover have "wf_block b'" using pool b'(1) by (auto simp: pool_inv_def)
    ultimately show ?thesis using block_holds_take(2) [OF b'(2) HT _ that(2)] by auto
  qed
  show ?thesis
  proof (cases "H mod 32 = 31")
    case True
    have lv: "live (Suc H) T = live H T - {?k}" by (simp add: live_tail True)
    from add_block_to_free_list_spec [OF pool1 Ak] obtain q2 F2 where
      add: "add_block_to_free_list (A ?k) ?q1 = Some q2" "pool_inv (U - {A ?k}) F2 q2"
        "\<forall>x. x \<noteq> A ?k \<longrightarrow> blocks q2 x = blocks ?q1 x" by blast
    have "A ` live (Suc H) T = A ` live H T - {A ?k}" unfolding lv using other by auto
    then have "reown U (A ` live H T) (A ` live (Suc H) T) = U - {A ?k}"
      using own k by (auto simp: reown_def)
    moreover have "Suc H div 32 = Suc ?k" using True by (simp add: div_Suc mod_Suc)
    moreover have "index_frame p (set_value e Null p)" by (simp add: index_frame_def set_value_def)
    moreover have "blockIndex (set_value e Null p) \<noteq> None" using bi by (simp add: set_value_def)
    moreover have "\<exists>b. blocks q2 (A k) = Some b \<and> block_holds (Suc H) T ys k b" if "k \<in> live (Suc H) T" for k
      using that holds [of k] other [of k] add(3) by (auto simp: lv)
    ultimately show ?thesis
      using take True add e(3) k
      by (intro exI [of _ "set_value e Null p"] exI [of _ q2] exI [of _ F2]) auto
  next
    case False
    have lv: "live (Suc H) T = live H T" by (simp add: live_tail False)
    have "\<exists>b. blocks ?q1 (A k) = Some b \<and> block_holds (Suc H) T ys k b" if "k \<in> live H T" for k
    proof (cases "k = ?k")
      case True
      with block_holds_take(1) [OF b(2) HT wf] False show ?thesis by (simp add: f_def)
    next
      case False
      with holds [OF that False] other [OF that False] show ?thesis by simp
    qed
    moreover have "reown U (A ` live H T) (A ` live H T) = U" using own by (auto simp: reown_def)
    moreover have "Suc H div 32 = ?k" using False by (simp add: div_Suc mod_Suc)
    ultimately show ?thesis
      using take False idx bi pool1 k lv
      by (intro exI [of _ p] exI [of _ ?q1] exI [of _ F]) (auto simp: index_frame_def)
  qed
qed

lemma ip_dequeue_spec:
  assumes inv: "ip_inv H T A (y # ys) p q" and pool: "pool_inv U F q" and own: "A ` live H T \<subseteq> U"
  shows "\<exists>p' q' F'. ip_dequeue p q = Some (Some y, p', q') \<and> ip_inv (Suc H) T A ys p' q' \<and>
    pool_inv (reown U (A ` live H T) (A ` live (Suc H) T)) F' q' \<and>
    (\<forall>a \<in> U - A ` live H T. blocks q' a = blocks q a)"
proof -
  define p2 where "p2 = p\<lparr>dequeueOptimisticCount := dequeueOptimisticCount p + 1, headIndex := headIndex p + 1\<rparr>"
  have fields: "headIndex p = of_nat H" using inv by (simp add: ip_inv_def)
  obtain p' q' F' where take: "ip_take (of_nat H) p2 q = Some (y, p', q')" "index_frame p2 p'"
      "blockIndex p' \<noteq> None" "bidx_inv (Suc H div 32) ((T + 31) div 32) A p'"
      "\<forall>k \<in> live (Suc H) T. \<exists>b. blocks q' (A k) = Some b \<and> block_holds (Suc H) T ys k b"
      "pool_inv (reown U (A ` live H T) (A ` live (Suc H) T)) F' q'"
      "\<forall>a \<in> U - A ` live H T. blocks q' a = blocks q a"
    using ip_take_spec [OF inv _ _ _ pool own, of p2] by (auto simp: p2_def)
  have "ip_dequeue p q = Some (Some y, p', q')"
    using may_dequeue [OF inv] take(1) by (simp add: ip_dequeue_def Let_def fields p2_def)
  moreover have "ip_inv (Suc H) T A ys p' q'"
    unfolding ip_inv_def
  proof (intro conjI)
    show "headIndex p' = of_nat (Suc H)" "tailIndex p' = of_nat T"
      "dequeueOptimisticCount p' - dequeueOvercommit p' = of_nat (Suc H)"
      using take(2) inv by (auto simp: index_frame_def p2_def ip_inv_def algebra_simps)
    show "T = Suc H + length ys" "(T + 31) div 32 * 32 < Suc H + 2 ^ 63" using inv by (auto simp: ip_inv_def)
    show "inj_on A (live (Suc H) T)"
      using inv by (auto simp: ip_inv_def live_tail intro: inj_on_subset)
    show "T mod 32 \<noteq> 0 \<longrightarrow> tailBlock p' = Some (A (T div 32))"
      using take(2) inv by (auto simp: index_frame_def p2_def ip_inv_def)
    show "if blockIndex p' = None then Suc H = 0 \<and> T = 0 else bidx_inv (Suc H div 32) ((T + 31) div 32) A p'"
      using take(3,4) by simp
  qed (rule take(5))
  ultimately show ?thesis using take by blast
qed

section \<open>Construction\<close>

lemma ImplicitProducer_new_spec:
  assumes "ImplicitProducer_new q = (p, q')"
  shows "ip_inv 0 0 A [] p q'" "only_mem q q'" "mem q = [] \<Longrightarrow> blockIndex p \<noteq> None \<and> mem q' = []"
proof -
  define p0 where "p0 = \<lparr>tailIndex = 0, headIndex = 0, dequeueOptimisticCount = 0, dequeueOvercommit = 0,
      tailBlock = None, nextBlockIndexCapacity = of_nat IMPLICIT_INITIAL_INDEX_SIZE,
      bentries = [], blockIndex = None\<rparr>"
  obtain ok where new: "new_block_index p0 q = (ok, p, q')"
    using assms by (auto simp: ImplicitProducer_new_def Let_def p0_def split: prod.splits)
  have c: "blockIndex p0 = None" "nextBlockIndexCapacity p0 = 2 ^ 5" "(5 :: nat) < 59"
    by (simp_all add: p0_def IMPLICIT_INITIAL_INDEX_SIZE_def)
  show "only_mem q q'" using new_block_index_pool [OF new] by (simp add: only_mem_def)
  show "ip_inv 0 0 A [] p q'"
  proof (cases ok)
    case True
    with new have "new_block_index p0 q = (True, p, q')" by simp
    note first = new_block_index_first [OF c this]
    have "bidx_inv 0 0 A p" by (rule first(1))
    with first(2) show ?thesis
      by (auto simp: ip_inv_def index_frame_def p0_def live_def)
  next
    case False
    with new new_block_index_fails [of p0 q p q'] have "p = p0" by simp
    then show ?thesis by (auto simp: ip_inv_def p0_def live_def)
  qed
  show "mem q = [] \<Longrightarrow> blockIndex p \<noteq> None \<and> mem q' = []"
    using new by (auto simp: new_block_index_def malloc_def Let_def split: prod.splits)
qed

end
