(* ===== verification/ProducerHash.thy ===== *)
theory ProducerHash
  imports BlockPool
begin

text \<open>
  The hash table from threads to implicit producers of \<^verbatim>\<open>moodycamel::ConcurrentQueue\<close>
  (\<^verbatim>\<open>src/lightning/moodycamel/concurrentqueue.h\<close>): open addressing with linear probing, tables of a
  power of two of slots chained from the newest to the oldest. Key 0 is an empty slot, key 1 the
  slot of a thread that has exited. A slot is filled from a table's first slot on the probe
  sequence that is empty or reusable; an entry found in an older table is copied to the newest one.

  The operations are executed without interference. The result \<open>None\<close> is a probe that never ends,
  in a table without an empty slot; the invariant \<open>hash_inv\<close> excludes it.
\<close>

unbundle bit_operations_syntax

definition invalid_thread_id :: thread_id where "invalid_thread_id = 0"
definition invalid_thread_id2 :: thread_id where "invalid_thread_id2 = 1"

type_synonym hash_table = "(thread_id \<times> nat option) list"

record hash_state =
  tables :: "hash_table list"
  hash_count :: nat

definition empty_table :: "nat \<Rightarrow> hash_table" where
  "empty_table n = replicate n (invalid_thread_id, None)"

definition populate_initial_implicit_producer_hash :: hash_state where
  "populate_initial_implicit_producer_hash =
     \<lparr>tables = [empty_table INITIAL_IMPLICIT_PRODUCER_HASH_SIZE], hash_count = 0\<rparr>"

section \<open>Probing\<close>

datatype probe_result = Found nat | Missing | Spins

definition slot_index :: "hash_table \<Rightarrow> size_t \<Rightarrow> nat" where
  "slot_index t index = unat (index AND (of_nat (length t) - 1))"

text \<open>The probe loop; the fuel is the number of slots, after which the probe would start again.\<close>

fun probe :: "nat \<Rightarrow> thread_id \<Rightarrow> hash_table \<Rightarrow> size_t \<Rightarrow> probe_result" where
  "probe 0 tid t index = Spins"
| "probe (Suc n) tid t index =
     (let i = slot_index t index; probedKey = fst (t ! i)
      in if probedKey = tid then Found i
         else if probedKey = invalid_thread_id then Missing
         else probe n tid t (of_nat i + 1))"

fun claim_slot :: "nat \<Rightarrow> hash_table \<Rightarrow> size_t \<Rightarrow> nat option" where
  "claim_slot 0 t index = None"
| "claim_slot (Suc n) t index =
     (let i = slot_index t index
      in if fst (t ! i) = invalid_thread_id \<or> fst (t ! i) = invalid_thread_id2 then Some i
         else claim_slot n t (of_nat i + 1))"

definition probe_table :: "thread_id \<Rightarrow> hash_table \<Rightarrow> probe_result" where
  "probe_table tid t = probe (length t) tid t (hash_thread_id tid)"

definition store_entry :: "thread_id \<Rightarrow> nat option \<Rightarrow> hash_table \<Rightarrow> hash_table option" where
  "store_entry tid v t =
     map_option (\<lambda>i. t[i := (tid, v)]) (claim_slot (length t) t (hash_thread_id tid))"

section \<open>The operations on the chain of tables\<close>

text \<open>The search of \<open>get_or_add_implicit_producer\<close> through the tables. Found deeper than in the
  newest table, the entry is copied there.\<close>

fun search_tables :: "thread_id \<Rightarrow> hash_table list \<Rightarrow> nat option option option" where
  "search_tables tid [] = Some None"
| "search_tables tid (t # ts) =
     (case probe_table tid t of
        Found i \<Rightarrow> Some (Some (snd (t ! i)))
      | Missing \<Rightarrow> search_tables tid ts
      | Spins \<Rightarrow> None)"

definition find_or_copy :: "thread_id \<Rightarrow> hash_state \<Rightarrow> (nat option option \<times> hash_state) option" where
  "find_or_copy tid s =
     (case tables s of
        [] \<Rightarrow> None
      | mainHash # older \<Rightarrow>
          (case probe_table tid mainHash of
             Found i \<Rightarrow> Some (Some (snd (mainHash ! i)), s)
           | Spins \<Rightarrow> None
           | Missing \<Rightarrow>
               (case search_tables tid older of
                  None \<Rightarrow> None
                | Some None \<Rightarrow> Some (None, s)
                | Some (Some v) \<Rightarrow>
                    map_option (\<lambda>t. (Some v, s\<lparr>tables := t # older\<rparr>)) (store_entry tid v mainHash))))"

text \<open>Doubling until the new count is below half of the capacity (fuel: the count).\<close>

fun grow_capacity :: "nat \<Rightarrow> nat \<Rightarrow> nat \<Rightarrow> nat" where
  "grow_capacity 0 newCount cap = cap"
| "grow_capacity (Suc n) newCount cap =
     (if newCount \<ge> cap div 2 then grow_capacity n newCount (2 * cap) else cap)"

text \<open>The first half of the insertion: count the new entry and make room. \<open>None\<close> stands for a
  failed allocation, with the state it leaves.\<close>

definition reserve_entry :: "hash_state \<Rightarrow> 'a pool \<Rightarrow> bool \<times> hash_state \<times> 'a pool" where
  "reserve_entry s q =
     (let newCount = 1 + hash_count s;
          s1 = s\<lparr>hash_count := newCount\<rparr>;
          cap = length (hd (tables s))
      in if newCount \<ge> cap div 2 then
           (case malloc q of
              (False, q1) \<Rightarrow> (False, s, q1)
            | (True, q1) \<Rightarrow>
                (True, s1\<lparr>tables := empty_table (grow_capacity newCount newCount (2 * cap)) # tables s\<rparr>, q1))
         else (True, s1, q))"

text \<open>The second half: put the producer into the newest table; a reused slot was counted before.\<close>

definition add_entry :: "thread_id \<Rightarrow> nat \<Rightarrow> hash_state \<Rightarrow> hash_state option" where
  "add_entry tid producer s =
     (case tables s of
        [] \<Rightarrow> None
      | t # older \<Rightarrow>
          (case claim_slot (length t) t (hash_thread_id tid) of
             None \<Rightarrow> None
           | Some i \<Rightarrow>
               Some (s\<lparr>tables := t[i := (tid, Some producer)] # older,
                       hash_count := (if fst (t ! i) = invalid_thread_id2 then hash_count s - 1
                                      else hash_count s)\<rparr>)))"

text \<open>\<open>implicit_producer_thread_exited\<close>: the thread's slots of all tables become reusable.\<close>

fun forget_thread :: "thread_id \<Rightarrow> hash_table list \<Rightarrow> hash_table list option" where
  "forget_thread tid [] = Some []"
| "forget_thread tid (t # ts) =
     (case probe_table tid t of
        Spins \<Rightarrow> None
      | Missing \<Rightarrow> map_option ((#) t) (forget_thread tid ts)
      | Found i \<Rightarrow> map_option ((#) (t[i := (invalid_thread_id2, snd (t ! i))])) (forget_thread tid ts))"

section \<open>Probe sequences\<close>

definition probe_seq :: "hash_table \<Rightarrow> size_t \<Rightarrow> nat list" where
  "probe_seq t w = map (\<lambda>j. (unat w + j) mod length t) [0 ..< length t]"

lemma slot_index_mod:
  assumes "length t = 2 ^ c"
  shows "slot_index t w = unat w mod 2 ^ c"
  unfolding slot_index_def assms using unat_and_pow2_minus_one [of w c] by simp

lemma seq_shift:
  "map (\<lambda>j. (a + j) mod m) [0 ..< Suc n] = a mod m # map (\<lambda>j. (a mod m + 1 + j) mod m) [0 ..< n]" for a m :: nat
proof -
  have "(a + Suc j) mod m = (a mod m + 1 + j) mod m" for j
    using mod_add_left_eq [of a m "Suc j"] by simp
  then show ?thesis by (simp add: map_upt_Suc del: upt_Suc)
qed

definition stops :: "thread_id \<Rightarrow> hash_table \<Rightarrow> nat \<Rightarrow> bool" where
  "stops tid t i \<longleftrightarrow> fst (t ! i) = tid \<or> fst (t ! i) = invalid_thread_id"

definition vacant :: "hash_table \<Rightarrow> nat \<Rightarrow> bool" where
  "vacant t i \<longleftrightarrow> fst (t ! i) = invalid_thread_id \<or> fst (t ! i) = invalid_thread_id2"

lemma unat_next_slot:
  assumes "c < 64" "i < 2 ^ c"
  shows "unat (of_nat i + 1 :: size_t) = i + 1"
proof -
  have "(2 :: nat) ^ c \<le> 2 ^ 63" using assms(1) by (intro power_increasing) auto
  then have "i + 1 < 2 ^ 64" using assms(2) by simp
  then have "unat (of_nat (i + 1) :: size_t) = i + 1"
    using unat_of_nat_small [of "i + 1", where 'a = 64] by simp
  moreover have "of_nat i + 1 = (of_nat (i + 1) :: size_t)" by simp
  ultimately show ?thesis by (simp only:)
qed

lemma probe_find:
  assumes "length t = 2 ^ c" "c < 64"
  shows "probe n tid t w =
    (case find (stops tid t) (map (\<lambda>j. (unat w + j) mod 2 ^ c) [0 ..< n]) of
       None \<Rightarrow> Spins | Some i \<Rightarrow> if fst (t ! i) = tid then Found i else Missing)"
proof (induction n arbitrary: w)
  case (Suc n)
  let ?i = "unat w mod 2 ^ c"
  have "unat (of_nat ?i + 1 :: size_t) = ?i + 1" by (rule unat_next_slot [OF assms(2)]) simp
  with Suc [of "of_nat ?i + 1"] show ?case
    unfolding seq_shift by (simp add: slot_index_mod [OF assms(1)] stops_def Let_def)
qed simp

lemma claim_find:
  assumes "length t = 2 ^ c" "c < 64"
  shows "claim_slot n t w = find (vacant t) (map (\<lambda>j. (unat w + j) mod 2 ^ c) [0 ..< n])"
proof (induction n arbitrary: w)
  case (Suc n)
  let ?i = "unat w mod 2 ^ c"
  have "unat (of_nat ?i + 1 :: size_t) = ?i + 1" by (rule unat_next_slot [OF assms(2)]) simp
  with Suc [of "of_nat ?i + 1"] show ?case
    unfolding seq_shift by (simp add: slot_index_mod [OF assms(1)] vacant_def Let_def)
qed simp

lemma set_probe_seq: "t \<noteq> [] \<Longrightarrow> set (probe_seq t w) = {..< length t}"
proof -
  assume "t \<noteq> []"
  then have m: "0 < length t" by simp
  have "i \<in> (\<lambda>j. (unat w + j) mod length t) ` {..< length t}" if i: "i < length t" for i
  proof -
    define r where "r = unat w mod length t"
    have r: "r < length t" using m by (simp add: r_def)
    let ?j = "(i + (length t - r)) mod length t"
    have "(unat w + ?j) mod length t = (r + (i + (length t - r))) mod length t"
      unfolding r_def by (simp only: mod_add_right_eq mod_add_left_eq)
    also have "r + (i + (length t - r)) = i + length t" using r by simp
    finally have "(unat w + ?j) mod length t = i" using i by simp
    then show ?thesis using m by (metis image_eqI lessThan_iff mod_less_divisor)
  qed
  then show ?thesis using m by (auto simp: probe_seq_def atLeast0LessThan)
qed

lemma find_split: "find P xs = Some x \<longleftrightarrow> (\<exists>us vs. xs = us @ x # vs \<and> P x \<and> (\<forall>u \<in> set us. \<not> P u))"
proof (induction xs)
  case (Cons y ys)
  show ?case
  proof (cases "P y")
    case True
    then show ?thesis by (auto simp: Cons_eq_append_conv)
  next
    case False
    with Cons show ?thesis
      by (auto simp: Cons_eq_append_conv) (metis append_Cons set_ConsD)+
  qed
qed simp

section \<open>One table\<close>

definition valid_id :: "thread_id \<Rightarrow> bool" where
  "valid_id tid \<longleftrightarrow> tid \<noteq> invalid_thread_id \<and> tid \<noteq> invalid_thread_id2"

definition table_ok :: "hash_table \<Rightarrow> bool" where
  "table_ok t \<longleftrightarrow> (\<exists>c < 64. length t = 2 ^ c) \<and> (\<exists>i < length t. fst (t ! i) = invalid_thread_id) \<and>
     (\<forall>i < length t. \<not> vacant t i \<longrightarrow>
        find (stops (fst (t ! i)) t) (probe_seq t (hash_thread_id (fst (t ! i)))) = Some i)"

definition table_lookup :: "hash_table \<Rightarrow> thread_id \<Rightarrow> nat option option" where
  "table_lookup t tid =
     (case find (\<lambda>e. fst e = tid) t of None \<Rightarrow> None | Some e \<Rightarrow> Some (snd e))"

lemma table_nonempty: "table_ok t \<Longrightarrow> t \<noteq> []"
  by (auto simp: table_ok_def)

lemma table_seq: "table_ok t \<Longrightarrow> set (probe_seq t w) = {..< length t}"
  using set_probe_seq table_nonempty by blast

lemma same_slot:
  assumes "table_ok t" "valid_id tid" "i < length t" "j < length t" "fst (t ! i) = tid" "fst (t ! j) = tid"
  shows "i = j"
proof -
  have "\<not> vacant t i" "\<not> vacant t j" using assms by (auto simp: vacant_def valid_id_def)
  with assms show ?thesis unfolding table_ok_def by (metis option.inject)
qed

lemma find_key_None: "find (\<lambda>e. fst e = tid) t = None \<longleftrightarrow> (\<forall>i < length t. fst (t ! i) \<noteq> tid)"
proof -
  have "find (\<lambda>e. fst e = tid) t = None \<longleftrightarrow> (\<forall>e \<in> set t. fst e \<noteq> tid)"
    by (simp only: find_None_iff) blast
  then show ?thesis by (simp only: all_set_conv_all_nth)
qed

lemma table_lookup_Some:
  assumes "table_ok t" "valid_id tid" "i < length t" "fst (t ! i) = tid"
  shows "table_lookup t tid = Some (snd (t ! i))"
proof -
  have "find (\<lambda>e. fst e = tid) t \<noteq> None" using assms(3,4) by (auto simp: find_key_None)
  then obtain j where j: "j < length t" "fst (t ! j) = tid" "find (\<lambda>e. fst e = tid) t = Some (t ! j)"
    by (auto simp: find_Some_iff)
  with same_slot [OF assms(1,2,3) j(1) assms(4) j(2)] show ?thesis by (simp add: table_lookup_def)
qed

lemma table_lookup_None: "table_lookup t tid = None \<longleftrightarrow> (\<forall>i < length t. fst (t ! i) \<noteq> tid)"
  by (simp add: table_lookup_def flip: find_key_None split: option.split)

lemma probe_table_find:
  assumes "table_ok t"
  shows "probe_table tid t = (case find (stops tid t) (probe_seq t (hash_thread_id tid)) of
      None \<Rightarrow> Spins | Some i \<Rightarrow> if fst (t ! i) = tid then Found i else Missing)"
proof -
  obtain c where c: "c < 64" "length t = 2 ^ c" using assms by (auto simp: table_ok_def)
  show ?thesis unfolding probe_table_def probe_find [OF c(2,1)] probe_seq_def c(2) ..
qed

lemma probe_table_spec:
  assumes "table_ok t" "valid_id tid"
  shows "case probe_table tid t of
      Found i \<Rightarrow> i < length t \<and> fst (t ! i) = tid \<and> table_lookup t tid = Some (snd (t ! i))
    | Missing \<Rightarrow> table_lookup t tid = None | Spins \<Rightarrow> False"
proof -
  let ?f = "find (stops tid t) (probe_seq t (hash_thread_id tid))"
  obtain z where z: "z < length t" "fst (t ! z) = invalid_thread_id" using assms(1) by (auto simp: table_ok_def)
  have "?f \<noteq> None"
  proof
    assume "?f = None"
    then have "\<not> stops tid t z" using table_seq [OF assms(1)] z(1) by (auto simp: find_None_iff)
    with z(2) show False by (simp add: stops_def)
  qed
  then obtain i where i: "?f = Some i" by auto
  then have "i \<in> set (probe_seq t (hash_thread_id tid))" "stops tid t i" by (auto simp: find_split)
  then have il: "i < length t" using table_seq [OF assms(1)] by blast
  show ?thesis
  proof (cases "fst (t ! i) = tid")
    case True
    with i il table_lookup_Some [OF assms il True] show ?thesis by (simp add: probe_table_find [OF assms(1)])
  next
    case False
    have "fst (t ! j) \<noteq> tid" if j: "j < length t" for j
    proof
      assume tj: "fst (t ! j) = tid"
      with assms(2) have "\<not> vacant t j" by (auto simp: vacant_def valid_id_def)
      with assms(1) j tj have "?f = Some j" unfolding table_ok_def by blast
      with i tj False show False by simp
    qed
    then have "table_lookup t tid = None" by (simp add: table_lookup_None)
    with i False show ?thesis by (simp add: probe_table_find [OF assms(1)])
  qed
qed

text \<open>Changing one slot: the probe sequences of the other threads still end where they did.\<close>

lemma probe_seq_update [simp]: "probe_seq (t[i := e]) w = probe_seq t w"
  by (simp add: probe_seq_def)

lemma find_stops_update:
  assumes "find (stops tid t) xs = Some j" "set xs \<subseteq> {..< length t}" "i \<noteq> j"
    "fst e \<noteq> invalid_thread_id" "fst e \<noteq> tid"
  shows "find (stops tid (t[i := e])) xs = Some j"
proof -
  obtain us vs where xs: "xs = us @ j # vs" "stops tid t j" "\<forall>u \<in> set us. \<not> stops tid t u"
    using assms(1) by (auto simp: find_split)
  have "stops tid (t[i := e]) j" using xs(2) assms(3) by (simp add: stops_def)
  moreover have "\<not> stops tid (t[i := e]) u" if "u \<in> set us" for u
  proof (cases "u = i")
    case True
    have "u < length t" using assms(2) xs(1) that by auto
    with True assms(4,5) show ?thesis by (simp add: stops_def)
  next
    case False
    with xs(3) that show ?thesis by (simp add: stops_def)
  qed
  ultimately show ?thesis using xs(1) by (auto simp: find_split)
qed

lemma table_ok_update:
  assumes ok: "table_ok t" and i: "i < length t" and e: "fst e \<noteq> invalid_thread_id"
    and zero: "\<exists>z < length t. z \<noteq> i \<and> fst (t ! z) = invalid_thread_id"
    and other: "\<And>j. j < length t \<Longrightarrow> j \<noteq> i \<Longrightarrow> \<not> vacant t j \<Longrightarrow> fst e \<noteq> fst (t ! j)"
    and self: "fst e \<noteq> invalid_thread_id2 \<Longrightarrow>
      find (stops (fst e) (t[i := e])) (probe_seq t (hash_thread_id (fst e))) = Some i"
  shows "table_ok (t[i := e])"
  unfolding table_ok_def
proof (intro conjI allI impI)
  show "\<exists>c < 64. length (t[i := e]) = 2 ^ c" using ok by (simp add: table_ok_def)
  show "\<exists>z < length (t[i := e]). fst (t[i := e] ! z) = invalid_thread_id" using zero by fastforce
  fix j assume j: "j < length (t[i := e])" "\<not> vacant (t[i := e]) j"
  show "find (stops (fst (t[i := e] ! j)) (t[i := e])) (probe_seq (t[i := e]) (hash_thread_id (fst (t[i := e] ! j)))) = Some j"
  proof (cases "j = i")
    case True
    with j i self show ?thesis by (simp add: vacant_def)
  next
    case False
    with j have nv: "\<not> vacant t j" by (simp add: vacant_def)
    with ok j(1) have "find (stops (fst (t ! j)) t) (probe_seq t (hash_thread_id (fst (t ! j)))) = Some j"
      by (simp add: table_ok_def)
    then show ?thesis
      using find_stops_update [of "fst (t ! j)" t _ j i e] False table_seq [OF ok] e other [of j] j(1) nv by simp
  qed
qed

definition used :: "hash_table \<Rightarrow> nat" where
  "used t = card {i. i < length t \<and> fst (t ! i) \<noteq> invalid_thread_id}"

lemma lookup_other:
  assumes "table_ok t" "table_ok (t[i := e])" "valid_id x" "fst e \<noteq> x" "i < length t" "fst (t ! i) \<noteq> x"
  shows "table_lookup (t[i := e]) x = table_lookup t x"
proof (cases "\<exists>j < length t. fst (t ! j) = x")
  case True
  then obtain j where j: "j < length t" "fst (t ! j) = x" by blast
  with assms(6) have "i \<noteq> j" by auto
  with j table_lookup_Some [OF assms(1,3) j] table_lookup_Some [OF assms(2,3), of j] show ?thesis by simp
next
  case False
  then have "table_lookup t x = None" by (simp add: table_lookup_None)
  moreover have "fst (t[i := e] ! j) \<noteq> x" if "j < length t" for j
    using False assms(4) that by (cases "j = i") auto
  then have "table_lookup (t[i := e]) x = None" by (simp add: table_lookup_None)
  ultimately show ?thesis by simp
qed

lemma claim_slot_spec:
  assumes ok: "table_ok t" and tid: "valid_id tid" "table_lookup t tid = None" and room: "used t + 1 < length t"
  shows "\<exists>i. claim_slot (length t) t (hash_thread_id tid) = Some i \<and> i < length t \<and>
    table_ok (t[i := (tid, v)]) \<and>
    (\<forall>x. valid_id x \<longrightarrow> table_lookup (t[i := (tid, v)]) x = (if x = tid then Some v else table_lookup t x)) \<and>
    (if fst (t ! i) = invalid_thread_id2 then used (t[i := (tid, v)]) = used t
     else fst (t ! i) = invalid_thread_id \<and> used (t[i := (tid, v)]) = used t + 1)"
proof -
  obtain c where c: "c < 64" "length t = 2 ^ c" using ok by (auto simp: table_ok_def)
  let ?s = "probe_seq t (hash_thread_id tid)"
  have claim: "claim_slot (length t) t (hash_thread_id tid) = find (vacant t) ?s"
    unfolding claim_find [OF c(2,1)] probe_seq_def c(2) ..
  obtain z where z: "z < length t" "fst (t ! z) = invalid_thread_id" using ok by (auto simp: table_ok_def)
  have "find (vacant t) ?s \<noteq> None"
    using z table_seq [OF ok] by (auto simp: find_None_iff vacant_def)
  then obtain i where i: "find (vacant t) ?s = Some i" by auto
  then obtain us vs where us: "?s = us @ i # vs" "vacant t i" "\<forall>u \<in> set us. \<not> vacant t u"
    by (auto simp: find_split)
  then have "i \<in> set ?s" by simp
  then have il: "i < length t" using table_seq [OF ok] by blast
  have absent: "fst (t ! j) \<noteq> tid" if "j < length t" for j
    using tid(2) that by (simp add: table_lookup_None)
  have t0: "tid \<noteq> invalid_thread_id" "tid \<noteq> invalid_thread_id2" using tid(1) by (auto simp: valid_id_def)
  let ?t = "t[i := (tid, v)]"
  have "distinct ?s"
    using table_seq [OF ok] by (intro card_distinct) (simp add: probe_seq_def)
  then have ni: "i \<notin> set us" using us(1) by simp
  have self: "find (stops tid ?t) ?s = Some i"
  proof -
    have "\<not> stops tid ?t u" if "u \<in> set us" for u
    proof -
      have "u < length t" using us(1) table_seq [OF ok] that by (metis UnCI lessThan_iff set_append)
      moreover have "u \<noteq> i" using that ni by auto
      ultimately show ?thesis using us(3) that absent by (simp add: stops_def vacant_def)
    qed
    moreover have "stops tid ?t i" using il by (simp add: stops_def)
    ultimately show ?thesis using us(1) by (auto simp: find_split)
  qed
  let ?N = "{i. i < length t \<and> fst (t ! i) \<noteq> invalid_thread_id}"
  have zero: "\<exists>z < length t. z \<noteq> i \<and> fst (t ! z) = invalid_thread_id"
  proof (rule ccontr)
    assume "\<not> ?thesis"
    then have "{..< length t} \<subseteq> insert i ?N" by auto
    then have "card {..< length t} \<le> card (insert i ?N)" by (intro card_mono) auto
    also have "\<dots> \<le> Suc (card ?N)" by (rule card_insert_le_m1) simp_all
    finally show False using room by (simp add: used_def)
  qed
  have ok': "table_ok ?t"
    by (rule table_ok_update [OF ok il _ zero]) (use t0 absent self in auto)
  have "table_lookup ?t x = (if x = tid then Some v else table_lookup t x)" if x: "valid_id x" for x
  proof (cases "x = tid")
    case True
    with table_lookup_Some [OF ok' x, of i] il show ?thesis by simp
  next
    case False
    have "fst (t ! i) \<noteq> x" using us(2) x by (auto simp: vacant_def valid_id_def)
    with lookup_other [OF ok ok' x _ il] False show ?thesis by simp
  qed
  moreover have N': "{j. j < length ?t \<and> fst (?t ! j) \<noteq> invalid_thread_id} = insert i ?N"
    using il t0 by (auto simp: nth_list_update)
  have "if fst (t ! i) = invalid_thread_id2 then used ?t = used t
     else fst (t ! i) = invalid_thread_id \<and> used ?t = used t + 1"
  proof (cases "fst (t ! i) = invalid_thread_id2")
    case True
    then have "insert i ?N = ?N" using il by (auto simp: invalid_thread_id_def invalid_thread_id2_def)
    with True show ?thesis unfolding used_def N' by simp
  next
    case False
    with us(2) have "fst (t ! i) = invalid_thread_id" by (simp add: vacant_def)
    moreover from this have "card (insert i ?N) = card ?N + 1" by simp
    ultimately show ?thesis using False unfolding used_def N' by simp
  qed
  ultimately show ?thesis using claim i il ok' by auto
qed

lemma forget_slot_spec:
  assumes ok: "table_ok t" and tid: "valid_id tid" and i: "i < length t" "fst (t ! i) = tid"
  shows "table_ok (t[i := (invalid_thread_id2, v)])"
    "valid_id x \<Longrightarrow> table_lookup (t[i := (invalid_thread_id2, v)]) x = (if x = tid then None else table_lookup t x)"
    "used (t[i := (invalid_thread_id2, v)]) = used t"
proof -
  let ?t = "t[i := (invalid_thread_id2, v)]"
  have t0: "tid \<noteq> invalid_thread_id" "tid \<noteq> invalid_thread_id2" using tid by (auto simp: valid_id_def)
  have zero: "\<exists>z < length t. z \<noteq> i \<and> fst (t ! z) = invalid_thread_id"
    using ok i(2) t0 by (auto simp: table_ok_def)
  show ok': "table_ok ?t"
    by (rule table_ok_update [OF ok i(1) _ zero])
      (auto simp: invalid_thread_id_def invalid_thread_id2_def vacant_def)
  show "table_lookup ?t x = (if x = tid then None else table_lookup t x)" if x: "valid_id x"
  proof (cases "x = tid")
    case True
    have "fst (?t ! j) \<noteq> tid" if "j < length t" for j
    proof (cases "j = i")
      case False
      then show ?thesis using same_slot [OF ok tid that i(1) _ i(2)] by auto
    qed (use i t0 in auto)
    with True show ?thesis by (simp add: table_lookup_None)
  next
    case False
    have "fst (invalid_thread_id2, v) \<noteq> x" using x by (auto simp: valid_id_def)
    with lookup_other [OF ok ok' x _ i(1)] False i(2) show ?thesis by simp
  qed
  have "{j. j < length ?t \<and> fst (?t ! j) \<noteq> invalid_thread_id} = {j. j < length t \<and> fst (t ! j) \<noteq> invalid_thread_id}"
    using i t0 by (auto simp: nth_list_update invalid_thread_id_def invalid_thread_id2_def)
  then show "used ?t = used t" by (simp add: used_def)
qed

lemma empty_table_ok: "c < 64 \<Longrightarrow> table_ok (empty_table (2 ^ c))" "used (empty_table n) = 0"
  "valid_id tid \<Longrightarrow> table_lookup (empty_table n) tid = None"
  by (auto simp: table_ok_def empty_table_def used_def table_lookup_None vacant_def valid_id_def intro: exI [of _ 0])

section \<open>The chain of tables\<close>

fun chain_lookup :: "hash_table list \<Rightarrow> thread_id \<Rightarrow> nat option option" where
  "chain_lookup [] tid = None"
| "chain_lookup (t # ts) tid = (case table_lookup t tid of Some v \<Rightarrow> Some v | None \<Rightarrow> chain_lookup ts tid)"

definition ids :: "hash_table list \<Rightarrow> thread_id set" where
  "ids ts = {x. valid_id x \<and> chain_lookup ts x \<noteq> None}"

text \<open>Every slot in use is counted, and so is every thread that is only in older tables; the count
  stays below half of the newest table.\<close>

definition hash_inv :: "hash_state \<Rightarrow> bool" where
  "hash_inv s \<longleftrightarrow> (\<forall>t \<in> set (tables s). table_ok t) \<and>
     (case tables s of [] \<Rightarrow> False
      | t # older \<Rightarrow> used t + card (ids older - ids [t]) \<le> hash_count s \<and>
          2 * hash_count s < length t \<and> 1 < length t)"

lemma ids_Cons: "ids (t # ts) = ids [t] \<union> ids ts"
  by (auto simp: ids_def split: option.splits)

lemma ids_table: "table_ok t \<Longrightarrow> finite (ids [t]) \<and> card (ids [t]) \<le> used t"
proof -
  let ?N = "{i. i < length t \<and> fst (t ! i) \<noteq> invalid_thread_id}"
  have "ids [t] \<subseteq> (\<lambda>i. fst (t ! i)) ` ?N"
  proof
    fix x assume x: "x \<in> ids [t]"
    then have "table_lookup t x \<noteq> None" by (auto simp: ids_def split: option.splits)
    then obtain i where "i < length t" "fst (t ! i) = x" unfolding table_lookup_None by blast
    with x show "x \<in> (\<lambda>i. fst (t ! i)) ` ?N" by (force simp: ids_def valid_id_def)
  qed
  moreover have "finite ?N" by simp
  ultimately show ?thesis unfolding used_def
    by (meson card_image_le card_mono finite_imageI finite_subset le_trans)
qed

lemma finite_ids: "\<forall>t \<in> set ts. table_ok t \<Longrightarrow> finite (ids ts)"
proof (induction ts)
  case Nil
  then show ?case by (simp add: ids_def)
next
  case (Cons t ts)
  then show ?case by (subst ids_Cons) (simp add: ids_table)
qed

lemma search_tables_spec:
  "\<forall>t \<in> set ts. table_ok t \<Longrightarrow> valid_id tid \<Longrightarrow> search_tables tid ts = Some (chain_lookup ts tid)"
proof (induction ts)
  case (Cons t ts)
  with probe_table_spec [of t tid] show ?case by (auto split: probe_result.splits)
qed simp

lemma forget_thread_spec:
  "\<forall>t \<in> set ts. table_ok t \<Longrightarrow> valid_id tid \<Longrightarrow>
   \<exists>ts'. forget_thread tid ts = Some ts' \<and> (\<forall>t \<in> set ts'. table_ok t) \<and>
     map length ts' = map length ts \<and> map used ts' = map used ts \<and>
     (\<forall>x. valid_id x \<longrightarrow> map (\<lambda>t. table_lookup t x) ts' = map (\<lambda>t. if x = tid then None else table_lookup t x) ts)"
proof (induction ts)
  case (Cons t ts)
  then obtain ts' where ts': "forget_thread tid ts = Some ts'" "\<forall>t \<in> set ts'. table_ok t"
    "map length ts' = map length ts" "map used ts' = map used ts"
    "\<forall>x. valid_id x \<longrightarrow> map (\<lambda>t. table_lookup t x) ts' = map (\<lambda>t. if x = tid then None else table_lookup t x) ts"
    by auto
  have ok: "table_ok t" using Cons.prems by simp
  note spec = probe_table_spec [OF ok Cons.prems(2)]
  show ?case
  proof (cases "probe_table tid t")
    case (Found i)
    with spec have i: "i < length t" "fst (t ! i) = tid" by simp_all
    note fg = forget_slot_spec [OF ok Cons.prems(2) i, where v = "snd (t ! i)"]
    show ?thesis
      using Found ts' fg by (intro exI [of _ "t[i := (invalid_thread_id2, snd (t ! i))] # ts'"]) auto
  next
    case Missing
    with spec have "table_lookup t tid = None" by simp
    with Missing ts' ok show ?thesis by (intro exI [of _ "t # ts'"]) auto
  next
    case Spins
    with spec show ?thesis by simp
  qed
qed simp

lemma chain_lookup_cong:
  "map (\<lambda>t. table_lookup t x) ts' = map (\<lambda>t. table_lookup t x) ts \<Longrightarrow> chain_lookup ts' x = chain_lookup ts x"
proof (induction ts arbitrary: ts')
  case (Cons t ts)
  from Cons.prems obtain t' us where us: "ts' = t' # us" "table_lookup t' x = table_lookup t x"
    "map (\<lambda>t. table_lookup t x) us = map (\<lambda>t. table_lookup t x) ts"
    by (cases ts') simp_all
  show ?case unfolding us(1) chain_lookup.simps us(2) Cons.IH [OF us(3)] ..
qed simp

lemma chain_lookup_gone: "(\<And>t. t \<in> set ts \<Longrightarrow> table_lookup t x = None) \<Longrightarrow> chain_lookup ts x = None"
  by (induction ts) auto

lemma map_None_gone:
  assumes "map (\<lambda>t. table_lookup t x) ts' = map (\<lambda>t. None) ts"
  shows "chain_lookup ts' x = None"
proof (rule chain_lookup_gone)
  fix t assume "t \<in> set ts'"
  then have "table_lookup t x \<in> set (map (\<lambda>t. table_lookup t x) ts')" by simp
  then show "table_lookup t x = None" unfolding assms by auto
qed

lemma forget_thread_inv:
  assumes "hash_inv s" "valid_id tid"
  shows "\<exists>ts'. forget_thread tid (tables s) = Some ts' \<and> hash_inv (s\<lparr>tables := ts'\<rparr>) \<and>
    (\<forall>x. valid_id x \<longrightarrow> chain_lookup ts' x = (if x = tid then None else chain_lookup (tables s) x))"
proof -
  obtain t older where ts: "tables s = t # older" using assms(1) by (auto simp: hash_inv_def split: list.splits)
  have ok: "\<forall>t \<in> set (t # older). table_ok t" using assms(1) ts by (simp add: hash_inv_def)
  obtain ts' where ts': "forget_thread tid (t # older) = Some ts'" "\<forall>t \<in> set ts'. table_ok t"
    "map length ts' = map length (t # older)" "map used ts' = map used (t # older)"
    "\<forall>x. valid_id x \<longrightarrow> map (\<lambda>t. table_lookup t x) ts' = map (\<lambda>t. if x = tid then None else table_lookup t x) (t # older)"
    using forget_thread_spec [OF ok assms(2)] by blast
  then obtain t' older' where t': "ts' = t' # older'" by (cases ts') auto
  have look: "chain_lookup us' x = (if x = tid then None else chain_lookup us x)"
    if "valid_id x" "map (\<lambda>t. table_lookup t x) us' = map (\<lambda>t. if x = tid then None else table_lookup t x) us"
    for x us us'
    using that chain_lookup_cong [of x us' us] map_None_gone [of x us' us] by auto
  have all: "\<forall>x. valid_id x \<longrightarrow> chain_lookup ts' x = (if x = tid then None else chain_lookup (t # older) x)"
    using ts'(5) look by blast
  have "ids older' = ids older - {tid}" "ids [t'] = ids [t] - {tid}"
  proof -
    have "chain_lookup older' x = (if x = tid then None else chain_lookup older x)"
      "chain_lookup [t'] x = (if x = tid then None else chain_lookup [t] x)" if "valid_id x" for x
      using ts'(5) t' that look [of x older' older] look [of x "[t']" "[t]"] by (auto simp del: chain_lookup.simps)
    then show "ids older' = ids older - {tid}" "ids [t'] = ids [t] - {tid}"
      by (auto simp: ids_def simp del: chain_lookup.simps split: if_splits)
  qed
  then have "ids older' - ids [t'] \<subseteq> ids older - ids [t]" by auto
  then have "card (ids older' - ids [t']) \<le> card (ids older - ids [t])"
    using finite_ids [of older] ok by (intro card_mono) auto
  then have "hash_inv (s\<lparr>tables := ts'\<rparr>)"
    using assms(1) ts' t' ts by (auto simp: hash_inv_def)
  with ts'(1) all ts show ?thesis by auto
qed

lemma length_empty_table: "length (empty_table n) = n"
  by (simp add: empty_table_def)

lemma hash_inv_initial: "hash_inv populate_initial_implicit_producer_hash"
  using empty_table_ok(1) [of 5] finite_ids [of "[]"]
  by (simp add: hash_inv_def populate_initial_implicit_producer_hash_def empty_table_ok(2)
      INITIAL_IMPLICIT_PRODUCER_HASH_SIZE_def ids_def length_empty_table)

lemma lookup_initial:
  "valid_id tid \<Longrightarrow> chain_lookup (tables populate_initial_implicit_producer_hash) tid = None"
  by (simp add: populate_initial_implicit_producer_hash_def empty_table_ok(3))

lemma find_or_copy_spec:
  assumes "hash_inv s" "valid_id tid"
  shows "\<exists>s'. find_or_copy tid s = Some (chain_lookup (tables s) tid, s') \<and> hash_inv s' \<and>
    (\<forall>x. valid_id x \<longrightarrow> chain_lookup (tables s') x = chain_lookup (tables s) x) \<and>
    hash_count s' = hash_count s"
proof -
  obtain t older where ts: "tables s = t # older" using assms(1) by (auto simp: hash_inv_def split: list.splits)
  have ok: "table_ok t" "\<forall>t \<in> set older. table_ok t"
    and cnt: "used t + card (ids older - ids [t]) \<le> hash_count s" "2 * hash_count s < length t" "1 < length t"
    using assms(1) ts by (simp_all add: hash_inv_def)
  note spec = probe_table_spec [OF ok(1) assms(2)]
  note search = search_tables_spec [OF ok(2) assms(2)]
  show ?thesis
  proof (cases "probe_table tid t")
    case (Found i)
    with spec assms(1) ts show ?thesis by (auto simp: find_or_copy_def)
  next
    case Spins
    with spec show ?thesis by simp
  next
    case Missing
    with spec have none: "table_lookup t tid = None" by simp
    show ?thesis
    proof (cases "chain_lookup older tid")
      case None
      with Missing search none assms(1) ts show ?thesis by (auto simp: find_or_copy_def)
    next
      case (Some v)
      have mem: "tid \<in> ids older - ids [t]" using Some none assms(2) by (simp add: ids_def)
      have fin: "finite (ids older)" by (rule finite_ids [OF ok(2)])
      then have "1 \<le> card (ids older - ids [t])" using mem by (metis card_gt_0_iff finite_Diff empty_iff Suc_leI One_nat_def)
      then have "used t + 1 < length t" using cnt by linarith
      from claim_slot_spec [OF ok(1) assms(2) none this, of v] obtain i where
        i: "claim_slot (length t) t (hash_thread_id tid) = Some i" "i < length t" "table_ok (t[i := (tid, v)])"
          "\<forall>x. valid_id x \<longrightarrow> table_lookup (t[i := (tid, v)]) x = (if x = tid then Some v else table_lookup t x)"
        and u: "if fst (t ! i) = invalid_thread_id2 then used (t[i := (tid, v)]) = used t
          else fst (t ! i) = invalid_thread_id \<and> used (t[i := (tid, v)]) = used t + 1" by blast
      from u have i5: "used (t[i := (tid, v)]) \<le> used t + 1" by (simp split: if_splits)
      let ?t = "t[i := (tid, v)]"
      have ids': "ids older - ids [?t] = (ids older - ids [t]) - {tid}"
        using i(4) assms(2) by (auto simp: ids_def split: option.splits)
      have "card (ids older - ids [?t]) = card (ids older - ids [t]) - 1"
        unfolding ids' using mem fin by (intro card_Diff_singleton) auto
      with i5 cnt \<open>1 \<le> card (ids older - ids [t])\<close>
      have "used ?t + card (ids older - ids [?t]) \<le> hash_count s" by linarith
      then have "hash_inv (s\<lparr>tables := ?t # older\<rparr>)"
        using i ok cnt by (simp add: hash_inv_def)
      moreover have "chain_lookup (?t # older) x = chain_lookup (t # older) x" if "valid_id x" for x
        using i(4) that none Some by auto
      moreover have "find_or_copy tid s = Some (Some v, s\<lparr>tables := ?t # older\<rparr>)"
        using Missing search Some i(1) by (simp add: find_or_copy_def ts store_entry_def)
      ultimately show ?thesis using none Some ts by auto
    qed
  qed
qed

text \<open>Between the two halves of an insertion there is room for one more entry.\<close>

definition hash_room :: "hash_state \<Rightarrow> bool" where
  "hash_room s \<longleftrightarrow> (\<forall>t \<in> set (tables s). table_ok t) \<and>
     (case tables s of [] \<Rightarrow> False
      | t # older \<Rightarrow> used t + card (ids older - ids [t]) + 1 \<le> hash_count s \<and>
          2 * hash_count s < length t \<and> 1 < length t)"

lemma grow_capacity_twice: "newCount < cap \<Longrightarrow> grow_capacity n newCount (2 * cap) = 2 * cap"
  by (cases n) auto

lemma table_length: "table_ok t \<Longrightarrow> \<exists>c < 64. length t = 2 ^ c"
  by (simp add: table_ok_def)

lemma reserve_entry_spec:
  assumes inv: "hash_inv s" and small: "hash_count s < 2 ^ 58"
  obtains ok s' m where "reserve_entry s q = (ok, s', q\<lparr>mem := m\<rparr>)" "mem q = [] \<Longrightarrow> ok \<and> m = []"
    "ok \<Longrightarrow> hash_room s' \<and> hash_count s' = hash_count s + 1 \<and>
        (\<forall>x. valid_id x \<longrightarrow> chain_lookup (tables s') x = chain_lookup (tables s) x)"
    "\<not> ok \<Longrightarrow> s' = s"
proof -
  obtain t older where ts: "tables s = t # older" using inv by (auto simp: hash_inv_def split: list.splits)
  have ok: "table_ok t" "\<forall>t \<in> set older. table_ok t"
    and cnt: "used t + card (ids older - ids [t]) \<le> hash_count s" "2 * hash_count s < length t" "1 < length t"
    using inv ts by (simp_all add: hash_inv_def)
  show thesis
  proof (cases "1 + hash_count s \<ge> length t div 2")
    case False
    let ?s = "s\<lparr>hash_count := 1 + hash_count s\<rparr>"
    have "hash_room ?s" using ok cnt False by (simp add: hash_room_def ts)
    then show thesis using False by (intro that [of True ?s "mem q"]) (simp_all add: reserve_entry_def ts)
  next
    case True
    obtain okay m where m: "malloc q = (okay, q\<lparr>mem := m\<rparr>)" "mem q = [] \<Longrightarrow> okay \<and> m = []"
      by (cases "mem q") (auto simp: malloc_def)
    show thesis
    proof (cases okay)
      case False
      then show thesis using True m by (intro that [of False s m]) (auto simp: reserve_entry_def ts)
    next
      case okay: True
      let ?n = "empty_table (2 * length t)"
      let ?s = "s\<lparr>hash_count := 1 + hash_count s, tables := ?n # t # older\<rparr>"
      obtain c where c: "c < 64" "length t = 2 ^ c" using table_length [OF ok(1)] by blast
      have less: "1 + hash_count s < length t" using cnt(2,3) by linarith
      have two: "length t < 2 * (1 + hash_count s) + 2"
        using True by presburger
      have "length t < 2 ^ 61" using two small by simp
      then have "c + 1 < 64" using c(2) power_increasing [of 63 c "2 :: nat"] by (cases "c \<ge> 63") auto
      then have nok: "table_ok ?n" using empty_table_ok(1) [of "c + 1"] c(2) by simp
      have nolook: "ids [?n] = {}" using empty_table_ok(3) by (auto simp: ids_def)
      have "card (ids (t # older)) \<le> card (ids [t]) + card (ids older - ids [t])"
        using card_Un_le [of "ids [t]" "ids older - ids [t]"] by (simp add: ids_Cons [of t older])
      then have "card (ids (t # older)) \<le> hash_count s" using ids_table [OF ok(1)] cnt(1) by linarith
      then have "hash_room ?s"
        using ok nok nolook less \<open>length t < 2 ^ 61\<close> by (simp add: hash_room_def empty_table_ok(2) length_empty_table)
      moreover have "chain_lookup (?n # t # older) x = chain_lookup (t # older) x" if "valid_id x" for x
        using empty_table_ok(3) [OF that] by simp
      moreover have "reserve_entry s q = (True, ?s, q\<lparr>mem := m\<rparr>)"
        using True m(1) okay less by (simp add: reserve_entry_def ts grow_capacity_twice)
      ultimately show thesis using m(2) by (intro that [of True ?s m]) (simp_all add: ts del: chain_lookup.simps)
    qed
  qed
qed

lemma add_entry_spec:
  assumes room: "hash_room s" and tid: "valid_id tid" "chain_lookup (tables s) tid = None"
  shows "\<exists>s'. add_entry tid p s = Some s' \<and> hash_inv s' \<and> hash_count s' \<le> hash_count s \<and>
    (\<forall>x. valid_id x \<longrightarrow> chain_lookup (tables s') x = (if x = tid then Some (Some p) else chain_lookup (tables s) x))"
proof -
  obtain t older where ts: "tables s = t # older" using room by (auto simp: hash_room_def split: list.splits)
  have ok: "table_ok t" "\<forall>t \<in> set older. table_ok t"
    and cnt: "used t + card (ids older - ids [t]) + 1 \<le> hash_count s" "2 * hash_count s < length t" "1 < length t"
    using room ts by (simp_all add: hash_room_def)
  have none: "table_lookup t tid = None" "chain_lookup older tid = None"
    using tid(2) ts by (simp_all split: option.splits)
  have "used t + 1 < length t" using cnt by linarith
  from claim_slot_spec [OF ok(1) tid(1) none(1) this, of "Some p"] obtain i where
    i: "claim_slot (length t) t (hash_thread_id tid) = Some i" "i < length t" "table_ok (t[i := (tid, Some p)])"
      "\<forall>x. valid_id x \<longrightarrow> table_lookup (t[i := (tid, Some p)]) x = (if x = tid then Some (Some p) else table_lookup t x)"
    and u: "if fst (t ! i) = invalid_thread_id2 then used (t[i := (tid, Some p)]) = used t
      else fst (t ! i) = invalid_thread_id \<and> used (t[i := (tid, Some p)]) = used t + 1" by blast
  let ?t = "t[i := (tid, Some p)]"
  let ?s = "s\<lparr>tables := ?t # older, hash_count := (if fst (t ! i) = invalid_thread_id2 then hash_count s - 1 else hash_count s)\<rparr>"
  have "ids older - ids [?t] = ids older - ids [t]"
    using i(4) none(2) by (auto simp: ids_def split: option.splits if_splits)
  then have "hash_inv ?s" using ok i(2,3) u cnt by (auto simp: hash_inv_def)
  moreover have "add_entry tid p s = Some ?s" by (simp add: add_entry_def ts i(1))
  moreover have "chain_lookup (?t # older) x = (if x = tid then Some (Some p) else chain_lookup (t # older) x)"
    if "valid_id x" for x using i(4) that by auto
  ultimately show ?thesis by (auto simp: ts simp del: chain_lookup.simps)
qed

end
