(* ===== verification/ConcurrentQueue.thy ===== *)
theory ConcurrentQueue
  imports ImplicitProducer ProducerHash MpmcQueue
begin

text \<open>
  \<^verbatim>\<open>moodycamel::ConcurrentQueue\<close> (\<^verbatim>\<open>src/lightning/moodycamel/concurrentqueue.h\<close>) as the program uses it,
  without producer tokens: every enqueuing thread owns one implicit producer, found through the hash
  table of \<open>ProducerHash\<close>; consumers look through the list of producers. A thread that exits gives its
  producer back, and another thread may take it over.

  A producer is named by its place in the order of creation; the linked list starts with the newest
  one. Operations are executed one at a time. The result \<open>None\<close> is a crash or a loop that is not left.

  \<^item> \<open>cq_inv Xs s\<close>: \<open>Xs ! i\<close> is what producer \<open>i\<close> holds; producers own disjoint sets of blocks; no
    two threads share a producer.
  \<^item> \<open>queue_rel\<close>: the queue is one of \<open>MpmcQueue\<close>, the abstract queue the rest of the program is
    verified against.
\<close>

unbundle bit_operations_syntax

record cproducer =
  inner :: iproducer
  inactive :: bool

record 'a cq =
  cpool :: "'a pool"
  producers :: "cproducer list"
  producerCount :: "32 word"
  phash :: hash_state
  nextExplicitConsumerId :: "32 word"
  globalExplicitConsumerOffset :: "32 word"
  exit_listeners :: "(thread_id \<times> nat) list"

section \<open>Construction\<close>

definition cq_with_blocks :: "size_t \<Rightarrow> bool list \<Rightarrow> 'a cq" where
  "cq_with_blocks blockCount script =
     \<lparr>cpool = populate_initial_block_list (unat blockCount) (pool_empty script), producers = [],
      producerCount = 0, phash = populate_initial_implicit_producer_hash, nextExplicitConsumerId = 0,
      globalExplicitConsumerOffset = 0, exit_listeners = []\<rparr>"

definition ConcurrentQueue_new :: "size_t \<Rightarrow> bool list \<Rightarrow> 'a cq" where
  "ConcurrentQueue_new capacity = cq_with_blocks (blocks_for_capacity capacity)"

definition ConcurrentQueue_new_for :: "size_t \<Rightarrow> size_t \<Rightarrow> size_t \<Rightarrow> bool list \<Rightarrow> 'a cq" where
  "ConcurrentQueue_new_for minCapacity maxExplicitProducers maxImplicitProducers =
     cq_with_blocks (blocks_for_producers minCapacity maxExplicitProducers maxImplicitProducers)"

section \<open>The list of producers\<close>

text \<open>The order of the linked list, from \<open>producerListTail\<close>.\<close>

definition traversal :: "'a cq \<Rightarrow> nat list" where
  "traversal s = rev [0 ..< length (producers s)]"

definition add_producer :: "iproducer \<Rightarrow> 'a cq \<Rightarrow> nat \<times> 'a cq" where
  "add_producer p s =
     (length (producers s),
      s\<lparr>producerCount := producerCount s + 1, producers := producers s @ [\<lparr>inner = p, inactive = False\<rparr>]\<rparr>)"

definition set_inactive :: "nat \<Rightarrow> bool \<Rightarrow> 'a cq \<Rightarrow> 'a cq" where
  "set_inactive i b s = s\<lparr>producers := (producers s)[i := (producers s ! i)\<lparr>inactive := b\<rparr>]\<rparr>"

definition create_implicit_producer :: "'a cq \<Rightarrow> iproducer option \<times> 'a cq" where
  "create_implicit_producer s =
     (case malloc (cpool s) of
        (False, q) \<Rightarrow> (None, s\<lparr>cpool := q\<rparr>)
      | (True, q) \<Rightarrow> (case ImplicitProducer_new q of (p, q') \<Rightarrow> (Some p, s\<lparr>cpool := q'\<rparr>)))"

definition recycle_or_create_producer :: "'a cq \<Rightarrow> nat option \<times> 'a cq" where
  "recycle_or_create_producer s =
     (case find (\<lambda>i. inactive (producers s ! i)) (traversal s) of
        Some i \<Rightarrow> (Some i, set_inactive i False s)
      | None \<Rightarrow>
          (case create_implicit_producer s of
             (None, s1) \<Rightarrow> (None, s1)
           | (Some p, s1) \<Rightarrow> (case add_producer p s1 of (i, s2) \<Rightarrow> (Some i, s2))))"

text \<open>\<open>ThreadExitNotifier\<close>: each thread has a list of listeners, the last subscription first.\<close>

definition subscribe :: "thread_id \<Rightarrow> nat \<Rightarrow> 'a cq \<Rightarrow> 'a cq" where
  "subscribe tid i s = s\<lparr>exit_listeners := (tid, i) # exit_listeners s\<rparr>"

section \<open>Threads and their producers\<close>

definition get_or_add_implicit_producer :: "thread_id \<Rightarrow> 'a cq \<Rightarrow> (nat option \<times> 'a cq) option" where
  "get_or_add_implicit_producer tid s =
     (case find_or_copy tid (phash s) of
        None \<Rightarrow> None
      | Some (Some value, h) \<Rightarrow> Some (value, s\<lparr>phash := h\<rparr>)
      | Some (None, h) \<Rightarrow>
          (case reserve_entry h (cpool s) of
             (False, h1, q1) \<Rightarrow> Some (None, s\<lparr>phash := h1, cpool := q1\<rparr>)
           | (True, h1, q1) \<Rightarrow>
               (let cap = length (hd (tables h1)) in
                if hash_count h1 < cap div 2 + cap div 4 then
                  (case recycle_or_create_producer (s\<lparr>phash := h1, cpool := q1\<rparr>) of
                     (None, s2) \<Rightarrow>
                       Some (None, s2\<lparr>phash := h1\<lparr>hash_count := hash_count h1 - 1\<rparr>\<rparr>)
                   | (Some i, s2) \<Rightarrow>
                       map_option (\<lambda>h2. (Some i, (subscribe tid i s2)\<lparr>phash := h2\<rparr>)) (add_entry tid i h1))
                else None)))"

definition implicit_producer_thread_exited :: "thread_id \<Rightarrow> nat \<Rightarrow> 'a cq \<Rightarrow> 'a cq option" where
  "implicit_producer_thread_exited tid producer s =
     (case forget_thread tid (tables (phash s)) of
        None \<Rightarrow> None
      | Some ts \<Rightarrow> Some (set_inactive producer True (s\<lparr>phash := (phash s)\<lparr>tables := ts\<rparr>\<rparr>)))"

text \<open>The destructor of the thread's notifier calls its listeners in their order.\<close>

fun notify_exit :: "thread_id \<Rightarrow> nat list \<Rightarrow> 'a cq \<Rightarrow> 'a cq option" where
  "notify_exit tid [] s = Some s"
| "notify_exit tid (i # is) s =
     (case implicit_producer_thread_exited tid i s of None \<Rightarrow> None | Some s1 \<Rightarrow> notify_exit tid is s1)"

definition listeners_of :: "thread_id \<Rightarrow> 'a cq \<Rightarrow> nat list" where
  "listeners_of tid s = map snd (filter (\<lambda>l. fst l = tid) (exit_listeners s))"

definition thread_exit :: "thread_id \<Rightarrow> 'a cq \<Rightarrow> 'a cq option" where
  "thread_exit tid s =
     map_option (\<lambda>s1. s1\<lparr>exit_listeners := filter (\<lambda>l. fst l \<noteq> tid) (exit_listeners s1)\<rparr>)
       (notify_exit tid (listeners_of tid s) s)"

section \<open>Enqueue\<close>

definition on_producer ::
    "nat \<Rightarrow> (iproducer \<Rightarrow> 'a pool \<Rightarrow> ('r \<times> iproducer \<times> 'a pool) option) \<Rightarrow> 'a cq \<Rightarrow> ('r \<times> 'a cq) option" where
  "on_producer i f s =
     (case f (inner (producers s ! i)) (cpool s) of
        None \<Rightarrow> None
      | Some (r, p, q) \<Rightarrow>
          Some (r, s\<lparr>producers := (producers s)[i := (producers s ! i)\<lparr>inner := p\<rparr>], cpool := q\<rparr>))"

definition inner_enqueue :: "alloc_mode \<Rightarrow> thread_id \<Rightarrow> 'a \<Rightarrow> 'a cq \<Rightarrow> (bool \<times> 'a cq) option" where
  "inner_enqueue canAlloc tid element s =
     (case get_or_add_implicit_producer tid s of
        None \<Rightarrow> None
      | Some (None, s1) \<Rightarrow> Some (False, s1)
      | Some (Some producer, s1) \<Rightarrow> on_producer producer (ip_enqueue canAlloc element) s1)"

definition cq_enqueue :: "thread_id \<Rightarrow> 'a \<Rightarrow> 'a cq \<Rightarrow> (bool \<times> 'a cq) option" where
  "cq_enqueue tid item s =
     (if INITIAL_IMPLICIT_PRODUCER_HASH_SIZE = 0 then Some (False, s) else inner_enqueue CanAlloc tid item s)"

definition cq_try_enqueue :: "thread_id \<Rightarrow> 'a \<Rightarrow> 'a cq \<Rightarrow> (bool \<times> 'a cq) option" where
  "cq_try_enqueue tid item s =
     (if INITIAL_IMPLICIT_PRODUCER_HASH_SIZE = 0 then Some (False, s) else inner_enqueue CannotAlloc tid item s)"

section \<open>Dequeue\<close>

definition producer_size :: "'a cq \<Rightarrow> nat \<Rightarrow> size_t" where
  "producer_size s i = size_approx (inner (producers s ! i))"

definition dequeue_at :: "nat \<Rightarrow> 'a cq \<Rightarrow> ('a option \<times> 'a cq) option" where
  "dequeue_at i s = on_producer i ip_dequeue s"

text \<open>The first producer of a list that has an element.\<close>

fun dequeue_first :: "nat list \<Rightarrow> 'a cq \<Rightarrow> ('a option \<times> 'a cq) option" where
  "dequeue_first [] s = Some (None, s)"
| "dequeue_first (i # is) s =
     (case dequeue_at i s of
        None \<Rightarrow> None
      | Some (Some x, s1) \<Rightarrow> Some (Some x, s1)
      | Some (None, s1) \<Rightarrow> dequeue_first is s1)"

text \<open>The heuristic: among the first three producers that are not empty, the first of the longest.\<close>

fun best_of :: "'a cq \<Rightarrow> nat list \<Rightarrow> nat \<Rightarrow> nat option \<Rightarrow> size_t \<Rightarrow> nat \<times> nat option" where
  "best_of s [] nonEmptyCount best bestSize = (nonEmptyCount, best)"
| "best_of s (i # is) nonEmptyCount best bestSize =
     (if nonEmptyCount < 3 then
        let size = producer_size s i
        in if size > 0 then
             (if size > bestSize then best_of s is (nonEmptyCount + 1) (Some i) size
              else best_of s is (nonEmptyCount + 1) best bestSize)
           else best_of s is nonEmptyCount best bestSize
      else (nonEmptyCount, best))"

definition cq_try_dequeue :: "'a cq \<Rightarrow> ('a option \<times> 'a cq) option" where
  "cq_try_dequeue s =
     (case best_of s (traversal s) 0 None 0 of (nonEmptyCount, best) \<Rightarrow>
        if nonEmptyCount > 0 then
          (case best of
             None \<Rightarrow> None
           | Some b \<Rightarrow>
               (case dequeue_at b s of
                  None \<Rightarrow> None
                | Some (Some x, s1) \<Rightarrow> Some (Some x, s1)
                | Some (None, s1) \<Rightarrow> dequeue_first (filter (\<lambda>i. i \<noteq> b) (traversal s1)) s1))
        else Some (None, s))"

definition try_dequeue_non_interleaved :: "'a cq \<Rightarrow> ('a option \<times> 'a cq) option" where
  "try_dequeue_non_interleaved s = dequeue_first (traversal s) s"

definition cq_size_approx :: "'a cq \<Rightarrow> size_t" where
  "cq_size_approx s = fold (\<lambda>i size. size + producer_size s i) (traversal s) 0"

section \<open>Dequeue with a consumer token\<close>

record consumer_token =
  initialOffset :: "32 word"
  lastKnownGlobalOffset :: "32 word"
  itemsConsumedFromCurrent :: "32 word"
  currentProducer :: "nat option"
  desiredProducer :: "nat option"

definition ConsumerToken_new :: "'a cq \<Rightarrow> consumer_token \<times> 'a cq" where
  "ConsumerToken_new s =
     (\<lparr>initialOffset = nextExplicitConsumerId s, lastKnownGlobalOffset = - 1, itemsConsumedFromCurrent = 0,
       currentProducer = None, desiredProducer = None\<rparr>,
      s\<lparr>nextExplicitConsumerId := nextExplicitConsumerId s + 1\<rparr>)"

text \<open>\<open>next_prod\<close>, and round again at the end of the list.\<close>

definition next_prod_wrap :: "'a cq \<Rightarrow> nat \<Rightarrow> nat" where
  "next_prod_wrap s i = (if i = 0 then length (producers s) - 1 else i - 1)"

definition update_current_producer_after_rotation ::
    "consumer_token \<Rightarrow> 'a cq \<Rightarrow> (bool \<times> consumer_token) option" where
  "update_current_producer_after_rotation token s =
     (if desiredProducer token = None \<and> producers s = [] then Some (False, token)
      else if producerCount s = 0 then None
      else
        let tail = length (producers s) - 1;
            prodCount = producerCount s;
            globalOffset = globalExplicitConsumerOffset s;
            desired =
              (case desiredProducer token of
                 Some d \<Rightarrow> d
               | None \<Rightarrow>
                   let offset = prodCount - 1 - (initialOffset token mod prodCount)
                   in (next_prod_wrap s ^^ unat offset) tail);
            delta = globalOffset - lastKnownGlobalOffset token;
            delta = (if delta \<ge> prodCount then delta mod prodCount else delta);
            desired = (next_prod_wrap s ^^ unat delta) desired
        in Some (True, token\<lparr>desiredProducer := Some desired, lastKnownGlobalOffset := globalOffset,
             currentProducer := Some desired, itemsConsumedFromCurrent := 0\<rparr>))"

text \<open>The loop over the other producers: the ring from the one after the current producer.\<close>

definition ring_after :: "'a cq \<Rightarrow> nat \<Rightarrow> nat list" where
  "ring_after s i = map (\<lambda>k. (next_prod_wrap s ^^ Suc k) i) [0 ..< length (producers s) - 1]"

fun dequeue_ring :: "consumer_token \<Rightarrow> nat list \<Rightarrow> 'a cq \<Rightarrow> ('a option \<times> consumer_token \<times> 'a cq) option" where
  "dequeue_ring token [] s = Some (None, token, s)"
| "dequeue_ring token (i # is) s =
     (case dequeue_at i s of
        None \<Rightarrow> None
      | Some (Some x, s1) \<Rightarrow>
          Some (Some x, token\<lparr>currentProducer := Some i, itemsConsumedFromCurrent := 1\<rparr>, s1)
      | Some (None, s1) \<Rightarrow> dequeue_ring token is s1)"

definition try_dequeue_token :: "consumer_token \<Rightarrow> 'a cq \<Rightarrow> ('a option \<times> consumer_token \<times> 'a cq) option" where
  "try_dequeue_token token s =
     (case (if desiredProducer token = None \<or> lastKnownGlobalOffset token \<noteq> globalExplicitConsumerOffset s
            then update_current_producer_after_rotation token s else Some (True, token)) of
        None \<Rightarrow> None
      | Some (False, token) \<Rightarrow> Some (None, token, s)
      | Some (True, token) \<Rightarrow>
          (case currentProducer token of
             None \<Rightarrow> None
           | Some current \<Rightarrow>
               (case dequeue_at current s of
                  None \<Rightarrow> None
                | Some (Some x, s1) \<Rightarrow>
                    let n = itemsConsumedFromCurrent token + 1
                    in Some (Some x, token\<lparr>itemsConsumedFromCurrent := n\<rparr>,
                         if n = CONSUMPTION_QUOTA_BEFORE_ROTATE
                         then s1\<lparr>globalExplicitConsumerOffset := globalExplicitConsumerOffset s1 + 1\<rparr> else s1)
                | Some (None, s1) \<Rightarrow> dequeue_ring token (ring_after s1 current) s1)))"

section \<open>The sub-queues and their blocks\<close>

definition owned :: "(nat \<Rightarrow> nat) \<Rightarrow> (nat \<Rightarrow> nat \<Rightarrow> addr) \<Rightarrow> 'a list list \<Rightarrow> nat \<Rightarrow> addr set" where
  "owned H A Xs i = A i ` live (H i) (H i + length (Xs ! i))"

definition queues_by ::
    "(nat \<Rightarrow> nat) \<Rightarrow> (nat \<Rightarrow> nat \<Rightarrow> addr) \<Rightarrow> addr list \<Rightarrow> 'a list list \<Rightarrow> iproducer list \<Rightarrow> 'a pool \<Rightarrow> bool" where
  "queues_by H A F Xs ps q \<longleftrightarrow> length Xs = length ps \<and>
     (\<forall>i < length ps. ip_inv (H i) (H i + length (Xs ! i)) (A i) (Xs ! i) (ps ! i) q) \<and>
     (\<forall>i < length ps. \<forall>j < length ps. i \<noteq> j \<longrightarrow> owned H A Xs i \<inter> owned H A Xs j = {}) \<and>
     pool_inv (\<Union>i < length ps. owned H A Xs i) F q"

definition queues_inv :: "'a list list \<Rightarrow> iproducer list \<Rightarrow> 'a pool \<Rightarrow> bool" where
  "queues_inv Xs ps q \<longleftrightarrow> (\<exists>H A F. queues_by H A F Xs ps q)"

lemma ip_inv_tail: "ip_inv H T A xs p q \<Longrightarrow> T = H + length xs"
  by (simp add: ip_inv_def)

lemma ip_inv_index: "ip_inv H T A xs p q \<Longrightarrow> 0 < T \<Longrightarrow> blockIndex p \<noteq> None"
  unfolding ip_inv_def by (cases "blockIndex p") simp_all

lemma ip_inv_frame:
  "ip_inv H T A xs p q \<Longrightarrow> (\<And>a. a \<in> A ` live H T \<Longrightarrow> blocks q' a = blocks q a) \<Longrightarrow> ip_inv H T A xs p q'"
  unfolding ip_inv_def by auto

lemma owned_upd:
  "i < length Xs \<Longrightarrow> owned (H(i := h)) (A(i := a)) (Xs[i := xs]) j =
     (if j = i then a ` live h (h + length xs) else owned H A Xs j)"
  by (simp add: owned_def)

lemma queues_step:
  assumes qb: "queues_by H A F Xs ps q" and i: "i < length ps"
    and new: "ip_inv h t a xs p q'" "pool_inv (reown (\<Union>i < length ps. owned H A Xs i) (owned H A Xs i) (a ` live h t)) F' q'"
    and fresh: "a ` live h t \<inter> ((\<Union>i < length ps. owned H A Xs i) - owned H A Xs i) = {}"
    and keep: "\<And>x. x \<in> (\<Union>i < length ps. owned H A Xs i) - owned H A Xs i \<Longrightarrow> blocks q' x = blocks q x"
  shows "queues_inv (Xs[i := xs]) (ps[i := p]) q'"
proof -
  let ?H = "H(i := h)" and ?A = "A(i := a)" and ?X = "Xs[i := xs]" and ?P = "ps[i := p]"
  let ?U = "\<Union>i < length ps. owned H A Xs i"
  have len: "i < length Xs" and lens: "length Xs = length ps" using qb i by (simp_all add: queues_by_def)
  have t: "t = h + length xs" by (rule ip_inv_tail [OF new(1)])
  note ow = owned_upd [OF len, of H h A a xs]
  have disj: "owned H A Xs j \<inter> owned H A Xs k = {}" if "j < length ps" "k < length ps" "j \<noteq> k" for j k
    using qb that by (simp add: queues_by_def)
  have other: "owned H A Xs j \<subseteq> ?U - owned H A Xs i" if "j < length ps" "j \<noteq> i" for j
    using qb that i by (auto simp: queues_by_def)
  have U: "(\<Union>j < length ps. owned ?H ?A ?X j) = reown ?U (owned H A Xs i) (a ` live h t)"
    using other i by (auto simp: ow t reown_def split: if_splits)
  have "queues_by ?H ?A F' ?X ?P q'"
    unfolding queues_by_def length_list_update
  proof (intro conjI allI impI)
    fix j assume j: "j < length ps"
    show "ip_inv (?H j) (?H j + length (?X ! j)) (?A j) (?X ! j) (?P ! j) q'"
    proof (cases "j = i")
      case True
      with new(1) t len i show ?thesis by simp
    next
      case False
      then have "ip_inv (H j) (H j + length (Xs ! j)) (A j) (Xs ! j) (ps ! j) q"
        using qb j by (simp add: queues_by_def)
      then have "ip_inv (H j) (H j + length (Xs ! j)) (A j) (Xs ! j) (ps ! j) q'"
      proof (rule ip_inv_frame)
        fix x assume "x \<in> A j ` live (H j) (H j + length (Xs ! j))"
        then have "x \<in> owned H A Xs j" by (simp only: owned_def)
        with other [OF j False] keep show "blocks q' x = blocks q x" by blast
      qed
      with False show ?thesis by simp
    qed
  next
    fix j k assume jk: "j < length ps" "k < length ps" "j \<noteq> k"
    show "owned ?H ?A ?X j \<inter> owned ?H ?A ?X k = {}"
      using jk fresh other [OF jk(1)] other [OF jk(2)] disj by (cases "j = i"; cases "k = i") (simp_all add: ow t, blast+)
  qed (use lens new(2) U in auto)
  then show ?thesis by (auto simp: queues_inv_def)
qed

lemma queues_mem: "queues_inv Xs ps q \<Longrightarrow> queues_inv Xs ps (q\<lparr>mem := m\<rparr>)"
proof -
  assume "queues_inv Xs ps q"
  then obtain H A F where qb: "queues_by H A F Xs ps q" by (auto simp: queues_inv_def)
  have "pool_inv U F (q\<lparr>mem := m\<rparr>) = pool_inv U F q" for U F
    by (rule pool_inv_mem) (simp add: only_mem_def)
  moreover have "ip_inv h t a xs p (q\<lparr>mem := m\<rparr>)" if "ip_inv h t a xs p q" for h t a xs p
    by (rule ip_inv_frame [OF that]) simp
  ultimately have "queues_by H A F Xs ps (q\<lparr>mem := m\<rparr>)" using qb by (auto simp: queues_by_def)
  then show "queues_inv Xs ps (q\<lparr>mem := m\<rparr>)" by (auto simp: queues_inv_def)
qed

lemma queues_new: "queues_inv Xs ps q \<Longrightarrow> ImplicitProducer_new q = (p, q') \<Longrightarrow> queues_inv (Xs @ [[]]) (ps @ [p]) q'"
proof -
  assume inv: "queues_inv Xs ps q" and new: "ImplicitProducer_new q = (p, q')"
  note spec = ImplicitProducer_new_spec [OF new]
  have "q' = q\<lparr>mem := mem q'\<rparr>" using spec(2) by (simp add: only_mem_def)
  with queues_mem [OF inv, of "mem q'"] have "queues_inv Xs ps q'" by simp
  then obtain H A F where qb: "queues_by H A F Xs ps q'" by (auto simp: queues_inv_def)
  let ?n = "length ps" and ?H = "H(length ps := 0)"
  have lens: "length Xs = ?n" using qb by (simp add: queues_by_def)
  have old: "owned ?H A (Xs @ [[]]) j = owned H A Xs j" if "j < ?n" for j
    using that lens by (simp add: owned_def nth_append)
  have no: "owned ?H A (Xs @ [[]]) ?n = {}" using lens by (simp add: owned_def nth_append live_def)
  have "queues_by ?H A F (Xs @ [[]]) (ps @ [p]) q'"
    unfolding queues_by_def
  proof (intro conjI allI impI)
    fix i assume "i < length (ps @ [p])"
    then consider "i < ?n" | "i = ?n" by fastforce
    then show "ip_inv (?H i) (?H i + length ((Xs @ [[]]) ! i)) (A i) ((Xs @ [[]]) ! i) ((ps @ [p]) ! i) q'"
    proof cases
      case 1
      with qb lens show ?thesis by (simp add: queues_by_def nth_append)
    next
      case 2
      with spec(1) lens show ?thesis by (simp add: nth_append)
    qed
  next
    fix i j assume "i < length (ps @ [p])" "j < length (ps @ [p])" "i \<noteq> j"
    then show "owned ?H A (Xs @ [[]]) i \<inter> owned ?H A (Xs @ [[]]) j = {}"
      using qb old [of i] old [of j] no by (cases "i = ?n"; cases "j = ?n") (simp_all add: queues_by_def)
  next
    have "(\<Union>i < length (ps @ [p]). owned ?H A (Xs @ [[]]) i) = (\<Union>i < ?n. owned H A Xs i)"
      using old no by (simp add: lessThan_Suc)
    then show "pool_inv (\<Union>i < length (ps @ [p]). owned ?H A (Xs @ [[]]) i) F q'"
      using qb by (simp only: queues_by_def)
  qed (use lens in simp)
  then show "queues_inv (Xs @ [[]]) (ps @ [p]) q'" by (auto simp: queues_inv_def)
qed

lemma queues_enqueue:
  assumes inv: "queues_inv Xs ps q" and i: "i < length ps"
  obtains ok p q' where "ip_enqueue m x (ps ! i) q = Some (ok, p, q')"
    "queues_inv (Xs[i := (if ok then Xs ! i @ [x] else Xs ! i)]) (ps[i := p]) q'"
    "\<not> ok \<Longrightarrow> 2 ^ 63 \<le> length (Xs ! i) + 32 \<or> blockIndex (ps ! i) = None \<or> m = CannotAlloc \<or> mem q \<noteq> []"
    "ok \<Longrightarrow> blockIndex p \<noteq> None"
proof -
  from inv obtain H A F where qb: "queues_by H A F Xs ps q" by (auto simp: queues_inv_def)
  let ?U = "\<Union>i < length ps. owned H A Xs i"
  have ip: "ip_inv (H i) (H i + length (Xs ! i)) (A i) (Xs ! i) (ps ! i) q" and pool: "pool_inv ?U F q"
    using qb i by (simp_all add: queues_by_def)
  have own: "A i ` live (H i) (H i + length (Xs ! i)) \<subseteq> ?U" using i by (auto simp: owned_def)
  obtain ok p q' F' A' where enq: "ip_enqueue m x (ps ! i) q = Some (ok, p, q')"
    and res: "if ok then ip_inv (H i) (Suc (H i + length (Xs ! i))) A' (Xs ! i @ [x]) p q' \<and>
         A' ` live (H i) (Suc (H i + length (Xs ! i))) \<inter> (?U - A i ` live (H i) (H i + length (Xs ! i))) = {} \<and>
         pool_inv (reown ?U (A i ` live (H i) (H i + length (Xs ! i))) (A' ` live (H i) (Suc (H i + length (Xs ! i))))) F' q'
     else ip_inv (H i) (H i + length (Xs ! i)) (A i) (Xs ! i) p q' \<and> pool_inv ?U F' q' \<and>
        may_refuse m (H i) (H i + length (Xs ! i)) (ps ! i) q"
    and keep: "\<forall>a \<in> ?U - A i ` live (H i) (H i + length (Xs ! i)). blocks q' a = blocks q a"
    using ip_enqueue_spec [OF ip pool own] by metis
  show thesis
  proof (cases ok)
    case True
    with res have r: "ip_inv (H i) (Suc (H i + length (Xs ! i))) A' (Xs ! i @ [x]) p q'"
        "A' ` live (H i) (Suc (H i + length (Xs ! i))) \<inter> (?U - owned H A Xs i) = {}"
        "pool_inv (reown ?U (owned H A Xs i) (A' ` live (H i) (Suc (H i + length (Xs ! i))))) F' q'"
      by (simp_all add: owned_def)
    have "queues_inv (Xs[i := Xs ! i @ [x]]) (ps[i := p]) q'"
      by (rule queues_step [OF qb i r(1,3,2)]) (use keep in \<open>simp add: owned_def\<close>)
    moreover have "blockIndex p \<noteq> None" using r(1) by (rule ip_inv_index) simp
    ultimately show thesis using enq True by (intro that [of ok p q']) simp_all
  next
    case False
    with res have r: "ip_inv (H i) (H i + length (Xs ! i)) (A i) (Xs ! i) p q'" "pool_inv ?U F' q'"
        "may_refuse m (H i) (H i + length (Xs ! i)) (ps ! i) q" by simp_all
    have "reown ?U (owned H A Xs i) (A i ` live (H i) (H i + length (Xs ! i))) = ?U"
      using i by (auto simp: reown_def owned_def)
    then have "queues_inv (Xs[i := Xs ! i]) (ps[i := p]) q'"
      by (intro queues_step [OF qb i r(1)]) (use keep r(2) in \<open>auto simp: owned_def\<close>)
    with r(3) False enq show thesis by (intro that [of ok p q']) (auto simp: may_refuse_def)
  qed
qed

lemma queues_dequeue_empty:
  assumes "queues_inv Xs ps q" "i < length ps" "Xs ! i = []"
  shows "ip_dequeue (ps ! i) q = Some (None, ps ! i, q)"
proof -
  from assms obtain H A where "ip_inv (H i) (H i + length (Xs ! i)) (A i) (Xs ! i) (ps ! i) q"
    by (auto simp: queues_inv_def queues_by_def)
  with assms(3) ip_dequeue_empty show ?thesis by metis
qed

lemma queues_dequeue:
  assumes inv: "queues_inv Xs ps q" and i: "i < length ps" and xs: "Xs ! i = y # ys"
  obtains p q' where "ip_dequeue (ps ! i) q = Some (Some y, p, q')" "queues_inv (Xs[i := ys]) (ps[i := p]) q'"
proof -
  from inv obtain H A F where qb: "queues_by H A F Xs ps q" by (auto simp: queues_inv_def)
  let ?U = "\<Union>i < length ps. owned H A Xs i" and ?T = "H i + length (Xs ! i)"
  have "ip_inv (H i) ?T (A i) (Xs ! i) (ps ! i) q" and pool: "pool_inv ?U F q"
    using qb i by (simp_all add: queues_by_def)
  then have ip: "ip_inv (H i) ?T (A i) (y # ys) (ps ! i) q" by (simp only: xs)
  have own: "A i ` live (H i) ?T \<subseteq> ?U" using i by (auto simp: owned_def)
  obtain p q' F' where deq: "ip_dequeue (ps ! i) q = Some (Some y, p, q')"
    and r: "ip_inv (Suc (H i)) ?T (A i) ys p q'"
      "pool_inv (reown ?U (owned H A Xs i) (A i ` live (Suc (H i)) ?T)) F' q'"
    and keep: "\<forall>a \<in> ?U - owned H A Xs i. blocks q' a = blocks q a"
    using ip_dequeue_spec [OF ip pool own, folded owned_def] by blast
  have "A i ` live (Suc (H i)) ?T \<subseteq> owned H A Xs i"
    by (auto simp: owned_def live_tail)
  then have "queues_inv (Xs[i := ys]) (ps[i := p]) q'"
    using keep by (intro queues_step [OF qb i r]) blast+
  with deq show thesis by (rule that)
qed

lemma queues_size:
  assumes "queues_inv Xs ps q" "i < length ps"
  shows "size_approx (ps ! i) = of_nat (length (Xs ! i))" "length (Xs ! i) < 2 ^ 63"
proof -
  from assms obtain H A where ip: "ip_inv (H i) (H i + length (Xs ! i)) (A i) (Xs ! i) (ps ! i) q"
    by (auto simp: queues_inv_def queues_by_def)
  from size_approx_length [OF ip] show "size_approx (ps ! i) = of_nat (length (Xs ! i))"
    by (metis of_nat_unat ucast_id)
  from ip_bounds(2) [OF ip] show "length (Xs ! i) < 2 ^ 63" by simp
qed

section \<open>Threads own their producers\<close>

definition owners_inv :: "bool list \<Rightarrow> (thread_id \<Rightarrow> nat option option) \<Rightarrow> bool" where
  "owners_inv bs f \<longleftrightarrow>
     (\<forall>t v. valid_id t \<longrightarrow> f t = Some v \<longrightarrow> (\<exists>i < length bs. v = Some i)) \<and>
     (\<forall>t u i. valid_id t \<longrightarrow> valid_id u \<longrightarrow> f t = Some (Some i) \<longrightarrow> f u = Some (Some i) \<longrightarrow> t = u) \<and>
     (\<forall>i < length bs. bs ! i \<longleftrightarrow> (\<forall>t. valid_id t \<longrightarrow> f t \<noteq> Some (Some i)))"

definition listeners_inv :: "(thread_id \<times> nat) list \<Rightarrow> (thread_id \<Rightarrow> nat option option) \<Rightarrow> bool" where
  "listeners_inv ls f \<longleftrightarrow> (\<forall>t. valid_id t \<longrightarrow>
     map snd (filter (\<lambda>l. fst l = t) ls) = (case f t of Some (Some i) \<Rightarrow> [i] | _ \<Rightarrow> []))"

definition producer_of :: "'a cq \<Rightarrow> thread_id \<Rightarrow> nat option option" where
  "producer_of s tid = chain_lookup (tables (phash s)) tid"

definition cq_inv :: "'a list list \<Rightarrow> 'a cq \<Rightarrow> bool" where
  "cq_inv Xs s \<longleftrightarrow> queues_inv Xs (map inner (producers s)) (cpool s) \<and> hash_inv (phash s) \<and>
     producerCount s = of_nat (length (producers s)) \<and>
     owners_inv (map inactive (producers s)) (producer_of s) \<and> listeners_inv (exit_listeners s) (producer_of s)"

lemma owners_cong:
  "owners_inv bs f \<Longrightarrow> (\<And>x. valid_id x \<Longrightarrow> g x = f x) \<Longrightarrow> owners_inv bs g"
  unfolding owners_inv_def by simp

lemma listeners_cong:
  "listeners_inv ls f \<Longrightarrow> (\<And>x. valid_id x \<Longrightarrow> g x = f x) \<Longrightarrow> listeners_inv ls g"
  unfolding listeners_inv_def by simp

lemma owners_range:
  assumes "owners_inv bs f" "valid_id t" "f t = Some v"
  obtains i where "i < length bs" "v = Some i" "\<not> bs ! i"
  using assms unfolding owners_inv_def by blast

lemma owners_inj:
  "owners_inv bs f \<Longrightarrow> valid_id t \<Longrightarrow> valid_id u \<Longrightarrow> f t = Some (Some i) \<Longrightarrow> f u = Some (Some i) \<Longrightarrow> t = u"
  unfolding owners_inv_def by blast

lemma owners_free:
  "owners_inv bs f \<Longrightarrow> i < length bs \<Longrightarrow> bs ! i \<longleftrightarrow> (\<forall>t. valid_id t \<longrightarrow> f t \<noteq> Some (Some i))"
  unfolding owners_inv_def by blast

text \<open>A thread takes a producer nobody owns: an inactive one, or a new one.\<close>

lemma owners_take:
  assumes inv: "owners_inv bs f" and t: "valid_id t" "f t = None"
    and new: "i < length bs' \<and> \<not> bs' ! i \<and> length bs \<le> length bs' \<and>
      (\<forall>j < length bs'. j \<noteq> i \<longrightarrow> j < length bs \<and> bs' ! j = bs ! j) \<and> (i < length bs \<longrightarrow> bs ! i)"
    and g: "\<And>x. valid_id x \<Longrightarrow> g x = (if x = t then Some (Some i) else f x)"
  shows "owners_inv bs' g"
proof -
  have fresh: "f u \<noteq> Some (Some i)" if vu: "valid_id u" for u
  proof
    assume u: "f u = Some (Some i)"
    obtain j where "j < length bs" "Some i = Some j" "\<not> bs ! j" using owners_range [OF inv vu u] .
    with new show False by simp
  qed
  show ?thesis
    unfolding owners_inv_def
  proof (intro conjI allI impI)
    fix u v assume u: "valid_id u" "g u = Some v"
    show "\<exists>j < length bs'. v = Some j"
    proof (cases "u = t")
      case True
      with g [OF u(1)] u(2) new show ?thesis by auto
    next
      case False
      with g [OF u(1)] u(2) have fu: "f u = Some v" by simp
      obtain j where "j < length bs" "v = Some j" using owners_range [OF inv u(1) fu] .
      moreover have "length bs \<le> length bs'" using new by blast
      ultimately show ?thesis by (intro exI [of _ j]) simp
    qed
  next
    fix u w j assume u: "valid_id u" "valid_id w" "g u = Some (Some j)" "g w = Some (Some j)"
    show "u = w"
      using u(3,4) fresh [OF u(1)] fresh [OF u(2)] owners_inj [OF inv u(1,2), of j]
      unfolding g [OF u(1)] g [OF u(2)] by (auto split: if_splits)
  next
    fix j assume j: "j < length bs'"
    show "bs' ! j \<longleftrightarrow> (\<forall>u. valid_id u \<longrightarrow> g u \<noteq> Some (Some j))"
    proof (cases "j = i")
      case True
      with t(1) g [OF t(1)] new show ?thesis by auto
    next
      case False
      with new j have "j < length bs" "bs' ! j = bs ! j" by auto
      moreover have "g u \<noteq> Some (Some j) \<longleftrightarrow> f u \<noteq> Some (Some j)" if "valid_id u" for u
        using g [OF that] t(2) False by auto
      ultimately show ?thesis using owners_free [OF inv] by simp
    qed
  qed
qed

lemma owners_leave:
  assumes inv: "owners_inv bs f" and t: "valid_id t" "f t = Some (Some i)"
    and g: "\<And>x. valid_id x \<Longrightarrow> g x = (if x = t then None else f x)"
  shows "owners_inv (bs[i := True]) g"
  unfolding owners_inv_def length_list_update
proof (intro conjI allI impI)
  show "\<exists>j < length bs. v = Some j" if u: "valid_id u" "g u = Some v" for u v
  proof -
    have fu: "f u = Some v" using u g [OF u(1)] by (simp split: if_splits)
    obtain j where "j < length bs" "v = Some j" using owners_range [OF inv u(1) fu] .
    then show ?thesis by blast
  qed
  show "u = w" if u: "valid_id u" "valid_id w" "g u = Some (Some j)" "g w = Some (Some j)" for u w j
  proof -
    have "f u = Some (Some j)" "f w = Some (Some j)" using u g [OF u(1)] g [OF u(2)] by (simp_all split: if_splits)
    then show ?thesis by (rule owners_inj [OF inv u(1,2)])
  qed
  show "bs[i := True] ! j \<longleftrightarrow> (\<forall>u. valid_id u \<longrightarrow> g u \<noteq> Some (Some j))" if j: "j < length bs" for j
  proof (cases "j = i")
    case True
    have "g u \<noteq> Some (Some i)" if "valid_id u" for u
      using g [OF that] owners_inj [OF inv that t(1) _ t(2)] by auto
    with True j show ?thesis by simp
  next
    case False
    have "g u \<noteq> Some (Some j) \<longleftrightarrow> f u \<noteq> Some (Some j)" if "valid_id u" for u
      using g [OF that] t(2) False by auto
    with owners_free [OF inv j] False show ?thesis by simp
  qed
qed

lemma listeners_take:
  assumes "listeners_inv ls f" "valid_id t" "f t = None"
    and "\<And>x. valid_id x \<Longrightarrow> g x = (if x = t then Some (Some i) else f x)"
  shows "listeners_inv ((t, i) # ls) g"
  using assms unfolding listeners_inv_def by auto

lemma listeners_leave:
  assumes "listeners_inv ls f" and g: "\<And>x. valid_id x \<Longrightarrow> g x = (if x = t then None else f x)"
  shows "listeners_inv (filter (\<lambda>l. fst l \<noteq> t) ls) g"
  unfolding listeners_inv_def
proof (intro allI impI)
  fix u assume u: "valid_id u"
  have "filter (\<lambda>l. fst l = u \<and> fst l \<noteq> t) ls = (if u = t then [] else filter (\<lambda>l. fst l = u) ls)"
    by (induction ls) auto
  with assms(1) u g [OF u]
  show "map snd (filter (\<lambda>l. fst l = u) (filter (\<lambda>l. fst l \<noteq> t) ls)) = (case g u of Some (Some i) \<Rightarrow> [i] | _ \<Rightarrow> [])"
    by (simp add: listeners_inv_def conj_commute)
qed

section \<open>Getting a producer\<close>

text \<open>\<open>roomy\<close>: allocations succeed, and so have those of all block indices.\<close>

definition roomy :: "'a cq \<Rightarrow> bool" where
  "roomy s \<longleftrightarrow> mem (cpool s) = [] \<and> (\<forall>p \<in> set (producers s). blockIndex (inner p) \<noteq> None)"

definition takes_over :: "nat \<Rightarrow> bool list \<Rightarrow> bool list \<Rightarrow> bool" where
  "takes_over i bs bs' \<longleftrightarrow> i < length bs' \<and> \<not> bs' ! i \<and> length bs \<le> length bs' \<and>
      (\<forall>j < length bs'. j \<noteq> i \<longrightarrow> j < length bs \<and> bs' ! j = bs ! j) \<and> (i < length bs \<longrightarrow> bs ! i)"

lemma find_traversal:
  "find P (traversal s) = Some i \<Longrightarrow> i < length (producers s) \<and> P i"
  "find P (traversal s) = None \<longleftrightarrow> (\<forall>i < length (producers s). \<not> P i)"
proof -
  have set: "set (traversal s) = {..< length (producers s)}" by (auto simp: traversal_def)
  show "find P (traversal s) = Some i \<Longrightarrow> i < length (producers s) \<and> P i"
  proof -
    assume "find P (traversal s) = Some i"
    then have "i \<in> set (traversal s)" "P i" by (auto simp: find_split)
    with set show ?thesis by simp
  qed
  show "find P (traversal s) = None \<longleftrightarrow> (\<forall>i < length (producers s). \<not> P i)"
    using set by (auto simp: find_None_iff)
qed

lemma malloc_cases:
  obtains ok m where "malloc q = (ok, q\<lparr>mem := m\<rparr>)" "mem q = [] \<Longrightarrow> ok \<and> m = []"
  by (cases "mem q") (auto simp: malloc_def)

definition recycled :: "'a list list \<Rightarrow> 'a cq \<Rightarrow> nat option \<Rightarrow> 'a list list \<Rightarrow> 'a cq \<Rightarrow> bool" where
  "recycled Xs s r Xs' s' \<longleftrightarrow>
     phash s' = phash s \<and> exit_listeners s' = exit_listeners s \<and>
     queues_inv Xs' (map inner (producers s')) (cpool s') \<and>
     producerCount s' = of_nat (length (producers s')) \<and> (roomy s \<longrightarrow> roomy s') \<and>
     (case r of
        None \<Rightarrow> Xs' = Xs \<and> producers s' = producers s \<and> mem (cpool s) \<noteq> []
      | Some i \<Rightarrow> takes_over i (map inactive (producers s)) (map inactive (producers s')) \<and>
          (Xs' = Xs \<and> i < length Xs \<or> Xs' = Xs @ [[]] \<and> i = length Xs \<and> (\<forall>p \<in> set (producers s). \<not> inactive p)))"

lemma recycle_spec:
  assumes q: "queues_inv Xs (map inner (producers s)) (cpool s)" and n: "producerCount s = of_nat (length (producers s))"
  obtains r s' Xs' where "recycle_or_create_producer s = (r, s')" "recycled Xs s r Xs' s'"
proof -
  have len: "length Xs = length (producers s)" using q by (auto simp: queues_inv_def queues_by_def)
  show thesis
  proof (cases "find (\<lambda>i. inactive (producers s ! i)) (traversal s)")
    case (Some i)
    with find_traversal(1) [OF Some] have i: "i < length (producers s)" "inactive (producers s ! i)" by simp_all
    let ?s = "set_inactive i False s"
    have "map inner (producers ?s) = map inner (producers s)"
      using i by (simp add: set_inactive_def map_update list_update_same_conv)
    moreover have "roomy s \<longrightarrow> roomy ?s"
      using i(1) by (auto simp: roomy_def set_inactive_def dest!: set_update_subset_insert [THEN subsetD])
    moreover have "takes_over i (map inactive (producers s)) (map inactive (producers ?s))"
      using i by (auto simp: takes_over_def set_inactive_def nth_list_update)
    ultimately have "recycled Xs s (Some i) Xs ?s"
      using q n i(1) len by (simp add: recycled_def set_inactive_def)
    then show thesis using Some by (intro that [of "Some i" ?s Xs]) (simp_all add: recycle_or_create_producer_def)
  next
    case None
    then have active: "\<forall>p \<in> set (producers s). \<not> inactive p"
      unfolding find_traversal(2) by (metis in_set_conv_nth)
    obtain ok m where m: "malloc (cpool s) = (ok, (cpool s)\<lparr>mem := m\<rparr>)" "mem (cpool s) = [] \<Longrightarrow> ok \<and> m = []"
      by (rule malloc_cases [of "cpool s"]) blast
    note q1 = queues_mem [OF q, of m]
    show thesis
    proof (cases ok)
      case False
      let ?s = "s\<lparr>cpool := (cpool s)\<lparr>mem := m\<rparr>\<rparr>"
      have "recycled Xs s None Xs ?s" using q1 n m(2) False by (auto simp: recycled_def roomy_def)
      then show thesis using None m(1) False
        by (intro that [of None ?s Xs]) (simp_all add: recycle_or_create_producer_def create_implicit_producer_def)
    next
      case True
      obtain p q' where new: "ImplicitProducer_new ((cpool s)\<lparr>mem := m\<rparr>) = (p, q')" by force
      let ?s = "s\<lparr>cpool := q', producerCount := producerCount s + 1, producers := producers s @ [\<lparr>inner = p, inactive = False\<rparr>]\<rparr>"
      have "queues_inv (Xs @ [[]]) (map inner (producers ?s)) (cpool ?s)"
        using queues_new [OF q1 new] by simp
      moreover have "takes_over (length Xs) (map inactive (producers s)) (map inactive (producers ?s))"
        by (auto simp: takes_over_def len nth_append)
      moreover have "roomy s \<longrightarrow> roomy ?s"
        using m(2) ImplicitProducer_new_spec(3) [OF new] by (auto simp: roomy_def)
      ultimately have "recycled Xs s (Some (length Xs)) (Xs @ [[]]) ?s"
        using n active by (simp add: recycled_def)
      then show thesis using None m(1) True new
        by (intro that [of "Some (length Xs)" ?s "Xs @ [[]]"])
          (simp_all add: recycle_or_create_producer_def create_implicit_producer_def add_producer_def len)
    qed
  qed
qed

lemma hash_inv_uncount: "hash_room h \<Longrightarrow> hash_inv (h\<lparr>hash_count := hash_count h - 1\<rparr>)"
  by (auto simp: hash_room_def hash_inv_def split: list.splits)

lemma hash_room_capacity:
  "hash_room h \<Longrightarrow> hash_count h < length (hd (tables h)) div 2 + length (hd (tables h)) div 4"
proof -
  assume "hash_room h"
  then obtain t ts where t: "tables h = t # ts" "2 * hash_count h < length t" "0 < hash_count h" "table_ok t"
    by (auto simp: hash_room_def split: list.splits)
  obtain c where "length t = 2 ^ c" using table_length [OF t(4)] by blast
  moreover have "2 < length t" using t by linarith
  ultimately have "even (length t)" by (cases c) auto
  with t(2) have "hash_count h < length t div 2" by (elim evenE) simp
  with t(1) show ?thesis by simp
qed

definition got :: "'a list list \<Rightarrow> thread_id \<Rightarrow> 'a cq \<Rightarrow> nat option \<Rightarrow> 'a list list \<Rightarrow> 'a cq \<Rightarrow> bool" where
  "got Xs tid s r Xs' s' \<longleftrightarrow> cq_inv Xs' s' \<and> (roomy s \<longrightarrow> roomy s') \<and>
     (\<forall>u. valid_id u \<longrightarrow> u \<noteq> tid \<longrightarrow> producer_of s' u = producer_of s u) \<and>
     (case r of None \<Rightarrow> Xs' = Xs \<and> mem (cpool s) \<noteq> []
      | Some i \<Rightarrow> producer_of s' tid = Some (Some i) \<and>
          (Xs' = Xs \<and> i < length Xs \<or> Xs' = Xs @ [[]] \<and> i = length Xs \<and> (\<forall>p \<in> set (producers s). \<not> inactive p)) \<and>
          (producer_of s tid = None \<or> producer_of s tid = Some (Some i) \<and> Xs' = Xs))"

lemma get_or_add_spec:
  assumes inv: "cq_inv Xs s" and tid: "valid_id tid" and small: "hash_count (phash s) < 2 ^ 58"
  obtains r s' Xs' where "get_or_add_implicit_producer tid s = Some (r, s')" "got Xs tid s r Xs' s'"
proof -
  have q: "queues_inv Xs (map inner (producers s)) (cpool s)" and h: "hash_inv (phash s)"
    and n: "producerCount s = of_nat (length (producers s))"
    and ow: "owners_inv (map inactive (producers s)) (producer_of s)"
    and ls: "listeners_inv (exit_listeners s) (producer_of s)"
    using inv by (simp_all add: cq_inv_def)
  have len: "length Xs = length (producers s)" using q by (auto simp: queues_inv_def queues_by_def)
  obtain h1 where h1: "find_or_copy tid (phash s) = Some (producer_of s tid, h1)" "hash_inv h1"
      "\<forall>x. valid_id x \<longrightarrow> chain_lookup (tables h1) x = producer_of s x" "hash_count h1 = hash_count (phash s)"
    using find_or_copy_spec [OF h tid] unfolding producer_of_def by blast
  show thesis
  proof (cases "producer_of s tid")
    case (Some v)
    obtain i where i: "i < length (producers s)" "v = Some i"
      using owners_range [OF ow tid Some] by auto
    let ?s = "s\<lparr>phash := h1\<rparr>"
    have same: "producer_of ?s x = producer_of s x" if "valid_id x" for x
      using h1(3) that by (simp add: producer_of_def)
    then have "cq_inv Xs ?s"
      using q h1(2) n owners_cong [OF ow, of "producer_of ?s"] listeners_cong [OF ls, of "producer_of ?s"]
      by (simp add: cq_inv_def)
    then have "got Xs tid s (Some i) Xs ?s"
      using same tid Some i len by (simp add: got_def roomy_def)
    then show thesis using h1(1) Some i
      by (intro that [of "Some i" ?s Xs]) (simp_all add: get_or_add_implicit_producer_def)
  next
    case none: None
    have "hash_count h1 < 2 ^ 58" using h1(4) small by simp
    then obtain ok h2 m where res: "reserve_entry h1 (cpool s) = (ok, h2, (cpool s)\<lparr>mem := m\<rparr>)"
      and nomem: "mem (cpool s) = [] \<Longrightarrow> ok \<and> m = []"
      and room: "ok \<Longrightarrow> hash_room h2 \<and> hash_count h2 = hash_count h1 + 1 \<and>
        (\<forall>x. valid_id x \<longrightarrow> chain_lookup (tables h2) x = chain_lookup (tables h1) x)"
      and fail: "\<not> ok \<Longrightarrow> h2 = h1"
      by (rule reserve_entry_spec [OF h1(2), of "cpool s"]) blast
    let ?s = "s\<lparr>phash := h2, cpool := (cpool s)\<lparr>mem := m\<rparr>\<rparr>"
    note q1 = queues_mem [OF q, of m]
    show thesis
    proof (cases ok)
      case False
      with fail have h2: "h2 = h1" by simp
      have same: "producer_of ?s x = producer_of s x" if "valid_id x" for x
        using h1(3) that by (simp add: producer_of_def h2)
      then have "cq_inv Xs ?s"
        using q1 h1(2) n owners_cong [OF ow, of "producer_of ?s"] listeners_cong [OF ls, of "producer_of ?s"]
        by (simp add: cq_inv_def h2)
      then have "got Xs tid s None Xs ?s" using same nomem False by (auto simp: got_def roomy_def)
      then show thesis using h1(1) none res False
        by (intro that [of None ?s Xs]) (simp_all add: get_or_add_implicit_producer_def)
    next
      case True
      note room = room [OF True]
      have look: "chain_lookup (tables h2) x = producer_of s x" if "valid_id x" for x
        using room h1(3) that by simp
      obtain r s2 Xs' where rec: "recycle_or_create_producer ?s = (r, s2)" "recycled Xs ?s r Xs' s2"
        by (rule recycle_spec [of Xs ?s]) (use q1 n in simp_all)
      have s2: "phash s2 = h2" "exit_listeners s2 = exit_listeners s"
        "queues_inv Xs' (map inner (producers s2)) (cpool s2)" "producerCount s2 = of_nat (length (producers s2))"
        using rec(2) by (simp_all add: recycled_def)
      have roomy: "roomy s \<longrightarrow> roomy s2" using rec(2) nomem by (auto simp: recycled_def roomy_def)
      have goa: "get_or_add_implicit_producer tid s = (case r of
             None \<Rightarrow> Some (None, s2\<lparr>phash := h2\<lparr>hash_count := hash_count h2 - 1\<rparr>\<rparr>)
           | Some i \<Rightarrow> map_option (\<lambda>h3. (Some i, (subscribe tid i s2)\<lparr>phash := h3\<rparr>)) (add_entry tid i h2))"
        using h1(1) none res True hash_room_capacity [of h2] room rec(1)
        by (simp add: get_or_add_implicit_producer_def Let_def)
      show thesis
      proof (cases r)
        case None
        let ?s' = "s2\<lparr>phash := h2\<lparr>hash_count := hash_count h2 - 1\<rparr>\<rparr>"
        have r: "Xs' = Xs" "producers s2 = producers s" "m \<noteq> []" using rec(2) None by (simp_all add: recycled_def)
        have same: "producer_of ?s' x = producer_of s x" if "valid_id x" for x
          using look that by (simp add: producer_of_def)
        then have "cq_inv Xs ?s'"
          using s2 r n hash_inv_uncount [of h2] room owners_cong [OF ow, of "producer_of ?s'"]
            listeners_cong [OF ls, of "producer_of ?s'"]
          by (simp add: cq_inv_def)
        then have "got Xs tid s None Xs ?s'" using same nomem r roomy by (auto simp: got_def roomy_def)
        then show thesis using goa None by (intro that [of None ?s' Xs]) simp_all
      next
        case (Some i)
        obtain h3 where add: "add_entry tid i h2 = Some h3" "hash_inv h3"
            "\<forall>x. valid_id x \<longrightarrow> chain_lookup (tables h3) x = (if x = tid then Some (Some i) else chain_lookup (tables h2) x)"
          using add_entry_spec [of h2 tid i] room tid look [OF tid] none by auto
        let ?s' = "(subscribe tid i s2)\<lparr>phash := h3\<rparr>"
        have g: "producer_of ?s' x = (if x = tid then Some (Some i) else producer_of s x)" if "valid_id x" for x
          using add(3) look that by (simp add: producer_of_def)
        have take: "takes_over i (map inactive (producers s)) (map inactive (producers s2))"
          and Xs': "Xs' = Xs \<and> i < length Xs \<or> Xs' = Xs @ [[]] \<and> i = length Xs \<and> (\<forall>p \<in> set (producers s). \<not> inactive p)"
          using rec(2) Some by (simp_all add: recycled_def)
        have "owners_inv (map inactive (producers s2)) (producer_of ?s')"
          by (rule owners_take [OF ow tid none take [unfolded takes_over_def] g])
        moreover have "listeners_inv ((tid, i) # exit_listeners s) (producer_of ?s')"
          by (rule listeners_take [OF ls tid none g])
        ultimately have "cq_inv Xs' ?s'"
          using s2 add(2) by (simp add: cq_inv_def subscribe_def)
        moreover have "roomy s \<longrightarrow> roomy ?s'" using roomy by (simp add: roomy_def subscribe_def)
        ultimately have "got Xs tid s (Some i) Xs' ?s'" using g tid none Xs' by (simp add: got_def)
        then show thesis using goa Some add(1) by (intro that [of "Some i" ?s' Xs']) simp_all
      qed
    qed
  qed
qed

end
