(* ===== verification/QueueRefinement.thy ===== *)
theory QueueRefinement
  imports ConcurrentQueue
begin

text \<open>
  What the operations of \<^verbatim>\<open>moodycamel::ConcurrentQueue\<close> promise, proved of the model in
  \<open>ConcurrentQueue\<close>: the effect of enqueue, of the three ways to dequeue and of a thread's exit on the
  contents \<open>Xs\<close> of the sub-queues, then the refinement of the abstract queue of \<open>MpmcQueue\<close>.
\<close>

unbundle bit_operations_syntax

section \<open>Enqueue and dequeue\<close>

lemma on_producer_inv:
  assumes inv: "cq_inv Xs s" and i: "i < length (producers s)"
    and f: "f (inner (producers s ! i)) (cpool s) = Some (r, p, q)"
    and q: "queues_inv (Xs[i := ys]) ((map inner (producers s))[i := p]) q"
  obtains s' where "on_producer i f s = Some (r, s')" "cq_inv (Xs[i := ys]) s'"
    "producer_of s' = producer_of s" "phash s' = phash s"
    "map inactive (producers s') = map inactive (producers s)" "length (producers s') = length (producers s)"
    "mem (cpool s') = mem q" "\<And>j. j < length (producers s) \<Longrightarrow> inner (producers s' ! j) = (if j = i then p else inner (producers s ! j))"
proof -
  let ?s = "s\<lparr>producers := (producers s)[i := (producers s ! i)\<lparr>inner := p\<rparr>], cpool := q\<rparr>"
  have ia: "map inactive (producers ?s) = map inactive (producers s)"
    using i by (simp add: map_update list_update_same_conv)
  have po: "producer_of ?s = producer_of s" by (simp add: producer_of_def fun_eq_iff)
  have "map inner (producers ?s) = (map inner (producers s))[i := p]" by (simp add: map_update)
  then have "cq_inv (Xs[i := ys]) ?s" using inv q ia po by (simp add: cq_inv_def)
  moreover have "on_producer i f s = Some (r, ?s)" using f by (simp add: on_producer_def)
  ultimately show thesis using ia po by (intro that [of ?s]) (simp_all add: nth_list_update i)
qed

lemma cq_length: "cq_inv Xs s \<Longrightarrow> length Xs = length (producers s)"
  by (auto simp: cq_inv_def queues_inv_def queues_by_def)

lemma update_same: "queues_inv Xs ps q \<Longrightarrow> i < length ps \<Longrightarrow> queues_inv (Xs[i := Xs ! i]) (ps[i := ps ! i]) q"
  by simp

lemma dequeue_at_empty:
  assumes "cq_inv Xs s" "i < length Xs" "Xs ! i = []"
  shows "dequeue_at i s = Some (None, s)"
proof -
  have i: "i < length (producers s)" using assms cq_length by metis
  have "queues_inv Xs (map inner (producers s)) (cpool s)" using assms(1) by (simp add: cq_inv_def)
  from queues_dequeue_empty [OF this _ assms(3)] i
  have "ip_dequeue (inner (producers s ! i)) (cpool s) = Some (None, inner (producers s ! i), cpool s)" by simp
  then show ?thesis by (simp add: dequeue_at_def on_producer_def)
qed

lemma dequeue_at_some:
  assumes inv: "cq_inv Xs s" and i: "i < length Xs" "Xs ! i = y # ys"
  obtains s' where "dequeue_at i s = Some (Some y, s')" "cq_inv (Xs[i := ys]) s'"
    "producer_of s' = producer_of s" "phash s' = phash s"
proof -
  have i': "i < length (producers s)" using i inv cq_length by metis
  have q: "queues_inv Xs (map inner (producers s)) (cpool s)" using inv by (simp add: cq_inv_def)
  obtain p q' where deq: "ip_dequeue (map inner (producers s) ! i) (cpool s) = Some (Some y, p, q')"
    and q': "queues_inv (Xs[i := ys]) ((map inner (producers s))[i := p]) q'"
    by (rule queues_dequeue [OF q _ i(2)]) (use i' in auto)
  have "ip_dequeue (inner (producers s ! i)) (cpool s) = Some (Some y, p, q')" using deq i' by simp
  then obtain s' where "on_producer i ip_dequeue s = Some (Some y, s')" "cq_inv (Xs[i := ys]) s'"
      "producer_of s' = producer_of s" "phash s' = phash s"
    by (rule on_producer_inv [where f = ip_dequeue, OF inv i' _ q']) blast
  then show thesis by (intro that [of s']) (simp_all add: dequeue_at_def)
qed

lemma dequeue_first_spec:
  assumes inv: "cq_inv Xs s" and sub: "\<forall>i \<in> set is. i < length Xs"
  shows "(\<forall>i \<in> set is. Xs ! i = []) \<and> dequeue_first is s = Some (None, s) \<or>
    (\<exists>i \<in> set is. \<exists>y ys s'. Xs ! i = y # ys \<and> dequeue_first is s = Some (Some y, s') \<and>
       cq_inv (Xs[i := ys]) s' \<and> producer_of s' = producer_of s \<and> phash s' = phash s)"
  using sub
proof (induction "is")
  case (Cons i "is")
  then have i: "i < length Xs" by simp
  show ?case
  proof (cases "Xs ! i")
    case Nil
    with Cons dequeue_at_empty [OF inv i] show ?thesis by auto
  next
    case (Cons y ys)
    from dequeue_at_some [OF inv i Cons] obtain s' where
      "dequeue_at i s = Some (Some y, s')" "cq_inv (Xs[i := ys]) s'" "producer_of s' = producer_of s" "phash s' = phash s" .
    with Cons show ?thesis by auto
  qed
qed simp

lemma producer_size_spec:
  assumes "cq_inv Xs s" "i < length Xs"
  shows "producer_size s i = of_nat (length (Xs ! i))" "unat (producer_size s i) = length (Xs ! i)"
proof -
  have i: "i < length (producers s)" using assms cq_length by metis
  have q: "queues_inv Xs (map inner (producers s)) (cpool s)" using assms(1) by (simp add: cq_inv_def)
  show size: "producer_size s i = of_nat (length (Xs ! i))"
    using queues_size(1) [OF q, of i] i by (simp add: producer_size_def)
  have "length (Xs ! i) < 2 ^ 63" using queues_size(2) [OF q, of i] i by simp
  then show "unat (producer_size s i) = length (Xs ! i)"
    unfolding size by (intro unat_of_nat_small) simp
qed

definition best_ok :: "'a list list \<Rightarrow> nat \<Rightarrow> nat option \<Rightarrow> size_t \<Rightarrow> bool" where
  "best_ok Xs n best bestSize \<longleftrightarrow>
     (if n = 0 then best = None \<and> bestSize = 0 else \<exists>b < length Xs. best = Some b \<and> Xs ! b \<noteq> [])"

lemma best_of_spec:
  assumes inv: "cq_inv Xs s"
  shows "\<forall>i \<in> set is. i < length Xs \<Longrightarrow> best_ok Xs n best bestSize \<Longrightarrow>
    \<exists>n' best' size'. best_of s is n best bestSize = (n', best') \<and> best_ok Xs n' best' size' \<and>
      (n' = 0 \<longrightarrow> n = 0 \<and> (\<forall>i \<in> set is. Xs ! i = []))"
proof (induction "is" arbitrary: n best bestSize)
  case (Cons i "is")
  have i: "i < length Xs" and rest: "\<forall>i \<in> set is. i < length Xs" using Cons.prems(1) by simp_all
  have pos: "producer_size s i > 0 \<longleftrightarrow> Xs ! i \<noteq> []"
    using producer_size_spec(2) [OF inv i] by (metis length_0_conv word_gt_0 unat_eq_0)
  consider "n \<ge> 3" | "n < 3" "Xs ! i = []" | "n < 3" "Xs ! i \<noteq> []" "producer_size s i > bestSize"
    | "n < 3" "Xs ! i \<noteq> []" "\<not> producer_size s i > bestSize" by force
  then show ?case
  proof cases
    case 1
    with Cons.prems(2) show ?thesis by auto
  next
    case 2
    from Cons.IH [OF rest Cons.prems(2)] 2 pos show ?thesis by (simp add: Let_def)
  next
    case 3
    have "best_ok Xs (n + 1) (Some i) (producer_size s i)" using i 3 by (simp add: best_ok_def)
    from Cons.IH [OF rest this] 3 pos show ?thesis by (fastforce simp: Let_def)
  next
    case 4
    have "n \<noteq> 0" using 4 pos Cons.prems(2) by (auto simp: best_ok_def split: if_splits)
    then have "best_ok Xs (n + 1) best bestSize" using Cons.prems(2) by (simp add: best_ok_def)
    from Cons.IH [OF rest this] 4 pos show ?thesis by (fastforce simp: Let_def)
  qed
qed auto

lemma set_traversal: "cq_inv Xs s \<Longrightarrow> set (traversal s) = {..< length Xs}"
  using cq_length [of Xs s] by (auto simp: traversal_def)

text \<open>\<open>dequeues Xs r Xs'\<close>: the elements before, the outcome, the elements after.\<close>

definition dequeues :: "'a list list \<Rightarrow> 'a option \<Rightarrow> 'a list list \<Rightarrow> bool" where
  "dequeues Xs r Xs' \<longleftrightarrow>
     (case r of None \<Rightarrow> Xs' = Xs \<and> (\<forall>xs \<in> set Xs. xs = [])
      | Some y \<Rightarrow> \<exists>i ys. i < length Xs \<and> Xs ! i = y # ys \<and> Xs' = Xs[i := ys])"

lemma try_dequeue_spec:
  assumes inv: "cq_inv Xs s"
  obtains r s' Xs' where "cq_try_dequeue s = Some (r, s')" "cq_inv Xs' s'" "dequeues Xs r Xs'"
    "producer_of s' = producer_of s" "phash s' = phash s"
proof -
  have "\<forall>i \<in> set (traversal s). i < length Xs" "best_ok Xs 0 None 0"
    by (simp_all add: set_traversal [OF inv] best_ok_def)
  from best_of_spec [OF inv this] obtain n best size where
    best: "best_of s (traversal s) 0 None 0 = (n, best)" "best_ok Xs n best size"
      "n = 0 \<longrightarrow> (\<forall>i < length Xs. Xs ! i = [])"
    by (auto simp: set_traversal [OF inv])
  show thesis
  proof (cases "n = 0")
    case True
    with best(3) have "\<forall>xs \<in> set Xs. xs = []" by (metis in_set_conv_nth)
    with True best(1) inv show thesis
      by (intro that [of None s Xs]) (simp_all add: cq_try_dequeue_def dequeues_def)
  next
    case False
    with best(2) obtain b where b: "best = Some b" "b < length Xs" "Xs ! b \<noteq> []" by (auto simp: best_ok_def)
    then obtain y ys where y: "Xs ! b = y # ys" by (cases "Xs ! b") auto
    from dequeue_at_some [OF inv b(2) y] obtain s' where "dequeue_at b s = Some (Some y, s')"
      "cq_inv (Xs[b := ys]) s'" "producer_of s' = producer_of s" "phash s' = phash s" .
    with best(1) b y False show thesis
      by (intro that [of "Some y" s' "Xs[b := ys]"]) (auto simp: cq_try_dequeue_def dequeues_def)
  qed
qed

lemma non_interleaved_spec:
  assumes inv: "cq_inv Xs s"
  obtains r s' Xs' where "try_dequeue_non_interleaved s = Some (r, s')" "cq_inv Xs' s'" "dequeues Xs r Xs'"
    "producer_of s' = producer_of s" "phash s' = phash s"
proof -
  have "\<forall>i \<in> set (traversal s). i < length Xs" by (simp add: set_traversal [OF inv])
  from dequeue_first_spec [OF inv this] consider
    "\<forall>i < length Xs. Xs ! i = []" "dequeue_first (traversal s) s = Some (None, s)"
  | i y ys s' where "i < length Xs" "Xs ! i = y # ys" "dequeue_first (traversal s) s = Some (Some y, s')"
      "cq_inv (Xs[i := ys]) s'" "producer_of s' = producer_of s" "phash s' = phash s"
    unfolding set_traversal [OF inv] by auto
  then show thesis
  proof cases
    case 1
    then have "\<forall>xs \<in> set Xs. xs = []" by (metis in_set_conv_nth)
    with 1 inv show thesis
      by (intro that [of None s Xs]) (simp_all add: try_dequeue_non_interleaved_def dequeues_def)
  next
    case (2 i y ys s')
    then show thesis
      by (intro that [of "Some y" s' "Xs[i := ys]"]) (auto simp: try_dequeue_non_interleaved_def dequeues_def)
  qed
qed

section \<open>Appending to the calling thread's producer\<close>

text \<open>\<open>appends Xs i items Xs'\<close>: producer \<open>i\<close>, perhaps a new one, gets the elements.\<close>

definition appends :: "'a list list \<Rightarrow> nat \<Rightarrow> 'a list \<Rightarrow> 'a list list \<Rightarrow> bool" where
  "appends Xs i items Xs' \<longleftrightarrow>
     (i < length Xs \<and> Xs' = Xs[i := Xs ! i @ items]) \<or> (i = length Xs \<and> Xs' = Xs @ [items])"

definition enqueues :: "'a list list \<Rightarrow> nat \<Rightarrow> 'a \<Rightarrow> 'a list list \<Rightarrow> bool" where
  "enqueues Xs i x Xs' \<longleftrightarrow> appends Xs i [x] Xs'"

definition room_for :: "nat \<Rightarrow> 'a list list \<Rightarrow> bool" where
  "room_for n Xs \<longleftrightarrow> (\<forall>xs \<in> set Xs. length xs + n + 31 < 2 ^ 63)"

definition has_room :: "'a list list \<Rightarrow> bool" where
  "has_room Xs \<longleftrightarrow> room_for 1 Xs"

lemma requisition_mem: "requisition_block m q = Some (r, q') \<Longrightarrow> mem q = [] \<Longrightarrow> mem q' = []"
  by (auto simp: requisition_block_def try_get_block_from_initial_pool_def free_list_try_get_def Let_def
      create_block_def malloc_def dest!: update_block_mem split: option.splits prod.splits if_splits)

lemma ip_publish_mem: "ip_publish i x p q = Some (r, p', q') \<Longrightarrow> mem q' = mem q"
  by (auto simp: ip_publish_def dest!: update_block_mem split: option.splits)

lemma ip_enqueue_mem:
  assumes "ip_enqueue m x p q = Some (ok, p', q')" "mem q = []"
  shows "mem q' = []"
proof (cases "block_offset (tailIndex p) = 0 \<and> \<not> subqueue_full (tailIndex p) (headIndex p)")
  case False
  with assms show ?thesis by (auto simp: ip_enqueue_def Let_def dest: ip_publish_mem split: if_splits)
next
  case True
  obtain r p1 q1 where ins: "insert_block_index_entry m (tailIndex p) p q = (r, p1, q1)" by (metis prod_cases3)
  from insert_mem_nil [OF ins assms(2)] have "mem q1 = []" .
  with assms(1) True ins show ?thesis
    by (auto simp: ip_enqueue_def Let_def dest!: ip_publish_mem update_block_mem dest: requisition_mem
        split: option.splits prod.splits)
qed

lemma roomy_alt: "roomy s \<longleftrightarrow> mem (cpool s) = [] \<and> (\<forall>i < length (producers s). blockIndex (inner (producers s ! i)) \<noteq> None)"
  by (simp add: roomy_def all_set_conv_all_nth)

text \<open>An operation on the producer of the calling thread.\<close>

definition append_own ::
    "(iproducer \<Rightarrow> 'a pool \<Rightarrow> (bool \<times> iproducer \<times> 'a pool) option) \<Rightarrow> thread_id \<Rightarrow> 'a cq \<Rightarrow> (bool \<times> 'a cq) option" where
  "append_own f tid s =
     (case get_or_add_implicit_producer tid s of
        None \<Rightarrow> None
      | Some (None, s1) \<Rightarrow> Some (False, s1)
      | Some (Some producer, s1) \<Rightarrow> on_producer producer f s1)"

text \<open>
  The contract that the two ways to enqueue share: an operation on a producer that appends all of
  \<open>items\<close> or nothing, and that only refuses for lack of room or memory.
\<close>

locale producer_append =
  fixes m :: alloc_mode and items :: "'a list"
    and f :: "iproducer \<Rightarrow> 'a pool \<Rightarrow> (bool \<times> iproducer \<times> 'a pool) option"
  assumes append_all: "queues_inv Xs ps q \<Longrightarrow> i < length ps \<Longrightarrow> length items < 2 ^ 62 \<Longrightarrow>
    \<exists>ok p q'. f (ps ! i) q = Some (ok, p, q') \<and>
      queues_inv (Xs[i := (if ok then Xs ! i @ items else Xs ! i)]) (ps[i := p]) q' \<and>
      (ok \<or> 2 ^ 63 \<le> length (Xs ! i) + length items + 31 \<or> blockIndex (ps ! i) = None \<or> m = CannotAlloc \<or> mem q \<noteq> []) \<and>
      (ok \<and> items \<noteq> [] \<longrightarrow> blockIndex p \<noteq> None) \<and> (ok \<and> mem q = [] \<longrightarrow> mem q' = [])"
begin

lemma append_spec:
  assumes inv: "cq_inv Xs s" and tid: "valid_id tid" and small: "hash_count (phash s) < 2 ^ 58" and n: "length items < 2 ^ 62"
  obtains ok s' Xs' i where "append_own f tid s = Some (ok, s')" "cq_inv Xs' s'"
    "if ok then appends Xs i items Xs' \<and> producer_of s' tid = Some (Some i) else Xs' = Xs \<or> Xs' = Xs @ [[]]"
    "\<And>u. valid_id u \<Longrightarrow> u \<noteq> tid \<Longrightarrow> producer_of s' u = producer_of s u"
    "producer_of s tid \<noteq> None \<and> ok \<Longrightarrow> producer_of s tid = Some (Some i)"
    "roomy s \<and> room_for (length items) Xs \<and> m = CanAlloc \<Longrightarrow> ok \<and> (items \<noteq> [] \<longrightarrow> roomy s')"
proof -
  obtain r s1 X1 where get: "get_or_add_implicit_producer tid s = Some (r, s1)" and got: "got Xs tid s r X1 s1"
    by (rule get_or_add_spec [OF inv tid small])
  show thesis
  proof (cases r)
    case None
    with got have "cq_inv Xs s1" "mem (cpool s) \<noteq> []"
      "\<And>u. valid_id u \<Longrightarrow> u \<noteq> tid \<Longrightarrow> producer_of s1 u = producer_of s u" by (auto simp: got_def)
    with get None show thesis
      by (intro that [of False s1 Xs 0]) (simp_all add: append_own_def roomy_def)
  next
    case (Some i)
    with got have g: "cq_inv X1 s1" "roomy s \<longrightarrow> roomy s1" "producer_of s1 tid = Some (Some i)"
      "\<And>u. valid_id u \<Longrightarrow> u \<noteq> tid \<Longrightarrow> producer_of s1 u = producer_of s u"
      "X1 = Xs \<and> i < length Xs \<or> X1 = Xs @ [[]] \<and> i = length Xs"
      "producer_of s tid = None \<or> producer_of s tid = Some (Some i)" by (auto simp: got_def)
    have i: "i < length (producers s1)" using g(5) cq_length [OF g(1)] by auto
    have q1: "queues_inv X1 (map inner (producers s1)) (cpool s1)" using g(1) by (simp add: cq_inv_def)
    let ?X = "\<lambda>ok. X1[i := (if ok then X1 ! i @ items else X1 ! i)]"
    obtain ok p q' where enq: "f (inner (producers s1 ! i)) (cpool s1) = Some (ok, p, q')"
      and q': "queues_inv (?X ok) ((map inner (producers s1))[i := p]) q'"
      and refuse: "ok \<or> 2 ^ 63 \<le> length (X1 ! i) + length items + 31 \<or> blockIndex (inner (producers s1 ! i)) = None \<or>
        m = CannotAlloc \<or> mem (cpool s1) \<noteq> []"
      and index: "ok \<and> items \<noteq> [] \<longrightarrow> blockIndex p \<noteq> None" "ok \<and> mem (cpool s1) = [] \<longrightarrow> mem q' = []"
      using append_all [OF q1 _ n, of i] i by auto
    obtain s' where s': "on_producer i f s1 = Some (ok, s')"
      "cq_inv (?X ok) s'" "producer_of s' = producer_of s1"
      "length (producers s') = length (producers s1)" "mem (cpool s') = mem q'"
      "\<And>j. j < length (producers s1) \<Longrightarrow> inner (producers s' ! j) = (if j = i then p else inner (producers s1 ! j))"
      by (rule on_producer_inv [where f = f, OF g(1) i enq q']) blast
    have eff: "if ok then appends Xs i items (?X ok) \<and> producer_of s' tid = Some (Some i) else ?X ok = Xs \<or> ?X ok = Xs @ [[]]"
      using g(3,5) s'(3) by (auto simp: appends_def nth_append)
    have progress: "ok \<and> (items \<noteq> [] \<longrightarrow> roomy s')" if a: "roomy s \<and> room_for (length items) Xs \<and> m = CanAlloc"
    proof -
      have r1: "roomy s1" using a g(2) by blast
      have "length (X1 ! i) + length items + 31 < 2 ^ 63" using g(5) a n by (auto simp: room_for_def nth_append)
      with a r1 i refuse have ok by (auto simp: roomy_alt)
      with index r1 s'(4-6) show ?thesis by (auto simp: roomy_alt)
    qed
    show thesis
      by (rule that [OF _ s'(2) eff _ _ progress])
        (use get Some s'(1,3) g(4,6) in \<open>auto simp: append_own_def\<close>)
  qed
qed

end

interpretation single: producer_append m "[x]" "ip_enqueue m x" for m x
proof
  fix Xs :: "'a list list" and ps q i
  assume a: "queues_inv Xs ps q" "i < length ps"
  obtain ok p q' where "ip_enqueue m x (ps ! i) q = Some (ok, p, q')"
    "queues_inv (Xs[i := (if ok then Xs ! i @ [x] else Xs ! i)]) (ps[i := p]) q'"
    "\<not> ok \<Longrightarrow> 2 ^ 63 \<le> length (Xs ! i) + 32 \<or> blockIndex (ps ! i) = None \<or> m = CannotAlloc \<or> mem q \<noteq> []"
    "ok \<Longrightarrow> blockIndex p \<noteq> None"
    by (rule queues_enqueue [OF a, of m x]) blast
  with ip_enqueue_mem show "\<exists>ok p q'. ip_enqueue m x (ps ! i) q = Some (ok, p, q') \<and>
      queues_inv (Xs[i := (if ok then Xs ! i @ [x] else Xs ! i)]) (ps[i := p]) q' \<and>
      (ok \<or> 2 ^ 63 \<le> length (Xs ! i) + length [x] + 31 \<or> blockIndex (ps ! i) = None \<or> m = CannotAlloc \<or> mem q \<noteq> []) \<and>
      (ok \<and> [x] \<noteq> [] \<longrightarrow> blockIndex p \<noteq> None) \<and> (ok \<and> mem q = [] \<longrightarrow> mem q' = [])"
    by (intro exI [of _ ok] exI [of _ p] exI [of _ q']) auto
qed

lemma inner_enqueue_own: "inner_enqueue m tid x = append_own (ip_enqueue m x) tid"
  by (simp add: fun_eq_iff inner_enqueue_def append_own_def)

lemma inner_enqueue_spec:
  assumes "cq_inv Xs s" "valid_id tid" "hash_count (phash s) < 2 ^ 58"
  obtains ok s' Xs' i where "inner_enqueue m tid x s = Some (ok, s')" "cq_inv Xs' s'"
    "if ok then enqueues Xs i x Xs' \<and> producer_of s' tid = Some (Some i) else Xs' = Xs \<or> Xs' = Xs @ [[]]"
    "\<And>u. valid_id u \<Longrightarrow> u \<noteq> tid \<Longrightarrow> producer_of s' u = producer_of s u"
    "producer_of s tid \<noteq> None \<and> ok \<Longrightarrow> producer_of s tid = Some (Some i)"
    "roomy s \<and> has_room Xs \<and> m = CanAlloc \<Longrightarrow> ok \<and> roomy s'"
proof -
  obtain ok s' Xs' i where "append_own (ip_enqueue m x) tid s = Some (ok, s')" "cq_inv Xs' s'"
    "if ok then appends Xs i [x] Xs' \<and> producer_of s' tid = Some (Some i) else Xs' = Xs \<or> Xs' = Xs @ [[]]"
    "\<And>u. valid_id u \<Longrightarrow> u \<noteq> tid \<Longrightarrow> producer_of s' u = producer_of s u"
    "producer_of s tid \<noteq> None \<and> ok \<Longrightarrow> producer_of s tid = Some (Some i)"
    "roomy s \<and> room_for (length [x]) Xs \<and> m = CanAlloc \<Longrightarrow> ok \<and> ([x] \<noteq> [] \<longrightarrow> roomy s')"
    by (rule single.append_spec [OF assms, of x m]) simp_all
  then show thesis by (intro that [of ok s' Xs' i]) (simp_all add: inner_enqueue_own enqueues_def has_room_def)
qed

lemma thread_exit_spec:
  assumes inv: "cq_inv Xs s" and tid: "valid_id tid"
  obtains s' where "thread_exit tid s = Some s'" "cq_inv Xs s'" "producer_of s' tid = None"
    "\<And>u. valid_id u \<Longrightarrow> u \<noteq> tid \<Longrightarrow> producer_of s' u = producer_of s u"
    "\<And>i. producer_of s tid = Some (Some i) \<Longrightarrow> inactive (producers s' ! i)"
proof -
  have q: "queues_inv Xs (map inner (producers s)) (cpool s)" and h: "hash_inv (phash s)"
    and n: "producerCount s = of_nat (length (producers s))"
    and ow: "owners_inv (map inactive (producers s)) (producer_of s)"
    and ls: "listeners_inv (exit_listeners s) (producer_of s)"
    using inv by (simp_all add: cq_inv_def)
  have lst: "listeners_of tid s = (case producer_of s tid of Some (Some i) \<Rightarrow> [i] | _ \<Rightarrow> [])"
    using ls tid by (simp add: listeners_inv_def listeners_of_def)
  let ?drop = "filter (\<lambda>l. fst l \<noteq> tid)"
  show thesis
  proof (cases "producer_of s tid")
    case None
    let ?s = "s\<lparr>exit_listeners := ?drop (exit_listeners s)\<rparr>"
    have po: "producer_of ?s = producer_of s" by (simp add: producer_of_def fun_eq_iff)
    have "listeners_inv (?drop (exit_listeners s)) (producer_of s)"
      by (rule listeners_leave [OF ls]) (use None in simp)
    then have "cq_inv Xs ?s" using q h n ow po by (simp add: cq_inv_def)
    then show thesis using lst None po by (intro that [of ?s]) (simp_all add: thread_exit_def)
  next
    case (Some v)
    obtain i where i: "i < length (producers s)" "v = Some i" using owners_range [OF ow tid Some] by auto
    obtain ts where ts: "forget_thread tid (tables (phash s)) = Some ts" "hash_inv ((phash s)\<lparr>tables := ts\<rparr>)"
        "\<forall>x. valid_id x \<longrightarrow> chain_lookup ts x = (if x = tid then None else producer_of s x)"
      using forget_thread_inv [OF h tid] by (auto simp: producer_of_def)
    let ?s = "(set_inactive i True (s\<lparr>phash := (phash s)\<lparr>tables := ts\<rparr>\<rparr>))\<lparr>exit_listeners := ?drop (exit_listeners s)\<rparr>"
    have g: "producer_of ?s x = (if x = tid then None else producer_of s x)" if "valid_id x" for x
      using ts(3) that by (simp add: producer_of_def set_inactive_def)
    have ia: "map inactive (producers ?s) = (map inactive (producers s))[i := True]"
      by (simp add: set_inactive_def map_update)
    have iq: "map inner (producers ?s) = map inner (producers s)"
      using i by (simp add: set_inactive_def map_update list_update_same_conv)
    have "owners_inv (map inactive (producers ?s)) (producer_of ?s)"
      unfolding ia by (rule owners_leave [OF ow tid]) (use Some i g in simp_all)
    moreover have "listeners_inv (?drop (exit_listeners s)) (producer_of ?s)"
      by (rule listeners_leave [OF ls g])
    ultimately have "cq_inv Xs ?s" using q n ts(2) unfolding cq_inv_def iq by (simp add: set_inactive_def)
    moreover have "thread_exit tid s = Some ?s"
      using ts(1) lst Some i by (simp add: thread_exit_def implicit_producer_thread_exited_def set_inactive_def)
    ultimately show thesis using g tid i Some
      by (intro that [of ?s]) (auto simp: set_inactive_def)
  qed
qed

section \<open>A new queue, and the size of a queue\<close>

lemma cq_inv_with_blocks: "cq_inv [] (cq_with_blocks n script)"
proof -
  have "queues_by (\<lambda>_. 0) (\<lambda>_ _. 0) [] [] [] (populate_initial_block_list (unat n) (pool_empty script))"
    using pool_inv_populate by (simp add: queues_by_def)
  moreover have "producer_of (cq_with_blocks n script) t = None" if "valid_id t" for t
    using lookup_initial [OF that] by (simp add: producer_of_def cq_with_blocks_def)
  ultimately show ?thesis
    using hash_inv_initial
    by (auto simp: cq_inv_def cq_with_blocks_def queues_inv_def owners_inv_def listeners_inv_def)
qed

lemma roomy_with_blocks: "roomy (cq_with_blocks n [])"
  by (simp add: roomy_def cq_with_blocks_def populate_initial_block_list_def pool_empty_def malloc_def)

lemma fold_size: "fold (\<lambda>i size. size + f i) is (a :: size_t) = a + sum_list (map f is)"
  by (induction "is" arbitrary: a) (simp_all add: ac_simps)

lemma size_approx_spec:
  assumes inv: "cq_inv Xs s"
  shows "cq_size_approx s = of_nat (sum_list (map length Xs))"
proof -
  have "map (producer_size s) (traversal s) = map (\<lambda>i. of_nat (length (Xs ! i))) (traversal s)"
    using producer_size_spec(1) [OF inv] set_traversal [OF inv] by (intro map_cong) auto
  then have sizes: "sum_list (map (producer_size s) (traversal s)) = sum_list (map (\<lambda>i. of_nat (length (Xs ! i))) (traversal s))"
    by (simp only:)
  have "map (\<lambda>i. of_nat (length (Xs ! i)) :: size_t) [0 ..< length Xs] = map (\<lambda>xs. of_nat (length xs)) Xs"
    by (rule nth_equalityI) simp_all
  then have "sum_list (map (\<lambda>i. of_nat (length (Xs ! i)) :: size_t) (rev [0 ..< length Xs]))
      = sum_list (map (\<lambda>xs. of_nat (length xs)) Xs)"
    by (simp only: rev_map [symmetric] sum_list_rev)
  moreover have "sum_list (map (\<lambda>xs. of_nat (length xs)) Xs) = (of_nat (sum_list (map length Xs)) :: size_t)"
    by (induction Xs) simp_all
  ultimately show ?thesis
    using cq_length [OF inv] sizes unfolding cq_size_approx_def fold_size by (simp add: traversal_def)
qed

section \<open>Consumer tokens\<close>

definition token_ok :: "'a cq \<Rightarrow> consumer_token \<Rightarrow> bool" where
  "token_ok s token \<longleftrightarrow>
     (case desiredProducer token of None \<Rightarrow> True
      | Some d \<Rightarrow> d < length (producers s) \<and> (\<exists>c < length (producers s). currentProducer token = Some c))"

lemma next_prod_wrap_less: "i < length (producers s) \<Longrightarrow> next_prod_wrap s i < length (producers s)"
  by (auto simp: next_prod_wrap_def)

lemma next_prod_wrap_iter: "i < length (producers s) \<Longrightarrow> (next_prod_wrap s ^^ k) i < length (producers s)"
  by (induction k) (simp_all add: next_prod_wrap_less)

lemma next_prod_wrap_down: "d \<le> i \<Longrightarrow> (next_prod_wrap s ^^ d) i = i - d"
  by (induction d) (auto simp: next_prod_wrap_def)

text \<open>Round the ring every other producer is met once.\<close>

lemma set_ring_after:
  assumes "i < length (producers s)"
  shows "set (ring_after s i) = {..< length (producers s)} - {i}"
proof -
  let ?n = "length (producers s)" and ?f = "next_prod_wrap s"
  have meet: "\<exists>k < ?n - 1. j = (?f ^^ Suc k) i" if j: "j < ?n" "j \<noteq> i" for j
  proof (cases "j < i")
    case True
    then have "(?f ^^ Suc (i - j - 1)) i = j" using next_prod_wrap_down [of "Suc (i - j - 1)" i s] by simp
    with True assms show ?thesis by (intro exI [of _ "i - j - 1"]) simp
  next
    case False
    with j have "i < j" by simp
    have "(?f ^^ Suc i) i = ?n - 1" using next_prod_wrap_down [of i i s] by (simp add: next_prod_wrap_def)
    then have "(?f ^^ (?n - 1 - j + Suc i)) i = (?f ^^ (?n - 1 - j)) (?n - 1)" by (simp only: funpow_add comp_apply)
    also have "\<dots> = j" using next_prod_wrap_down [of "?n - 1 - j" "?n - 1" s] j by simp
    finally show ?thesis using \<open>i < j\<close> j(1) by (intro exI [of _ "?n - 1 - j + i"]) simp
  qed
  have "set (ring_after s i) \<subseteq> {..< ?n}"
    using next_prod_wrap_iter [OF assms, of "Suc _"] by (auto simp: ring_after_def simp del: funpow.simps)
  moreover have "{..< ?n} - {i} \<subseteq> set (ring_after s i)"
    using meet by (fastforce simp: ring_after_def simp del: funpow.simps)
  moreover have "i \<notin> set (ring_after s i)"
  proof
    assume "i \<in> set (ring_after s i)"
    with \<open>set (ring_after s i) \<subseteq> {..< ?n}\<close> \<open>{..< ?n} - {i} \<subseteq> set (ring_after s i)\<close> assms
    have "set (ring_after s i) = {..< ?n}" by auto
    then have "card {..< ?n} \<le> length (ring_after s i)" by (metis card_length)
    with assms show False by (simp add: ring_after_def)
  qed
  ultimately show ?thesis by auto
qed

lemma dequeue_ring_spec:
  assumes inv: "cq_inv Xs s" and sub: "\<forall>i \<in> set is. i < length Xs"
  shows "(\<forall>i \<in> set is. Xs ! i = []) \<and> dequeue_ring token is s = Some (None, token, s) \<or>
    (\<exists>i \<in> set is. \<exists>y ys s'. Xs ! i = y # ys \<and> cq_inv (Xs[i := ys]) s' \<and>
       dequeue_ring token is s = Some (Some y, token\<lparr>currentProducer := Some i, itemsConsumedFromCurrent := 1\<rparr>, s'))"
  using sub
proof (induction "is")
  case (Cons i "is")
  then have i: "i < length Xs" by simp
  show ?case
  proof (cases "Xs ! i")
    case Nil
    with Cons dequeue_at_empty [OF inv i] show ?thesis by auto
  next
    case (Cons y ys)
    from dequeue_at_some [OF inv i Cons] obtain s' where "dequeue_at i s = Some (Some y, s')" "cq_inv (Xs[i := ys]) s'" .
    with Cons show ?thesis by auto
  qed
qed simp

lemma rotation_spec:
  assumes "token_ok s token" "producerCount s = of_nat (length (producers s))" "length (producers s) < 2 ^ 32"
  obtains "producers s = []" "update_current_producer_after_rotation token s = Some (False, token)"
  | token' d where "update_current_producer_after_rotation token s = Some (True, token')" "token_ok s token'"
      "currentProducer token' = Some d" "d < length (producers s)"
proof (cases "producers s = []")
  case True
  then have "desiredProducer token = None" using assms(1) by (auto simp: token_ok_def split: option.splits)
  with True that(1) show thesis by (simp add: update_current_producer_after_rotation_def)
next
  case False
  then have "producerCount s \<noteq> 0"
    using assms(2,3) unat_of_nat_small [of "length (producers s)", where 'a = 32] by (auto simp: unat_eq_0 [symmetric])
  moreover define d0 where "d0 = (case desiredProducer token of
                 Some d \<Rightarrow> d
               | None \<Rightarrow>
                   let offset = producerCount s - 1 - (initialOffset token mod producerCount s)
                   in (next_prod_wrap s ^^ unat offset) (length (producers s) - 1))"
  moreover define delta where "delta = globalExplicitConsumerOffset s - lastKnownGlobalOffset token"
  moreover define d where "d = (next_prod_wrap s ^^ unat (if delta \<ge> producerCount s then delta mod producerCount s else delta)) d0"
  ultimately have upd: "update_current_producer_after_rotation token s =
      Some (True, token\<lparr>desiredProducer := Some d, lastKnownGlobalOffset := globalExplicitConsumerOffset s,
        currentProducer := Some d, itemsConsumedFromCurrent := 0\<rparr>)"
    using False by (simp add: update_current_producer_after_rotation_def Let_def cong: option.case_cong)
  have "d0 < length (producers s)"
    using assms(1) False by (auto simp: d0_def token_ok_def Let_def intro!: next_prod_wrap_iter split: option.splits)
  then have "d < length (producers s)" unfolding d_def by (rule next_prod_wrap_iter)
  then show thesis by (intro that(2) [OF upd]) (simp_all add: token_ok_def)
qed

lemma dequeue_here_or_ring:
  assumes inv: "cq_inv Xs s" and d: "currentProducer token = Some d" "d < length Xs"
    and ok: "desiredProducer token \<noteq> None \<Longrightarrow> the (desiredProducer token) < length Xs"
  obtains r token' s' Xs' where
    "(case dequeue_at d s of
        None \<Rightarrow> None
      | Some (Some x, s1) \<Rightarrow>
          let n = itemsConsumedFromCurrent token + 1
          in Some (Some x, token\<lparr>itemsConsumedFromCurrent := n\<rparr>,
               if n = CONSUMPTION_QUOTA_BEFORE_ROTATE
               then s1\<lparr>globalExplicitConsumerOffset := globalExplicitConsumerOffset s1 + 1\<rparr> else s1)
      | Some (None, s1) \<Rightarrow> dequeue_ring token (ring_after s1 d) s1) = Some (r, token', s')"
    "cq_inv Xs' s'" "dequeues Xs r Xs'" "token_ok s' token'"
proof (cases "Xs ! d")
  case Nil
  note here = dequeue_at_empty [OF inv d(2) Nil]
  have ring: "set (ring_after s d) = {..< length Xs} - {d}"
    using set_ring_after d(2) cq_length [OF inv] by simp
  then have "\<forall>i \<in> set (ring_after s d). i < length Xs" by simp
  from dequeue_ring_spec [OF inv this, of token] consider
    "\<forall>i \<in> set (ring_after s d). Xs ! i = []" "dequeue_ring token (ring_after s d) s = Some (None, token, s)"
  | i y ys s' where "i < length Xs" "Xs ! i = y # ys" "cq_inv (Xs[i := ys]) s'"
      "dequeue_ring token (ring_after s d) s = Some (Some y, token\<lparr>currentProducer := Some i, itemsConsumedFromCurrent := 1\<rparr>, s')"
    using ring by auto
  then show thesis
  proof cases
    case 1
    have "\<forall>i < length Xs. Xs ! i = []" using 1(1) Nil ring by auto
    then have "\<forall>xs \<in> set Xs. xs = []" by (metis in_set_conv_nth)
    then have "dequeues Xs None Xs" by (simp add: dequeues_def)
    moreover have "token_ok s token" using d ok cq_length [OF inv] by (auto simp: token_ok_def split: option.splits)
    ultimately show thesis using here 1(2) inv by (intro that [of None token s Xs]) simp_all
  next
    case (2 i y ys s')
    have "dequeues Xs (Some y) (Xs[i := ys])" using 2 by (auto simp: dequeues_def)
    moreover have "token_ok s' (token\<lparr>currentProducer := Some i, itemsConsumedFromCurrent := 1\<rparr>)"
      using cq_length [OF 2(3)] 2(1) ok by (auto simp: token_ok_def split: option.splits)
    ultimately show thesis using here 2 by (intro that) simp_all
  qed
next
  case (Cons y ys)
  from dequeue_at_some [OF inv d(2) Cons] obtain s' where s': "dequeue_at d s = Some (Some y, s')" "cq_inv (Xs[d := ys]) s'" .
  let ?s = "if itemsConsumedFromCurrent token + 1 = CONSUMPTION_QUOTA_BEFORE_ROTATE
               then s'\<lparr>globalExplicitConsumerOffset := globalExplicitConsumerOffset s' + 1\<rparr> else s'"
  have "producer_of ?s = producer_of s'" by (simp add: producer_of_def fun_eq_iff)
  then have "cq_inv (Xs[d := ys]) ?s" using s'(2) by (simp add: cq_inv_def)
  moreover have "length (producers s') = length Xs" using cq_length [OF s'(2)] by simp
  then have "token_ok ?s (token\<lparr>itemsConsumedFromCurrent := itemsConsumedFromCurrent token + 1\<rparr>)"
    unfolding token_ok_def using d ok by (auto split: option.splits)
  moreover have "dequeues Xs (Some y) (Xs[d := ys])" using Cons d(2) by (auto simp: dequeues_def)
  ultimately show thesis using s'(1) by (intro that) (simp_all add: Let_def)
qed

lemma token_start:
  assumes inv: "cq_inv Xs s" and tok: "token_ok s token" and n: "length Xs < 2 ^ 32"
  obtains (none) "Xs = []" "(if desiredProducer token = None \<or> lastKnownGlobalOffset token \<noteq> globalExplicitConsumerOffset s
      then update_current_producer_after_rotation token s else Some (True, token)) = Some (False, token)"
  | (some) token' d where "(if desiredProducer token = None \<or> lastKnownGlobalOffset token \<noteq> globalExplicitConsumerOffset s
      then update_current_producer_after_rotation token s else Some (True, token)) = Some (True, token')"
      "token_ok s token'" "currentProducer token' = Some d" "d < length Xs"
proof -
  have len: "length (producers s) = length Xs" using cq_length [OF inv] by simp
  have cnt: "producerCount s = of_nat (length (producers s))" using inv by (simp add: cq_inv_def)
  show thesis
  proof (cases "desiredProducer token = None \<or> lastKnownGlobalOffset token \<noteq> globalExplicitConsumerOffset s")
    case True
    with rotation_spec [OF tok cnt] n len some none show thesis by (metis length_0_conv)
  next
    case False
    then obtain d where "currentProducer token = Some d" "d < length Xs"
      using tok len by (auto simp: token_ok_def split: option.splits)
    with False tok show thesis by (intro some [of token d]) auto
  qed
qed

lemma token_dequeue_spec:
  assumes inv: "cq_inv Xs s" and tok: "token_ok s token" and n: "length Xs < 2 ^ 32"
  obtains r token' s' Xs' where "try_dequeue_token token s = Some (r, token', s')"
    "cq_inv Xs' s'" "dequeues Xs r Xs'" "token_ok s' token'"
proof (cases rule: token_start [OF inv tok n])
  case 1
  then show thesis using inv tok
    by (intro that [of None token s Xs]) (simp_all add: try_dequeue_token_def dequeues_def)
next
  case (2 token' d)
  have "the (desiredProducer token') < length Xs" if "desiredProducer token' \<noteq> None"
    using 2(2) that cq_length [OF inv] by (auto simp: token_ok_def)
  from dequeue_here_or_ring [OF inv 2(3,4) this] obtain r token'' s' Xs' where
    "(case dequeue_at d s of
        None \<Rightarrow> None
      | Some (Some x, s1) \<Rightarrow>
          let n = itemsConsumedFromCurrent token' + 1
          in Some (Some x, token'\<lparr>itemsConsumedFromCurrent := n\<rparr>,
               if n = CONSUMPTION_QUOTA_BEFORE_ROTATE
               then s1\<lparr>globalExplicitConsumerOffset := globalExplicitConsumerOffset s1 + 1\<rparr> else s1)
      | Some (None, s1) \<Rightarrow> dequeue_ring token' (ring_after s1 d) s1) = Some (r, token'', s')"
    "cq_inv Xs' s'" "dequeues Xs r Xs'" "token_ok s' token''" .
  then show thesis
    by (intro that [of r token'' s' Xs']) (simp_all add: try_dequeue_token_def 2)
qed

section \<open>Refinement of the abstract queue\<close>

text \<open>The elements of the abstract queue, by the producer they came from.\<close>

definition items_of :: "(nat \<times> 'a) list \<Rightarrow> nat \<Rightarrow> 'a list" where
  "items_of es i = map snd (filter (\<lambda>e. fst e = i) es)"

definition queue_rel :: "'a cq \<Rightarrow> 'a mpmc \<Rightarrow> bool" where
  "queue_rel s q \<longleftrightarrow> (\<exists>Xs. cq_inv Xs s \<and> (\<forall>i < length Xs. Xs ! i = items_of (q_items q) i) \<and>
     (\<forall>e \<in> set (q_items q). fst e < length Xs))"

definition items_rel :: "'a list list \<Rightarrow> 'a mpmc \<Rightarrow> bool" where
  "items_rel Xs q \<longleftrightarrow> (\<forall>i < length Xs. Xs ! i = items_of (q_items q) i) \<and> (\<forall>e \<in> set (q_items q). fst e < length Xs)"

lemma queue_rel_items: "queue_rel s q \<longleftrightarrow> (\<exists>Xs. cq_inv Xs s \<and> items_rel Xs q)"
  by (simp add: queue_rel_def items_rel_def)

lemma items_of_append: "items_of (us @ vs) i = items_of us i @ items_of vs i"
  by (simp add: items_of_def)

lemma items_of_none: "(\<And>e. e \<in> set es \<Longrightarrow> fst e \<noteq> i) \<Longrightarrow> items_of es i = []"
  by (simp add: items_of_def)

lemma items_length:
  "(\<And>e. e \<in> set es \<Longrightarrow> fst e < n) \<Longrightarrow> sum_list (map (\<lambda>i. length (items_of es i)) [0 ..< n]) = length es"
proof (induction es)
  case (Cons e es)
  have "(\<Sum>i \<leftarrow> [0 ..< n]. length (items_of (e # es) i)) =
      (\<Sum>i \<leftarrow> [0 ..< n]. (if i = fst e then 1 else 0) + length (items_of es i))"
    by (intro arg_cong [of _ _ sum_list] map_cong) (auto simp: items_of_def)
  also have "\<dots> = (\<Sum>i \<leftarrow> [0 ..< n]. if i = fst e then 1 else 0) + (\<Sum>i \<leftarrow> [0 ..< n]. length (items_of es i))"
    by (rule sum_list_addf)
  also have "(\<Sum>i \<leftarrow> [0 ..< n]. if i = fst e then 1 else 0) = (1 :: nat)"
    using Cons.prems [of e] by (simp add: sum_list_distinct_conv_sum_set)
  also have "(\<Sum>i \<leftarrow> [0 ..< n]. length (items_of es i)) = length es" using Cons by simp
  finally show ?case by simp
qed (simp add: items_of_def)

lemma take_from_first:
  "items_of es i = y # ys \<Longrightarrow> \<exists>es'. take_from i es = Some (y, es') \<and>
     items_of es' i = ys \<and> (\<forall>j. j \<noteq> i \<longrightarrow> items_of es' j = items_of es j) \<and> set es' \<subseteq> set es"
proof (induction es)
  case (Cons e es)
  obtain p x where e: "e = (p, x)" by force
  show ?case
  proof (cases "p = i")
    case True
    with Cons.prems e show ?thesis by (intro exI [of _ es]) (auto simp: items_of_def)
  next
    case False
    with Cons.prems e have "items_of es i = y # ys" by (simp add: items_of_def)
    from Cons.IH [OF this] obtain es' where "take_from i es = Some (y, es')" "items_of es' i = ys"
      "\<forall>j. j \<noteq> i \<longrightarrow> items_of es' j = items_of es j" "set es' \<subseteq> set es" by blast
    with False e show ?thesis by (intro exI [of _ "(p, x) # es'"]) (auto simp: items_of_def)
  qed
qed (simp add: items_of_def)

lemma choose_producer:
  assumes "i \<in> fst ` set (q_items q)"
  obtains c where "next_producer (q\<lparr>q_choice := [c]\<rparr>) = i"
proof -
  let ?ps = "remdups (map fst (q_items q))"
  have "i \<in> set ?ps" using assms by simp
  then obtain c where "c < length ?ps" "?ps ! c = i" by (metis in_set_conv_nth)
  then show thesis by (intro that [of c]) (simp add: next_producer_def)
qed

lemma queue_rel_new: "queue_rel (cq_with_blocks n script) (mpmc_new c)"
  unfolding queue_rel_def by (intro exI [of _ "[]"]) (simp add: cq_inv_with_blocks)

lemma items_rel_size: "items_rel Xs q \<Longrightarrow> length (q_items q) = sum_list (map length Xs)"
proof -
  assume rel: "items_rel Xs q"
  then have "map length Xs = map (\<lambda>i. length (items_of (q_items q) i)) [0 ..< length Xs]"
    by (intro nth_equalityI) (simp_all add: items_rel_def)
  then show ?thesis using items_length [of "q_items q" "length Xs"] rel by (simp add: items_rel_def)
qed

lemma queue_rel_size:
  assumes "queue_rel s q"
  shows "cq_size_approx s = of_nat (length (q_items q))"
proof -
  from assms obtain Xs where "cq_inv Xs s" "items_rel Xs q" by (auto simp: queue_rel_items)
  with size_approx_spec [of Xs s] items_rel_size [of Xs q] show ?thesis by simp
qed

lemma q_items_enqueues: "q_items (fold (enqueue i) items q) = q_items q @ map (Pair i) items"
  by (induction items arbitrary: q) (simp_all add: enqueue_def)

lemma items_rel_appends:
  assumes rel: "items_rel Xs q" and app: "appends Xs i items Xs'"
  shows "items_rel Xs' (fold (enqueue i) items q)"
proof -
  have new: "items_of (map (Pair i) items) j = (if j = i then items else [])" for j
    by (induction items) (auto simp: items_of_def)
  have none: "items_of (q_items q) (length Xs) = []"
    using rel by (intro items_of_none) (auto simp: items_rel_def)
  show ?thesis
    using rel app none
    by (auto simp: items_rel_def appends_def q_items_enqueues items_of_append new nth_list_update nth_append less_Suc_eq)
qed

lemma items_rel_fresh: "items_rel Xs q \<Longrightarrow> items_rel (Xs @ [[]]) q"
  using items_rel_appends [of Xs q "length Xs" "[]"] by (simp add: appends_def)

lemma items_rel_room: "items_rel Xs q \<Longrightarrow> length (q_items q) + n + 31 < 2 ^ 63 \<Longrightarrow> room_for n Xs"
proof -
  assume rel: "items_rel Xs q" and n: "length (q_items q) + n + 31 < 2 ^ 63"
  have "length xs \<le> length (q_items q)" if "xs \<in> set Xs" for xs
    using items_rel_size [OF rel] member_le_sum_list [of "length xs" "map length Xs"] that by simp
  with n show ?thesis unfolding room_for_def by (meson add_le_mono1 le_less_trans)
qed

context producer_append begin

lemma append_refines:
  assumes rel: "queue_rel s q" and tid: "valid_id tid" "hash_count (phash s) < 2 ^ 58" "length items < 2 ^ 62"
  shows "\<exists>ok s'. append_own f tid s = Some (ok, s') \<and>
    (if ok then \<exists>i. producer_of s' tid = Some (Some i) \<and> queue_rel s' (fold (enqueue i) items q) else queue_rel s' q)"
proof -
  from rel obtain Xs where inv: "cq_inv Xs s" and Xs: "items_rel Xs q" by (auto simp: queue_rel_items)
  obtain ok s' Xs' i where app: "append_own f tid s = Some (ok, s')" "cq_inv Xs' s'"
    "if ok then appends Xs i items Xs' \<and> producer_of s' tid = Some (Some i) else Xs' = Xs \<or> Xs' = Xs @ [[]]"
    by (rule append_spec [OF inv tid])
  with items_rel_appends [OF Xs] items_rel_fresh [OF Xs] Xs show ?thesis
    by (cases ok) (auto simp: queue_rel_items)
qed

lemma append_succeeds:
  assumes rel: "queue_rel s q" and tid: "valid_id tid" "hash_count (phash s) < 2 ^ 58" "length items < 2 ^ 62"
    and m: "m = CanAlloc" "roomy s" "length (q_items q) + length items + 31 < 2 ^ 63"
  shows "\<exists>s' i. append_own f tid s = Some (True, s') \<and> (items \<noteq> [] \<longrightarrow> roomy s') \<and>
    producer_of s' tid = Some (Some i) \<and> queue_rel s' (fold (enqueue i) items q)"
proof -
  from rel obtain Xs where inv: "cq_inv Xs s" and Xs: "items_rel Xs q" by (auto simp: queue_rel_items)
  have "room_for (length items) Xs" by (rule items_rel_room [OF Xs m(3)])
  with m obtain s' Xs' i where "append_own f tid s = Some (True, s')" "cq_inv Xs' s'" "items \<noteq> [] \<longrightarrow> roomy s'"
    "appends Xs i items Xs'" "producer_of s' tid = Some (Some i)"
    by (rule_tac append_spec [OF inv tid]) auto
  with items_rel_appends [OF Xs] show ?thesis by (auto simp: queue_rel_items)
qed

end

lemma queue_rel_enqueue:
  assumes "queue_rel s q" "valid_id tid" "hash_count (phash s) < 2 ^ 58"
  shows "\<exists>ok s'. inner_enqueue m tid x s = Some (ok, s') \<and>
    (if ok then \<exists>i. producer_of s' tid = Some (Some i) \<and> queue_rel s' (enqueue i x q) else queue_rel s' q)"
  unfolding inner_enqueue_own using single.append_refines [OF assms, of x m] by fastforce

lemma items_rel_empty: "items_rel Xs q \<Longrightarrow> \<forall>xs \<in> set Xs. xs = [] \<Longrightarrow> q_items q = []"
proof -
  assume "items_rel Xs q" "\<forall>xs \<in> set Xs. xs = []"
  then have "length (q_items q) = 0" using items_rel_size [of Xs q] by (simp only: sum_list_eq_0_iff) auto
  then show ?thesis by simp
qed

lemma items_rel_dequeues:
  assumes rel: "items_rel Xs q" and deq: "dequeues Xs (Some y) Xs'"
  shows "\<exists>c q'. try_dequeue (q\<lparr>q_choice := [c]\<rparr>) = Some (y, q') \<and> items_rel Xs' q'"
proof -
  from deq obtain i ys where i: "i < length Xs" "Xs ! i = y # ys" "Xs' = Xs[i := ys]"
    by (auto simp: dequeues_def)
  with rel have it: "items_of (q_items q) i = y # ys" by (simp add: items_rel_def)
  from take_from_first [OF it] obtain es' where es': "take_from i (q_items q) = Some (y, es')"
    "items_of es' i = ys" "\<forall>j. j \<noteq> i \<longrightarrow> items_of es' j = items_of (q_items q) j" "set es' \<subseteq> set (q_items q)"
    by blast
  then have mem: "i \<in> fst ` set (q_items q)" using take_from_None [of i "q_items q"] by (metis option.distinct(1))
  then obtain c where c: "next_producer (q\<lparr>q_choice := [c]\<rparr>) = i" by (rule choose_producer)
  have "q_items q \<noteq> []" using mem by auto
  then have "try_dequeue (q\<lparr>q_choice := [c]\<rparr>) = Some (y, q\<lparr>q_items := es', q_choice := []\<rparr>)"
    using c es'(1) by (simp add: try_dequeue_def)
  moreover have "items_rel Xs' (q\<lparr>q_items := es', q_choice := []\<rparr>)"
    using i(1,3) es'(2-4) rel by (auto simp: items_rel_def nth_list_update)
  ultimately show ?thesis by blast
qed

lemma queue_rel_dequeues:
  assumes rel: "items_rel Xs q" and deq: "dequeues Xs r Xs'" and inv: "cq_inv Xs' s'"
  shows "case r of None \<Rightarrow> q_items q = [] \<and> queue_rel s' q
    | Some y \<Rightarrow> \<exists>c q'. try_dequeue (q\<lparr>q_choice := [c]\<rparr>) = Some (y, q') \<and> queue_rel s' q'"
proof (cases r)
  case None
  with deq have "Xs' = Xs" "\<forall>xs \<in> set Xs. xs = []" by (simp_all add: dequeues_def)
  with None rel items_rel_empty [OF rel] inv show ?thesis by (auto simp: queue_rel_items)
next
  case (Some y)
  with items_rel_dequeues [OF rel, of y Xs'] deq inv show ?thesis by (fastforce simp: queue_rel_items)
qed

lemma queue_rel_dequeue:
  assumes "queue_rel s q"
  shows "\<exists>r s'. cq_try_dequeue s = Some (r, s') \<and> producer_of s' = producer_of s \<and>
    (case r of None \<Rightarrow> q_items q = [] \<and> queue_rel s' q
     | Some y \<Rightarrow> \<exists>c q'. try_dequeue (q\<lparr>q_choice := [c]\<rparr>) = Some (y, q') \<and> queue_rel s' q')"
proof -
  from assms obtain Xs where inv: "cq_inv Xs s" and Xs: "items_rel Xs q" by (auto simp: queue_rel_items)
  obtain r s' Xs' where "cq_try_dequeue s = Some (r, s')" "cq_inv Xs' s'" "dequeues Xs r Xs'"
    "producer_of s' = producer_of s" by (rule try_dequeue_spec [OF inv])
  with queue_rel_dequeues [OF Xs] show ?thesis by blast
qed

lemma queue_rel_thread_exit:
  assumes "queue_rel s q" "valid_id tid"
  shows "\<exists>s'. thread_exit tid s = Some s' \<and> queue_rel s' q"
proof -
  from assms(1) obtain Xs where inv: "cq_inv Xs s" and Xs: "\<forall>i < length Xs. Xs ! i = items_of (q_items q) i"
    "\<forall>e \<in> set (q_items q). fst e < length Xs" by (auto simp: queue_rel_def)
  obtain s' where "thread_exit tid s = Some s'" "cq_inv Xs s'" by (rule thread_exit_spec [OF inv assms(2)])
  with Xs show ?thesis by (auto simp: queue_rel_def)
qed

section \<open>The elements in all sub-queues\<close>

definition contents :: "'a list list \<Rightarrow> 'a multiset" where
  "contents Xs = mset (concat Xs)"

lemma contents_update:
  "i < length Xs \<Longrightarrow> contents (Xs[i := ys]) + mset (Xs ! i) = contents Xs + mset ys"
proof (induction Xs arbitrary: i)
  case (Cons xs Xs)
  then show ?case by (cases i) (auto simp: contents_def ac_simps)
qed simp

lemma contents_append: "contents (Xs @ Ys) = contents Xs + contents Ys"
  by (simp add: contents_def)

lemma contents_appends: "appends Xs i items Xs' \<Longrightarrow> contents Xs' = contents Xs + mset items"
proof -
  assume "appends Xs i items Xs'"
  then consider "i < length Xs" "Xs' = Xs[i := Xs ! i @ items]" | "Xs' = Xs @ [items]" by (auto simp: appends_def)
  then show ?thesis
  proof cases
    case 1
    with contents_update [of i Xs "Xs ! i @ items"] show ?thesis by simp
  qed (simp add: contents_append contents_def)
qed

lemma contents_enqueues: "enqueues Xs i x Xs' \<Longrightarrow> contents Xs' = contents Xs + {#x#}"
  using contents_appends [of Xs i "[x]"] by (simp add: enqueues_def)

lemma contents_dequeues: "dequeues Xs (Some y) Xs' \<Longrightarrow> contents Xs = contents Xs' + {#y#}"
proof -
  assume "dequeues Xs (Some y) Xs'"
  then obtain i ys where "i < length Xs" "Xs ! i = y # ys" "Xs' = Xs[i := ys]" by (auto simp: dequeues_def)
  with contents_update [of i Xs ys] show ?thesis by simp
qed

section \<open>Properties\<close>

lemma inner_enqueue_roomy:
  assumes "queue_rel s q" "valid_id tid" "hash_count (phash s) < 2 ^ 58" "roomy s" "length (q_items q) < 2 ^ 62"
  shows "\<exists>s' i. inner_enqueue CanAlloc tid x s = Some (True, s') \<and> roomy s' \<and>
    producer_of s' tid = Some (Some i) \<and> queue_rel s' (enqueue i x q)"
  using single.append_succeeds [OF assms(1-3) _ _ assms(4), of x CanAlloc] assms(5) by (simp add: inner_enqueue_own)

lemma cq_enqueue_inner: "cq_enqueue = inner_enqueue CanAlloc" "cq_try_enqueue = inner_enqueue CannotAlloc"
  by (simp_all add: fun_eq_iff cq_enqueue_def cq_try_enqueue_def INITIAL_IMPLICIT_PRODUCER_HASH_SIZE_def)

text \<open>
  C12: \<open>enqueue\<close> and \<open>try_enqueue\<close> refine the abstract queue the rest of the program is verified
  against. Whatever the allocator does, they return; if they return true the element stands behind those
  of the calling thread's producer, and if they return false the contents are as before.\<close>

theorem enqueue_refines:
  assumes "queue_rel s q" "valid_id tid" "hash_count (phash s) < 2 ^ 58"
  shows "\<forall>op \<in> {cq_enqueue, cq_try_enqueue}. \<exists>ok s'. op tid x s = Some (ok, s') \<and>
    (if ok then \<exists>i. producer_of s' tid = Some (Some i) \<and> queue_rel s' (enqueue i x q) else queue_rel s' q)"
  using queue_rel_enqueue [OF assms] by (auto simp: cq_enqueue_inner)

lemma hash_count_new: "hash_count (phash (ConcurrentQueue_new cap script)) = 0"
  by (simp add: ConcurrentQueue_new_def cq_with_blocks_def populate_initial_implicit_producer_hash_def)

lemma queue_rel_ConcurrentQueue_new: "queue_rel (ConcurrentQueue_new cap script) (mpmc_new c)"
  by (simp add: ConcurrentQueue_new_def queue_rel_new)

lemma cq_inv_new: "cq_inv [] (ConcurrentQueue_new cap script)"
  by (simp add: ConcurrentQueue_new_def cq_inv_with_blocks)

lemma roomy_ConcurrentQueue_new: "roomy (ConcurrentQueue_new cap [])"
  by (simp add: ConcurrentQueue_new_def roomy_with_blocks)

lemma valid_id_5: "valid_id 5"
  by (simp add: valid_id_def invalid_thread_id_def invalid_thread_id2_def)

theorem enqueue_refines_witness:
  "\<exists>ok s'. cq_try_enqueue 5 True (ConcurrentQueue_new 0 [False]) = Some (ok, s') \<and>
    (if ok then \<exists>i. producer_of s' 5 = Some (Some i) \<and> queue_rel s' (enqueue i True (mpmc_new [])) else queue_rel s' (mpmc_new []))"
  by (rule enqueue_refines [THEN bspec]) (simp_all add: queue_rel_ConcurrentQueue_new valid_id_5 hash_count_new)

text \<open>
  C13: \<open>try_dequeue\<close> refines the abstract queue: it returns an element only as the abstract queue does
  for some choice of the producer, and it reports an empty queue only when the queue is empty. It does
  not crash.\<close>

theorem dequeue_refines:
  assumes "queue_rel s q"
  shows "\<exists>r s'. cq_try_dequeue s = Some (r, s') \<and>
    (case r of None \<Rightarrow> q_items q = [] \<and> queue_rel s' q
     | Some y \<Rightarrow> \<exists>c q'. try_dequeue (q\<lparr>q_choice := [c]\<rparr>) = Some (y, q') \<and> queue_rel s' q')"
  using queue_rel_dequeue [OF assms] by blast

theorem dequeue_refines_witness:
  "\<exists>s. cq_enqueue 5 True (ConcurrentQueue_new 0 []) = Some (True, s) \<and> (\<exists>s'. cq_try_dequeue s = Some (Some True, s'))"
proof -
  obtain s i where s: "cq_enqueue 5 True (ConcurrentQueue_new 0 []) = Some (True, s)" "queue_rel s (enqueue i True (mpmc_new []))"
    using inner_enqueue_roomy [OF queue_rel_ConcurrentQueue_new valid_id_5, of 0 "[]" "[]" True]
    by (auto simp: hash_count_new roomy_ConcurrentQueue_new cq_enqueue_inner)
  from dequeue_refines [OF s(2)] have "\<exists>s'. cq_try_dequeue s = Some (Some True, s')"
    by (auto simp: enqueue_def try_dequeue_def next_producer_def split: option.splits)
  with s(1) show ?thesis by blast
qed

text \<open>
  With an allocator that does not fail, \<open>enqueue\<close> always succeeds.\<close>

theorem enqueue_succeeds:
  assumes "queue_rel s q" "roomy s" "length (q_items q) < 2 ^ 62" "valid_id tid" "hash_count (phash s) < 2 ^ 58"
  shows "\<exists>s' i. cq_enqueue tid x s = Some (True, s') \<and> roomy s' \<and> queue_rel s' (enqueue i x q)"
  using inner_enqueue_roomy [OF assms(1,4,5,2,3), of x] unfolding cq_enqueue_inner by blast

theorem enqueue_succeeds_witness:
  "\<exists>s' i. cq_enqueue 5 ''a'' (ConcurrentQueue_new 64 []) = Some (True, s') \<and> roomy s' \<and>
     queue_rel s' (enqueue i ''a'' (mpmc_new []))"
  by (rule enqueue_succeeds)
    (simp_all add: queue_rel_ConcurrentQueue_new valid_id_5 hash_count_new roomy_ConcurrentQueue_new)


end
