(* ===== verification/ImplicitDequeueBulk.thy ===== *)
theory ImplicitDequeueBulk
  imports ImplicitProducer
begin

text \<open>
  \<^verbatim>\<open>dequeue_bulk\<close> of \<^verbatim>\<open>ConcurrentQueue::ImplicitProducer\<close>
  (\<^verbatim>\<open>src/lightning/moodycamel/concurrentqueue.h\<close>). It works block by block; it is proved to do
  exactly what as many single dequeues do.

  As for the single operations the branches for throwing element types are absent, and \<open>None\<close> is a
  crash or a loop that does not end.
\<close>

unbundle bit_operations_syntax

section \<open>Bulk dequeue\<close>

text \<open>The end of the part of a block that a loop works on: the end of the block, or the stop if it is
  before that.\<close>

definition chunk_end :: "index_t \<Rightarrow> index_t \<Rightarrow> index_t" where
  "chunk_end index stop =
     (let endIndex = block_base index + of_nat BLOCK_SIZE
      in if circular_less_than stop endIndex then stop else endIndex)"

text \<open>\<open>while (index != endIndex)\<close>: move the elements out and destroy them; the number of rounds is the
  distance of the two indices.\<close>

fun take_slots :: "nat \<Rightarrow> index_t \<Rightarrow> 'a block \<Rightarrow> ('a list \<times> 'a block) option" where
  "take_slots 0 index b = Some ([], b)"
| "take_slots (Suc n) index b =
     (case slot b index of
        None \<Rightarrow> None
      | Some el \<Rightarrow>
          map_option (\<lambda>(els, b'). (el # els, b')) (take_slots n (index + 1) (write_slot index None b)))"

text \<open>One round of the loop over the blocks, with the slot \<open>indexIndex\<close> of the table \<open>h\<close>.\<close>

definition dequeue_chunk ::
    "index_t \<Rightarrow> index_t \<Rightarrow> bindex \<Rightarrow> size_t \<Rightarrow> iproducer \<Rightarrow> 'a pool \<Rightarrow> ('a list \<times> iproducer \<times> 'a pool) option" where
  "dequeue_chunk index endIndex h indexIndex p q =
     (let entry = bi_index h ! unat indexIndex; count = unat (endIndex - index) in
      case bvalue (bentries p ! entry) of
        Ptr blk \<Rightarrow>
          (case blocks q blk of
             None \<Rightarrow> None
           | Some b \<Rightarrow>
               (case take_slots count index b of
                  None \<Rightarrow> None
                | Some (els, b1) \<Rightarrow>
                    (case set_many_empty implicit_context index count b1 of
                       (emptied, b2) \<Rightarrow>
                         let q1 = q\<lparr>blocks := (blocks q)(blk := Some b2)\<rparr> in
                         if emptied
                         then map_option (\<lambda>q2. (els, set_value entry Null p, q2)) (add_block_to_free_list blk q1)
                         else Some (els, p, q1))))
      | _ \<Rightarrow> None)"

partial_function (option) dequeue_blocks ::
    "index_t \<Rightarrow> bindex \<Rightarrow> index_t \<Rightarrow> size_t \<Rightarrow> iproducer \<Rightarrow> 'a pool \<Rightarrow> ('a list \<times> iproducer \<times> 'a pool) option" where
  "dequeue_blocks stop h index indexIndex p q =
     (let endIndex = chunk_end index stop in
      case dequeue_chunk index endIndex h indexIndex p q of
        None \<Rightarrow> None
      | Some (els, p1, q1) \<Rightarrow>
          if endIndex = stop then Some (els, p1, q1)
          else Option.bind (dequeue_blocks stop h endIndex ((indexIndex + 1) AND (bi_capacity h - 1)) p1 q1)
                 (\<lambda>(more, p2, q2). Some (els @ more, p2, q2)))"

definition ip_dequeue_bulk ::
    "size_t \<Rightarrow> iproducer \<Rightarrow> 'a pool \<Rightarrow> (size_t \<times> 'a list \<times> iproducer \<times> 'a pool) option" where
  "ip_dequeue_bulk max_count p q =
     (let tail = tailIndex p; overcommit = dequeueOvercommit p;
          desiredCount = tail - (dequeueOptimisticCount p - overcommit)
      in if circular_less_than 0 desiredCount then
           let desiredCount = (if desiredCount < max_count then desiredCount else max_count);
               myDequeueCount = dequeueOptimisticCount p;
               p1 = p\<lparr>dequeueOptimisticCount := myDequeueCount + desiredCount\<rparr>;
               tail = tailIndex p1;
               actualCount = tail - (myDequeueCount - overcommit)
           in if circular_less_than 0 actualCount then
                let actualCount = (if desiredCount < actualCount then desiredCount else actualCount);
                    p2 = (if actualCount < desiredCount
                          then p1\<lparr>dequeueOvercommit := dequeueOvercommit p1 + (desiredCount - actualCount)\<rparr> else p1);
                    firstIndex = headIndex p2;
                    p3 = p2\<lparr>headIndex := firstIndex + actualCount\<rparr>
                in (case blockIndex p3 of
                      None \<Rightarrow> None
                    | Some h \<Rightarrow>
                        map_option (\<lambda>(els, p4, q4). (actualCount, els, p4, q4))
                          (dequeue_blocks (firstIndex + actualCount) h firstIndex
                             (get_block_index_index_for_index firstIndex h p3) p3 q))
              else Some (0, [], p1\<lparr>dequeueOvercommit := dequeueOvercommit p1 + desiredCount\<rparr>, q)
         else Some (0, [], p, q))"

section \<open>Bulk dequeue is repeated dequeue\<close>

text \<open>The references: taking \<open>n\<close> elements one after the other, with and without the counters.\<close>

fun take_times :: "nat \<Rightarrow> index_t \<Rightarrow> iproducer \<Rightarrow> 'a pool \<Rightarrow> ('a list \<times> iproducer \<times> 'a pool) option" where
  "take_times 0 index p q = Some ([], p, q)"
| "take_times (Suc n) index p q =
     (case ip_take index p q of
        None \<Rightarrow> None
      | Some (el, p1, q1) \<Rightarrow> map_option (\<lambda>(els, r). (el # els, r)) (take_times n (index + 1) p1 q1))"

fun dequeue_times :: "nat \<Rightarrow> iproducer \<Rightarrow> 'a pool \<Rightarrow> ('a list \<times> iproducer \<times> 'a pool) option" where
  "dequeue_times 0 p q = Some ([], p, q)"
| "dequeue_times (Suc n) p q =
     (case ip_dequeue p q of
        Some (Some el, p1, q1) \<Rightarrow> map_option (\<lambda>(els, r). (el # els, r)) (dequeue_times n p1 q1)
      | _ \<Rightarrow> None)"

text \<open>What the elements in the blocks need, whatever the counters say.\<close>

definition held :: "nat \<Rightarrow> nat \<Rightarrow> (nat \<Rightarrow> addr) \<Rightarrow> 'a list \<Rightarrow> iproducer \<Rightarrow> 'a pool \<Rightarrow> bool" where
  "held H T A xs p q \<longleftrightarrow> T = H + length xs \<and> (T + 31) div 32 * 32 < H + 2 ^ 63 \<and> inj_on A (live H T) \<and>
     (\<forall>k \<in> live H T. \<exists>b. blocks q (A k) = Some b \<and> block_holds H T xs k b) \<and>
     blockIndex p \<noteq> None \<and> bidx_inv (H div 32) ((T + 31) div 32) A p"

lemma held_of_inv: "ip_inv H T A xs p q \<Longrightarrow> xs \<noteq> [] \<Longrightarrow> held H T A xs p q"
  by (auto simp: ip_inv_def held_def split: if_splits)

definition with_counters :: "nat \<Rightarrow> nat \<Rightarrow> addr option \<Rightarrow> iproducer \<Rightarrow> iproducer" where
  "with_counters H T blk p = p\<lparr>headIndex := of_nat H, tailIndex := of_nat T,
     dequeueOptimisticCount := of_nat H, dequeueOvercommit := 0, tailBlock := blk\<rparr>"

lemma inv_of_held:
  "held H T A xs p q \<Longrightarrow> ip_inv H T A xs (with_counters H T (Some (A (T div 32))) p) q"
  by (auto simp: held_def ip_inv_def with_counters_def intro: bidx_inv_cong)

lemma take_spec:
  assumes "held H T A (y # ys) p q" "pool_inv U F q" "A ` live H T \<subseteq> U"
  shows "\<exists>p' q' F'. ip_take (of_nat H) p q = Some (y, p', q') \<and> index_frame p p' \<and> held (Suc H) T A ys p' q' \<and>
    pool_inv (reown U (A ` live H T) (A ` live (Suc H) T)) F' q' \<and> (\<forall>a \<in> U - A ` live H T. blocks q' a = blocks q a)"
proof -
  have "inj_on A (live (Suc H) T)" using assms(1) by (auto simp: held_def live_tail intro: inj_on_subset)
  moreover have "T = Suc H + length ys" "(T + 31) div 32 * 32 < Suc H + 2 ^ 63" using assms(1) by (auto simp: held_def)
  ultimately show ?thesis
    using ip_take_spec [OF inv_of_held [OF assms(1)] _ _ _ assms(2,3), of p]
    by (auto simp: with_counters_def held_def)
qed

lemma reown_reown: "mid \<subseteq> old \<Longrightarrow> reown (reown U old mid) mid new = reown U old new"
  by (auto simp: reown_def)

lemma live_mono: "H \<le> H' \<Longrightarrow> live H' T \<subseteq> live H T"
  by (auto simp: live_def dest: div_le_mono [where k = 32])

lemma index_frame_trans: "index_frame p1 p2 \<Longrightarrow> index_frame p2 p3 \<Longrightarrow> index_frame p1 p3"
  by (simp add: index_frame_def)

lemma index_frame_refl [simp]: "index_frame p p"
  by (simp add: index_frame_def)

lemma take_times_spec:
  assumes "held H T A xs p q" "pool_inv U F q" "A ` live H T \<subseteq> U" "n \<le> length xs"
  shows "\<exists>p' q' F'. take_times n (of_nat H) p q = Some (take n xs, p', q') \<and> index_frame p p' \<and>
    held (H + n) T A (drop n xs) p' q' \<and>
    pool_inv (reown U (A ` live H T) (A ` live (H + n) T)) F' q' \<and> (\<forall>a \<in> U - A ` live H T. blocks q' a = blocks q a)"
  using assms
proof (induction n arbitrary: H xs p q U F)
  case 0
  moreover have "reown U (A ` live H T) (A ` live H T) = U" using 0(3) by (auto simp: reown_def)
  ultimately show ?case by auto
next
  case (Suc n)
  then obtain y ys where xs: "xs = y # ys" by (cases xs) auto
  from take_spec [OF Suc(2) [unfolded xs] Suc(3,4)] obtain p1 q1 F1 where
    one: "ip_take (of_nat H) p q = Some (y, p1, q1)" "index_frame p p1" "held (Suc H) T A ys p1 q1"
      "pool_inv (reown U (A ` live H T) (A ` live (Suc H) T)) F1 q1" "\<forall>a \<in> U - A ` live H T. blocks q1 a = blocks q a"
    by blast
  have "A ` live (Suc H) T \<subseteq> reown U (A ` live H T) (A ` live (Suc H) T)" by (simp add: reown_def)
  from Suc(1) [OF one(3,4) this] Suc(5) obtain p' q' F' where
    more: "take_times n (of_nat (Suc H)) p1 q1 = Some (take n ys, p', q')" "index_frame p1 p'"
      "held (Suc H + n) T A (drop n ys) p' q'"
      "pool_inv (reown (reown U (A ` live H T) (A ` live (Suc H) T)) (A ` live (Suc H) T) (A ` live (Suc H + n) T)) F' q'"
      "\<forall>a \<in> reown U (A ` live H T) (A ` live (Suc H) T) - A ` live (Suc H) T. blocks q' a = blocks q1 a"
    by (auto simp: xs)
  have sub: "A ` live (Suc H) T \<subseteq> A ` live H T" by (intro image_mono live_mono) simp
  have "blocks q' a = blocks q a" if "a \<in> U - A ` live H T" for a
  proof -
    from that sub have "a \<in> reown U (A ` live H T) (A ` live (Suc H) T) - A ` live (Suc H) T" by (auto simp: reown_def)
    with more(5) one(5) that show ?thesis by simp
  qed
  with one more show ?case
    using index_frame_trans [OF one(2) more(2)]
    by (auto simp: xs add.commute reown_reown [OF sub] intro!: exI [of _ F'])
qed

text \<open>\<open>ip_take\<close> leaves the counters alone and does not look at them.\<close>

lemma take_counters:
  assumes "p' = p\<lparr>headIndex := h, dequeueOptimisticCount := d\<rparr>"
  shows "ip_take i p' q = map_option (\<lambda>(el, p1, q1). (el, p1\<lparr>headIndex := h, dequeueOptimisticCount := d\<rparr>, q1)) (ip_take i p q)"
proof -
  have "get_block_index_entry_for_index i p' = get_block_index_entry_for_index i p"
    by (simp add: assms get_block_index_entry_for_index_def get_block_index_index_for_index_def cong: option.map_cong)
  then show ?thesis
    by (cases p) (auto simp: assms ip_take_def Let_def set_value_def option.map_comp o_def split: option.split block_ptr.split prod.split)
qed

lemma take_times_counters:
  assumes "p' = p\<lparr>headIndex := h, dequeueOptimisticCount := d\<rparr>"
  shows "take_times n i p' q = map_option (\<lambda>(els, p1, q1). (els, p1\<lparr>headIndex := h, dequeueOptimisticCount := d\<rparr>, q1)) (take_times n i p q)"
  using assms
proof (induction n arbitrary: i p p' q)
  case (Suc n)
  show ?case
  proof (cases "ip_take i p q")
    case None
    then show ?thesis using take_counters [OF Suc(2), of i q] by simp
  next
    case (Some r)
    obtain el p1 q1 where r: "r = (el, p1, q1)" by (metis prod_cases3)
    with Some take_counters [OF Suc(2), of i q] Suc(1) [OF refl, of "i + 1" p1 q1]
    show ?thesis by (simp add: option.map_comp o_def case_prod_beta)
  qed
qed simp

lemma dequeue_times_take:
  assumes "ip_inv H T A xs p q" "pool_inv U F q" "A ` live H T \<subseteq> U" "n \<le> length xs"
  shows "dequeue_times n p q =
    map_option (\<lambda>(els, p1, q1). (els, p1\<lparr>headIndex := of_nat (H + n),
       dequeueOptimisticCount := dequeueOptimisticCount p + of_nat n\<rparr>, q1)) (take_times n (of_nat H) p q)"
  using assms
proof (induction n arbitrary: H xs p q U F)
  case 0
  then have "headIndex p = of_nat H" by (simp add: ip_inv_def)
  then show ?case by (cases p) simp
next
  case (Suc n)
  then obtain y ys where xs: "xs = y # ys" by (cases xs) auto
  let ?c = "\<lambda>p. p\<lparr>headIndex := of_nat (Suc H), dequeueOptimisticCount := dequeueOptimisticCount p + 1\<rparr>"
  have h: "headIndex p = of_nat H" using Suc(2) by (simp add: ip_inv_def)
  from ip_dequeue_spec [OF Suc(2) [unfolded xs] Suc(3,4)] obtain p1 q1 F1 where
    one: "ip_dequeue p q = Some (Some y, p1, q1)" "ip_inv (Suc H) T A ys p1 q1"
      "pool_inv (reown U (A ` live H T) (A ` live (Suc H) T)) F1 q1" by blast
  have "ip_dequeue p q = map_option (\<lambda>(el, p3, q3). (Some el, p3, q3)) (ip_take (of_nat H) (?c p) q)"
    using may_dequeue [OF Suc(2)] by (cases p) (use h in \<open>simp add: ip_dequeue_def Let_def xs add.commute\<close>)
  with one(1) take_counters [OF refl, where p = p and h = "of_nat (Suc H)" and d = "dequeueOptimisticCount p + 1"
      and i = "of_nat H" and q = q]
  obtain p0 where p0: "ip_take (of_nat H) p q = Some (y, p0, q1)"
      "p1 = p0\<lparr>headIndex := of_nat (Suc H), dequeueOptimisticCount := dequeueOptimisticCount p + 1\<rparr>"
    by (cases "ip_take (of_nat H) p q") auto
  have "A ` live (Suc H) T \<subseteq> reown U (A ` live H T) (A ` live (Suc H) T)" by (simp add: reown_def)
  from Suc(1) [OF one(2,3) this] Suc(5) have "dequeue_times n p1 q1 =
    map_option (\<lambda>(els, p2, q2). (els, p2\<lparr>headIndex := of_nat (Suc H + n),
       dequeueOptimisticCount := dequeueOptimisticCount p1 + of_nat n\<rparr>, q2)) (take_times n (of_nat (Suc H)) p1 q1)"
    by (simp add: xs)
  with take_times_counters [OF p0(2), of n "of_nat (Suc H)" q1]
  show ?case
    by (simp add: one(1) p0 option.map_comp o_def case_prod_beta add.assoc add.commute [of "of_nat H :: index_t" 1])
qed

lemma take_times_add:
  "take_times (i + j) index p q =
     (case take_times i index p q of
        None \<Rightarrow> None
      | Some (els, p1, q1) \<Rightarrow> map_option (\<lambda>(more, r). (els @ more, r)) (take_times j (index + of_nat i) p1 q1))"
proof (induction i arbitrary: index p q)
  case 0
  show ?case by (cases "take_times j index p q") auto
next
  case (Suc i)
  then show ?case
    by (auto simp: option.map_comp o_def case_prod_beta add.assoc split: option.split)
qed

text \<open>One block at a time.\<close>

lemma take_slots_counter:
  "take_slots j i (b\<lparr>elementsCompletelyDequeued := c\<rparr>) =
     map_option (\<lambda>(els, b'). (els, b'\<lparr>elementsCompletelyDequeued := c\<rparr>)) (take_slots j i b)" for b :: "'a block"
proof (induction j arbitrary: i b)
  case (Suc j)
  have "write_slot i None (b\<lparr>elementsCompletelyDequeued := c\<rparr>) = (write_slot i None b)\<lparr>elementsCompletelyDequeued := c\<rparr>"
    "slot (b\<lparr>elementsCompletelyDequeued := c\<rparr>) i = slot b i"
    by (simp_all add: write_slot_def slot_def)
  with Suc show ?case by (simp add: option.map_comp o_def case_prod_beta split: option.split)
qed simp

lemma chunk_take:
  fixes b :: "'a block"
  assumes "\<And>i. i div 32 = H div 32 \<Longrightarrow> get_block_index_entry_for_index (of_nat i) p = Some e"
    "bvalue (bentries p ! e) = Ptr blk"
  shows "blocks q blk = Some b \<Longrightarrow> elementsCompletelyDequeued b = H mod 32 \<Longrightarrow> H mod 32 + j \<le> 32 \<Longrightarrow>
    take_times j (of_nat H) p q =
      (case take_slots j (of_nat H) b of
         None \<Rightarrow> None
       | Some (els, b1) \<Rightarrow>
           let q1 = q\<lparr>blocks := (blocks q)(blk := Some (b1\<lparr>elementsCompletelyDequeued := H mod 32 + j\<rparr>))\<rparr> in
           if H mod 32 + j = 32
           then map_option (\<lambda>q2. (els, set_value e Null p, q2)) (add_block_to_free_list blk q1)
           else Some (els, p, q1))"
  using assms(1)
proof (induction j arbitrary: H q b)
  case 0
  have "b\<lparr>elementsCompletelyDequeued := H mod 32\<rparr> = b" using 0(2) by (cases b) simp
  then have "(blocks q)(blk := Some (b\<lparr>elementsCompletelyDequeued := H mod 32\<rparr>)) = blocks q" using 0(1) by auto
  moreover have "H mod 32 \<noteq> 32" by (metis mod_less_divisor nat_less_le zero_less_numeral)
  ultimately show ?case by (cases q) simp
next
  case (Suc j)
  let ?i = "of_nat H :: index_t" and ?w = "write_slot (of_nat H) None b"
  let ?b = "?w\<lparr>elementsCompletelyDequeued := Suc (H mod 32)\<rparr>"
  let ?q = "q\<lparr>blocks := (blocks q)(blk := Some ?b)\<rparr>"
  have e: "get_block_index_entry_for_index ?i p = Some e" using Suc(5) by simp
  have empty: "set_empty implicit_context ?i ?w = (H mod 32 = 31, ?b)"
    using Suc(3) by (simp add: set_empty_def write_slot_def BLOCK_SIZE_def)
  show ?case
  proof (cases "slot b ?i")
    case None
    then show ?thesis by (simp add: ip_take_def e assms(2) Suc(2))
  next
    case (Some el)
    show ?thesis
    proof (cases "H mod 32 = 31")
      case True
      then have "j = 0" using Suc(4) by simp
      with Some True show ?thesis
        by (auto simp: ip_take_def e assms(2) Suc(2) empty Let_def option.map_comp o_def split: option.split)
    next
      case False
      have S: "Suc H div 32 = H div 32" "Suc H mod 32 = Suc (H mod 32)" using False by (simp_all add: div_Suc mod_Suc)
      have "take_times j (of_nat (Suc H)) p ?q =
        (case take_slots j (of_nat (Suc H)) ?b of
           None \<Rightarrow> None
         | Some (els, b1) \<Rightarrow>
             let q1 = ?q\<lparr>blocks := (blocks ?q)(blk := Some (b1\<lparr>elementsCompletelyDequeued := Suc H mod 32 + j\<rparr>))\<rparr> in
             if Suc H mod 32 + j = 32
             then map_option (\<lambda>q2. (els, set_value e Null p, q2)) (add_block_to_free_list blk q1)
             else Some (els, p, q1))"
        by (rule Suc(1)) (use S Suc(4,5) in simp_all)
      with Some False S show ?thesis
        by (simp add: ip_take_def e assms(2) Suc(2) empty Let_def take_slots_counter option.map_comp o_def
            add.commute [of 1] split: option.split)
    qed
  qed
qed

lemma slot_of_step: "slot_of c t hi (Suc k) = Suc (slot_of c t hi k) mod 2 ^ c"
proof -
  have "int t + int (Suc k) + 1 - int hi = (int t + int k + 1 - int hi) + 1" by simp
  then have "(int t + int (Suc k) + 1 - int hi) mod 2 ^ c = ((int t + int k + 1 - int hi) mod 2 ^ c + 1) mod 2 ^ c"
    by (simp only: mod_add_left_eq)
  then show ?thesis by (simp add: slot_of_def nat_mod_distrib nat_add_distrib nat_power_eq)
qed

lemma entry_at:
  assumes tab: "table_inv c h p" and win: "window_inv c h lo hi A (bslot p h)" and bound: "hi - lo \<le> 2 ^ 58"
    and i: "lo \<le> i div 32" "i div 32 < hi"
  defines "s \<equiv> slot_of c (unat (bi_tail h)) hi (i div 32)"
  shows "unat (get_block_index_index_for_index (of_nat i) h p) = s"
    "get_block_index_entry_for_index (of_nat i) p = Some (bi_index h ! s)"
    "bvalue (bentries p ! (bi_index h ! s)) = Ptr (A (i div 32))"
proof -
  let ?t = "unat (bi_tail h)"
  from i(2) obtain l where l: "hi = Suc l" by (cases hi) auto
  from tab have c: "?t < 2 ^ c" "blockIndex p = Some h" by (auto simp: table_inv_def)
  have live: "bslot p h (slot_of c ?t hi k) = \<lparr>bkey = of_nat (32 * k), bvalue = Ptr (A k)\<rparr>" if "lo \<le> k" "k < hi" for k
    using win that by (simp add: window_inv_def)
  have key: "bkey (bslot p h ?t) = of_nat (32 * l)"
    using live [of l] i slot_of_tail [OF c(1)] by (simp add: l)
  have near: "\<bar>int (i div 32) - int l\<bar> < 2 ^ 58"
  proof -
    have "int (hi - lo) \<le> 2 ^ 58" using bound by simp
    with i l show ?thesis by linarith
  qed
  show "unat (get_block_index_index_for_index (of_nat i) h p) = s"
    using index_slot [OF tab key near] by (simp add: s_def l)
  then show "get_block_index_entry_for_index (of_nat i) p = Some (bi_index h ! s)"
    by (simp add: get_block_index_entry_for_index_def c(2))
  show "bvalue (bentries p ! (bi_index h ! s)) = Ptr (A (i div 32))"
    using live [OF i] by (simp add: s_def bslot_def)
qed

lemma chunk_end_of_nat:
  assumes "n < 2 ^ 63"
  shows "chunk_end (of_nat H) (of_nat (H + n)) = of_nat (H + min n (32 - H mod 32))"
proof -
  let ?e = "H div 32 * 32 + 32"
  have e: "?e = H + (32 - H mod 32)"
    using mod_less_divisor [of 32 H] div_mult_mod_eq [of H 32] by linarith
  have base: "block_base (of_nat H) + of_nat BLOCK_SIZE = of_nat ?e" by (simp add: block_base_of_nat BLOCK_SIZE_def)
  have "circular_less_than (of_nat (H + n) :: index_t) (of_nat ?e) \<longleftrightarrow> H + n < ?e"
  proof (cases "H + n \<le> ?e")
    case True
    then show ?thesis by (intro circular_less_than_of_nat(1)) (use e in simp_all)
  next
    case False
    then have "\<not> circular_less_than (of_nat (H + n) :: index_t) (of_nat ?e)"
      by (intro circular_less_than_of_nat(2)) (use e assms in simp_all)
    with False show ?thesis by simp
  qed
  then have stop: "chunk_end (of_nat H) (of_nat (H + n)) = (if H + n < ?e then of_nat (H + n) else of_nat ?e)"
    unfolding chunk_end_def Let_def base by simp
  show ?thesis
  proof (cases "H + n < ?e")
    case True
    then have "min n (32 - H mod 32) = n" using e by simp
    with True stop show ?thesis by simp
  next
    case False
    then have "min n (32 - H mod 32) = 32 - H mod 32" using e by simp
    then have "of_nat (H + min n (32 - H mod 32)) = (of_nat ?e :: index_t)" by (simp only: e)
    with False stop show ?thesis by (simp only: if_False)
  qed
qed

lemma unat_distance: "n < 2 ^ 64 \<Longrightarrow> unat (of_nat (H + n) - of_nat H :: index_t) = n"
  using unat_of_nat_diff [of H "H + n", where 'a = 64] by simp

lemma take_slots_times:
  assumes held: "held H T A xs p q" and pool: "pool_inv U F q" and own: "A ` live H T \<subseteq> U" and xs: "xs \<noteq> []"
    and j: "j \<le> length xs" "H mod 32 + j \<le> 32"
    and idx: "table_inv c h p" "unat idx = slot_of c (unat (bi_tail h)) ((T + 31) div 32) (H div 32)"
  shows "dequeue_chunk (of_nat H) (of_nat (H + j)) h idx p q = take_times j (of_nat H) p q"
proof -
  let ?hi = "(T + 31) div 32" and ?e = "bi_index h ! unat idx"
  have HT: "H < T" "T = H + length xs" using held xs by (auto simp: held_def)
  have k: "H div 32 \<in> live H T" using mem_live [of H H T] HT by simp
  have bound: "?hi - H div 32 \<le> 2 ^ 58"
    using live_bound [of H T] HT held unfolding held_def by auto
  from held obtain c' h' where tab: "table_inv c' h' p" and win: "window_inv c' h' (H div 32) ?hi A (bslot p h')"
    by (auto simp: held_def bidx_inv_def)
  with idx(1) have "h' = h" "c' = c" by (auto simp: table_inv_def)
  note win = win [unfolded this]
  have "get_block_index_entry_for_index (of_nat i) p = Some ?e" if "i div 32 = H div 32" for i
    using entry_at(2) [OF idx(1) win bound, of i] that k by (simp add: live_def idx(2))
  moreover have val: "bvalue (bentries p ! ?e) = Ptr (A (H div 32))"
    using entry_at(3) [OF idx(1) win bound, of H] k by (simp add: live_def idx(2))
  moreover from held k obtain b where b: "blocks q (A (H div 32)) = Some b" "block_holds H T xs (H div 32) b"
    by (auto simp: held_def)
  moreover have "elementsCompletelyDequeued b = H mod 32" using b(2) by (simp add: block_holds_def)
  ultimately have times: "take_times j (of_nat H) p q =
      (case take_slots j (of_nat H) b of
         None \<Rightarrow> None
       | Some (els, b1) \<Rightarrow>
           let q1 = q\<lparr>blocks := (blocks q)(A (H div 32) := Some (b1\<lparr>elementsCompletelyDequeued := H mod 32 + j\<rparr>))\<rparr> in
           if H mod 32 + j = 32
           then map_option (\<lambda>q2. (els, set_value ?e Null p, q2)) (add_block_to_free_list (A (H div 32)) q1)
           else Some (els, p, q1))"
    by (intro chunk_take [OF _ val]) (use j in simp_all)
  have cnt: "elementsCompletelyDequeued b1 = H mod 32" if "take_slots j (of_nat H) b = Some (els, b1)" for els b1
    using that take_slots_counter [where j = j and i = "of_nat H" and b = b and c = "elementsCompletelyDequeued b"] b(2)
    by (cases b; cases b1) (auto simp: block_holds_def)
  have "unat (of_nat (H + j) - of_nat H :: index_t) = j" using j by (intro unat_distance) simp
  then show ?thesis
    unfolding times dequeue_chunk_def Let_def val block_ptr.case b(1) option.case
    by (auto simp: set_many_empty_def cnt BLOCK_SIZE_def split: option.split)
qed

lemma same_header:
  assumes "ip_take i p q = Some (el, p', q')"
  shows "blockIndex p' = blockIndex p \<and> length (bentries p') = length (bentries p) \<and>
    nextBlockIndexCapacity p' = nextBlockIndexCapacity p"
  using assms by (auto simp: ip_take_def Let_def set_value_def split: option.splits block_ptr.splits prod.splits if_splits)

lemma same_table:
  "take_times n i p q = Some (els, p', q') \<Longrightarrow> table_inv c h p \<Longrightarrow> table_inv c h p'"
proof (induction n arbitrary: i p q els)
  case (Suc n)
  then obtain el p1 q1 els1 where one: "ip_take i p q = Some (el, p1, q1)"
    "take_times n (i + 1) p1 q1 = Some (els1, p', q')"
    by (auto split: option.splits)
  have "table_inv c h p1" using same_header [OF one(1)] Suc(3) by (simp add: table_inv_def)
  from Suc(1) [OF one(2) this] show ?case .
qed simp

lemma dequeue_blocks_take:
  assumes "held H T A xs p q" "pool_inv U F q" "A ` live H T \<subseteq> U" "xs \<noteq> []" "n \<le> length xs" "n < 2 ^ 63"
    "table_inv c h p" "unat idx = slot_of c (unat (bi_tail h)) ((T + 31) div 32) (H div 32)"
  shows "dequeue_blocks (of_nat (H + n)) h (of_nat H) idx p q = take_times n (of_nat H) p q"
  using assms
proof (induction n arbitrary: H xs p q U F idx rule: less_induct)
  case (less n)
  define j where "j = min n (32 - H mod 32)"
  have j: "j \<le> length xs" "H mod 32 + j \<le> 32" using less.prems(5) by (auto simp: j_def)
  note chunk_stop = chunk_end_of_nat [OF less.prems(6), of H, folded j_def]
  note chunk = take_slots_times [OF less.prems(1-4) j less.prems(7,8)]
  obtain p1 q1 F1 where one: "take_times j (of_nat H) p q = Some (take j xs, p1, q1)"
      "held (H + j) T A (drop j xs) p1 q1"
      "pool_inv (reown U (A ` live H T) (A ` live (H + j) T)) F1 q1"
    using take_times_spec [OF less.prems(1-3) j(1)] by blast
  have eq: "of_nat (H + j) = (of_nat (H + n) :: index_t) \<longleftrightarrow> j = n"
  proof
    assume "of_nat (H + j) = (of_nat (H + n) :: index_t)"
    then have "unat (of_nat (H + j) - of_nat H :: index_t) = unat (of_nat (H + n) - of_nat H :: index_t)" by simp
    moreover have "unat (of_nat (H + j) - of_nat H :: index_t) = j" "unat (of_nat (H + n) - of_nat H :: index_t) = n"
      by (rule unat_distance, use less.prems(6) in \<open>simp add: j_def\<close>)+
    ultimately show "j = n" by (simp only:)
  qed simp
  show ?case
  proof (cases "j = n")
    case True
    with one(1) chunk eq chunk_stop show ?thesis
      by (subst dequeue_blocks.simps) (simp add: Let_def del: of_nat_add)
  next
    case False
    then have m: "H mod 32 + j = 32" "0 < j" "n = j + (n - j)" "n - j < n"
      using mod_less_divisor [of 32 H] by (auto simp: j_def min_def split: if_splits)
    have step: "(H + j) div 32 = Suc (H div 32)"
    proof -
      have "H + j = H div 32 * 32 + 32" using m(1) div_mult_mod_eq [of H 32] by linarith
      then show ?thesis by simp
    qed
    have tab1: "table_inv c h p1" by (rule same_table [OF one(1) less.prems(7)])
    have c: "c < 64" "bi_capacity h = 2 ^ c" using less.prems(7) by (auto simp: table_inv_def)
    have slot: "unat ((idx + 1) AND (bi_capacity h - 1)) = slot_of c (unat (bi_tail h)) ((T + 31) div 32) ((H + j) div 32)"
    proof -
      have "unat ((of_nat (unat idx) + 1 :: size_t) AND (2 ^ c - 1)) = Suc (unat idx) mod 2 ^ c"
        by (rule tail_plus_one [OF c(1)]) (simp add: less.prems(8))
      then have "unat ((idx + 1) AND (2 ^ c - 1)) = Suc (unat idx) mod 2 ^ c" by (simp only: of_nat_unat ucast_id)
      then show ?thesis by (simp add: c(2) step slot_of_step less.prems(8))
    qed
    have "A ` live (H + j) T \<subseteq> reown U (A ` live H T) (A ` live (H + j) T)" by (simp add: reown_def)
    note own1 = this
    have e: "H + j + (n - j) = H + n" using m(3) by linarith
    have "dequeue_blocks (of_nat (H + j + (n - j))) h (of_nat (H + j)) ((idx + 1) AND (bi_capacity h - 1)) p1 q1
        = take_times (n - j) (of_nat (H + j)) p1 q1"
    proof (rule less.IH [OF m(4) one(2,3) own1 _ _ _ tab1 slot])
      have "j \<le> n" by (simp add: j_def)
      with False less.prems(5) show "drop j xs \<noteq> []" by simp
      show "n - j \<le> length (drop j xs)" using less.prems(5) by simp
      show "n - j < 2 ^ 63" by (rule le_less_trans [OF diff_le_self less.prems(6)])
    qed
    note rest = this [unfolded e]
    have "take_times n (of_nat H) p q =
        map_option (\<lambda>(more, r). (take j xs @ more, r)) (take_times (n - j) (of_nat (H + j)) p1 q1)"
      using take_times_add [of j "n - j" "of_nat H" p q] m(3) one(1) by simp
    moreover have "dequeue_blocks (of_nat (H + n)) h (of_nat H) idx p q =
        Option.bind (take_times (n - j) (of_nat (H + j)) p1 q1) (\<lambda>(more, p2, q2). Some (take j xs @ more, p2, q2))"
      using False eq by (subst dequeue_blocks.simps) (simp add: Let_def chunk_stop chunk one(1) rest del: of_nat_add)
    ultimately show ?thesis by (cases "take_times (n - j) (of_nat (H + j)) p1 q1") auto
  qed
qed

text \<open>Bulk dequeue is, in its result and in the state it leaves, the single dequeue done \<open>n\<close> times.\<close>

lemma bulk_counts:
  assumes "ip_inv H T A xs p q"
  shows "unat (tailIndex p - (dequeueOptimisticCount p - dequeueOvercommit p)) = length xs"
    "circular_less_than 0 (tailIndex p - (dequeueOptimisticCount p - dequeueOvercommit p)) \<longleftrightarrow> xs \<noteq> []"
proof -
  note b = ip_bounds [OF assms]
  have "unat (of_nat T - of_nat H :: index_t) = T - H" by (rule unat_of_nat_diff) (use b in simp_all)
  with assms show u: "unat (tailIndex p - (dequeueOptimisticCount p - dequeueOvercommit p)) = length xs"
    by (simp add: ip_inv_def)
  with b assms show "circular_less_than 0 (tailIndex p - (dequeueOptimisticCount p - dequeueOvercommit p)) \<longleftrightarrow> xs \<noteq> []"
    by (simp add: circular_less_than_iff ip_inv_def)
qed

lemma word_of_unat: "unat w = n \<Longrightarrow> w = of_nat n" for w :: size_t
  by (drule sym) simp

lemma smaller_count:
  fixes d :: size_t
  assumes "n \<le> unat d"
  shows "(if of_nat n < d then of_nat n else d) = of_nat n"
proof -
  have "unat (of_nat n :: size_t) = n"
    by (rule unat_of_nat_small, rule le_less_trans [OF assms]) (rule unsigned_less)
  note u = this
  show ?thesis
  proof (cases "of_nat n < d")
    case False
    then have "unat d \<le> n" by (simp only: word_less_nat_alt u not_less)
    with assms have "unat d = unat (of_nat n :: size_t)" by (simp only: u)
    with False show ?thesis by (simp only: if_False word_unat_eq_iff)
  qed simp
qed

lemma ip_dequeue_bulk_times:
  fixes max_count :: size_t
  assumes inv: "ip_inv H T A xs p q" and pool: "pool_inv U F q" and own: "A ` live H T \<subseteq> U"
  defines "n \<equiv> min (unat max_count) (length xs)"
  shows "ip_dequeue_bulk max_count p q = map_option (Pair (of_nat n)) (dequeue_times n p q)"
proof (cases "xs = []")
  case True
  with bulk_counts(2) [OF inv] show ?thesis by (simp add: ip_dequeue_bulk_def Let_def n_def)
next
  case False
  let ?d = "tailIndex p - (dequeueOptimisticCount p - dequeueOvercommit p)"
  let ?p = "p\<lparr>headIndex := of_nat (H + n), dequeueOptimisticCount := dequeueOptimisticCount p + of_nat n\<rparr>"
  note d = bulk_counts(1) [OF inv]
  have h: "headIndex p = of_nat H" using inv by (simp add: ip_inv_def)
  have n: "n \<le> length xs" "n < 2 ^ 63" using ip_bounds [OF inv] inv by (auto simp: n_def ip_inv_def)
  have "unat (if ?d < max_count then ?d else max_count) = n"
    using d by (simp add: n_def word_less_nat_alt min_def)
  then have desired: "(if ?d < max_count then ?d else max_count) = of_nat n" by (rule word_of_unat)
  have actual: "(if of_nat n < ?d then of_nat n else ?d) = of_nat n"
    by (rule smaller_count) (use d n(1) in simp)
  note held = held_of_inv [OF inv False]
  from held obtain c hd where tab: "table_inv c hd p" and win: "window_inv c hd (H div 32) ((T + 31) div 32) A (bslot p hd)"
    by (auto simp: held_def bidx_inv_def)
  have bi: "blockIndex p = Some hd" using tab by (simp add: table_inv_def)
  have k: "H div 32 \<in> live H T" using mem_live [of H H T] False held by (simp add: held_def)
  have bound: "(T + 31) div 32 - H div 32 \<le> 2 ^ 58"
    using live_bound [of H T] ip_bounds [OF inv] held unfolding held_def by auto
  have idx: "unat (get_block_index_index_for_index (of_nat H) hd p) =
      slot_of c (unat (bi_tail hd)) ((T + 31) div 32) (H div 32)"
    by (rule entry_at(1) [OF tab win bound]) (use k in \<open>auto simp: live_def\<close>)
  have idx': "get_block_index_index_for_index (of_nat H) hd ?p = get_block_index_index_for_index (of_nat H) hd p"
    by (simp add: get_block_index_index_for_index_def)
  have held': "held H T A xs ?p q" using held by (auto simp: held_def intro: bidx_inv_cong)
  have tab': "table_inv c hd ?p" using tab by (simp add: table_inv_def)
  have blocks: "dequeue_blocks (of_nat (H + n)) hd (of_nat H) (get_block_index_index_for_index (of_nat H) hd ?p) ?p q =
      take_times n (of_nat H) ?p q"
    by (rule dequeue_blocks_take [OF held' pool own False n tab']) (simp only: idx' idx)
  have "ip_dequeue_bulk max_count p q = map_option (\<lambda>(els, p4, q4). (of_nat n, els, p4, q4))
      (dequeue_blocks (of_nat (H + n)) hd (of_nat H) (get_block_index_index_for_index (of_nat H) hd ?p) ?p q)"
  proof -
    let ?p1 = "p\<lparr>dequeueOptimisticCount := dequeueOptimisticCount p + of_nat n\<rparr>"
    have c0: "circular_less_than 0 ?d" using bulk_counts(2) [OF inv] False by simp
    have bi': "blockIndex (p\<lparr>headIndex := a, dequeueOptimisticCount := b\<rparr>) = Some hd" for a b by (simp add: bi)
    have p1: "tailIndex ?p1 = tailIndex p" "headIndex ?p1 = of_nat H"
        "?p1\<lparr>headIndex := of_nat H + of_nat n\<rparr> = ?p"
      by (simp_all add: h bi)
    have no: "\<not> of_nat n < (of_nat n :: size_t)" by simp
    show ?thesis
      unfolding ip_dequeue_bulk_def Let_def
      by (simp only: c0 if_True desired actual no if_False p1 bi' option.case of_nat_add)
  qed
  also have "\<dots> = map_option (Pair (of_nat n)) (dequeue_times n p q)"
    unfolding blocks dequeue_times_take [OF inv pool own n(1)]
      take_times_counters [OF refl, where p = p and h = "of_nat (H + n)" and d = "dequeueOptimisticCount p + of_nat n"]
    by (simp add: option.map_comp o_def case_prod_beta)
  finally show ?thesis .
qed

end
