(* ===== verification/ImplicitEnqueueBulk.thy ===== *)
theory ImplicitEnqueueBulk
  imports ImplicitDequeueBulk
begin

text \<open>
  \<^verbatim>\<open>enqueue_bulk\<close> of \<^verbatim>\<open>ConcurrentQueue::ImplicitProducer\<close>
  (\<^verbatim>\<open>src/lightning/moodycamel/concurrentqueue.h\<close>). It first provides all the blocks, undoing
  everything if one of them is not to be had, and then fills them: it is all or nothing.
\<close>

unbundle bit_operations_syntax

section \<open>Bulk enqueue\<close>

text \<open>Taking the blocks of a failed allocation out of the index again: the loop over the chain of the
  new blocks. The fuel bounds the length of the chain.\<close>

fun undo_index :: "nat \<Rightarrow> addr option \<Rightarrow> index_t \<Rightarrow> iproducer \<Rightarrow> 'a pool \<Rightarrow> iproducer option" where
  "undo_index fuel None currentTailIndex p q = Some p"
| "undo_index 0 (Some blk) currentTailIndex p q = None"
| "undo_index (Suc fuel) (Some blk) currentTailIndex p q =
     (let current = currentTailIndex + of_nat BLOCK_SIZE in
      case get_block_index_entry_for_index current p of
        None \<Rightarrow> None
      | Some idxEntry \<Rightarrow>
          (case blocks q blk of
             None \<Rightarrow> None
           | Some b \<Rightarrow> undo_index fuel (next_block b) current (rewind_block_index_tail (set_value idxEntry Null p)) q))"

definition revert_bulk ::
    "nat \<Rightarrow> index_t \<Rightarrow> addr option \<Rightarrow> addr option \<Rightarrow> iproducer \<Rightarrow> 'a pool \<Rightarrow> (iproducer \<times> 'a pool) option" where
  "revert_bulk fuel startTailIndex startBlock firstAllocatedBlock p q =
     (case undo_index fuel firstAllocatedBlock (block_base (startTailIndex - 1)) p q of
        None \<Rightarrow> None
      | Some p1 \<Rightarrow>
          map_option (\<lambda>q1. (p1\<lparr>tailBlock := startBlock\<rparr>, q1)) (add_blocks_to_free_list fuel firstAllocatedBlock q))"

definition fresh_block :: "'a block \<Rightarrow> 'a block" where
  "fresh_block b = (reset_empty implicit_context b)\<lparr>next_block := None\<rparr>"

text \<open>Chaining a new block behind the last one.\<close>

definition link_block ::
    "index_t \<Rightarrow> addr option \<Rightarrow> addr option \<Rightarrow> addr \<Rightarrow> 'a pool \<Rightarrow> 'a pool option" where
  "link_block startTailIndex firstAllocatedBlock tail newBlock q =
     (if block_offset startTailIndex \<noteq> 0 \<or> firstAllocatedBlock \<noteq> None
      then (case tail of
              None \<Rightarrow> None
            | Some a \<Rightarrow> update_block a (\<lambda>b. b\<lparr>next_block := Some newBlock\<rparr>) q)
      else Some q)"

text \<open>The allocation loop. It gives \<open>Inl\<close> when all has been undone and the call returns false, and
  \<open>Inr\<close> with the first and the last of the new blocks otherwise.\<close>

partial_function (option) alloc_blocks ::
    "alloc_mode \<Rightarrow> nat \<Rightarrow> index_t \<Rightarrow> addr option \<Rightarrow> size_t \<Rightarrow> index_t \<Rightarrow> addr option \<Rightarrow> iproducer \<Rightarrow> 'a pool \<Rightarrow>
     ((iproducer \<times> 'a pool) + (addr option \<times> addr option \<times> iproducer \<times> 'a pool)) option" where
  "alloc_blocks allocMode fuel startTailIndex startBlock blockBaseDiff currentTailIndex firstAllocatedBlock p q =
     (let blockBaseDiff = blockBaseDiff - of_nat BLOCK_SIZE;
          currentTailIndex = currentTailIndex + of_nat BLOCK_SIZE
      in if subqueue_full currentTailIndex (headIndex p)
         then map_option Inl (revert_bulk fuel startTailIndex startBlock firstAllocatedBlock p q)
         else (case insert_block_index_entry allocMode currentTailIndex p q of
             (None, p1, q1) \<Rightarrow> map_option Inl (revert_bulk fuel startTailIndex startBlock firstAllocatedBlock p1 q1)
           | (Some idxEntry, p1, q1) \<Rightarrow>
               (case requisition_block allocMode q1 of
                  None \<Rightarrow> None
                | Some (None, q2) \<Rightarrow>
                    map_option Inl (revert_bulk fuel startTailIndex startBlock firstAllocatedBlock
                      (set_value idxEntry Null (rewind_block_index_tail p1)) q2)
                | Some (Some newBlock, q2) \<Rightarrow>
                    (case update_block newBlock fresh_block q2 of
                       None \<Rightarrow> None
                     | Some q3 \<Rightarrow>
                         (case link_block startTailIndex firstAllocatedBlock (tailBlock p1) newBlock q3 of
                            None \<Rightarrow> None
                          | Some q4 \<Rightarrow>
                              let p2 = (set_value idxEntry (Ptr newBlock) p1)\<lparr>tailBlock := Some newBlock\<rparr>;
                                  first = (if firstAllocatedBlock = None then Some newBlock else firstAllocatedBlock)
                              in if blockBaseDiff > 0
                                 then alloc_blocks allocMode fuel startTailIndex startBlock blockBaseDiff
                                        currentTailIndex first p2 q4
                                 else Some (Inr (first, Some newBlock, p2, q4)))))))"

text \<open>Filling the blocks: \<open>items\<close> are the elements that the iterator has yet to give.\<close>

fun write_slots :: "nat \<Rightarrow> index_t \<Rightarrow> 'a list \<Rightarrow> 'a block \<Rightarrow> ('a list \<times> 'a block) option" where
  "write_slots 0 index items b = Some (items, b)"
| "write_slots (Suc n) index [] b = None"
| "write_slots (Suc n) index (x # items) b = write_slots n (index + 1) items (write_slot index (Some x) b)"

definition fill_block :: "addr option \<Rightarrow> nat \<Rightarrow> index_t \<Rightarrow> 'a list \<Rightarrow> 'a pool \<Rightarrow> ('a list \<times> 'a pool) option" where
  "fill_block tail n index items q =
     (if n = 0 then Some (items, q)
      else (case tail of
              None \<Rightarrow> None
            | Some a \<Rightarrow>
                (case blocks q a of
                   None \<Rightarrow> None
                 | Some b \<Rightarrow>
                     map_option (\<lambda>(rest, b'). (rest, q\<lparr>blocks := (blocks q)(a := Some b')\<rparr>)) (write_slots n index items b))))"

partial_function (option) enqueue_blocks ::
    "index_t \<Rightarrow> addr option \<Rightarrow> index_t \<Rightarrow> 'a list \<Rightarrow> iproducer \<Rightarrow> 'a pool \<Rightarrow> (iproducer \<times> 'a pool) option" where
  "enqueue_blocks newTailIndex endBlock currentTailIndex items p q =
     (let stopIndex = chunk_end currentTailIndex newTailIndex in
      case fill_block (tailBlock p) (unat (stopIndex - currentTailIndex)) currentTailIndex items q of
        None \<Rightarrow> None
      | Some (rest, q1) \<Rightarrow>
          if tailBlock p = endBlock then Some (p, q1)
          else (case tailBlock p of
                  None \<Rightarrow> None
                | Some a \<Rightarrow>
                    (case blocks q1 a of
                       None \<Rightarrow> None
                     | Some b \<Rightarrow> enqueue_blocks newTailIndex endBlock stopIndex rest (p\<lparr>tailBlock := next_block b\<rparr>) q1)))"

definition ip_enqueue_bulk ::
    "alloc_mode \<Rightarrow> 'a list \<Rightarrow> iproducer \<Rightarrow> 'a pool \<Rightarrow> (bool \<times> iproducer \<times> 'a pool) option" where
  "ip_enqueue_bulk allocMode items p q =
     (let count = of_nat (length items); startTailIndex = tailIndex p; startBlock = tailBlock p;
          blockBaseDiff = block_base (startTailIndex + count - 1) - block_base (startTailIndex - 1);
          newTailIndex = startTailIndex + count
      in case (if blockBaseDiff > 0
               then alloc_blocks allocMode (unat blockBaseDiff div BLOCK_SIZE) startTailIndex startBlock blockBaseDiff
                      (block_base (startTailIndex - 1)) None p q
               else Some (Inr (None, tailBlock p, p, q))) of
           None \<Rightarrow> None
         | Some (Inl (p1, q1)) \<Rightarrow> Some (False, p1, q1)
         | Some (Inr (firstAllocatedBlock, endBlock, p1, q1)) \<Rightarrow>
             let first = (if block_offset startTailIndex = 0 \<and> firstAllocatedBlock \<noteq> None
                          then firstAllocatedBlock else startBlock)
             in map_option (\<lambda>(p2, q2). (True, p2\<lparr>tailIndex := newTailIndex\<rparr>, q2))
                  (enqueue_blocks newTailIndex endBlock startTailIndex items (p1\<lparr>tailBlock := first\<rparr>) q1))"

section \<open>Undoing a bulk enqueue\<close>

lemma slot_of_rewind:
  assumes "c < 64" "t < 2 ^ c" "0 < n" "\<And>k. slot_of c t n k = pos k"
  shows "slot_of c (unat ((of_nat t - 1 :: size_t) AND (2 ^ c - 1))) (n - 1) k = pos k"
proof -
  have "(of_nat t - 1 :: size_t) = of_nat t + word_of_int (- 1)" by simp
  then have "unat ((of_nat t - 1 :: size_t) AND (2 ^ c - 1)) = nat ((int t - 1) mod 2 ^ c)"
    using masked_slot [OF assms(1), of t "- 1"] by simp
  then have "int (unat ((of_nat t - 1 :: size_t) AND (2 ^ c - 1))) = (int t - 1) mod 2 ^ c" by simp
  moreover have "((int t - 1) mod 2 ^ c + int k + 1 - int (n - 1)) mod 2 ^ c = (int t + int k + 1 - int n) mod 2 ^ c"
    using mod_add_left_eq [of "int t - 1" "2 ^ c" "int k + 1 - int (n - 1)"] assms(3)
    by (simp add: algebra_simps of_nat_diff)
  ultimately show ?thesis using assms(4) [of k] by (simp add: slot_of_def)
qed

text \<open>The lookups of the loop start from a tail that moves back while they move forward.\<close>

lemma undo_index_spec:
  assumes "table_inv c h p" "\<And>k. slot_of c (unat (bi_tail h)) n k = pos k" "n = k0 + (hi - i)" "k0 \<le> i" "i \<le> hi"
    "\<And>k. k0 \<le> k \<Longrightarrow> k < hi \<Longrightarrow> bkey (bslot p h (pos k)) = of_nat (32 * k)"
    "\<And>k. i \<le> k \<Longrightarrow> k < hi \<Longrightarrow> \<exists>b. blocks q (A k) = Some b \<and> next_block b = (if Suc k < hi then Some (A (Suc k)) else None)"
    "hi - k0 < 2 ^ 58" "hi - i \<le> fuel"
  shows "\<exists>h' p'. undo_index fuel (if i < hi then Some (A i) else None) (of_nat (32 * i) - 32) p q = Some p' \<and>
    table_inv c h' p' \<and> (\<forall>k. slot_of c (unat (bi_tail h')) k0 k = pos k) \<and>
    (\<forall>s < 2 ^ c. bslot p' h' s = (if s \<in> pos ` {i ..< hi} then (bslot p h s)\<lparr>bvalue := Null\<rparr> else bslot p h s)) \<and>
    index_frame p p'"
  using assms
proof (induction "hi - i" arbitrary: i h p n fuel)
  case 0
  then have "i = hi" by simp
  with 0 show ?case by (intro exI [of _ h] exI [of _ p]) auto
next
  case (Suc m)
  let ?t = "unat (bi_tail h)"
  from Suc(2) have i: "i < hi" by simp
  with Suc.prems(9) obtain f where f: "fuel = Suc f" by (cases fuel) auto
  from Suc.prems(1) have c: "c < 64" "bi_capacity h = 2 ^ c" "?t < 2 ^ c" "blockIndex p = Some h"
    by (auto simp: table_inv_def)
  define l where "l = n - 1"
  have l: "n = Suc l" "k0 \<le> l" "l < hi"
    unfolding l_def using Suc.prems(3,4) i by arith+
  have tail: "pos l = ?t" using Suc.prems(2) [of l] slot_of_tail [OF c(3)] by (simp add: l(1))
  have key: "bkey (bslot p h ?t) = of_nat (32 * l)" using Suc.prems(6) [OF l(2,3)] by (simp add: tail)
  have "\<bar>int (32 * i div 32) - int l\<bar> < 2 ^ 58"
  proof -
    have "int (hi - k0) < 2 ^ 58" using Suc.prems(8) by simp
    with Suc.prems(4) i l show ?thesis by auto
  qed
  from index_slot [OF Suc.prems(1) key this] Suc.prems(2) [of i]
  have look: "unat (get_block_index_index_for_index (of_nat (32 * i)) h p) = pos i" by (simp add: l(1))
  have pos: "pos k < 2 ^ c" for k using Suc.prems(2) [of k, symmetric] by simp
  define e where "e = bi_index h ! pos i"
  define p2 where "p2 = rewind_block_index_tail (set_value e Null p)"
  define h2 where "h2 = h\<lparr>bi_tail := (bi_tail h - 1) AND (bi_capacity h - 1)\<rparr>"
  have entry: "get_block_index_entry_for_index (of_nat (32 * i)) p = Some e"
    by (simp only: get_block_index_entry_for_index_def c(4) option.map look e_def)
  have bi2: "blockIndex p2 = Some h2"
    by (simp add: p2_def h2_def rewind_block_index_tail_def set_value_def c(4))
  have t2: "bi_tail h2 = (of_nat ?t - 1) AND (2 ^ c - 1)" by (simp add: h2_def c(2))
  have "unat (bi_tail h2) < 2 ^ c" by (simp add: t2 unat_and_pow2_minus_one)
  then have tab2: "table_inv c h2 p2"
    using Suc.prems(1) bi2
    by (simp add: table_inv_def p2_def rewind_block_index_tail_def set_value_def h2_def)
  have slots2: "slot_of c (unat (bi_tail h2)) l k = pos k" for k
    using slot_of_rewind [OF c(1,3), of n pos k] Suc.prems(2) by (simp add: t2 l(1))
  have bs: "bslot p2 h2 s = (if s = pos i then (bslot p h s)\<lparr>bvalue := Null\<rparr> else bslot p h s)" if "s < 2 ^ c" for s
    using bslot_set(2) [OF Suc.prems(1) pos [of i] that, of Null]
    by (simp add: bslot_def p2_def h2_def rewind_block_index_tail_def e_def)
  obtain b where b: "blocks q (A i) = Some b" "next_block b = (if Suc i < hi then Some (A (Suc i)) else None)"
    using Suc.prems(7) [of i] i by auto
  have n2: "l = k0 + (hi - Suc i)" using Suc.prems(3) i l(1) by simp
  have "\<exists>h' p'. undo_index f (if Suc i < hi then Some (A (Suc i)) else None) (of_nat (32 * Suc i) - 32) p2 q = Some p' \<and>
    table_inv c h' p' \<and> (\<forall>k. slot_of c (unat (bi_tail h')) k0 k = pos k) \<and>
    (\<forall>s < 2 ^ c. bslot p' h' s = (if s \<in> pos ` {Suc i ..< hi} then (bslot p2 h2 s)\<lparr>bvalue := Null\<rparr> else bslot p2 h2 s)) \<and>
    index_frame p2 p'"
  proof (rule Suc.hyps(1) [OF _ tab2 slots2 n2])
    show "bkey (bslot p2 h2 (pos k)) = of_nat (32 * k)" if "k0 \<le> k" "k < hi" for k
      using Suc.prems(6) [OF that] by (cases "pos k = pos i") (simp_all add: bs [OF pos])
  qed (use Suc.prems(4,7,8,9) Suc(2) i f in auto)
  then obtain h' p' where rest:
    "undo_index f (if Suc i < hi then Some (A (Suc i)) else None) (of_nat (32 * Suc i) - 32) p2 q = Some p'"
    "table_inv c h' p'" "\<forall>k. slot_of c (unat (bi_tail h')) k0 k = pos k"
    "\<forall>s < 2 ^ c. bslot p' h' s = (if s \<in> pos ` {Suc i ..< hi} then (bslot p2 h2 s)\<lparr>bvalue := Null\<rparr> else bslot p2 h2 s)"
    "index_frame p2 p'" by blast
  have cur: "of_nat (32 * i) - 32 + of_nat BLOCK_SIZE = (of_nat (32 * i) :: index_t)"
    "of_nat (32 * Suc i) - 32 = (of_nat (32 * i) :: index_t)" by (simp_all add: BLOCK_SIZE_def)
  have "undo_index fuel (Some (A i)) (of_nat (32 * i) - 32) p q = Some p'"
    using rest(1) unfolding f undo_index.simps Let_def cur entry option.case b p2_def .
  moreover have "{i ..< hi} = insert i {Suc i ..< hi}" using i by auto
  moreover have "index_frame p p'"
    using rest(5) by (simp add: index_frame_def p2_def rewind_block_index_tail_def set_value_def)
  ultimately show ?case
    using rest(2-4) i bs by (intro exI [of _ h'] exI [of _ p']) auto
qed

text \<open>The blocks go back to the pool.\<close>

lemma add_blocks_to_free_list_spec:
  assumes "pool_inv U F q" "A ` {i ..< hi} \<subseteq> U" "inj_on A {i ..< hi}"
    "\<And>k. i \<le> k \<Longrightarrow> k < hi \<Longrightarrow> \<exists>b. blocks q (A k) = Some b \<and> next_block b = (if Suc k < hi then Some (A (Suc k)) else None)"
    "hi - i \<le> fuel"
  shows "\<exists>q' F'. add_blocks_to_free_list fuel (if i < hi then Some (A i) else None) q = Some q' \<and>
    pool_inv (U - A ` {i ..< hi}) F' q' \<and> (\<forall>a. a \<notin> A ` {i ..< hi} \<longrightarrow> blocks q' a = blocks q a)"
  using assms
proof (induction "hi - i" arbitrary: i q U F fuel)
  case 0
  then show ?case by auto
next
  case (Suc m)
  from Suc(2) have i: "i < hi" by simp
  with Suc.prems(5) obtain f where f: "fuel = Suc f" by (cases fuel) auto
  obtain b where b: "blocks q (A i) = Some b" "next_block b = (if Suc i < hi then Some (A (Suc i)) else None)"
    using Suc.prems(4) [of i] i by auto
  have Ai: "A i \<in> U" using Suc.prems(2) i by auto
  from add_block_to_free_list_spec [OF Suc.prems(1) Ai] obtain q1 F1 where one:
    "add_block_to_free_list (A i) q = Some q1" "pool_inv (U - {A i}) F1 q1" "\<forall>x. x \<noteq> A i \<longrightarrow> blocks q1 x = blocks q x"
    by blast
  have set: "{i ..< hi} = insert i {Suc i ..< hi}" using i by auto
  have other: "A k \<noteq> A i" if "Suc i \<le> k" "k < hi" for k
    using inj_onD [OF Suc.prems(3), of k i] that i by auto
  have "\<exists>q' F'. add_blocks_to_free_list f (if Suc i < hi then Some (A (Suc i)) else None) q1 = Some q' \<and>
    pool_inv (U - {A i} - A ` {Suc i ..< hi}) F' q' \<and> (\<forall>a. a \<notin> A ` {Suc i ..< hi} \<longrightarrow> blocks q' a = blocks q1 a)"
  proof (rule Suc.hyps(1) [OF _ one(2)])
    show "A ` {Suc i ..< hi} \<subseteq> U - {A i}" using Suc.prems(2) other by (auto simp: set)
    show "inj_on A {Suc i ..< hi}" using Suc.prems(3) by (rule inj_on_subset) auto
    show "\<exists>b. blocks q1 (A k) = Some b \<and> next_block b = (if Suc k < hi then Some (A (Suc k)) else None)"
      if "Suc i \<le> k" "k < hi" for k
      using Suc.prems(4) [of k] one(3) other [OF that] that by auto
  qed (use Suc(2) Suc.prems(5) f in auto)
  moreover have "U - {A i} - A ` {Suc i ..< hi} = U - A ` {i ..< hi}" by (auto simp: set)
  ultimately show ?case using i one(1,3) b f by (auto simp: set)
qed

text \<open>\<open>allocated k0 hi\<close>: the index, the chain and the pool when blocks have been provided for the numbers
  \<open>k0 ..< hi\<close>; the elements are still those before.\<close>

definition allocated ::
    "nat \<Rightarrow> nat \<Rightarrow> nat \<Rightarrow> (nat \<Rightarrow> addr) \<Rightarrow> 'a list \<Rightarrow> addr set \<Rightarrow> addr list \<Rightarrow> iproducer \<Rightarrow> 'a pool \<Rightarrow> bool" where
  "allocated H T hi A xs U F p q \<longleftrightarrow>
     (let k0 = (T + 31) div 32 in
      headIndex p = of_nat H \<and> tailIndex p = of_nat T \<and> T = H + length xs \<and>
      dequeueOptimisticCount p - dequeueOvercommit p = of_nat H \<and>
      hi * 32 < H + 2 ^ 63 \<and> k0 \<le> hi \<and> inj_on A {H div 32 ..< hi} \<and>
      (\<forall>k \<in> {H div 32 ..< hi}. \<exists>b. blocks q (A k) = Some b \<and> block_holds H T xs k b) \<and>
      (\<forall>k. k0 \<le> k \<and> k < hi \<longrightarrow> next_block (the (blocks q (A k))) = (if Suc k < hi then Some (A (Suc k)) else None)) \<and>
      (T mod 32 \<noteq> 0 \<and> k0 < hi \<longrightarrow> next_block (the (blocks q (A (T div 32)))) = Some (A k0)) \<and>
      blockIndex p \<noteq> None \<and> bidx_inv (H div 32) hi A p \<and>
      pool_inv (U \<union> A ` {k0 ..< hi}) F q \<and> A ` {k0 ..< hi} \<inter> U = {} \<and> A ` {H div 32 ..< k0} \<subseteq> U)"

lemma base_before: "block_base (of_nat T - 1) = of_nat (32 * ((T + 31) div 32)) - 32"
proof (cases T)
  case 0
  then show ?thesis by (simp add: block_base_def BLOCK_SIZE_def)
next
  case (Suc t)
  then have "(T + 31) div 32 = t div 32 + 1" using div_add_self2 [of 32 t] by simp
  then have "32 * ((T + 31) div 32) = t div 32 * 32 + 32" by simp
  then have "of_nat (32 * ((T + 31) div 32)) = (of_nat (t div 32 * 32) + 32 :: index_t)" by simp
  with block_base_of_nat [of t] Suc show ?thesis by simp
qed

lemma ip_inv_blocks:
  assumes "ip_inv H T A xs p q" "\<And>k. k \<in> live H T \<Longrightarrow> A' k = A k"
  shows "ip_inv H T A' xs p q"
proof -
  have "T div 32 \<in> live H T" if "T mod 32 \<noteq> 0"
    using that ip_bounds [OF assms(1)] by (auto simp: live_def div_ceiling_32 div_le_mono)
  moreover have "bidx_inv (H div 32) ((T + 31) div 32) A' p" if "bidx_inv (H div 32) ((T + 31) div 32) A p"
    using that by (rule bidx_inv_blocks) (simp add: assms(2) live_def)
  moreover have "inj_on A' (live H T) \<longleftrightarrow> inj_on A (live H T)" by (rule inj_on_cong) (rule assms(2))
  ultimately show ?thesis using assms by (auto simp: ip_inv_def split: if_splits)
qed

lemma allocated_start:
  assumes "ip_inv H T A xs p q" "pool_inv U F q" "A ` live H T \<subseteq> U" "blockIndex p \<noteq> None"
  shows "allocated H T ((T + 31) div 32) A xs U F p q"
  using assms by (auto simp: allocated_def ip_inv_def Let_def live_def)

lemma allocated_block:
  assumes "allocated H T hi A xs U F p q" "H div 32 \<le> k" "k < hi"
  obtains b where "blocks q (A k) = Some b" "block_holds H T xs k b"
    "(T + 31) div 32 \<le> k \<Longrightarrow> next_block b = (if Suc k < hi then Some (A (Suc k)) else None)"
proof -
  have "\<forall>k \<in> {H div 32 ..< hi}. \<exists>b. blocks q (A k) = Some b \<and> block_holds H T xs k b"
    using assms(1) unfolding allocated_def Let_def by (elim conjE)
  then obtain b where b: "blocks q (A k) = Some b" "block_holds H T xs k b"
    using assms(2,3) by (metis atLeastLessThan_iff)
  have "\<forall>k. (T + 31) div 32 \<le> k \<and> k < hi \<longrightarrow>
      next_block (the (blocks q (A k))) = (if Suc k < hi then Some (A (Suc k)) else None)"
    using assms(1) unfolding allocated_def Let_def by (elim conjE)
  with assms(3) b(1) have "(T + 31) div 32 \<le> k \<Longrightarrow> next_block b = (if Suc k < hi then Some (A (Suc k)) else None)"
    by (metis option.sel)
  with b show thesis by (rule that)
qed

lemma allocated_facts:
  assumes "allocated H T hi A xs U F p q"
  shows "headIndex p = of_nat H" "tailIndex p = of_nat T" "T = H + length xs"
    "dequeueOptimisticCount p - dequeueOvercommit p = of_nat H" "hi * 32 < H + 2 ^ 63" "(T + 31) div 32 \<le> hi"
    "inj_on A {H div 32 ..< hi}" "blockIndex p \<noteq> None" "bidx_inv (H div 32) hi A p"
    "pool_inv (U \<union> A ` {(T + 31) div 32 ..< hi}) F q" "A ` {(T + 31) div 32 ..< hi} \<inter> U = {}"
    "A ` {H div 32 ..< (T + 31) div 32} \<subseteq> U" "H div 32 \<le> (T + 31) div 32"
proof -
  show "T = H + length xs" using assms unfolding allocated_def Let_def by (elim conjE)
  then show "H div 32 \<le> (T + 31) div 32" by (simp add: div_le_mono)
qed (insert assms, unfold allocated_def Let_def, (elim conjE, assumption)+)

lemma allocated_bounds:
  assumes "allocated H T hi A xs U F p q"
  shows "hi - (T + 31) div 32 < 2 ^ 58" "hi - H div 32 \<le> 2 ^ 58" "H \<le> T"
proof -
  let ?k0 = "(T + 31) div 32"
  have a: "T = H + length xs" "hi * 32 < H + 2 ^ 63" "?k0 \<le> hi"
    using assms by (auto simp: allocated_def Let_def)
  then show "H \<le> T" by simp
  have "T \<le> ?k0 * 32" by presburger
  with a have "(hi - ?k0) * 32 < 2 ^ 63" by (simp add: diff_mult_distrib)
  then show "hi - ?k0 < 2 ^ 58" by simp
  have "H < 32 * (H div 32) + 32"
    using div_mult_mod_eq [of H 32] mod_less_divisor [of 32 H] by linarith
  with a(2) have "hi * 32 < 32 * (H div 32) + 32 + 2 ^ 63" by linarith
  then have "hi \<le> H div 32 + 2 ^ 58" by simp
  then show "hi - H div 32 \<le> 2 ^ 58" by simp
qed

lemma window_shrink:
  assumes "window_inv c h lo hi A entry" "lo \<le> k0" "k0 \<le> hi"
    and slots: "\<forall>k. slot_of c (unat (bi_tail h')) k0 k = slot_of c (unat (bi_tail h)) hi k"
    and entries: "\<forall>s < 2 ^ c. entry' s =
      (if s \<in> slot_of c (unat (bi_tail h)) hi ` {k0 ..< hi} then (entry s)\<lparr>bvalue := Null\<rparr> else entry s)"
  shows "window_inv c h' lo k0 A entry'"
  unfolding window_inv_def
proof (intro conjI allI impI)
  let ?pos = "slot_of c (unat (bi_tail h)) hi"
  show "lo \<le> k0" "k0 \<le> lo + 2 ^ c" using assms(1-3) by (auto simp: window_inv_def)
  fix k assume k: "lo \<le> k \<and> k < k0"
  have "?pos k \<noteq> ?pos k'" if "k0 \<le> k'" "k' < hi" for k'
  proof
    assume eq: "?pos k = ?pos k'"
    have "k' - k < 2 ^ c" using that k assms(1) by (auto simp: window_inv_def)
    then have "int (k' - k) < 2 ^ c" by (simp only: of_nat_less_numeral_power_cancel_iff)
    then have "\<bar>int k - int k'\<bar> < 2 ^ c" using k that by simp
    from slot_of_inj [OF eq this] k that show False by simp
  qed
  then have "?pos k \<notin> ?pos ` {k0 ..< hi}" by (metis atLeastLessThan_iff imageE)
  then have "entry' (?pos k) = entry (?pos k)" using entries by simp
  with assms(1) k assms(3) show "entry' (slot_of c (unat (bi_tail h')) k0 k) = \<lparr>bkey = of_nat (32 * k), bvalue = Ptr (A k)\<rparr>"
    by (simp add: slots window_inv_def)
next
  let ?pos = "slot_of c (unat (bi_tail h)) hi"
  fix s :: nat assume s: "s < 2 ^ c" "\<forall>k. lo \<le> k \<and> k < k0 \<longrightarrow> s \<noteq> slot_of c (unat (bi_tail h')) k0 k"
  show "entry_free (entry' s)"
  proof (cases "s \<in> ?pos ` {k0 ..< hi}")
    case True
    with entries s(1) show ?thesis by (simp add: entry_free_def)
  next
    case False
    then have "\<forall>k. lo \<le> k \<and> k < hi \<longrightarrow> s \<noteq> ?pos k" using s(2) slots by (metis atLeastLessThan_iff image_eqI not_le)
    with assms(1) s(1) False entries show ?thesis by (simp add: window_inv_def)
  qed
qed

lemma revert_bulk_spec:
  assumes al: "allocated H T hi A xs U F p q" and sb: "T mod 32 \<noteq> 0 \<longrightarrow> sb = Some (A (T div 32))"
    and fuel: "hi - (T + 31) div 32 \<le> fuel"
  shows "\<exists>p' q' F'. revert_bulk fuel (of_nat T) sb (if (T + 31) div 32 < hi then Some (A ((T + 31) div 32)) else None) p q = Some (p', q') \<and>
    ip_inv H T A xs p' q' \<and> pool_inv U F' q' \<and> (\<forall>a \<in> U. blocks q' a = blocks q a)"
proof -
  let ?k0 = "(T + 31) div 32" and ?first = "if (T + 31) div 32 < hi then Some (A ((T + 31) div 32)) else None"
  note b = allocated_bounds [OF al]
  note al' = allocated_facts [OF al]
  from al'(9) obtain c h where tab: "table_inv c h p" and win: "window_inv c h (H div 32) hi A (bslot p h)"
    by (auto simp: bidx_inv_def)
  let ?pos = "slot_of c (unat (bi_tail h)) hi"
  note k0 = al'(6,13)
  have chain: "\<exists>b. blocks q (A k) = Some b \<and> next_block b = (if Suc k < hi then Some (A (Suc k)) else None)"
    if "?k0 \<le> k" "k < hi" for k
    by (rule allocated_block [OF al order_trans [OF k0(2) that(1)] that(2)]) (use that in blast)
  have "bkey (bslot p h (?pos k)) = of_nat (32 * k)" if "?k0 \<le> k" "k < hi" for k
    using win that k0(2) by (simp add: window_inv_def)
  from undo_index_spec [OF tab refl _ order_refl k0(1) this chain b(1) fuel] k0
  obtain h' p' where undo: "undo_index fuel ?first (of_nat (32 * ?k0) - 32) p q = Some p'" "table_inv c h' p'"
    "\<forall>k. slot_of c (unat (bi_tail h')) ?k0 k = ?pos k"
    "\<forall>s < 2 ^ c. bslot p' h' s = (if s \<in> ?pos ` {?k0 ..< hi} then (bslot p h s)\<lparr>bvalue := Null\<rparr> else bslot p h s)"
    "index_frame p p'" by auto
  have idx: "bidx_inv (H div 32) ?k0 A p'"
    unfolding bidx_inv_def using undo(2) window_shrink [OF win k0(2,1) undo(3,4)] by blast
  have inj: "inj_on A {?k0 ..< hi}" using al'(7) by (rule inj_on_subset) (use k0(2) in simp)
  from add_blocks_to_free_list_spec [OF al'(10) Un_upper2 inj chain fuel] obtain q' F' where
    free: "add_blocks_to_free_list fuel ?first q = Some q'"
    "pool_inv (U \<union> A ` {?k0 ..< hi} - A ` {?k0 ..< hi}) F' q'" "\<forall>a. a \<notin> A ` {?k0 ..< hi} \<longrightarrow> blocks q' a = blocks q a"
    by blast
  have U: "U \<union> A ` {?k0 ..< hi} - A ` {?k0 ..< hi} = U" using al'(11) by blast
  have same: "blocks q' a = blocks q a" if "a \<in> U" for a using free(3) al'(11) that by blast
  have "ip_inv H T A xs (p'\<lparr>tailBlock := sb\<rparr>) q'"
    unfolding ip_inv_def
  proof (intro conjI)
    have "?k0 * 32 \<le> hi * 32" using k0(1) by simp
    with al'(5) show "?k0 * 32 < H + 2 ^ 63" by linarith
    show "\<forall>k \<in> live H T. \<exists>b. blocks q' (A k) = Some b \<and> block_holds H T xs k b"
    proof
      fix k assume k: "k \<in> live H T"
      then have "A k \<in> U" "H div 32 \<le> k" "k < hi" using al'(12) k0(1) by (auto simp: live_def)
      from allocated_block [OF al this(2,3)] same [OF this(1)] show "\<exists>b. blocks q' (A k) = Some b \<and> block_holds H T xs k b"
        by metis
    qed
    show "inj_on A (live H T)" using al'(7) by (rule inj_on_subset) (use k0(1) in \<open>auto simp: live_def\<close>)
    show "if blockIndex (p'\<lparr>tailBlock := sb\<rparr>) = None then H = 0 \<and> T = 0
      else bidx_inv (H div 32) ((T + 31) div 32) A (p'\<lparr>tailBlock := sb\<rparr>)"
      using idx undo(2) by (auto simp: table_inv_def intro: bidx_inv_cong)
    show "T mod 32 \<noteq> 0 \<longrightarrow> tailBlock (p'\<lparr>tailBlock := sb\<rparr>) = Some (A (T div 32))" using sb by simp
  qed (use al' undo(5) in \<open>simp_all add: index_frame_def\<close>)
  then show ?thesis
    using undo(1) free same by (intro exI [of _ "p'\<lparr>tailBlock := sb\<rparr>"] exI [of _ q'] exI [of _ F'])
      (auto simp: revert_bulk_def base_before U)
qed

section \<open>Allocation\<close>

lemma new_block_holds:
  assumes "(T + 31) div 32 \<le> k" "H \<le> T" "elementsCompletelyDequeued b = 0"
  shows "block_holds H T xs k b"
proof -
  have "H mod 32 = 0" if "k = H div 32"
  proof -
    have "(H + 31) div 32 \<le> (T + 31) div 32" using assms(2) by (intro div_le_mono) simp
    with assms(1) that have "(H + 31) div 32 \<le> H div 32" by simp
    then show ?thesis by (simp add: div_ceiling_32 split: if_splits)
  qed
  moreover have "i div 32 \<noteq> k" if "i < T" for i
  proof
    assume i: "i div 32 = k"
    have "T \<le> (T + 31) div 32 * 32" by presburger
    also have "\<dots> \<le> k * 32" using assms(1) by simp
    finally have "i < k * 32" using that by simp
    then have "i div 32 < k" by (rule less_mult_imp_div_less)
    with i show False by simp
  qed
  ultimately show ?thesis using assms(3) by (auto simp: block_holds_def)
qed

lemma fresh_block_facts: "elementsCompletelyDequeued (fresh_block b) = 0" "next_block (fresh_block b) = None"
  "wf_block b \<Longrightarrow> wf_block (fresh_block b)" "freeListRefs (fresh_block b) = freeListRefs b"
  by (simp_all add: fresh_block_def reset_empty_def wf_block_def)

text \<open>Linking changes the block before the new one, if there is one that counts.\<close>

lemma link_block_spec:
  assumes "pool_inv V F q" "T mod 32 \<noteq> 0 \<or> first \<noteq> None \<longrightarrow> (\<exists>y \<in> V. tb = Some y)"
  shows "\<exists>q'. link_block (of_nat T) first tb a q = Some q' \<and> pool_inv V F q' \<and>
    (\<forall>x. blocks q' x = (if (T mod 32 \<noteq> 0 \<or> first \<noteq> None) \<and> tb = Some x
       then map_option (\<lambda>b. b\<lparr>next_block := Some a\<rparr>) (blocks q x) else blocks q x))"
proof (cases "T mod 32 \<noteq> 0 \<or> first \<noteq> None")
  case True
  with assms(2) obtain y where y: "y \<in> V" "tb = Some y" by blast
  from pool_inv_update [OF assms(1) y(1), of "\<lambda>b. b\<lparr>next_block := Some a\<rparr>"] obtain q' where
    "update_block y (\<lambda>b. b\<lparr>next_block := Some a\<rparr>) q = Some q'" "pool_inv V F q'"
    "blocks q' = (blocks q)(y := map_option (\<lambda>b. b\<lparr>next_block := Some a\<rparr>) (blocks q y))"
    by (auto simp: wf_block_def)
  with True y show ?thesis by (intro exI [of _ q']) (auto simp: link_block_def block_offset_of_nat)
next
  case False
  with assms(1) show ?thesis by (intro exI [of _ q]) (auto simp: link_block_def block_offset_of_nat)
qed

lemma allocated_step:
  assumes al: "allocated H T hi A xs U F p q"
    and tail: "T mod 32 \<noteq> 0 \<or> (T + 31) div 32 < hi \<longrightarrow> tb = Some (A (hi - 1))"
    and a: "a \<notin> U \<union> A ` {(T + 31) div 32 ..< hi}"
    and pool: "pool_inv (insert a (U \<union> A ` {(T + 31) div 32 ..< hi})) F2 q2"
    and keep: "\<forall>x \<in> U \<union> A ` {(T + 31) div 32 ..< hi}. blocks q2 x = blocks q x"
    and room: "Suc hi * 32 < H + 2 ^ 63"
    and idx: "bidx_inv (H div 32) (Suc hi) (A(hi := a)) p2" "blockIndex p2 \<noteq> None"
    and frame: "headIndex p2 = headIndex p" "tailIndex p2 = tailIndex p"
      "dequeueOptimisticCount p2 = dequeueOptimisticCount p" "dequeueOvercommit p2 = dequeueOvercommit p"
  shows "\<exists>q3 q4. update_block a fresh_block q2 = Some q3 \<and>
    link_block (of_nat T) (if (T + 31) div 32 < hi then Some (A ((T + 31) div 32)) else None) tb a q3 = Some q4 \<and>
    allocated H T (Suc hi) (A(hi := a)) xs U F2 p2 q4 \<and> (\<forall>x \<in> U - A ` live H T. blocks q4 x = blocks q x)"
proof -
  let ?k0 = "(T + 31) div 32" and ?A = "A(hi := a)"
  let ?S = "U \<union> A ` {?k0 ..< hi}" and ?first = "if ?k0 < hi then Some (A ?k0) else None"
  note f = allocated_facts [OF al]
  have HT: "H \<le> T" using f(3) by simp
  have lk: "T mod 32 \<noteq> 0 \<or> ?first \<noteq> None \<longleftrightarrow> T mod 32 \<noteq> 0 \<or> ?k0 < hi" by simp
  have dT: "T mod 32 \<noteq> 0 \<Longrightarrow> ?k0 = Suc (T div 32)" by (simp add: div_ceiling_32)
  have owned: "A k \<in> ?S" "A k \<noteq> a" if "H div 32 \<le> k" "k < hi" for k
  proof -
    show "A k \<in> ?S"
    proof (cases "k < ?k0")
      case True
      with that(1) f(12) show ?thesis by (simp add: image_subset_iff)
    next
      case False
      with that(2) show ?thesis by simp
    qed
    with a show "A k \<noteq> a" by metis
  qed
  have last: "H div 32 \<le> hi - 1" "hi - 1 < hi" if "T mod 32 \<noteq> 0 \<or> ?k0 < hi"
    using that dT f(6,13) HT div_le_mono [OF HT, of 32] by auto
  from pool_inv_update [OF pool insertI1, of fresh_block] fresh_block_facts obtain q3 where
    q3: "update_block a fresh_block q2 = Some q3" "pool_inv (insert a ?S) F2 q3"
      "blocks q3 = (blocks q2)(a := map_option fresh_block (blocks q2 a))" by blast
  obtain b0 where b0: "blocks q2 a = Some b0" using pool_inv_owned [OF pool, of a] by auto
  have "T mod 32 \<noteq> 0 \<or> ?first \<noteq> None \<longrightarrow> (\<exists>y \<in> insert a ?S. tb = Some y)"
    unfolding lk using tail last owned(1) by (metis insertI2)
  from link_block_spec [OF q3(2) this, of a] obtain q4 where
    q4: "link_block (of_nat T) ?first tb a q3 = Some q4" "pool_inv (insert a ?S) F2 q4"
      "\<forall>x. blocks q4 x = (if (T mod 32 \<noteq> 0 \<or> ?first \<noteq> None) \<and> tb = Some x
       then map_option (\<lambda>b. b\<lparr>next_block := Some a\<rparr>) (blocks q3 x) else blocks q3 x)" by blast
  let ?last = "\<lambda>k. (T mod 32 \<noteq> 0 \<or> ?k0 < hi) \<and> k = hi - 1"
  have at: "blocks q4 (A k) = (if ?last k then map_option (\<lambda>b. b\<lparr>next_block := Some a\<rparr>) (blocks q (A k)) else blocks q (A k))"
    if k: "H div 32 \<le> k" "k < hi" for k
  proof -
    have "blocks q3 (A k) = blocks q (A k)" using owned [OF k] keep by (simp add: q3(3))
    moreover have "(T mod 32 \<noteq> 0 \<or> ?first \<noteq> None) \<and> tb = Some (A k) \<longleftrightarrow> ?last k"
      unfolding lk using tail last k inj_onD [OF f(7), of "hi - 1" k] by (metis atLeastLessThan_iff option.inject)
    ultimately show ?thesis using q4(3) by presburger
  qed
  have new: "blocks q4 a = Some (fresh_block b0)"
  proof -
    have "\<not> ((T mod 32 \<noteq> 0 \<or> ?first \<noteq> None) \<and> tb = Some a)"
      unfolding lk using tail last owned(2) [of "hi - 1"] by (metis option.inject)
    then have "blocks q4 a = blocks q3 a" using q4(3) by metis
    then show ?thesis by (simp add: q3(3) b0)
  qed
  have "allocated H T (Suc hi) ?A xs U F2 p2 q4"
    unfolding allocated_def Let_def
  proof (intro conjI)
    have "\<forall>k \<in> {H div 32 ..< hi}. A k \<noteq> a" using owned(2) by (metis atLeastLessThan_iff)
    with f(7) show "inj_on ?A {H div 32 ..< Suc hi}" by (auto simp: inj_on_def less_Suc_eq)
    show "\<forall>k \<in> {H div 32 ..< Suc hi}. \<exists>b. blocks q4 (?A k) = Some b \<and> block_holds H T xs k b"
    proof
      fix k assume k: "k \<in> {H div 32 ..< Suc hi}"
      show "\<exists>b. blocks q4 (?A k) = Some b \<and> block_holds H T xs k b"
      proof (cases "k = hi")
        case True
        with new new_block_holds [OF _ HT fresh_block_facts(1)] f(6) show ?thesis by simp
      next
        case False
        with k have k': "H div 32 \<le> k" "k < hi" by auto
        obtain b where b: "blocks q (A k) = Some b" "block_holds H T xs k b" by (rule allocated_block [OF al k'])
        have "blocks q4 (A k) = Some b \<or> blocks q4 (A k) = Some (b\<lparr>next_block := Some a\<rparr>)"
          unfolding at [OF k'] b(1) by simp
        moreover have "block_holds H T xs k (b\<lparr>next_block := Some a\<rparr>)" using b(2) by (simp add: block_holds_def)
        ultimately show ?thesis using False b(2) by auto
      qed
    qed
    show "\<forall>k. ?k0 \<le> k \<and> k < Suc hi \<longrightarrow>
        next_block (the (blocks q4 (?A k))) = (if Suc k < Suc hi then Some (?A (Suc k)) else None)"
    proof (intro allI impI, elim conjE)
      fix k assume k: "?k0 \<le> k" "k < Suc hi"
      show "next_block (the (blocks q4 (?A k))) = (if Suc k < Suc hi then Some (?A (Suc k)) else None)"
      proof (cases "k = hi")
        case True
        with new show ?thesis by (simp add: fresh_block_facts)
      next
        case False
        with k f(13) have k': "H div 32 \<le> k" "k < hi" by auto
        obtain b where b: "blocks q (A k) = Some b"
          "next_block b = (if Suc k < hi then Some (A (Suc k)) else None)"
          using allocated_block [OF al k'] k(1) by metis
        show ?thesis
        proof (cases "Suc k < hi")
          case True
          then have "k \<noteq> hi - 1" by arith
          then have "blocks q4 (A k) = Some b" unfolding at [OF k'] b(1) by simp
          with b(2) True False show ?thesis by simp
        next
          case False
          with k' have "Suc k = hi" "?last k" using k(1) by auto
          with at [OF k'] b(1) k' show ?thesis by simp
        qed
      qed
    qed
    show "T mod 32 \<noteq> 0 \<and> ?k0 < Suc hi \<longrightarrow> next_block (the (blocks q4 (?A (T div 32)))) = Some (?A ?k0)"
    proof (intro impI, elim conjE)
      assume T: "T mod 32 \<noteq> 0"
      then have k: "H div 32 \<le> T div 32" "T div 32 < hi" using dT f(6) HT by (auto simp: div_le_mono)
      obtain b where b: "blocks q (A (T div 32)) = Some b" by (rule allocated_block [OF al k])
      show "next_block (the (blocks q4 (?A (T div 32)))) = Some (?A ?k0)"
      proof (cases "hi = ?k0")
        case True
        then have "?last (T div 32)" using T dT by simp
        with at [OF k] b k True show ?thesis by simp
      next
        case False
        with f(6) have less: "?k0 < hi" by simp
        have "T mod 32 \<noteq> 0 \<and> ?k0 < hi \<longrightarrow> next_block (the (blocks q (A (T div 32)))) = Some (A ?k0)"
          using al unfolding allocated_def Let_def by (elim conjE)
        moreover have "\<not> ?last (T div 32)" using T dT less by simp
        ultimately show ?thesis using at [OF k] b k T less by simp
      qed
    qed
    have eq: "U \<union> ?A ` {?k0 ..< Suc hi} = insert a ?S" using f(6) by (auto simp: atLeastLessThanSuc)
    show "pool_inv (U \<union> ?A ` {?k0 ..< Suc hi}) F2 q4" unfolding eq by (rule q4(2))
    show "?A ` {?k0 ..< Suc hi} \<inter> U = {}" using f(6,11) a by (auto simp: atLeastLessThanSuc)
    show "?A ` {H div 32 ..< ?k0} \<subseteq> U" using f(6,12) by auto
  qed (use f frame room idx in auto)
  moreover have "blocks q4 x = blocks q x" if x: "x \<in> U - A ` live H T" for x
  proof -
    have "x \<noteq> a" using x a by auto
    have "\<not> ((T mod 32 \<noteq> 0 \<or> ?first \<noteq> None) \<and> tb = Some x)"
    proof
      assume c: "(T mod 32 \<noteq> 0 \<or> ?first \<noteq> None) \<and> tb = Some x"
      then have xA: "x = A (hi - 1)" and l: "H div 32 \<le> hi - 1" "hi - 1 < hi"
        using tail last lk by auto
      show False
      proof (cases "hi - 1 < ?k0")
        case True
        then have "hi - 1 \<in> live H T" using l by (simp add: live_def)
        with x xA show False by blast
      next
        case False
        then have "A (hi - 1) \<in> A ` {?k0 ..< hi}" using l by auto
        with f(11) x xA show False by blast
      qed
    qed
    then have "blocks q4 x = blocks q3 x" using q4(3) by metis
    with \<open>x \<noteq> a\<close> keep x show ?thesis by (simp add: q3(3))
  qed
  ultimately show ?thesis using q3(1) q4(1) by blast
qed

lemma allocated_change:
  assumes al: "allocated H T hi A xs U F p q" and "index_frame p p'" "blockIndex p' \<noteq> None" "bidx_inv (H div 32) hi A p'"
    "pool_inv (U \<union> A ` {(T + 31) div 32 ..< hi}) F' q'"
    and keep: "\<forall>x \<in> U \<union> A ` {(T + 31) div 32 ..< hi}. blocks q' x = blocks q x"
  shows "allocated H T hi A xs U F' p' q'"
proof -
  let ?k0 = "(T + 31) div 32"
  note f = allocated_facts [OF al]
  have same: "blocks q' (A k) = blocks q (A k)" if "H div 32 \<le> k" "k < hi" for k
  proof (cases "k < ?k0")
    case True
    with that f(12) have "A k \<in> U" by (simp add: image_subset_iff)
    with keep show ?thesis by simp
  next
    case False
    with that keep show ?thesis by simp
  qed
  have T: "H div 32 \<le> T div 32" "T mod 32 \<noteq> 0 \<Longrightarrow> T div 32 < hi"
    using f(3,6) by (auto simp: div_le_mono div_ceiling_32)
  have "\<forall>k \<in> {H div 32 ..< hi}. \<exists>b. blocks q' (A k) = Some b \<and> block_holds H T xs k b"
    using al same unfolding allocated_def Let_def by (metis atLeastLessThan_iff)
  moreover have "\<forall>k. ?k0 \<le> k \<and> k < hi \<longrightarrow> next_block (the (blocks q' (A k))) = (if Suc k < hi then Some (A (Suc k)) else None)"
    using al same f(13) unfolding allocated_def Let_def by (metis order_trans)
  moreover have "T mod 32 \<noteq> 0 \<and> ?k0 < hi \<longrightarrow> next_block (the (blocks q' (A (T div 32)))) = Some (A ?k0)"
    using al same [OF T(1)] T(2) unfolding allocated_def Let_def by metis
  ultimately show ?thesis
    using assms(2-5) f unfolding allocated_def Let_def index_frame_def by simp
qed

lemma words_left:
  assumes "0 < m" "m < 2 ^ 58"
  shows "of_nat (32 * m) - of_nat BLOCK_SIZE = (of_nat (32 * (m - 1)) :: size_t)"
    "(of_nat (32 * m) - of_nat BLOCK_SIZE :: size_t) > 0 \<longleftrightarrow> 1 < m"
proof -
  obtain k where k: "m = Suc k" using assms(1) by (cases m) auto
  then show e: "of_nat (32 * m) - of_nat BLOCK_SIZE = (of_nat (32 * (m - 1)) :: size_t)" by (simp add: BLOCK_SIZE_def)
  have "unat (of_nat (32 * (m - 1)) :: size_t) = 32 * (m - 1)"
    by (rule unat_of_nat_small) (use assms(2) in simp)
  then show "(of_nat (32 * m) - of_nat BLOCK_SIZE :: size_t) > 0 \<longleftrightarrow> 1 < m"
    unfolding e word_less_nat_alt by auto
qed

lemma link_block_mem: "link_block t f tb a q = Some q' \<Longrightarrow> mem q' = mem q"
  by (auto simp: link_block_def update_block_mem split: option.splits if_splits)

definition alloc_done ::
    "alloc_mode \<Rightarrow> nat \<Rightarrow> nat \<Rightarrow> nat \<Rightarrow> nat \<Rightarrow> (nat \<Rightarrow> addr) \<Rightarrow> 'a list \<Rightarrow> addr set \<Rightarrow> 'a pool \<Rightarrow>
     ((iproducer \<times> 'a pool) + (addr option \<times> addr option \<times> iproducer \<times> 'a pool)) \<Rightarrow> bool" where
  "alloc_done mode H T hi hi' A xs U q r \<longleftrightarrow>
     (case r of
        Inl (p', q') \<Rightarrow> (\<exists>A' F'. ip_inv H T A' xs p' q' \<and> (\<forall>k < hi. A' k = A k) \<and> pool_inv U F' q') \<and>
          (\<forall>x \<in> U - A ` live H T. blocks q' x = blocks q x) \<and>
          (mode = CannotAlloc \<or> mem q \<noteq> [] \<or> H + 2 ^ 63 \<le> hi' * 32)
      | Inr (f, e, p', q') \<Rightarrow> \<exists>A' F'. allocated H T hi' A' xs U F' p' q' \<and> (\<forall>k < hi. A' k = A k) \<and>
          f = Some (A' ((T + 31) div 32)) \<and> e = Some (A' (hi' - 1)) \<and> tailBlock p' = e \<and>
          (\<forall>x \<in> U - A ` live H T. blocks q' x = blocks q x) \<and> (mem q = [] \<longrightarrow> mem q' = []))"

lemma alloc_done_revert:
  assumes al: "allocated H T hi A xs U F p q" and sb: "T mod 32 \<noteq> 0 \<longrightarrow> sb = Some (A (T div 32))"
    and fuel: "hi - (T + 31) div 32 \<le> fuel" and refused: "mode = CannotAlloc \<or> mem q0 \<noteq> [] \<or> H + 2 ^ 63 \<le> hi' * 32"
    and keep: "\<forall>x \<in> U - A ` live H T. blocks q x = blocks q0 x"
  shows "\<exists>r. map_option Inl (revert_bulk fuel (of_nat T) sb
      (if (T + 31) div 32 < hi then Some (A ((T + 31) div 32)) else None) p q) = Some r \<and> alloc_done mode H T hi hi' A xs U q0 r"
proof -
  from revert_bulk_spec [OF al sb fuel] obtain p' q' F' where
    r: "revert_bulk fuel (of_nat T) sb (if (T + 31) div 32 < hi then Some (A ((T + 31) div 32)) else None) p q = Some (p', q')"
      "ip_inv H T A xs p' q'" "pool_inv U F' q'" "\<forall>a \<in> U. blocks q' a = blocks q a" by blast
  then have "alloc_done mode H T hi hi' A xs U q0 (Inl (p', q'))"
    using refused keep unfolding alloc_done_def sum.case prod.case
    by (intro conjI exI [of _ A] exI [of _ F']) auto
  with r(1) show ?thesis by simp
qed

text \<open>What \<open>alloc_done\<close> says after one more block carries over.\<close>

lemma alloc_done_step:
  assumes "alloc_done mode H T (Suc hi) hi' (A(hi := a)) xs U q4 r" "(T + 31) div 32 \<le> hi"
    "\<forall>x \<in> U - A ` live H T. blocks q4 x = blocks q x" "mem q = [] \<longrightarrow> mem q4 = []"
  shows "alloc_done mode H T hi hi' A xs U q r"
proof -
  have img: "A(hi := a) ` live H T = A ` live H T" using assms(2) by (auto simp: live_def)
  have A: "\<forall>k < hi. A' k = A k" if "\<forall>k < Suc hi. A' k = (A(hi := a)) k" for A'
    using that by (auto simp: less_Suc_eq)
  show ?thesis
  proof (cases r)
    case (Inl s)
    obtain p' q' where s: "s = (p', q')" by force
    from assms(1) obtain A' F' where "ip_inv H T A' xs p' q'" "\<forall>k < Suc hi. A' k = (A(hi := a)) k" "pool_inv U F' q'"
      unfolding alloc_done_def Inl s sum.case prod.case by blast
    with A have "\<exists>A' F'. ip_inv H T A' xs p' q' \<and> (\<forall>k < hi. A' k = A k) \<and> pool_inv U F' q'" by blast
    moreover note c = assms(1) [unfolded alloc_done_def Inl s sum.case prod.case img, THEN conjunct2]
    note c [THEN conjunct1] c [THEN conjunct2]
    ultimately show ?thesis unfolding alloc_done_def Inl s sum.case prod.case using assms(3,4) by simp
  next
    case (Inr s)
    obtain f e p' q' where s: "s = (f, e, p', q')" by (metis prod_cases4)
    from assms(1) obtain A' F' where d: "allocated H T hi' A' xs U F' p' q'" "\<forall>k < Suc hi. A' k = (A(hi := a)) k"
        "f = Some (A' ((T + 31) div 32))" "e = Some (A' (hi' - 1))" "tailBlock p' = e"
      "\<forall>x \<in> U - A ` live H T. blocks q' x = blocks q4 x" "mem q4 = [] \<longrightarrow> mem q' = []"
      unfolding alloc_done_def Inr s sum.case prod.case img by blast
    show ?thesis unfolding alloc_done_def Inr s sum.case prod.case
      by (intro exI [of _ A'] exI [of _ F'] conjI) (use d A [OF d(2)] assms(3,4) in simp_all)
  qed
qed

lemma alloc_blocks_spec:
  assumes "allocated H T hi A xs U F p q"
    "T mod 32 \<noteq> 0 \<or> (T + 31) div 32 < hi \<longrightarrow> tailBlock p = Some (A (hi - 1))"
    "T mod 32 \<noteq> 0 \<longrightarrow> sb = Some (A (T div 32))" "0 < m" "m < 2 ^ 58" "hi + m - (T + 31) div 32 \<le> fuel"
  shows "\<exists>r. alloc_blocks mode fuel (of_nat T) sb (of_nat (32 * m)) (of_nat (32 * hi) - 32)
      (if (T + 31) div 32 < hi then Some (A ((T + 31) div 32)) else None) p q = Some r \<and>
    alloc_done mode H T hi (hi + m) A xs U q r"
  using assms
proof (induction m arbitrary: hi A F p q)
  case (Suc m)
  let ?k0 = "(T + 31) div 32" and ?first = "if (T + 31) div 32 < hi then Some (A ((T + 31) div 32)) else None"
  note al = Suc.prems(1) and f = allocated_facts [OF Suc.prems(1)] and b = allocated_bounds [OF Suc.prems(1)]
  have fuel: "hi - ?k0 \<le> fuel" using Suc.prems(6) by simp
  have cur: "of_nat (32 * hi) - 32 + of_nat BLOCK_SIZE = (of_nat (32 * hi) :: index_t)" by (simp add: BLOCK_SIZE_def)
  note left = words_left [OF Suc.prems(4,5)]
  have more: "(0 :: size_t) < of_nat (32 * (Suc m - 1)) \<longleftrightarrow> 1 < Suc m" using left by metis
  have hiT: "T \<le> 32 * hi" using f(6) by presburger
  have full: "subqueue_full (of_nat (32 * hi)) (headIndex p) \<longleftrightarrow> H + 2 ^ 63 \<le> 32 * hi + 32"
    unfolding f(1) by (rule subqueue_full_iff) (use b(3) f(5) hiT in linarith)+
  obtain r1 p1 q1 where ins: "insert_block_index_entry mode (of_nat (32 * hi)) p q = (r1, p1, q1)" by (metis prod_cases3)
  note spec = insert_block_index_entry_spec [OF f(9) b(2) ins]
  then have fr: "index_frame p p1" and om: "only_mem q q1" by simp_all
  note bl1 = only_mem_blocks [OF om]
  have pool1: "pool_inv (U \<union> A ` {?k0 ..< hi}) F q1" using f(10) by (simp add: pool_inv_mem [OF om])
  note unfolded = alloc_blocks.simps [of mode fuel "of_nat T" sb "of_nat (32 * Suc m)" "of_nat (32 * hi) - 32" ?first p q,
      unfolded Let_def cur ins prod.case]
  show ?case
  proof (cases "H + 2 ^ 63 \<le> 32 * hi + 32")
    case True
    then have "H + 2 ^ 63 \<le> (hi + Suc m) * 32" by simp
    then have "\<exists>r. map_option Inl (revert_bulk fuel (of_nat T) sb ?first p q) = Some r \<and>
        alloc_done mode H T hi (hi + Suc m) A xs U q r"
      by (intro alloc_done_revert [OF al Suc.prems(3) fuel]) simp_all
    then show ?thesis unfolding unfolded full using True by (simp only: if_True simp_thms)
  next
    case room: False
    show ?thesis
    proof (cases r1)
      case None
      with spec have r: "p1 = p" "mode = CannotAlloc \<or> mem q \<noteq> []" by auto
      have "allocated H T hi A xs U F p1 q1"
        by (rule allocated_change [OF al fr _ _ pool1]) (simp_all add: r f(8,9) bl1)
      then have "\<exists>r. map_option Inl (revert_bulk fuel (of_nat T) sb ?first p1 q1) = Some r \<and>
          alloc_done mode H T hi (hi + Suc m) A xs U q r"
        by (rule alloc_done_revert [where A = A and T = T, OF _ Suc.prems(3) fuel]) (use r(2) in \<open>auto simp: bl1\<close>)
      then show ?thesis unfolding unfolded full None using room by simp
    next
      case ent: (Some e)
      with spec have insd: "inserted (H div 32) hi A e p1" by simp
      from requisition_block_spec [OF pool1, of mode] obtain r2 q2 F2 where
        req: "requisition_block mode q1 = Some (r2, q2)" "\<forall>x \<in> U \<union> A ` {?k0 ..< hi}. blocks q2 x = blocks q1 x"
          "case r2 of None \<Rightarrow> pool_inv (U \<union> A ` {?k0 ..< hi}) F2 q2 \<and> (mode = CannotAlloc \<or> mem q1 \<noteq> [])
           | Some a \<Rightarrow> a \<notin> U \<union> A ` {?k0 ..< hi} \<and> pool_inv (insert a (U \<union> A ` {?k0 ..< hi})) F2 q2"
        by blast
      have nomem: "mem q1 = []" if "mem q = []" by (rule insert_mem_nil [OF ins that])
      show ?thesis
      proof (cases r2)
        case None
        let ?p = "set_value e Null (rewind_block_index_tail p1)"
        have "bidx_inv (H div 32) hi A ?p" using insd by (simp add: inserted_def)
        moreover from this have "blockIndex ?p \<noteq> None" by (auto simp: bidx_inv_def table_inv_def)
        moreover have "index_frame p ?p"
          using fr by (simp add: index_frame_def set_value_def rewind_block_index_tail_def)
        moreover have "pool_inv (U \<union> A ` {?k0 ..< hi}) F2 q2" using req(3) None by simp
        ultimately have "allocated H T hi A xs U F2 ?p q2"
          using allocated_change [OF al, of ?p F2 q2] req(2) by (simp add: bl1)
        then have "\<exists>r. map_option Inl (revert_bulk fuel (of_nat T) sb ?first ?p q2) = Some r \<and>
            alloc_done mode H T hi (hi + Suc m) A xs U q r"
          by (rule alloc_done_revert [where A = A and T = T, OF _ Suc.prems(3) fuel]) (use req None nomem in \<open>auto simp: bl1\<close>)
        then show ?thesis unfolding unfolded full ent option.case req(1) None prod.case using room by simp
      next
        case blk: (Some a)
        with req(3) have a: "a \<notin> U \<union> A ` {?k0 ..< hi}" "pool_inv (insert a (U \<union> A ` {?k0 ..< hi})) F2 q2" by simp_all
        let ?p = "(set_value e (Ptr a) p1)\<lparr>tailBlock := Some a\<rparr>" and ?A = "A(hi := a)"
        have idx: "bidx_inv (H div 32) (Suc hi) ?A ?p"
          using insd by (auto simp: inserted_def intro: bidx_inv_cong [where p = "set_value e (Ptr a) p1"])
        have tb: "T mod 32 \<noteq> 0 \<or> ?k0 < hi \<longrightarrow> tailBlock p1 = Some (A (hi - 1))"
          using Suc.prems(2) fr by (simp add: index_frame_def)
        have "\<exists>q3 q4. update_block a fresh_block q2 = Some q3 \<and>
          link_block (of_nat T) ?first (tailBlock p1) a q3 = Some q4 \<and>
          allocated H T (Suc hi) ?A xs U F2 ?p q4 \<and> (\<forall>x \<in> U - A ` live H T. blocks q4 x = blocks q x)"
        proof (rule allocated_step [OF al tb a])
          show "\<forall>x \<in> U \<union> A ` {?k0 ..< hi}. blocks q2 x = blocks q x" using req(2) by (simp add: bl1)
          show "blockIndex ?p \<noteq> None" using idx by (auto simp: bidx_inv_def table_inv_def)
          show "Suc hi * 32 < H + 2 ^ 63" using room by simp
        qed (use idx fr in \<open>simp_all add: index_frame_def set_value_def\<close>)
        then obtain q3 q4 where s: "update_block a fresh_block q2 = Some q3"
          "link_block (of_nat T) ?first (tailBlock p1) a q3 = Some q4"
          "allocated H T (Suc hi) ?A xs U F2 ?p q4" "\<forall>x \<in> U - A ` live H T. blocks q4 x = blocks q x" by blast
        have mem4: "mem q4 = []" if "mem q = []"
          using link_block_mem [OF s(2)] update_block_mem [OF s(1)] mem_requisition [OF req(1) nomem [OF that]] by simp
        have first: "(if ?first = None then Some a else ?first) =
            (if ?k0 < Suc hi then Some (?A ?k0) else None)" using f(6) by auto
        have A0: "?A k = A k" if "k < hi" for k using that by simp
        show ?thesis
        proof (cases "0 < m")
          case True
          have eq: "of_nat (32 * Suc hi) - 32 = (of_nat (32 * hi) :: index_t)" by simp
          have "\<exists>r. alloc_blocks mode fuel (of_nat T) sb (of_nat (32 * m)) (of_nat (32 * Suc hi) - 32)
              (if ?k0 < Suc hi then Some (?A ?k0) else None) ?p q4 = Some r \<and>
            alloc_done mode H T (Suc hi) (Suc hi + m) ?A xs U q4 r"
          proof (rule Suc.IH [OF s(3) _ _ True])
            show "T mod 32 \<noteq> 0 \<longrightarrow> sb = Some (?A (T div 32))"
              using Suc.prems(3) f(6) by (auto simp: div_ceiling_32)
          qed (use Suc.prems(5,6) in simp_all)
          then obtain r where r: "alloc_blocks mode fuel (of_nat T) sb (of_nat (32 * m)) (of_nat (32 * hi))
              (if ?k0 < Suc hi then Some (?A ?k0) else None) ?p q4 = Some r"
            "alloc_done mode H T (Suc hi) (hi + Suc m) ?A xs U q4 r" unfolding eq by auto
          have "alloc_blocks mode fuel (of_nat T) sb (of_nat (32 * Suc m)) (of_nat (32 * hi) - 32) ?first p q = Some r"
            unfolding unfolded full ent option.case req(1) blk prod.case s(1,2) left(1) more first
            using room True r(1) by simp
          moreover have "alloc_done mode H T hi (hi + Suc m) A xs U q r"
            by (rule alloc_done_step [OF r(2) f(6) s(4)]) (use mem4 in simp)
          ultimately show ?thesis by blast
        next
          case False
          have "alloc_blocks mode fuel (of_nat T) sb (of_nat (32 * Suc m)) (of_nat (32 * hi) - 32) ?first p q =
              Some (Inr (Some (?A ?k0), Some a, ?p, q4))"
            unfolding unfolded full ent option.case req(1) blk prod.case s(1,2) left(1) more first
            using room False f(6) by simp
          moreover have "alloc_done mode H T hi (hi + Suc m) A xs U q (Inr (Some (?A ?k0), Some a, ?p, q4))"
            unfolding alloc_done_def sum.case prod.case
            using s(3,4) mem4 False by (intro exI [of _ ?A] exI [of _ F2]) auto
          ultimately show ?thesis by blast
        qed
      qed
    qed
  qed
qed simp

section \<open>Filling the blocks\<close>

lemma write_slots_spec:
  assumes "block_holds H T xs (T div 32) b" "T = H + length xs" "length (elements b) = 32"
    "T mod 32 + j \<le> 32" "j \<le> length items"
  shows "\<exists>es. write_slots j (of_nat T) items b = Some (drop j items, b\<lparr>elements := es\<rparr>) \<and> length es = 32 \<and>
    block_holds H (T + j) (xs @ take j items) (T div 32) (b\<lparr>elements := es\<rparr>)"
  using assms
proof (induction j arbitrary: T xs b items)
  case 0
  then show ?case by (intro exI [of _ "elements b"]) simp
next
  case (Suc j)
  then obtain x items' where items: "items = x # items'" by (cases items) auto
  let ?es = "(elements b)[T mod 32 := Some x]"
  have w: "write_slot (of_nat T) (Some x) b = b\<lparr>elements := ?es\<rparr>" by (simp add: write_slot_def block_offset_of_nat)
  have "wf_block (b\<lparr>emptyFlags := replicate 32 False\<rparr>)" using Suc.prems(3) by (simp add: wf_block_def)
  have held: "block_holds H (Suc T) (xs @ [x]) (T div 32) (b\<lparr>elements := ?es\<rparr>)"
  proof -
    have "block_holds H T xs (T div 32) (b\<lparr>emptyFlags := replicate 32 False\<rparr>)" "wf_block (b\<lparr>emptyFlags := replicate 32 False\<rparr>)"
      using Suc.prems(1,3) by (simp_all add: block_holds_def wf_block_def)
    from block_holds_publish(1) [OF this(1) Suc.prems(2) this(2) refl, of x]
    show ?thesis by (simp add: block_holds_def write_slot_def block_offset_of_nat)
  qed
  show ?case
  proof (cases "T mod 32 = 31")
    case True
    then have "j = 0" using Suc.prems(4) by simp
    with held w Suc.prems(3) show ?thesis by (intro exI [of _ ?es]) (simp add: items)
  next
    case False
    then have S: "Suc T div 32 = T div 32" "Suc T mod 32 = Suc (T mod 32)" by (simp_all add: div_Suc mod_Suc)
    have "\<exists>es. write_slots j (of_nat (Suc T)) items' (b\<lparr>elements := ?es\<rparr>) =
        Some (drop j items', b\<lparr>elements := ?es\<rparr>\<lparr>elements := es\<rparr>) \<and> length es = 32 \<and>
      block_holds H (Suc T + j) ((xs @ [x]) @ take j items') (Suc T div 32) (b\<lparr>elements := ?es\<rparr>\<lparr>elements := es\<rparr>)"
      by (rule Suc.IH) (use held Suc.prems S in \<open>simp_all add: items\<close>)
    then show ?thesis by (auto simp: items w S(1) add.commute [of 1])
  qed
qed

lemma block_holds_other:
  assumes "block_holds H T xs k b" "T = H + length xs" "k \<noteq> T div 32" "T mod 32 + j \<le> 32" "length ys = j"
  shows "block_holds H (T + j) (xs @ ys) k b"
proof -
  have "i < T" if "i < T + j" "i div 32 = k" for i
  proof (rule ccontr)
    assume "\<not> i < T"
    then have "T div 32 \<le> i div 32" by (simp add: div_le_mono)
    moreover have "i < T div 32 * 32 + 32" using that(1) assms(4) div_mult_mod_eq [of T 32] by linarith
    then have "i < (T div 32 + 1) * 32" by simp
    then have "i div 32 < T div 32 + 1" by (rule less_mult_imp_div_less)
    ultimately show False using that(2) assms(3) by simp
  qed
  note below = this
  have "elements b ! (i mod 32) = Some ((xs @ ys) ! (i - H))" if "H \<le> i" "i < T + j" "i div 32 = k" for i
  proof -
    have "i < T" by (rule below [OF that(2,3)])
    then have "i - H < length xs" using assms(2) that(1) by linarith
    with \<open>i < T\<close> assms(1) that show ?thesis by (simp add: block_holds_def nth_append)
  qed
  with assms(1) show ?thesis by (simp add: block_holds_def)
qed

lemma enqueue_blocks_spec:
  assumes "\<forall>k \<in> {H div 32 ..< hi}. \<exists>b. blocks q (A k) = Some b \<and> block_holds H T xs k b" "T = H + length xs"
    "items \<noteq> []" "hi = (T + length items + 31) div 32" "length items < 2 ^ 63" "tailBlock p = Some (A (T div 32))"
    "\<forall>k. T div 32 \<le> k \<and> Suc k < hi \<longrightarrow> next_block (the (blocks q (A k))) = Some (A (Suc k))"
    "inj_on A {H div 32 ..< hi}" "pool_inv V F q" "A ` {H div 32 ..< hi} \<subseteq> V"
  shows "\<exists>q'. enqueue_blocks (of_nat (T + length items)) (Some (A (hi - 1))) (of_nat T) items p q =
      Some (p\<lparr>tailBlock := Some (A (hi - 1))\<rparr>, q') \<and>
    (\<forall>k \<in> {H div 32 ..< hi}. \<exists>b. blocks q' (A k) = Some b \<and> block_holds H (T + length items) (xs @ items) k b) \<and>
    pool_inv V F q' \<and> (\<forall>x. x \<notin> A ` {H div 32 ..< hi} \<longrightarrow> blocks q' x = blocks q x) \<and> mem q' = mem q"
  using assms
proof (induction "length items" arbitrary: items T xs p q rule: less_induct)
  case less
  note pr = less.prems
  let ?k = "T div 32"
  define j where "j = min (length items) (32 - T mod 32)"
  have j: "0 < j" "j \<le> length items" "T mod 32 + j \<le> 32" "j < 2 ^ 63"
    using pr(3,5) mod_less_divisor [of 32 T] by (auto simp: j_def)
  note stop = chunk_end_of_nat [OF pr(5), of T, folded j_def]
  have dist: "unat (of_nat (T + j) - of_nat T :: index_t) = j" using j by (intro unat_distance) simp
  have k: "H div 32 \<le> ?k" "?k < hi"
  proof -
    show "H div 32 \<le> ?k" using pr(2) by (simp add: div_le_mono)
    have "?k * 32 + 32 \<le> T + length items + 31" using pr(3) div_mult_mod_eq [of T 32] by (cases items) auto
    then have "(?k * 32 + 32) div 32 \<le> hi" unfolding pr(4) by (rule div_le_mono)
    then show "?k < hi" by simp
  qed
  from pr(1) k obtain b where b: "blocks q (A ?k) = Some b" "block_holds H T xs ?k b" by (metis atLeastLessThan_iff)
  have Ak: "A ?k \<in> V" using pr(10) k by auto
  have wf: "length (elements b) = 32" using pr(9) b(1) by (auto simp: pool_inv_def wf_block_def)
  from write_slots_spec [OF b(2) pr(2) wf j(3,2)] obtain es where
    es: "write_slots j (of_nat T) items b = Some (drop j items, b\<lparr>elements := es\<rparr>)" "length es = 32"
      "block_holds H (T + j) (xs @ take j items) ?k (b\<lparr>elements := es\<rparr>)" by blast
  let ?q = "q\<lparr>blocks := (blocks q)(A ?k := Some (b\<lparr>elements := es\<rparr>))\<rparr>"
  have "update_block (A ?k) (\<lambda>b. b\<lparr>elements := es\<rparr>) q = Some ?q" by (simp add: update_block_def b(1))
  with pool_inv_update [OF pr(9) Ak, of "\<lambda>b. b\<lparr>elements := es\<rparr>"] es(2) have pool1: "pool_inv V F ?q"
    by (auto simp: wf_block_def)
  have fill: "fill_block (tailBlock p) (unat (of_nat (T + j) - of_nat T :: index_t)) (of_nat T) items q = Some (drop j items, ?q)"
    unfolding dist using j(1) by (simp add: fill_block_def pr(6) b(1) es(1))
  have other: "A k' \<noteq> A ?k" if "H div 32 \<le> k'" "k' < hi" "k' \<noteq> ?k" for k'
    using inj_onD [OF pr(8), of k' ?k] that k by auto
  have held: "\<forall>k \<in> {H div 32 ..< hi}. \<exists>b. blocks ?q (A k) = Some b \<and> block_holds H (T + j) (xs @ take j items) k b"
  proof
    fix k' assume k': "k' \<in> {H div 32 ..< hi}"
    show "\<exists>b. blocks ?q (A k') = Some b \<and> block_holds H (T + j) (xs @ take j items) k' b"
    proof (cases "k' = ?k")
      case True
      with es(3) show ?thesis by simp
    next
      case False
      from pr(1) k' obtain b' where b': "blocks q (A k') = Some b'" "block_holds H T xs k' b'" by blast
      with False k' other [of k'] block_holds_other [OF b'(2) pr(2) False j(3), of "take j items"] j(2)
      show ?thesis by auto
    qed
  qed
  note unfolded = enqueue_blocks.simps [of "of_nat (T + length items)" "Some (A (hi - 1))" "of_nat T" items p q,
      unfolded Let_def stop fill option.case prod.case]
  have last: "tailBlock p = Some (A (hi - 1)) \<longleftrightarrow> ?k = hi - 1"
    using pr(6) inj_onD [OF pr(8), of ?k "hi - 1"] k by auto
  show ?case
  proof (cases "j = length items")
    case True
    have "T + length items + 31 < ?k * 32 + 64" using j(3) True div_mult_mod_eq [of T 32] by linarith
    then have "T + length items + 31 < (?k + 2) * 32" by simp
    then have "hi < ?k + 2" unfolding pr(4) by (rule less_mult_imp_div_less)
    with k(2) have "?k = hi - 1" by simp
    then have fin: "tailBlock p = Some (A (hi - 1))" by (simp only: last)
    then have "p\<lparr>tailBlock := Some (A (hi - 1))\<rparr> = p" by (cases p) simp
    with fin unfolded have "enqueue_blocks (of_nat (T + length items)) (Some (A (hi - 1))) (of_nat T) items p q =
        Some (p\<lparr>tailBlock := Some (A (hi - 1))\<rparr>, ?q)" by simp
    with held True pool1 k show ?thesis by (intro exI [of _ ?q]) auto
  next
    case False
    then have full: "j = 32 - T mod 32" "j < length items" using j(2) by (auto simp: j_def min_def split: if_splits)
    have next_k: "(T + j) div 32 = Suc ?k"
    proof -
      have "T + j = ?k * 32 + 32" using full(1) div_mult_mod_eq [of T 32] mod_less_divisor [of 32 T] by linarith
      then show ?thesis by simp
    qed
    have "T mod 32 < 32" by simp
    then have "?k * 32 + 64 \<le> T + length items + 31"
      using full div_mult_mod_eq [of T 32] by linarith
    then have "(?k * 32 + 64) div 32 \<le> hi" unfolding pr(4) by (rule div_le_mono)
    then have k2: "Suc ?k < hi" by simp
    have nb: "next_block b = Some (A (Suc ?k))" using pr(7) k2 b(1) by (metis option.sel order_refl)
    let ?p = "p\<lparr>tailBlock := Some (A (Suc ?k))\<rparr>"
    have "\<exists>q'. enqueue_blocks (of_nat (T + j + length (drop j items))) (Some (A (hi - 1))) (of_nat (T + j)) (drop j items) ?p ?q =
        Some (?p\<lparr>tailBlock := Some (A (hi - 1))\<rparr>, q') \<and>
      (\<forall>k \<in> {H div 32 ..< hi}. \<exists>b. blocks q' (A k) = Some b \<and>
         block_holds H (T + j + length (drop j items)) ((xs @ take j items) @ drop j items) k b) \<and>
      pool_inv V F q' \<and> (\<forall>x. x \<notin> A ` {H div 32 ..< hi} \<longrightarrow> blocks q' x = blocks ?q x) \<and> mem q' = mem ?q"
    proof (rule less.hyps [OF _ held _ _ _ _ _ _ pr(8) pool1 pr(10)])
      show "\<forall>k. (T + j) div 32 \<le> k \<and> Suc k < hi \<longrightarrow> next_block (the (blocks ?q (A k))) = Some (A (Suc k))"
      proof (intro allI impI, elim conjE)
        fix k' assume k': "(T + j) div 32 \<le> k'" "Suc k' < hi"
        then have "A k' \<noteq> A ?k" using k by (intro other) (simp_all add: next_k)
        with pr(7) k' show "next_block (the (blocks ?q (A k'))) = Some (A (Suc k'))" by (simp add: next_k)
      qed
      have e: "T + j + length (drop j items) = T + length items" using j(2) by simp
      show "hi = (T + j + length (drop j items) + 31) div 32" unfolding e by (rule pr(4))
      show "length (drop j items) < length items" using j(1,2) by simp
      show "T + j = H + length (xs @ take j items)" using pr(2) j(2) by simp
      show "drop j items \<noteq> []" using full(2) by simp
      show "length (drop j items) < 2 ^ 63" using pr(5) by simp
      show "tailBlock ?p = Some (A ((T + j) div 32))" by (simp add: next_k)
    qed
    then obtain q' where q': "enqueue_blocks (of_nat (T + length items)) (Some (A (hi - 1))) (of_nat (T + j)) (drop j items) ?p ?q =
        Some (p\<lparr>tailBlock := Some (A (hi - 1))\<rparr>, q')"
      "\<forall>k \<in> {H div 32 ..< hi}. \<exists>b. blocks q' (A k) = Some b \<and> block_holds H (T + length items) (xs @ items) k b"
      "pool_inv V F q'" "\<forall>x. x \<notin> A ` {H div 32 ..< hi} \<longrightarrow> blocks q' x = blocks ?q x" "mem q' = mem q"
      using j(2) by auto
    have "tailBlock p \<noteq> Some (A (hi - 1))" using last k2 by simp
    with unfolded q'(1) have "enqueue_blocks (of_nat (T + length items)) (Some (A (hi - 1))) (of_nat T) items p q =
        Some (p\<lparr>tailBlock := Some (A (hi - 1))\<rparr>, q')"
      by (simp add: pr(6) nb)
    with q' k show ?thesis by (intro exI [of _ q']) auto
  qed
qed

section \<open>The contract of bulk enqueue\<close>

definition bulk_may_refuse :: "alloc_mode \<Rightarrow> nat \<Rightarrow> nat \<Rightarrow> iproducer \<Rightarrow> 'a pool \<Rightarrow> bool" where
  "bulk_may_refuse m H T' p q \<longleftrightarrow>
     blockIndex p = None \<or> m = CannotAlloc \<or> mem q \<noteq> [] \<or> H + 2 ^ 63 \<le> (T' + 31) div 32 * 32"

definition bulk_enqueued ::
    "alloc_mode \<Rightarrow> 'a list \<Rightarrow> nat \<Rightarrow> nat \<Rightarrow> (nat \<Rightarrow> addr) \<Rightarrow> 'a list \<Rightarrow> addr set \<Rightarrow> iproducer \<Rightarrow> 'a pool \<Rightarrow>
     bool \<times> iproducer \<times> 'a pool \<Rightarrow> bool" where
  "bulk_enqueued m items H T A xs U p q r \<longleftrightarrow> (case r of (ok, p', q') \<Rightarrow>
     (if ok then \<exists>A' F'. ip_inv H (T + length items) A' (xs @ items) p' q' \<and>
           A' ` live H (T + length items) \<inter> (U - A ` live H T) = {} \<and>
           pool_inv (reown U (A ` live H T) (A' ` live H (T + length items))) F' q' \<and> (mem q = [] \<longrightarrow> mem q' = [])
      else ip_inv H T A xs p' q' \<and> (\<exists>F'. pool_inv U F' q') \<and> bulk_may_refuse m H (T + length items) p q) \<and>
     (\<forall>a \<in> U - A ` live H T. blocks q' a = blocks q a))"

text \<open>Filling, once all blocks are there.\<close>

lemma bulk_fill:
  assumes al: "allocated H T hi A' xs U F p1 q1" and n: "items \<noteq> []" "length items < 2 ^ 63" "hi = (T + length items + 31) div 32"
    and A: "\<forall>k < (T + 31) div 32. A' k = A k" and keep: "\<forall>x \<in> U - A ` live H T. blocks q1 x = blocks q x"
    and tb: "tb = Some (A' (T div 32))"
  shows "\<exists>p' q'. map_option (\<lambda>(p2, q2). (True, p2\<lparr>tailIndex := of_nat (T + length items)\<rparr>, q2))
      (enqueue_blocks (of_nat (T + length items)) (Some (A' (hi - 1))) (of_nat T) items (p1\<lparr>tailBlock := tb\<rparr>) q1) = Some (True, p', q') \<and>
    ip_inv H (T + length items) A' (xs @ items) p' q' \<and> A' ` live H (T + length items) \<inter> (U - A ` live H T) = {} \<and>
    pool_inv (reown U (A ` live H T) (A' ` live H (T + length items))) F q' \<and>
    (\<forall>a \<in> U - A ` live H T. blocks q' a = blocks q a) \<and> mem q' = mem q1"
proof -
  let ?k0 = "(T + 31) div 32" and ?V = "U \<union> A' ` {(T + 31) div 32 ..< hi}"
  note f = allocated_facts [OF al]
  have HT: "H div 32 \<le> T div 32" using f(3) by (simp add: div_le_mono)
  have lv: "live H (T + length items) = {H div 32 ..< hi}" by (simp add: live_def n(3))
  have old: "A' ` {H div 32 ..< ?k0} = A ` live H T" unfolding live_def using A by (intro image_cong) auto
  have split: "{H div 32 ..< hi} = {H div 32 ..< ?k0} \<union> {?k0 ..< hi}" using f(6,13) by auto
  have all: "A' ` {H div 32 ..< hi} = A ` live H T \<union> A' ` {?k0 ..< hi}" by (simp only: split image_Un old)
  have "A ` live H T \<subseteq> U" using f(12) by (simp only: old)
  then have own: "A' ` {H div 32 ..< hi} \<subseteq> ?V" unfolding all by auto
  have chain: "\<forall>k. T div 32 \<le> k \<and> Suc k < hi \<longrightarrow> next_block (the (blocks q1 (A' k))) = Some (A' (Suc k))"
  proof (intro allI impI, elim conjE)
    fix k assume k: "T div 32 \<le> k" "Suc k < hi"
    show "next_block (the (blocks q1 (A' k))) = Some (A' (Suc k))"
    proof (cases "?k0 \<le> k")
      case True
      with al k(2) show ?thesis unfolding allocated_def Let_def by simp
    next
      case False
      with k(1) have "T mod 32 \<noteq> 0" "k = T div 32" "Suc k = ?k0" by (auto simp: div_ceiling_32 split: if_splits)
      moreover have "T mod 32 \<noteq> 0 \<and> ?k0 < hi \<longrightarrow> next_block (the (blocks q1 (A' (T div 32)))) = Some (A' ?k0)"
        using al unfolding allocated_def Let_def by (elim conjE)
      ultimately show ?thesis using k(2) by metis
    qed
  qed
  have held: "\<forall>k \<in> {H div 32 ..< hi}. \<exists>b. blocks q1 (A' k) = Some b \<and> block_holds H T xs k b"
    using al unfolding allocated_def Let_def by (elim conjE)
  have tb1: "tailBlock (p1\<lparr>tailBlock := tb\<rparr>) = Some (A' (T div 32))" by (simp add: tb)
  from enqueue_blocks_spec [OF held f(3) n(1,3,2) tb1 chain f(7,10) own] obtain q' where
    e: "enqueue_blocks (of_nat (T + length items)) (Some (A' (hi - 1))) (of_nat T) items (p1\<lparr>tailBlock := tb\<rparr>) q1 =
        Some (p1\<lparr>tailBlock := Some (A' (hi - 1))\<rparr>, q')"
      "\<forall>k \<in> {H div 32 ..< hi}. \<exists>b. blocks q' (A' k) = Some b \<and> block_holds H (T + length items) (xs @ items) k b"
      "pool_inv ?V F q'" "\<forall>x. x \<notin> A' ` {H div 32 ..< hi} \<longrightarrow> blocks q' x = blocks q1 x" "mem q' = mem q1"
    by auto
  let ?p = "p1\<lparr>tailBlock := Some (A' (hi - 1)), tailIndex := of_nat (T + length items)\<rparr>"
  have "ip_inv H (T + length items) A' (xs @ items) ?p q'"
    unfolding ip_inv_def lv n(3) [symmetric]
  proof (intro conjI)
    show "(T + length items) mod 32 \<noteq> 0 \<longrightarrow> tailBlock ?p = Some (A' ((T + length items) div 32))"
      by (simp add: n(3) div_ceiling_32)
    show "if blockIndex ?p = None then H = 0 \<and> T + length items = 0 else bidx_inv (H div 32) hi A' ?p"
      using f(8,9) by (auto intro: bidx_inv_cong)
  qed (use f e(2) in simp_all)
  moreover have "reown U (A ` live H T) (A' ` {H div 32 ..< hi}) = ?V"
    unfolding all using \<open>A ` live H T \<subseteq> U\<close> by (auto simp: reown_def)
  moreover have "A' ` {H div 32 ..< hi} \<inter> (U - A ` live H T) = {}" unfolding all using f(11) by auto
  moreover have "blocks q' a = blocks q a" if "a \<in> U - A ` live H T" for a
  proof -
    have "a \<notin> A' ` {H div 32 ..< hi}" unfolding all using that f(11) by blast
    with e(4) keep that show ?thesis by simp
  qed
  ultimately show ?thesis
    using e(1,3,5) by (intro exI [of _ ?p] exI [of _ q']) (auto simp: lv)
qed

lemma revert_nothing: "revert_bulk fuel t sb None p q = Some (p\<lparr>tailBlock := sb\<rparr>, q)"
  by (simp add: revert_bulk_def)

lemma ip_enqueue_bulk_spec:
  assumes inv: "ip_inv H T A xs p q" and pool: "pool_inv U F q" and own: "A ` live H T \<subseteq> U"
    and n: "length items < 2 ^ 62"
  shows "\<exists>r. ip_enqueue_bulk m items p q = Some r \<and> bulk_enqueued m items H T A xs U p q r"
proof -
  let ?n = "length items" and ?k0 = "(T + 31) div 32"
  define hi where "hi = (T + ?n + 31) div 32"
  define mm where "mm = hi - ?k0"
  note b = ip_bounds [OF inv]
  have fields: "tailIndex p = of_nat T" using inv by (simp add: ip_inv_def)
  have hi: "?k0 \<le> hi" "hi = ?k0 + mm"
  proof -
    show "?k0 \<le> hi" unfolding hi_def by (rule div_le_mono) simp
    then show "hi = ?k0 + mm" by (simp add: mm_def)
  qed
  have "T + ?n + 31 = (T + 31) + ?n" by (simp only: add.assoc add.commute [of 31])
  then have "hi = (T + 31 + ?n) div 32" by (simp only: hi_def)
  then have "hi = ?k0 + ?n div 32 + ((T + 31) mod 32 + ?n mod 32) div 32" by (rule trans) (rule div_add1_eq)
  moreover have "(T + 31) mod 32 < 32" "?n mod 32 < 32" by simp_all
  then have "(T + 31) mod 32 + ?n mod 32 < 2 * 32" by linarith
  then have "((T + 31) mod 32 + ?n mod 32) div 32 < 2" by (rule less_mult_imp_div_less)
  ultimately have "hi \<le> ?k0 + ?n div 32 + 1" by linarith
  then have mm: "mm < 2 ^ 58" using n by (simp add: mm_def)
  have base: "block_base (of_nat T + of_nat ?n - 1) = of_nat (32 * hi) - 32"
    using base_before [of "T + ?n"] by (simp add: hi_def)
  have diff: "block_base (of_nat T + of_nat ?n - 1) - block_base (of_nat T - 1) = of_nat (32 * mm)"
    unfolding base base_before [of T] by (simp add: hi(2) algebra_simps)
  have um: "unat (of_nat (32 * mm) :: size_t) = 32 * mm" by (rule unat_of_nat_small) (use mm in simp)
  then have pos: "(0 :: size_t) < of_nat (32 * mm) \<longleftrightarrow> 0 < mm" unfolding word_less_nat_alt by auto
  have fuel: "unat (of_nat (32 * mm) :: size_t) div BLOCK_SIZE = mm" unfolding um by (simp add: BLOCK_SIZE_def)
  note unfolded = ip_enqueue_bulk_def [of m items p q, unfolded Let_def fields, unfolded diff,
      unfolded pos fuel base_before [of T]]
  have tadd: "of_nat T + of_nat ?n = (of_nat (T + ?n) :: index_t)" by simp
  show ?thesis
  proof (cases "items = []")
    case True
    then have "mm = 0" by (simp add: mm_def hi_def)
    have "enqueue_blocks (of_nat T) (tailBlock p) (of_nat T) [] p q = Some (p, q)"
      using chunk_end_of_nat [of 0 T] by (subst enqueue_blocks.simps) (simp add: Let_def fill_block_def)
    moreover have "p\<lparr>tailBlock := tailBlock p\<rparr> = p" "p\<lparr>tailIndex := of_nat T\<rparr> = p" using fields by (cases p, simp)+
    ultimately have "ip_enqueue_bulk m items p q = Some (True, p, q)"
      unfolding unfolded using True \<open>mm = 0\<close> by simp
    moreover have "bulk_enqueued m items H T A xs U p q (True, p, q)"
    proof -
      have "reown U (A ` live H T) (A ` live H T) = U" using own by (auto simp: reown_def)
      with inv pool True show ?thesis unfolding bulk_enqueued_def by (auto intro!: exI [of _ A] exI [of _ F])
    qed
    ultimately show ?thesis by blast
  next
    case items: False
    have n63: "?n < 2 ^ 63" using n by simp
    show ?thesis
    proof (cases "0 < mm")
      case False
      then have mm0: "mm = 0" "hi = ?k0" using hi(2) by simp_all
      have T: "T mod 32 \<noteq> 0"
      proof
        assume "T mod 32 = 0"
        then have "?k0 = T div 32" by (simp add: div_ceiling_32)
        moreover have "T div 32 < hi" unfolding hi_def using items by (cases items) (auto simp: less_eq_div_iff_mult_less_eq Suc_le_eq [symmetric])
        ultimately show False using mm0 by simp
      qed
      then have tb: "tailBlock p = Some (A (T div 32))" "blockIndex p \<noteq> None"
        using inv by (auto simp: ip_inv_def split: if_splits)
      have last: "hi - 1 = T div 32" using T mm0(2) by (simp add: div_ceiling_32)
      have al: "allocated H T hi A xs U F p q" unfolding mm0(2) by (rule allocated_start [OF inv pool own tb(2)])
      have "\<forall>k < ?k0. A k = A k" "\<forall>x \<in> U - A ` live H T. blocks q x = blocks q x" by simp_all
      from bulk_fill [OF al items n63 hi_def this tb(1)] obtain p' q' where
        r: "map_option (\<lambda>(p2, q2). (True, p2\<lparr>tailIndex := of_nat (T + ?n)\<rparr>, q2))
            (enqueue_blocks (of_nat (T + ?n)) (Some (A (hi - 1))) (of_nat T) items (p\<lparr>tailBlock := tailBlock p\<rparr>) q) = Some (True, p', q')"
          "ip_inv H (T + ?n) A (xs @ items) p' q'" "A ` live H (T + ?n) \<inter> (U - A ` live H T) = {}"
          "pool_inv (reown U (A ` live H T) (A ` live H (T + ?n))) F q'"
          "\<forall>a \<in> U - A ` live H T. blocks q' a = blocks q a" "mem q' = mem q" by blast
      have "ip_enqueue_bulk m items p q = Some (True, p', q')"
        unfolding unfolded tadd using r(1) [unfolded last] False by (simp add: tb(1))
      with r(2-6) show ?thesis
        by (intro exI [of _ "(True, p', q')"]) (auto simp: bulk_enqueued_def)
    next
      case True
      show ?thesis
      proof (cases "blockIndex p")
        case None
        then have ins: "insert_block_index_entry m i p q = (None, p, q)" for i by (simp add: insert_block_index_entry_def)
        have "p\<lparr>tailBlock := tailBlock p\<rparr> = p" by (cases p) simp
        then have "alloc_blocks m mm (of_nat T) (tailBlock p) (of_nat (32 * mm)) (of_nat (32 * ?k0) - 32) None p q = Some (Inl (p, q))"
          by (subst alloc_blocks.simps) (simp add: Let_def ins revert_nothing)
        then have "ip_enqueue_bulk m items p q = Some (False, p, q)" unfolding unfolded using True by simp
        with inv pool None show ?thesis
          by (intro exI [of _ "(False, p, q)"]) (auto simp: bulk_enqueued_def bulk_may_refuse_def)
      next
        case (Some h)
        have al: "allocated H T ?k0 A xs U F p q" by (rule allocated_start [OF inv pool own]) (simp add: Some)
        have tb: "T mod 32 \<noteq> 0 \<longrightarrow> tailBlock p = Some (A (T div 32))" using inv by (simp add: ip_inv_def)
        have k1: "T mod 32 \<noteq> 0 \<Longrightarrow> ?k0 - 1 = T div 32" "T mod 32 \<noteq> 0 \<Longrightarrow> T div 32 < ?k0" by (simp_all add: div_ceiling_32)
        have "\<exists>r. alloc_blocks m mm (of_nat T) (tailBlock p) (of_nat (32 * mm)) (of_nat (32 * ?k0) - 32)
              (if ?k0 < ?k0 then Some (A ?k0) else None) p q = Some r \<and> alloc_done m H T ?k0 (?k0 + mm) A xs U q r"
          by (rule alloc_blocks_spec [OF al _ tb True mm]) (use tb k1 in auto)
        then obtain r where r: "alloc_blocks m mm (of_nat T) (tailBlock p) (of_nat (32 * mm)) (of_nat (32 * ?k0) - 32) None p q = Some r"
          "alloc_done m H T ?k0 hi A xs U q r" by (auto simp: hi(2) [symmetric])
        show ?thesis
        proof (cases r)
          case (Inl s)
          obtain p1 q1 where s: "s = (p1, q1)" by force
          from r(2) obtain A' F' where d: "ip_inv H T A' xs p1 q1" "\<forall>k < ?k0. A' k = A k" "pool_inv U F' q1"
            unfolding alloc_done_def Inl s sum.case prod.case by blast
          note c = r(2) [unfolded alloc_done_def Inl s sum.case prod.case, THEN conjunct2]
          have "ip_inv H T A xs p1 q1" by (rule ip_inv_blocks [OF d(1)]) (use d(2) in \<open>simp add: live_def\<close>)
          moreover have "ip_enqueue_bulk m items p q = Some (False, p1, q1)"
            unfolding unfolded using True r(1) Inl s by simp
          moreover have "bulk_may_refuse m H (T + ?n) p q"
            using c [THEN conjunct2] unfolding bulk_may_refuse_def hi_def [symmetric] by blast
          ultimately show ?thesis
            using d(3) c [THEN conjunct1] by (intro exI [of _ "(False, p1, q1)"]) (auto simp: bulk_enqueued_def)
        next
          case (Inr s)
          obtain f e p1 q1 where s: "s = (f, e, p1, q1)" by (metis prod_cases4)
          from r(2) obtain A' F' where d: "allocated H T hi A' xs U F' p1 q1" "\<forall>k < ?k0. A' k = A k"
              "f = Some (A' ?k0)" "e = Some (A' (hi - 1))" "\<forall>x \<in> U - A ` live H T. blocks q1 x = blocks q x"
              "mem q = [] \<longrightarrow> mem q1 = []"
            unfolding alloc_done_def Inr s sum.case prod.case by blast
          define tb1 where "tb1 = (if block_offset (of_nat T) = 0 \<and> f \<noteq> None then f else tailBlock p)"
          have "tb1 = Some (A' (T div 32))"
            unfolding tb1_def block_offset_of_nat using d(2,3) tb k1(2) by (auto simp: div_ceiling_32)
          from bulk_fill [OF d(1) items n63 hi_def d(2,5) this] obtain p' q' where
            w: "map_option (\<lambda>(p2, q2). (True, p2\<lparr>tailIndex := of_nat (T + ?n)\<rparr>, q2))
                (enqueue_blocks (of_nat (T + ?n)) (Some (A' (hi - 1))) (of_nat T) items (p1\<lparr>tailBlock := tb1\<rparr>) q1) = Some (True, p', q')"
              "ip_inv H (T + ?n) A' (xs @ items) p' q'" "A' ` live H (T + ?n) \<inter> (U - A ` live H T) = {}"
              "pool_inv (reown U (A ` live H T) (A' ` live H (T + ?n))) F' q'"
              "\<forall>a \<in> U - A ` live H T. blocks q' a = blocks q a" "mem q' = mem q1" by blast
          have "ip_enqueue_bulk m items p q = Some (True, p', q')"
            unfolding unfolded tadd using True r(1) w(1) [unfolded tb1_def] by (simp add: Inr s d(4))
          with w(2-6) d(6) show ?thesis
            by (intro exI [of _ "(True, p', q')"]) (auto simp: bulk_enqueued_def)
        qed
      qed
    qed
  qed
qed

end
