(* ===== verification/QueueBulk.thy ===== *)
theory QueueBulk
  imports QueueRefinement ImplicitEnqueueBulk
begin

text \<open>
  The bulk operations of \<^verbatim>\<open>moodycamel::ConcurrentQueue\<close> (\<^verbatim>\<open>src/lightning/moodycamel/concurrentqueue.h\<close>) on
  the queue as a whole, and their refinement of the abstract queue: a bulk enqueue is a sequence of
  enqueues or nothing, a bulk dequeue is a sequence of dequeues that only stops short of the requested
  number when the queue is empty.
\<close>

section \<open>The operations\<close>

definition inner_enqueue_bulk ::
    "alloc_mode \<Rightarrow> thread_id \<Rightarrow> 'a list \<Rightarrow> 'a cq \<Rightarrow> (bool \<times> 'a cq) option" where
  "inner_enqueue_bulk canAlloc tid items s =
     (case get_or_add_implicit_producer tid s of
        None \<Rightarrow> None
      | Some (None, s1) \<Rightarrow> Some (False, s1)
      | Some (Some producer, s1) \<Rightarrow> on_producer producer (ip_enqueue_bulk canAlloc items) s1)"

definition cq_enqueue_bulk :: "thread_id \<Rightarrow> 'a list \<Rightarrow> 'a cq \<Rightarrow> (bool \<times> 'a cq) option" where
  "cq_enqueue_bulk tid items s =
     (if INITIAL_IMPLICIT_PRODUCER_HASH_SIZE = 0 then Some (False, s) else inner_enqueue_bulk CanAlloc tid items s)"

definition cq_try_enqueue_bulk :: "thread_id \<Rightarrow> 'a list \<Rightarrow> 'a cq \<Rightarrow> (bool \<times> 'a cq) option" where
  "cq_try_enqueue_bulk tid items s =
     (if INITIAL_IMPLICIT_PRODUCER_HASH_SIZE = 0 then Some (False, s) else inner_enqueue_bulk CannotAlloc tid items s)"

text \<open>The result of a dequeue is the number that it returns, and the elements written through the
  iterator.\<close>

definition dequeue_bulk_at :: "nat \<Rightarrow> size_t \<Rightarrow> 'a cq \<Rightarrow> ((size_t \<times> 'a list) \<times> 'a cq) option" where
  "dequeue_bulk_at i max_count s =
     on_producer i (\<lambda>p q. map_option (\<lambda>(n, els, p', q'). ((n, els), p', q')) (ip_dequeue_bulk max_count p q)) s"

fun dequeue_bulk_each ::
    "nat list \<Rightarrow> size_t \<Rightarrow> size_t \<Rightarrow> 'a cq \<Rightarrow> ((size_t \<times> 'a list) \<times> 'a cq) option" where
  "dequeue_bulk_each [] max_count cnt s = Some ((cnt, []), s)"
| "dequeue_bulk_each (i # is) max_count cnt s =
     (case dequeue_bulk_at i (max_count - cnt) s of
        None \<Rightarrow> None
      | Some ((n, els), s1) \<Rightarrow>
          let cnt = cnt + n
          in if cnt = max_count then Some ((cnt, els), s1)
             else map_option (\<lambda>((c, more), s2). ((c, els @ more), s2)) (dequeue_bulk_each is max_count cnt s1))"

definition cq_try_dequeue_bulk :: "size_t \<Rightarrow> 'a cq \<Rightarrow> ((size_t \<times> 'a list) \<times> 'a cq) option" where
  "cq_try_dequeue_bulk max_count s = dequeue_bulk_each (traversal s) max_count 0 s"

section \<open>With a consumer token\<close>

text \<open>
  The loop over the other producers; \<open>cnt\<close> elements have been taken, \<open>max_count\<close> are still wanted. It
  runs until it is back at the current producer; that is the one it took elements from last, so it goes
  round the whole ring again.
\<close>

partial_function (option) dequeue_bulk_ring ::
    "consumer_token \<Rightarrow> nat list \<Rightarrow> size_t \<Rightarrow> size_t \<Rightarrow> 'a cq \<Rightarrow>
     ((size_t \<times> 'a list) \<times> consumer_token \<times> 'a cq) option" where
  "dequeue_bulk_ring token is max_count cnt s =
     (case is of
        [] \<Rightarrow> Some ((cnt, []), token, s)
      | i # is \<Rightarrow>
          (case dequeue_bulk_at i max_count s of
             None \<Rightarrow> None
           | Some ((dequeued, els), s1) \<Rightarrow>
               let cnt = cnt + dequeued;
                   is = (if dequeued \<noteq> 0 then ring_after s1 i else is);
                   token = (if dequeued \<noteq> 0
                            then token\<lparr>currentProducer := Some i, itemsConsumedFromCurrent := ucast dequeued\<rparr> else token)
               in if dequeued = max_count then Some ((cnt, els), token, s1)
                  else Option.bind (dequeue_bulk_ring token is (max_count - dequeued) cnt s1)
                         (\<lambda>((c, more), token', s2). Some ((c, els @ more), token', s2))))"

definition try_dequeue_bulk_token ::
    "consumer_token \<Rightarrow> size_t \<Rightarrow> 'a cq \<Rightarrow> ((size_t \<times> 'a list) \<times> consumer_token \<times> 'a cq) option" where
  "try_dequeue_bulk_token token max_count s =
     (case (if desiredProducer token = None \<or> lastKnownGlobalOffset token \<noteq> globalExplicitConsumerOffset s
            then update_current_producer_after_rotation token s else Some (True, token)) of
        None \<Rightarrow> None
      | Some (False, token) \<Rightarrow> Some ((0, []), token, s)
      | Some (True, token) \<Rightarrow>
          (case currentProducer token of
             None \<Rightarrow> None
           | Some current \<Rightarrow>
               (case dequeue_bulk_at current max_count s of
                  None \<Rightarrow> None
                | Some ((cnt, els), s1) \<Rightarrow>
                    let n = itemsConsumedFromCurrent token + ucast cnt;
                        token = token\<lparr>itemsConsumedFromCurrent := n\<rparr>
                    in if cnt = max_count
                       then Some ((max_count, els), token,
                              if n \<ge> CONSUMPTION_QUOTA_BEFORE_ROTATE
                              then s1\<lparr>globalExplicitConsumerOffset := globalExplicitConsumerOffset s1 + 1\<rparr> else s1)
                       else map_option (\<lambda>((c, more), r). ((c, els @ more), r))
                              (dequeue_bulk_ring token (ring_after s1 current) (max_count - cnt) cnt s1))))"

section \<open>Bulk operations on the sub-queues\<close>

lemma queues_dequeue_times:
  "queues_inv Xs ps q \<Longrightarrow> i < length ps \<Longrightarrow> n \<le> length (Xs ! i) \<Longrightarrow>
   \<exists>p q'. dequeue_times n (ps ! i) q = Some (take n (Xs ! i), p, q') \<and>
     queues_inv (Xs[i := drop n (Xs ! i)]) (ps[i := p]) q'"
proof (induction n arbitrary: Xs ps q)
  case 0
  then show ?case by auto
next
  case (Suc n)
  have i: "i < length Xs" using Suc.prems(1,2) by (auto simp: queues_inv_def queues_by_def)
  obtain y ys where y: "Xs ! i = y # ys" using Suc.prems(3) by (cases "Xs ! i") auto
  obtain p1 q1 where one: "ip_dequeue (ps ! i) q = Some (Some y, p1, q1)" "queues_inv (Xs[i := ys]) (ps[i := p1]) q1"
    by (rule queues_dequeue [OF Suc.prems(1,2) y])
  from Suc.IH [OF one(2)] Suc.prems(2,3) i y obtain p q' where
    "dequeue_times n p1 q1 = Some (take n ys, p, q')" "queues_inv (Xs[i := drop n ys]) (ps[i := p]) q'" by auto
  with one(1) y show ?case by auto
qed

lemma queues_dequeue_bulk:
  fixes max_count :: size_t
  assumes inv: "queues_inv Xs ps q" and i: "i < length ps"
  defines "n \<equiv> min (unat max_count) (length (Xs ! i))"
  obtains p q' where "ip_dequeue_bulk max_count (ps ! i) q = Some (of_nat n, take n (Xs ! i), p, q')"
    "queues_inv (Xs[i := drop n (Xs ! i)]) (ps[i := p]) q'"
proof -
  from inv obtain H A F where qb: "queues_by H A F Xs ps q" by (auto simp: queues_inv_def)
  let ?U = "\<Union>i < length ps. owned H A Xs i" and ?T = "H i + length (Xs ! i)"
  have ip: "ip_inv (H i) ?T (A i) (Xs ! i) (ps ! i) q" and pool: "pool_inv ?U F q"
    using qb i by (simp_all add: queues_by_def)
  have own: "A i ` live (H i) ?T \<subseteq> ?U" using i by (auto simp: owned_def)
  have "n \<le> length (Xs ! i)" by (simp add: n_def)
  from queues_dequeue_times [OF inv i this] obtain p q' where
    "dequeue_times n (ps ! i) q = Some (take n (Xs ! i), p, q')" "queues_inv (Xs[i := drop n (Xs ! i)]) (ps[i := p]) q'"
    by blast
  with ip_dequeue_bulk_times [OF ip pool own, of max_count] show thesis
    by (intro that [of p q']) (simp_all add: n_def)
qed

lemma queues_enqueue_bulk:
  assumes inv: "queues_inv Xs ps q" and i: "i < length ps" and n: "length items < 2 ^ 62"
  obtains ok p q' where "ip_enqueue_bulk m items (ps ! i) q = Some (ok, p, q')"
    "queues_inv (Xs[i := (if ok then Xs ! i @ items else Xs ! i)]) (ps[i := p]) q'"
    "\<not> ok \<Longrightarrow> 2 ^ 63 \<le> length (Xs ! i) + length items + 31 \<or> blockIndex (ps ! i) = None \<or> m = CannotAlloc \<or> mem q \<noteq> []"
    "ok \<Longrightarrow> items \<noteq> [] \<Longrightarrow> blockIndex p \<noteq> None" "ok \<Longrightarrow> mem q = [] \<Longrightarrow> mem q' = []"
proof -
  from inv obtain H A F where qb: "queues_by H A F Xs ps q" by (auto simp: queues_inv_def)
  let ?U = "\<Union>i < length ps. owned H A Xs i" and ?T = "H i + length (Xs ! i)"
  have ip: "ip_inv (H i) ?T (A i) (Xs ! i) (ps ! i) q" and pool: "pool_inv ?U F q"
    using qb i by (simp_all add: queues_by_def)
  have own: "A i ` live (H i) ?T \<subseteq> ?U" using i by (auto simp: owned_def)
  obtain ok p q' where enq: "ip_enqueue_bulk m items (ps ! i) q = Some (ok, p, q')"
    and res: "bulk_enqueued m items (H i) ?T (A i) (Xs ! i) ?U (ps ! i) q (ok, p, q')"
    using ip_enqueue_bulk_spec [OF ip pool own n, of m] by auto
  have keep: "blocks q' a = blocks q a" if "a \<in> ?U - owned H A Xs i" for a
    using res that by (auto simp: bulk_enqueued_def owned_def)
  show thesis
  proof (cases ok)
    case True
    with res obtain A' F' where r: "ip_inv (H i) (?T + length items) A' (Xs ! i @ items) p q'"
        "A' ` live (H i) (?T + length items) \<inter> (?U - owned H A Xs i) = {}"
        "pool_inv (reown ?U (owned H A Xs i) (A' ` live (H i) (?T + length items))) F' q'"
        "mem q = [] \<longrightarrow> mem q' = []"
      by (auto simp: bulk_enqueued_def owned_def)
    have "queues_inv (Xs[i := Xs ! i @ items]) (ps[i := p]) q'"
      by (rule queues_step [OF qb i r(1,3,2)]) (rule keep)
    moreover have "blockIndex p \<noteq> None" if "items \<noteq> []" using r(1) by (rule ip_inv_index) (use that in simp)
    ultimately show thesis using enq True r(4) by (intro that [of ok p q']) simp_all
  next
    case False
    with res obtain F' where r: "ip_inv (H i) ?T (A i) (Xs ! i) p q'" "pool_inv ?U F' q'"
        "bulk_may_refuse m (H i) (?T + length items) (ps ! i) q"
      by (auto simp: bulk_enqueued_def)
    have "reown ?U (owned H A Xs i) (A i ` live (H i) ?T) = ?U" using own by (auto simp: reown_def owned_def)
    then have "queues_inv (Xs[i := Xs ! i]) (ps[i := p]) q'"
      by (intro queues_step [OF qb i r(1)]) (use keep r(2) in \<open>auto simp: owned_def\<close>)
    moreover have "(?T + length items + 31) div 32 * 32 \<le> ?T + length items + 31" by (rule div_times_less_eq_dividend)
    ultimately show thesis using r(3) False enq
      by (intro that [of ok p q']) (auto simp: bulk_may_refuse_def)
  qed
qed

section \<open>Bulk operations on the queue\<close>

text \<open>\<open>drains Xs els Xs'\<close>: taking the elements \<open>els\<close> one after the other.\<close>

inductive drains :: "'a list list \<Rightarrow> 'a list \<Rightarrow> 'a list list \<Rightarrow> bool" where
  drains_none: "drains Xs [] Xs"
| drains_more: "dequeues Xs (Some y) Xs1 \<Longrightarrow> drains Xs1 ys Xs2 \<Longrightarrow> drains Xs (y # ys) Xs2"

lemma drains_append: "drains Xs us Ys \<Longrightarrow> drains Ys vs Zs \<Longrightarrow> drains Xs (us @ vs) Zs"
  by (induction rule: drains.induct) (simp_all add: drains_more)

lemma drains_length: "drains Xs els Ys \<Longrightarrow> length Ys = length Xs"
  by (induction rule: drains.induct) (auto simp: dequeues_def)

lemma drains_empty: "drains Xs els Ys \<Longrightarrow> Xs ! i = [] \<Longrightarrow> Ys ! i = []"
proof (induction rule: drains.induct)
  case (drains_more Xs y Xs1 ys Xs2)
  then have "Xs1 ! i = []" by (auto simp: dequeues_def) (metis list.discI nth_list_update_neq)
  then show ?case by (rule drains_more.IH)
qed

lemma drains_contents: "drains Xs els Ys \<Longrightarrow> contents Xs = contents Ys + mset els"
  by (induction rule: drains.induct) (simp_all add: contents_dequeues)

text \<open>A drain that only stops short of the requested number when nothing is left.\<close>

lemma drains_count:
  assumes "drains Xs els Ys" "length els \<le> n" "length els = n \<or> (\<forall>ys \<in> set Ys. ys = [])"
  shows "length els = min n (size (contents Xs))"
proof -
  have "size (contents Xs) = size (contents Ys) + length els" using drains_contents [OF assms(1)] by simp
  moreover have "size (contents Ys) = 0" if "\<forall>ys \<in> set Ys. ys = []" using that by (simp add: contents_def)
  ultimately show ?thesis using assms(2,3) by auto
qed

lemma drains_take:
  "i < length Xs \<Longrightarrow> n \<le> length (Xs ! i) \<Longrightarrow> drains Xs (take n (Xs ! i)) (Xs[i := drop n (Xs ! i)])"
proof (induction n arbitrary: Xs)
  case 0
  then show ?case by (simp add: drains_none)
next
  case (Suc n)
  then obtain y ys where y: "Xs ! i = y # ys" by (cases "Xs ! i") auto
  have "dequeues Xs (Some y) (Xs[i := ys])" using Suc.prems(1) y by (auto simp: dequeues_def)
  from drains_more [OF this] Suc.IH [of "Xs[i := ys]"] Suc.prems y show ?case by simp
qed

lemma dequeue_bulk_at_spec:
  assumes inv: "cq_inv Xs s" and i: "i < length Xs"
  obtains els s' Xs' where "dequeue_bulk_at i max_count s = Some ((of_nat (length els), els), s')"
    "cq_inv Xs' s'" "drains Xs els Xs'" "length els \<le> unat max_count"
    "length els < unat max_count \<Longrightarrow> Xs' ! i = []" "els = [] \<Longrightarrow> Xs' = Xs"
    "producer_of s' = producer_of s" "phash s' = phash s"
proof -
  let ?n = "min (unat max_count) (length (Xs ! i))" and ?f = "\<lambda>p q. map_option (\<lambda>(n, els, p', q'). ((n, els), p', q')) (ip_dequeue_bulk max_count p q)"
  have i': "i < length (producers s)" using i inv cq_length by metis
  have q: "queues_inv Xs (map inner (producers s)) (cpool s)" using inv by (simp add: cq_inv_def)
  obtain p q' where deq: "ip_dequeue_bulk max_count (map inner (producers s) ! i) (cpool s) = Some (of_nat ?n, take ?n (Xs ! i), p, q')"
    and q': "queues_inv (Xs[i := drop ?n (Xs ! i)]) ((map inner (producers s))[i := p]) q'"
    by (rule queues_dequeue_bulk [OF q, of i max_count]) (use i' in auto)
  have "?f (inner (producers s ! i)) (cpool s) = Some ((of_nat ?n, take ?n (Xs ! i)), p, q')" using deq i' by simp
  then obtain s' where s': "on_producer i ?f s = Some ((of_nat ?n, take ?n (Xs ! i)), s')"
      "cq_inv (Xs[i := drop ?n (Xs ! i)]) s'" "producer_of s' = producer_of s" "phash s' = phash s"
    by (rule on_producer_inv [where f = ?f, OF inv i' _ q']) blast
  show thesis
  proof (rule that [OF _ s'(2) drains_take _ _ _ s'(3,4)])
    show "dequeue_bulk_at i max_count s = Some ((of_nat (length (take ?n (Xs ! i))), take ?n (Xs ! i)), s')"
      using s'(1) by (simp add: dequeue_bulk_at_def)
    show "Xs[i := drop ?n (Xs ! i)] = Xs" if "take ?n (Xs ! i) = []"
      using that by (cases "unat max_count = 0") (auto, metis list_update_id)
  qed (use i in auto)
qed

lemma dequeue_bulk_each_spec:
  fixes max_count cnt :: size_t
  assumes "cq_inv Xs s" "\<forall>i \<in> set is. i < length Xs" "cnt \<le> max_count"
  shows "\<exists>els s' Xs'. dequeue_bulk_each is max_count cnt s = Some ((cnt + of_nat (length els), els), s') \<and>
    cq_inv Xs' s' \<and> drains Xs els Xs' \<and> producer_of s' = producer_of s \<and> phash s' = phash s \<and>
    unat cnt + length els \<le> unat max_count \<and>
    (unat cnt + length els = unat max_count \<or> (\<forall>i \<in> set is. Xs' ! i = []))"
  using assms
proof (induction "is" arbitrary: cnt Xs s)
  case Nil
  then show ?case by (intro exI [of _ "[]"] exI [of _ s] exI [of _ Xs]) (auto simp: drains_none word_le_nat_alt)
next
  case (Cons i "is")
  have i: "i < length Xs" using Cons.prems(2) by simp
  have left: "unat (max_count - cnt) = unat max_count - unat cnt" using Cons.prems(3) by (simp add: unat_sub)
  have le: "unat cnt \<le> unat max_count" using Cons.prems(3) by (simp add: word_le_nat_alt)
  obtain els s1 X1 where one: "dequeue_bulk_at i (max_count - cnt) s = Some ((of_nat (length els), els), s1)"
    "cq_inv X1 s1" "drains Xs els X1" "length els \<le> unat (max_count - cnt)"
    "length els < unat (max_count - cnt) \<Longrightarrow> X1 ! i = []"
    "producer_of s1 = producer_of s" "phash s1 = phash s"
    by (rule dequeue_bulk_at_spec [OF Cons.prems(1) i, of "max_count - cnt"]) blast
  let ?c = "cnt + of_nat (length els)"
  have c: "unat ?c = unat cnt + length els"
  proof -
    have "unat max_count < 2 ^ LENGTH(64)" by (rule unsigned_less)
    then have "unat cnt + length els < 2 ^ LENGTH(64)" using one(4) le left by simp
    then have "unat (of_nat (unat cnt + length els) :: size_t) = unat cnt + length els" by (rule unat_of_nat_small)
    then show ?thesis by simp
  qed
  show ?case
  proof (cases "?c = max_count")
    case True
    then have "unat cnt + length els = unat max_count" using c by metis
    with True one show ?thesis by (intro exI [of _ els] exI [of _ s1] exI [of _ X1]) auto
  next
    case False
    have lt: "unat cnt + length els < unat max_count"
      using one(4) left le c False by (metis add_le_mono1 le_add_diff_inverse2 add.commute nat_less_le word_unat_eq_iff)
    have "\<forall>i \<in> set is. i < length X1" "?c \<le> max_count"
      using Cons.prems(2) drains_length [OF one(3)] c lt by (simp_all add: word_le_nat_alt)
    from Cons.IH [OF one(2) this] obtain more s2 X2 where rest:
      "dequeue_bulk_each is max_count ?c s1 = Some ((?c + of_nat (length more), more), s2)"
      "cq_inv X2 s2" "drains X1 more X2" "producer_of s2 = producer_of s1" "phash s2 = phash s1"
      "unat ?c + length more \<le> unat max_count"
      "unat ?c + length more = unat max_count \<or> (\<forall>i \<in> set is. X2 ! i = [])" by blast
    have "X1 ! i = []" using one(5) lt left by simp
    then have "X2 ! i = []" by (rule drains_empty [OF rest(3)])
    with one rest False c drains_append [OF one(3) rest(3)] show ?thesis
      by (intro exI [of _ "els @ more"] exI [of _ s2] exI [of _ X2]) (auto simp: ac_simps)
  qed
qed

lemma try_dequeue_bulk_spec:
  assumes inv: "cq_inv Xs s"
  obtains els s' Xs' where "cq_try_dequeue_bulk max_count s = Some ((of_nat (length els), els), s')"
    "cq_inv Xs' s'" "drains Xs els Xs'" "producer_of s' = producer_of s" "phash s' = phash s"
    "length els = min (unat max_count) (size (contents Xs))"
proof -
  have sub: "\<forall>i \<in> set (traversal s). i < length Xs" by (simp add: set_traversal [OF inv])
  have "0 \<le> max_count" by simp
  from dequeue_bulk_each_spec [OF inv sub this] obtain els s' Xs' where
    r: "dequeue_bulk_each (traversal s) max_count 0 s = Some ((of_nat (length els), els), s')" "cq_inv Xs' s'"
      "drains Xs els Xs'" "producer_of s' = producer_of s" "phash s' = phash s" "length els \<le> unat max_count"
      "length els = unat max_count \<or> (\<forall>i < length Xs. Xs' ! i = [])"
    by (auto simp: set_traversal [OF inv])
  have "length els = min (unat max_count) (size (contents Xs))"
    using drains_count [OF r(3,6)] r(7) drains_length [OF r(3)] by (auto simp: all_set_conv_all_nth)
  with r show thesis by (intro that [of els s' Xs']) (simp_all add: cq_try_dequeue_bulk_def)
qed

section \<open>The round with a consumer token\<close>

lemma token_ok_length: "length (producers s') = length (producers s) \<Longrightarrow> token_ok s' token = token_ok s token"
  by (simp only: token_ok_def)

lemma token_ok_current: "token_ok s token \<Longrightarrow> i < length (producers s) \<Longrightarrow>
    token_ok s (token\<lparr>currentProducer := Some i, itemsConsumedFromCurrent := n\<rparr>)"
  by (auto simp: token_ok_def split: option.splits)

lemma length_ring_after: "length (ring_after s i) = length (producers s) - 1"
  by (simp add: ring_after_def)

lemma of_nat_length_eq: "k \<le> unat (m :: size_t) \<Longrightarrow> of_nat k = m \<longleftrightarrow> k = unat m"
proof -
  assume "k \<le> unat m"
  then have "unat (of_nat k :: size_t) = k" by (intro unat_of_nat_small le_less_trans [OF _ unsigned_less])
  then show ?thesis by (auto simp: word_unat_eq_iff)
qed

lemma unat_left: "k \<le> unat (m :: size_t) \<Longrightarrow> unat (m - of_nat k) = unat m - k"
proof -
  assume k: "k \<le> unat m"
  then have u: "unat (of_nat k :: size_t) = k" by (intro unat_of_nat_small le_less_trans [OF _ unsigned_less])
  with k have "of_nat k \<le> m" by (simp add: word_le_nat_alt)
  then show ?thesis by (simp add: unat_sub u)
qed

lemma dequeue_bulk_ring_spec:
  assumes "cq_inv Xs s" "set is \<subseteq> {..< length Xs}" "token_ok s token" "0 < (max_count :: size_t)"
    and "\<forall>j < length Xs. j \<notin> set is \<longrightarrow> Xs ! j = []"
  shows "\<exists>els token' s' Xs'. dequeue_bulk_ring token is max_count cnt s = Some ((cnt + of_nat (length els), els), token', s') \<and>
    cq_inv Xs' s' \<and> drains Xs els Xs' \<and> token_ok s' token' \<and> length els \<le> unat max_count \<and>
    (length els = unat max_count \<or> (\<forall>xs \<in> set Xs'. xs = []))"
  using assms
proof (induction "(size (contents Xs), length is)" arbitrary: Xs s "is" token max_count cnt 
      rule: wf_induct_rule [OF wf_lex_prod [OF wf_less_than wf_less_than]])
  case (1 Xs "is" s token max_count cnt)
  note step = 1(1) and prems = 1(2-)
  show ?case
  proof (cases "is")
    case Nil
    then have "\<forall>xs \<in> set Xs. xs = []" using prems(5) by (simp add: all_set_conv_all_nth)
    with Nil prems(1,3) show ?thesis
      by (intro exI [of _ "[]"] exI [of _ token] exI [of _ s] exI [of _ Xs])
        (simp add: dequeue_bulk_ring.simps drains_none)
  next
    case (Cons i rest)
    have i: "i < length Xs" using prems(2) Cons by simp
    obtain els s1 X1 where one: "dequeue_bulk_at i max_count s = Some ((of_nat (length els), els), s1)"
      "cq_inv X1 s1" "drains Xs els X1" "length els \<le> unat max_count"
      "length els < unat max_count \<Longrightarrow> X1 ! i = []" "els = [] \<Longrightarrow> X1 = Xs"
      by (rule dequeue_bulk_at_spec [OF prems(1) i, of max_count]) blast
    have len: "length (producers s1) = length (producers s)" "length (producers s) = length Xs" "length X1 = length Xs"
      using cq_length [OF one(2)] cq_length [OF prems(1)] drains_length [OF one(3)] by simp_all
    let ?is = "if els \<noteq> [] then ring_after s1 i else rest"
    let ?token = "if els \<noteq> [] then token\<lparr>currentProducer := Some i, itemsConsumedFromCurrent := ucast (of_nat (length els) :: size_t)\<rparr> else token"
    have nz: "(of_nat (length els) :: size_t) \<noteq> 0 \<longleftrightarrow> els \<noteq> []"
      using unat_of_nat_small [OF le_less_trans [OF one(4) unsigned_less]] by (cases els) (auto simp: word_unat_eq_iff)
    have tok: "token_ok s1 ?token"
      using prems(3) i len by (simp add: token_ok_length [OF len(1)] token_ok_current)
    show ?thesis
    proof (cases "length els = unat max_count")
      case True
      then have "of_nat (length els) = max_count" by simp
      with Cons one tok nz True show ?thesis
        by (intro exI [of _ els] exI [of _ ?token] exI [of _ s1] exI [of _ X1])
          (simp add: dequeue_bulk_ring.simps [of token "i # rest"] Let_def)
    next
      case False
      then have part: "length els < unat max_count" using one(4) by simp
      then have no: "of_nat (length els) \<noteq> max_count" using of_nat_length_eq [OF one(4)] False by simp
      have left: "unat (max_count - of_nat (length els)) = unat max_count - length els"
        by (rule unat_left) (use part in simp)
      have smaller: "((size (contents X1), length ?is), size (contents Xs), length is) \<in> less_than <*lex*> less_than"
        using drains_contents [OF one(3)] Cons one(6) by (cases els) auto
      have ring: "set (ring_after s1 i) = {..< length Xs} - {i}" using set_ring_after [of i s1] i len by simp
      have sub: "set ?is \<subseteq> {..< length X1}" using ring prems(2) Cons len by auto
      have pos: "0 < max_count - of_nat (length els)" using left part by (simp add: word_gt_0_no word_less_nat_alt)
      have out: "\<forall>j < length X1. j \<notin> set ?is \<longrightarrow> X1 ! j = []"
        using one(5) [OF part] one(6) prems(5) ring len Cons by auto
      from step [OF _ one(2) sub tok pos out, of "cnt + of_nat (length els)"] smaller
      obtain more token' s2 X2 where r: "dequeue_bulk_ring ?token ?is (max_count - of_nat (length els)) (cnt + of_nat (length els)) s1 =
          Some ((cnt + of_nat (length els) + of_nat (length more), more), token', s2)"
        "cq_inv X2 s2" "drains X1 more X2" "token_ok s2 token'" "length more \<le> unat (max_count - of_nat (length els))"
        "length more = unat (max_count - of_nat (length els)) \<or> (\<forall>xs \<in> set X2. xs = [])" by auto
      have "dequeue_bulk_ring token is max_count cnt s =
          Some ((cnt + of_nat (length (els @ more)), els @ more), token', s2)"
        using Cons one(1) no nz r(1) by (simp add: dequeue_bulk_ring.simps [of token "i # rest"] Let_def ac_simps)
      moreover have "length (els @ more) \<le> unat max_count" "length (els @ more) = unat max_count \<or> (\<forall>xs \<in> set X2. xs = [])"
        using r(5,6) left part by auto
      ultimately show ?thesis using r(2,4) drains_append [OF one(3) r(3)] by blast
    qed
  qed
qed

lemma token_dequeue_bulk_spec:
  assumes inv: "cq_inv Xs s" and tok: "token_ok s token" and n: "length Xs < 2 ^ 32"
  obtains els token' s' Xs' where
    "try_dequeue_bulk_token token max_count s = Some ((of_nat (length els), els), token', s')"
    "cq_inv Xs' s'" "drains Xs els Xs'" "token_ok s' token'"
    "length els = min (unat max_count) (size (contents Xs))"
proof (cases rule: token_start [OF inv tok n])
  case 1
  then show thesis using inv tok
    by (intro that [of "[]" token s Xs]) (simp_all add: try_dequeue_bulk_token_def drains_none contents_def)
next
  case (2 token1 d)
  obtain els s1 X1 where one: "dequeue_bulk_at d max_count s = Some ((of_nat (length els), els), s1)"
    "cq_inv X1 s1" "drains Xs els X1" "length els \<le> unat max_count" "length els < unat max_count \<Longrightarrow> X1 ! d = []"
    by (rule dequeue_bulk_at_spec [OF inv 2(4), of max_count]) blast
  have len: "length (producers s1) = length (producers s)" "length (producers s) = length Xs" "length X1 = length Xs"
    using cq_length [OF one(2)] cq_length [OF inv] drains_length [OF one(3)] by simp_all
  let ?n = "itemsConsumedFromCurrent token1 + ucast (of_nat (length els) :: size_t)"
  let ?token = "token1\<lparr>itemsConsumedFromCurrent := ?n\<rparr>"
  have tok1: "token_ok s1 ?token" using 2(2) unfolding token_ok_length [OF len(1)] by (auto simp: token_ok_def split: option.splits)
  show thesis
  proof (cases "length els = unat max_count")
    case True
    let ?s = "if ?n \<ge> CONSUMPTION_QUOTA_BEFORE_ROTATE
      then s1\<lparr>globalExplicitConsumerOffset := globalExplicitConsumerOffset s1 + 1\<rparr> else s1"
    have "producer_of ?s = producer_of s1" by (simp add: producer_of_def fun_eq_iff)
    then have "cq_inv X1 ?s" using one(2) by (simp add: cq_inv_def)
    moreover have "token_ok ?s ?token" using tok1 by (subst token_ok_length [of _ s1]) simp_all
    moreover have "length els = min (unat max_count) (size (contents Xs))"
      using drains_count [OF one(3,4)] True by simp
    moreover have "of_nat (length els) = max_count" using True by simp
    ultimately show thesis using 2 one(1,3)
      by (intro that [of els ?token ?s X1]) (simp_all add: try_dequeue_bulk_token_def Let_def)
  next
    case False
    then have part: "length els < unat max_count" using one(4) by simp
    have no: "of_nat (length els) \<noteq> max_count" using of_nat_length_eq [OF one(4)] False by simp
    have left: "unat (max_count - of_nat (length els)) = unat max_count - length els"
      by (rule unat_left) (use part in simp)
    have ring: "set (ring_after s1 d) = {..< length X1} - {d}" using set_ring_after [of d s1] 2(4) len by simp
    have pos: "0 < max_count - of_nat (length els)" using left part by (simp add: word_less_nat_alt)
    have "\<forall>j < length X1. j \<notin> set (ring_after s1 d) \<longrightarrow> X1 ! j = []" using one(5) [OF part] ring by auto
    from dequeue_bulk_ring_spec [OF one(2) _ tok1 pos this, of "of_nat (length els)"] ring obtain more token' s2 X2 where
      r: "dequeue_bulk_ring ?token (ring_after s1 d) (max_count - of_nat (length els)) (of_nat (length els)) s1 =
          Some ((of_nat (length els) + of_nat (length more), more), token', s2)"
        "cq_inv X2 s2" "drains X1 more X2" "token_ok s2 token'" "length more \<le> unat (max_count - of_nat (length els))"
        "length more = unat (max_count - of_nat (length els)) \<or> (\<forall>xs \<in> set X2. xs = [])" by auto
    note all = drains_append [OF one(3) r(3)]
    have "length (els @ more) \<le> unat max_count" "length (els @ more) = unat max_count \<or> (\<forall>xs \<in> set X2. xs = [])"
      using r(5,6) left part by auto
    note total = drains_count [OF all this]
    have "try_dequeue_bulk_token token max_count s = Some ((of_nat (length (els @ more)), els @ more), token', s2)"
      using 2 one(1) no r(1) by (simp add: try_dequeue_bulk_token_def Let_def)
    then show thesis by (rule that [OF _ r(2) all r(4) total])
  qed
qed

section \<open>Refinement of the abstract queue\<close>

interpretation bulk: producer_append m items "ip_enqueue_bulk m items" for m items
proof
  fix Xs :: "'a list list" and ps q i
  assume a: "queues_inv Xs ps q" "i < length ps" "length items < 2 ^ 62"
  obtain ok p q' where "ip_enqueue_bulk m items (ps ! i) q = Some (ok, p, q')"
    "queues_inv (Xs[i := (if ok then Xs ! i @ items else Xs ! i)]) (ps[i := p]) q'"
    "\<not> ok \<Longrightarrow> 2 ^ 63 \<le> length (Xs ! i) + length items + 31 \<or> blockIndex (ps ! i) = None \<or> m = CannotAlloc \<or> mem q \<noteq> []"
    "ok \<Longrightarrow> items \<noteq> [] \<Longrightarrow> blockIndex p \<noteq> None" "ok \<Longrightarrow> mem q = [] \<Longrightarrow> mem q' = []"
    by (rule queues_enqueue_bulk [OF a, of m]) blast
  then show "\<exists>ok p q'. ip_enqueue_bulk m items (ps ! i) q = Some (ok, p, q') \<and>
      queues_inv (Xs[i := (if ok then Xs ! i @ items else Xs ! i)]) (ps[i := p]) q' \<and>
      (ok \<or> 2 ^ 63 \<le> length (Xs ! i) + length items + 31 \<or> blockIndex (ps ! i) = None \<or> m = CannotAlloc \<or> mem q \<noteq> []) \<and>
      (ok \<and> items \<noteq> [] \<longrightarrow> blockIndex p \<noteq> None) \<and> (ok \<and> mem q = [] \<longrightarrow> mem q' = [])"
    by (intro exI [of _ ok] exI [of _ p] exI [of _ q']) auto
qed

lemma inner_enqueue_bulk_own: "inner_enqueue_bulk m tid items = append_own (ip_enqueue_bulk m items) tid"
  by (simp add: fun_eq_iff inner_enqueue_bulk_def append_own_def)

lemma cq_enqueue_bulk_own:
  "cq_enqueue_bulk tid items = append_own (ip_enqueue_bulk CanAlloc items) tid"
  "cq_try_enqueue_bulk tid items = append_own (ip_enqueue_bulk CannotAlloc items) tid"
  by (simp_all add: fun_eq_iff cq_enqueue_bulk_def cq_try_enqueue_bulk_def INITIAL_IMPLICIT_PRODUCER_HASH_SIZE_def
      inner_enqueue_bulk_own)

text \<open>Taking elements from the abstract queue one after the other.\<close>

inductive takes :: "'a mpmc \<Rightarrow> 'a list \<Rightarrow> 'a mpmc \<Rightarrow> bool" where
  takes_none: "takes q [] q"
| takes_more: "try_dequeue (q\<lparr>q_choice := [c]\<rparr>) = Some (y, q1) \<Longrightarrow> takes q1 ys q2 \<Longrightarrow> takes q (y # ys) q2"

inductive_cases takes_SomeE: "takes q (y # ys) q2"

lemma drains_takes: "drains Xs els Ys \<Longrightarrow> items_rel Xs q \<Longrightarrow> \<exists>q'. takes q els q' \<and> items_rel Ys q'"
proof (induction arbitrary: q rule: drains.induct)
  case (drains_none Xs)
  then show ?case by (blast intro: takes_none)
next
  case (drains_more Xs y Xs1 ys Xs2)
  from items_rel_dequeues [OF drains_more.prems drains_more.hyps(1)] obtain c q1 where
    "try_dequeue (q\<lparr>q_choice := [c]\<rparr>) = Some (y, q1)" "items_rel Xs1 q1" by blast
  with drains_more.IH [of q1] show ?case by (blast intro: takes_more)
qed

lemma items_rel_contents: "items_rel Xs q \<Longrightarrow> size (contents Xs) = length (q_items q)"
  by (simp add: items_rel_size contents_def length_concat)

lemma queue_rel_drains:
  assumes "items_rel Xs q" "cq_inv Xs' s'" "drains Xs els Xs'"
  shows "\<exists>q'. takes q els q' \<and> queue_rel s' q'"
  using drains_takes [OF assms(3,1)] assms(2) by (auto simp: queue_rel_items)

text \<open>With a single producer the order is that of the enqueues.\<close>

lemma takes_one_producer:
  "takes q els q' \<Longrightarrow> q_items q = map (Pair i) items \<Longrightarrow> els = take (length els) items"
proof (induction arbitrary: items rule: takes.induct)
  case (takes_more c q y q1 ys q2)
  obtain x xs where items: "items = x # xs"
    using takes_more.hyps(1) takes_more.prems by (cases items) (auto simp: try_dequeue_def)
  have "next_producer (q\<lparr>q_choice := [c]\<rparr>) = i"
    using next_producer_mem [of "q\<lparr>q_choice := [c]\<rparr>"] takes_more.prems items by auto
  then have "y = x" "q_items q1 = map (Pair i) xs"
    using takes_more.hyps(1) takes_more.prems items by (auto simp: try_dequeue_def)
  with takes_more.IH [of xs] items show ?case by simp
qed simp

lemma enqueue_bulk_new:
  assumes "length items < 2 ^ 62"
  obtains s i Xs where "cq_enqueue_bulk 5 items (ConcurrentQueue_new cap []) = Some (True, s)"
    "cq_inv Xs s" "items_rel Xs (fold (enqueue i) items (mpmc_new []))" "length (producers s) = 1" "i = 0" "Xs = [items]"
proof -
  obtain ok s i Xs where r: "append_own (ip_enqueue_bulk CanAlloc items) 5 (ConcurrentQueue_new cap []) = Some (ok, s)"
    "cq_inv Xs s" "if ok then appends [] i items Xs \<and> producer_of s 5 = Some (Some i) else Xs = [] \<or> Xs = [] @ [[]]"
    "roomy (ConcurrentQueue_new cap [] :: 'a cq) \<and> room_for (length items) ([] :: 'a list list) \<and> CanAlloc = CanAlloc \<Longrightarrow>
      ok \<and> (items \<noteq> [] \<longrightarrow> roomy s)"
    by (rule bulk.append_spec [OF cq_inv_new valid_id_5 _ assms, of cap "[]" CanAlloc])
      (simp_all add: hash_count_new)
  have ok using r(4) by (simp add: roomy_ConcurrentQueue_new room_for_def)
  with r have app: "append_own (ip_enqueue_bulk CanAlloc items) 5 (ConcurrentQueue_new cap []) = Some (True, s)"
    "cq_inv Xs s" "appends [] i items Xs" by simp_all
  have "items_rel [] (mpmc_new [] :: 'a mpmc)" by (simp add: items_rel_def)
  from items_rel_appends [OF this app(3)] app(3) cq_length [OF app(2)] app(1,2) show thesis
    by (intro that [of s Xs i]) (auto simp: cq_enqueue_bulk_own appends_def)
qed

section \<open>Properties\<close>

text \<open>
  C14: \<open>enqueue_bulk\<close> and \<open>try_enqueue_bulk\<close> are all or nothing. Whatever the allocator does, they
  return; if they return true the abstract queue has received all the elements, in order, from the
  producer of the calling thread, and if they return false the contents are as before, also when some of
  the blocks had already been provided.\<close>

theorem enqueue_bulk_refines:
  assumes "queue_rel s q" "valid_id tid" "hash_count (phash s) < 2 ^ 58" "length items < 2 ^ 62"
  shows "\<forall>op \<in> {cq_enqueue_bulk, cq_try_enqueue_bulk}. \<exists>ok s'. op tid items s = Some (ok, s') \<and>
    (if ok then \<exists>i. producer_of s' tid = Some (Some i) \<and> queue_rel s' (fold (enqueue i) items q) else queue_rel s' q)"
  using bulk.append_refines [OF assms] by (auto simp: cq_enqueue_bulk_own)

text \<open>Twice as many elements as a block holds, and an allocator that only gives the first block.\<close>

theorem enqueue_bulk_refines_witness:
  "\<exists>ok s'. cq_enqueue_bulk 5 (replicate 64 True) (ConcurrentQueue_new 0 [True, True, True, False]) = Some (ok, s') \<and>
    (if ok then \<exists>i. producer_of s' 5 = Some (Some i) \<and> queue_rel s' (fold (enqueue i) (replicate 64 True) (mpmc_new []))
     else queue_rel s' (mpmc_new []))"
  by (rule enqueue_bulk_refines [THEN bspec]) (simp_all add: queue_rel_ConcurrentQueue_new valid_id_5 hash_count_new)

text \<open>With an allocator that does not fail, \<open>enqueue_bulk\<close> always succeeds.\<close>

lemma enqueue_bulk_succeeds:
  assumes "queue_rel s q" "roomy s" "valid_id tid" "hash_count (phash s) < 2 ^ 58" "length items < 2 ^ 62"
    "length (q_items q) + length items + 31 < 2 ^ 63"
  shows "\<exists>s' i. cq_enqueue_bulk tid items s = Some (True, s') \<and> queue_rel s' (fold (enqueue i) items q)"
  using bulk.append_succeeds [OF assms(1,3-5) refl assms(2,6)] unfolding cq_enqueue_bulk_own by blast

text \<open>
  C15: \<open>try_dequeue_bulk\<close>, with or without a consumer token, takes elements one after the other as the
  abstract queue does, and it takes as many as were asked for or as there are: it only stops short when
  the queue is empty. The number that it returns is the number of elements written.\<close>

theorem dequeue_bulk_refines:
  assumes "queue_rel s q" "token_ok s token" "length (producers s) < 2 ^ 32"
  shows "(\<exists>els s' q'. cq_try_dequeue_bulk max_count s = Some ((of_nat (length els), els), s') \<and>
      takes q els q' \<and> queue_rel s' q' \<and> length els = min (unat max_count) (length (q_items q))) \<and>
    (\<exists>els token' s' q'. try_dequeue_bulk_token token max_count s = Some ((of_nat (length els), els), token', s') \<and>
      takes q els q' \<and> queue_rel s' q' \<and> token_ok s' token' \<and> length els = min (unat max_count) (length (q_items q)))"
proof -
  from assms(1) obtain Xs where inv: "cq_inv Xs s" and Xs: "items_rel Xs q" by (auto simp: queue_rel_items)
  note size = items_rel_contents [OF Xs]
  obtain els s' Xs' where a: "cq_try_dequeue_bulk max_count s = Some ((of_nat (length els), els), s')"
    "cq_inv Xs' s'" "drains Xs els Xs'" "length els = min (unat max_count) (length (q_items q))"
    by (rule try_dequeue_bulk_spec [OF inv, of max_count, unfolded size])
  have n: "length Xs < 2 ^ 32" using assms(3) cq_length [OF inv] by simp
  obtain els2 token' s2 X2 where b:
    "try_dequeue_bulk_token token max_count s = Some ((of_nat (length els2), els2), token', s2)"
    "cq_inv X2 s2" "drains Xs els2 X2" "token_ok s2 token'" "length els2 = min (unat max_count) (length (q_items q))"
    by (rule token_dequeue_bulk_spec [OF inv assms(2) n, of max_count, unfolded size])
  from queue_rel_drains [OF Xs a(2,3)] queue_rel_drains [OF Xs b(2,3)] a(1,4) b(1,4,5) show ?thesis by blast
qed

theorem dequeue_bulk_refines_witness:
  "\<exists>s s' token' s2. cq_enqueue_bulk 5 ''list'' (ConcurrentQueue_new 0 []) = Some (True, s) \<and>
     cq_try_dequeue_bulk 3 s = Some ((3, ''lis''), s') \<and>
     try_dequeue_bulk_token (fst (ConsumerToken_new s)) 64 s = Some ((4, ''list''), token', s2)"
proof -
  obtain s i Xs where s: "cq_enqueue_bulk 5 ''list'' (ConcurrentQueue_new 0 []) = Some (True, s)" "cq_inv Xs s"
    "items_rel Xs (fold (enqueue i) ''list'' (mpmc_new []))" "length (producers s) = 1"
    by (rule enqueue_bulk_new [of "''list''" 0]) auto
  let ?q = "fold (enqueue i) ''list'' (mpmc_new [])"
  have rel: "queue_rel s ?q" using s(2,3) by (auto simp: queue_rel_items)
  have tok: "token_ok s (fst (ConsumerToken_new s))" by (simp add: ConsumerToken_new_def token_ok_def)
  have n: "length (producers s) < 2 ^ 32" using s(4) by simp
  have items: "q_items ?q = map (Pair i) ''list''" by (simp add: enqueue_def)
  obtain els s' q' where a: "cq_try_dequeue_bulk 3 s = Some ((of_nat (length els), els), s')" "takes ?q els q'"
      "length els = min 3 (length (q_items ?q))"
    using dequeue_bulk_refines [OF rel tok n, of 3] by auto
  obtain els2 token' s2 q2 where b:
      "try_dequeue_bulk_token (fst (ConsumerToken_new s)) 64 s = Some ((of_nat (length els2), els2), token', s2)"
      "takes ?q els2 q2" "length els2 = min 64 (length (q_items ?q))"
    using dequeue_bulk_refines [OF rel tok n, of 64] by auto
  have "length els = 3" "length els2 = 4" using a(3) b(3) items by simp_all
  with takes_one_producer [OF a(2) items] takes_one_producer [OF b(2) items] a(1) b(1) s(1) show ?thesis by simp
qed

text \<open>
  the bulk dequeue of a sub-queue, which works block by block with one update of the counters and
  one \<open>set_many_empty\<close> per block, gives the elements, the producer and the memory that the same number of
  single dequeues gives.\<close>

theorem bulk_dequeue_repeats_dequeue:
  assumes "queues_inv Xs ps q" "i < length ps"
  shows "ip_dequeue_bulk max_count (ps ! i) q =
    map_option (Pair (of_nat (min (unat max_count) (length (Xs ! i)))))
      (dequeue_times (min (unat max_count) (length (Xs ! i))) (ps ! i) q)"
proof -
  from assms(1) obtain H A F where qb: "queues_by H A F Xs ps q" by (auto simp: queues_inv_def)
  let ?U = "\<Union>i < length ps. owned H A Xs i"
  have ip: "ip_inv (H i) (H i + length (Xs ! i)) (A i) (Xs ! i) (ps ! i) q" and pool: "pool_inv ?U F q"
    using qb assms(2) by (simp_all add: queues_by_def)
  have "A i ` live (H i) (H i + length (Xs ! i)) \<subseteq> ?U" using assms(2) by (auto simp: owned_def)
  from ip_dequeue_bulk_times [OF ip pool this] show ?thesis .
qed

theorem bulk_dequeue_repeats_dequeue_witness:
  "\<exists>s. cq_enqueue_bulk 5 (replicate 40 True) (ConcurrentQueue_new 0 []) = Some (True, s) \<and>
     ip_dequeue_bulk 35 (inner (producers s ! 0)) (cpool s) =
       map_option (Pair 35) (dequeue_times 35 (inner (producers s ! 0)) (cpool s))"
proof -
  obtain s where s: "cq_enqueue_bulk 5 (replicate 40 True) (ConcurrentQueue_new 0 []) = Some (True, s)"
    "cq_inv [replicate 40 True] s" "length (producers s) = 1"
    by (rule enqueue_bulk_new [of "replicate 40 True" 0]) auto
  have "queues_inv [replicate 40 True] (map inner (producers s)) (cpool s)" using s(2) by (simp add: cq_inv_def)
  from bulk_dequeue_repeats_dequeue [OF this, of 0 35] s(1,3) show ?thesis by auto
qed

end
