(* ===== verification/LightweightSemaphore.thy ===== *)
theory LightweightSemaphore
  imports Prelude
begin

text \<open>
  \<^verbatim>\<open>src/lightning/moodycamel/lightweightsemaphore.h\<close>: the semaphore on which the consumers of the
  blocking queue sleep. An atomic \<open>m_count\<close> takes the fast path; only when it is not positive does
  a thread go to the kernel semaphore \<open>m_sema\<close>.

  Every atomic access and every system call is one step of one thread, so the interleavings of the
  machine are sequences of steps (sequentially consistent memory). A thread is the method it is
  in (\<open>sem_call\<close>) and the place in its body with the local variables (\<open>sem_loc\<close>). What the outside
  world decides is the \<open>sem_event\<close> of the step: a spurious failure of a weak compare-exchange and
  the result of a system call.

  \<open>ssize_t\<close> counts are \<^typ>\<open>int\<close>: \<open>semaphore_count_bounds\<close> shows that they stay between minus the
  number of threads and the number of permits.
\<close>

section \<open>State\<close>

record sema =
  m_count :: int
  m_sema :: nat
  signalled :: int
  taken :: int

text \<open>\<open>signalled\<close> and \<open>taken\<close> are history: the permits put in by the constructor and \<open>signal\<close>, and
  those that calls have taken out. No step reads them.\<close>

definition LightweightSemaphore_new :: "int \<Rightarrow> sema" where
  "LightweightSemaphore_new initialCount =
     \<lparr>m_count = initialCount, m_sema = 0, signalled = initialCount, taken = 0\<rparr>"

datatype sem_call =
    TryWait
  | Wait int
  | TryWaitMany int
  | WaitMany int int
  | Signal int

datatype sem_loc =
    Idle
  | TryLoad
  | TryCas int
  | Spin int
  | SpinCas int int
  | FetchSub
  | Block
  | ReLoad
  | ReTry
  | ReCas int
  | RestLoad
  | RestCas int
  | SigAdd
  | Post nat
  | Returned int

datatype sem_event = Run | Spurious | Kernel_ok | Kernel_eintr | Kernel_fail

section \<open>The kernel semaphore\<close>

text \<open>
  \<^verbatim>\<open>details::Semaphore\<close> on POSIX. \<open>None\<close> is a call that does not return now; \<open>Some (None, s)\<close> is
  \<open>EINTR\<close>, after which the code calls again; \<open>Some (Some b, s)\<close> returns \<open>b\<close>.
\<close>

definition Semaphore_wait :: "sem_event \<Rightarrow> sema \<Rightarrow> (bool option \<times> sema) option" where
  "Semaphore_wait e s =
     (case e of
        Kernel_ok \<Rightarrow> (if m_sema s > 0 then Some (Some True, s\<lparr>m_sema := m_sema s - 1\<rparr>) else None)
      | Kernel_eintr \<Rightarrow> Some (None, s)
      | Kernel_fail \<Rightarrow> Some (Some False, s)
      | _ \<Rightarrow> None)"

definition Semaphore_try_wait :: "sem_event \<Rightarrow> sema \<Rightarrow> (bool option \<times> sema) option" where
  "Semaphore_try_wait e s =
     (case e of
        Kernel_ok \<Rightarrow> (if m_sema s > 0 then Some (Some True, s\<lparr>m_sema := m_sema s - 1\<rparr>)
                      else Some (Some False, s))
      | Kernel_eintr \<Rightarrow> Some (None, s)
      | Kernel_fail \<Rightarrow> Some (Some False, s)
      | _ \<Rightarrow> None)"

text \<open>The absolute time until which \<open>timed_wait\<close> sleeps, from the clock \<open>(tv_sec, tv_nsec)\<close>.\<close>

definition timed_wait_deadline :: "nat \<Rightarrow> nat \<times> nat \<Rightarrow> nat \<times> nat" where
  "timed_wait_deadline usecs ts =
     (let tv_sec = fst ts + usecs div 1000000;
          tv_nsec = snd ts + usecs mod 1000000 * 1000
      in if tv_nsec \<ge> 1000000000 then (tv_sec + 1, tv_nsec - 1000000000) else (tv_sec, tv_nsec))"

definition Semaphore_timed_wait :: "nat \<Rightarrow> sem_event \<Rightarrow> sema \<Rightarrow> (bool option \<times> sema) option" where
  "Semaphore_timed_wait usecs e s = Semaphore_wait e s"

text \<open>\<open>signal(count)\<close> posts one by one; a failed \<open>sem_post\<close> is tried again.\<close>

definition Semaphore_signal_step :: "sem_event \<Rightarrow> nat \<Rightarrow> sema \<Rightarrow> (nat \<times> sema) option" where
  "Semaphore_signal_step e n s =
     (case e of
        Kernel_ok \<Rightarrow> Some (n - 1, s\<lparr>m_sema := m_sema s + 1\<rparr>)
      | Kernel_fail \<Rightarrow> Some (n, s)
      | _ \<Rightarrow> None)"

section \<open>Atomic operations on the count\<close>

definition take_permits :: "int \<Rightarrow> sema \<Rightarrow> sema" where
  "take_permits n s = s\<lparr>taken := taken s + n\<rparr>"

text \<open>A compare-exchange: the new state, or the value that was found instead.\<close>

definition cas :: "bool \<Rightarrow> sem_event \<Rightarrow> int \<Rightarrow> int \<Rightarrow> sema \<Rightarrow> (sema + int) option" where
  "cas weak e expected desired s =
     (case e of
        Run \<Rightarrow> Some (if m_count s = expected then Inl (s\<lparr>m_count := desired\<rparr>) else Inr (m_count s))
      | Spurious \<Rightarrow> (if weak then Some (Inr (m_count s)) else None)
      | _ \<Rightarrow> None)"

definition load :: "sem_event \<Rightarrow> sema \<Rightarrow> int option" where
  "load e s = (if e = Run then Some (m_count s) else None)"

definition fetch_sub :: "sem_event \<Rightarrow> sema \<Rightarrow> (int \<times> sema) option" where
  "fetch_sub e s = (if e = Run then Some (m_count s, s\<lparr>m_count := m_count s - 1\<rparr>) else None)"

definition fetch_add :: "sem_event \<Rightarrow> int \<Rightarrow> sema \<Rightarrow> (int \<times> sema) option" where
  "fetch_add e n s =
     (if e = Run then Some (m_count s, s\<lparr>m_count := m_count s + n, signalled := signalled s + n\<rparr>)
      else None)"

section \<open>The methods, step by step\<close>

text \<open>\<open>tryWait\<close>; when it fails, \<open>wait\<close> goes on to \<open>waitWithPartialSpinning\<close>.\<close>

definition after_tryWait :: "int \<Rightarrow> sem_call \<Rightarrow> sem_loc" where
  "after_tryWait maxSpins c = (case c of Wait _ \<Rightarrow> Spin maxSpins | _ \<Rightarrow> Returned 0)"

definition tryWait_loop :: "int \<Rightarrow> sem_call \<Rightarrow> int \<Rightarrow> sem_loc" where
  "tryWait_loop maxSpins c old = (if old > 0 then TryCas old else after_tryWait maxSpins c)"

fun tryWait_step :: "int \<Rightarrow> sem_call \<Rightarrow> sem_event \<Rightarrow> sem_loc \<Rightarrow> sema \<Rightarrow> (sem_loc \<times> sema) option" where
  "tryWait_step maxSpins c e TryLoad s =
     map_option (\<lambda>old. (tryWait_loop maxSpins c old, s)) (load e s)"
| "tryWait_step maxSpins c e (TryCas old) s =
     map_option (\<lambda>r. case r of
         Inl s' \<Rightarrow> (Returned 1, take_permits 1 s')
       | Inr cur \<Rightarrow> (tryWait_loop maxSpins c cur, s)) (cas True e old (old - 1) s)"
| "tryWait_step maxSpins c e _ s = None"

definition after_fetch_sub :: "int \<Rightarrow> int \<Rightarrow> sema \<Rightarrow> sem_loc \<times> sema" where
  "after_fetch_sub timeout old s =
     (if old > 0 then (Returned 1, take_permits 1 s)
      else if timeout = 0 then (ReLoad, s) else (Block, s))"

text \<open>The kernel wait of a call with a timeout: none when it is 0, without a limit when it is
  negative.\<close>

definition kernel_wait :: "int \<Rightarrow> sem_event \<Rightarrow> sema \<Rightarrow> (bool option \<times> sema) option" where
  "kernel_wait timeout e s =
     (if timeout < 0 then Semaphore_wait e s
      else if timeout > 0 then Semaphore_timed_wait (nat timeout) e s
      else Some (Some False, s))"

fun waitWithPartialSpinning_step ::
    "int \<Rightarrow> sem_event \<Rightarrow> sem_loc \<Rightarrow> sema \<Rightarrow> (sem_loc \<times> sema) option" where
  "waitWithPartialSpinning_step timeout e (Spin spin) s =
     (if spin - 1 \<ge> 0
      then map_option (\<lambda>old. (if old > 0 then SpinCas (spin - 1) old else Spin (spin - 1), s)) (load e s)
      else if e = Run then Some (FetchSub, s) else None)"
| "waitWithPartialSpinning_step timeout e (SpinCas spin old) s =
     map_option (\<lambda>r. case r of
         Inl s' \<Rightarrow> (Returned 1, take_permits 1 s')
       | Inr cur \<Rightarrow> (Spin spin, s)) (cas False e old (old - 1) s)"
| "waitWithPartialSpinning_step timeout e FetchSub s =
     map_option (\<lambda>(old, s'). after_fetch_sub timeout old s') (fetch_sub e s)"
| "waitWithPartialSpinning_step timeout e Block s =
     map_option (\<lambda>(r, s'). case r of
         None \<Rightarrow> (Block, s')
       | Some True \<Rightarrow> (Returned 1, take_permits 1 s')
       | Some False \<Rightarrow> (ReLoad, s')) (kernel_wait timeout e s)"
| "waitWithPartialSpinning_step timeout e ReLoad s =
     map_option (\<lambda>old. (if old \<ge> 0 then ReTry else ReCas old, s)) (load e s)"
| "waitWithPartialSpinning_step timeout e ReTry s =
     map_option (\<lambda>(r, s'). case r of
         None \<Rightarrow> (ReTry, s')
       | Some True \<Rightarrow> (Returned 1, take_permits 1 s')
       | Some False \<Rightarrow> (ReLoad, s')) (Semaphore_try_wait e s)"
| "waitWithPartialSpinning_step timeout e (ReCas old) s =
     map_option (\<lambda>r. case r of
         Inl s' \<Rightarrow> (Returned 0, s')
       | Inr cur \<Rightarrow> (ReLoad, s)) (cas False e old (old + 1) s)"
| "waitWithPartialSpinning_step timeout e _ s = None"

text \<open>\<open>tryWaitMany\<close> takes between 0 and \<open>mx\<close> permits; \<open>waitMany\<close> goes on to sleep when it got
  none and wants some.\<close>

definition many_new_count :: "int \<Rightarrow> int \<Rightarrow> int" where
  "many_new_count mx old = (if old > mx then old - mx else 0)"

definition after_tryWaitMany :: "int \<Rightarrow> sem_call \<Rightarrow> int \<Rightarrow> sem_loc" where
  "after_tryWaitMany maxSpins c result =
     (case c of WaitMany mx _ \<Rightarrow> if result = 0 \<and> mx > 0 then Spin maxSpins else Returned result
      | _ \<Rightarrow> Returned result)"

definition tryWaitMany_loop :: "int \<Rightarrow> sem_call \<Rightarrow> int \<Rightarrow> sem_loc" where
  "tryWaitMany_loop maxSpins c old = (if old > 0 then TryCas old else after_tryWaitMany maxSpins c 0)"

fun tryWaitMany_step ::
    "int \<Rightarrow> sem_call \<Rightarrow> int \<Rightarrow> sem_event \<Rightarrow> sem_loc \<Rightarrow> sema \<Rightarrow> (sem_loc \<times> sema) option" where
  "tryWaitMany_step maxSpins c mx e TryLoad s =
     map_option (\<lambda>old. (tryWaitMany_loop maxSpins c old, s)) (load e s)"
| "tryWaitMany_step maxSpins c mx e (TryCas old) s =
     map_option (\<lambda>r. case r of
         Inl s' \<Rightarrow> (after_tryWaitMany maxSpins c (old - many_new_count mx old),
                    take_permits (old - many_new_count mx old) s')
       | Inr cur \<Rightarrow> (tryWaitMany_loop maxSpins c cur, s)) (cas True e old (many_new_count mx old) s)"
| "tryWaitMany_step maxSpins c mx e _ s = None"

text \<open>The end of \<open>waitManyWithPartialSpinning\<close>: one permit is held, \<open>mx - 1\<close> more are tried.\<close>

definition rest_of_many :: "int \<Rightarrow> sem_loc" where
  "rest_of_many mx = (if mx > 1 then RestLoad else Returned 1)"

definition rest_loop :: "int \<Rightarrow> sem_loc" where
  "rest_loop old = (if old > 0 then RestCas old else Returned 1)"

definition after_fetch_sub_many :: "int \<Rightarrow> int \<Rightarrow> int \<Rightarrow> sema \<Rightarrow> sem_loc \<times> sema" where
  "after_fetch_sub_many mx timeout old s =
     (if old > 0 then (rest_of_many mx, take_permits 1 s)
      else if timeout = 0 then (ReLoad, s) else (Block, s))"

fun waitManyWithPartialSpinning_step ::
    "int \<Rightarrow> int \<Rightarrow> sem_event \<Rightarrow> sem_loc \<Rightarrow> sema \<Rightarrow> (sem_loc \<times> sema) option" where
  "waitManyWithPartialSpinning_step mx timeout e (Spin spin) s =
     (if spin - 1 \<ge> 0
      then map_option (\<lambda>old. (if old > 0 then SpinCas (spin - 1) old else Spin (spin - 1), s)) (load e s)
      else if e = Run then Some (FetchSub, s) else None)"
| "waitManyWithPartialSpinning_step mx timeout e (SpinCas spin old) s =
     map_option (\<lambda>r. case r of
         Inl s' \<Rightarrow> (Returned (old - many_new_count mx old),
                    take_permits (old - many_new_count mx old) s')
       | Inr cur \<Rightarrow> (Spin spin, s)) (cas False e old (many_new_count mx old) s)"
| "waitManyWithPartialSpinning_step mx timeout e FetchSub s =
     map_option (\<lambda>(old, s'). after_fetch_sub_many mx timeout old s') (fetch_sub e s)"
| "waitManyWithPartialSpinning_step mx timeout e Block s =
     map_option (\<lambda>(r, s'). case r of
         None \<Rightarrow> (Block, s')
       | Some True \<Rightarrow> (rest_of_many mx, take_permits 1 s')
       | Some False \<Rightarrow> (ReLoad, s')) (kernel_wait timeout e s)"
| "waitManyWithPartialSpinning_step mx timeout e ReLoad s =
     map_option (\<lambda>old. (if old \<ge> 0 then ReTry else ReCas old, s)) (load e s)"
| "waitManyWithPartialSpinning_step mx timeout e ReTry s =
     map_option (\<lambda>(r, s'). case r of
         None \<Rightarrow> (ReTry, s')
       | Some True \<Rightarrow> (rest_of_many mx, take_permits 1 s')
       | Some False \<Rightarrow> (ReLoad, s')) (Semaphore_try_wait e s)"
| "waitManyWithPartialSpinning_step mx timeout e (ReCas old) s =
     map_option (\<lambda>r. case r of
         Inl s' \<Rightarrow> (Returned 0, s')
       | Inr cur \<Rightarrow> (ReLoad, s)) (cas False e old (old + 1) s)"
| "waitManyWithPartialSpinning_step mx timeout e RestLoad s =
     map_option (\<lambda>old. (rest_loop old, s)) (load e s)"
| "waitManyWithPartialSpinning_step mx timeout e (RestCas old) s =
     map_option (\<lambda>r. case r of
         Inl s' \<Rightarrow> (Returned (1 + (old - many_new_count (mx - 1) old)),
                    take_permits (old - many_new_count (mx - 1) old) s')
       | Inr cur \<Rightarrow> (rest_loop cur, s)) (cas True e old (many_new_count (mx - 1) old) s)"
| "waitManyWithPartialSpinning_step mx timeout e _ s = None"

definition toRelease :: "int \<Rightarrow> int \<Rightarrow> int" where
  "toRelease old count = (if - old < count then - old else count)"

fun signal_step :: "int \<Rightarrow> sem_event \<Rightarrow> sem_loc \<Rightarrow> sema \<Rightarrow> (sem_loc \<times> sema) option" where
  "signal_step count e SigAdd s =
     map_option (\<lambda>(old, s'). (if toRelease old count > 0 then Post (nat (toRelease old count))
                              else Returned 0, s')) (fetch_add e count s)"
| "signal_step count e (Post n) s =
     (if n > 0 then map_option (\<lambda>(n', s'). (Post n', s')) (Semaphore_signal_step e n s)
      else if e = Run then Some (Returned 0, s) else None)"
| "signal_step count e _ s = None"

definition availableApprox :: "sema \<Rightarrow> nat" where
  "availableApprox s = (if m_count s > 0 then nat (m_count s) else 0)"

section \<open>Threads\<close>

text \<open>\<open>wait\<close> is \<open>tryWait() || waitWithPartialSpinning(timeout)\<close>, \<open>waitMany\<close> first calls
  \<open>tryWaitMany\<close>.\<close>

definition in_try :: "sem_loc \<Rightarrow> bool" where
  "in_try l = (case l of TryLoad \<Rightarrow> True | TryCas _ \<Rightarrow> True | _ \<Rightarrow> False)"

definition thread_step ::
    "int \<Rightarrow> sem_call \<Rightarrow> sem_event \<Rightarrow> sem_loc \<Rightarrow> sema \<Rightarrow> (sem_loc \<times> sema) option" where
  "thread_step maxSpins c e l s =
     (case c of
        TryWait \<Rightarrow> tryWait_step maxSpins c e l s
      | Wait timeout \<Rightarrow>
          if in_try l then tryWait_step maxSpins c e l s
          else waitWithPartialSpinning_step timeout e l s
      | TryWaitMany mx \<Rightarrow> tryWaitMany_step maxSpins c mx e l s
      | WaitMany mx timeout \<Rightarrow>
          if in_try l then tryWaitMany_step maxSpins c mx e l s
          else waitManyWithPartialSpinning_step mx timeout e l s
      | Signal count \<Rightarrow> signal_step count e l s)"

text \<open>What the assertions at the head of the methods require.\<close>

definition call_ok :: "sem_call \<Rightarrow> bool" where
  "call_ok c = (case c of TryWaitMany mx \<Rightarrow> mx \<ge> 0 | WaitMany mx _ \<Rightarrow> mx \<ge> 0
     | Signal count \<Rightarrow> count \<ge> 0 | _ \<Rightarrow> True)"

definition entry_loc :: "sem_call \<Rightarrow> sem_loc" where
  "entry_loc c = (case c of Signal _ \<Rightarrow> SigAdd | _ \<Rightarrow> TryLoad)"

record sem_sys =
  the_sema :: sema
  sem_threads :: "(sem_call \<times> sem_loc) list"

datatype sem_label = Begin nat sem_call | Step nat sem_event

definition outside :: "sem_loc \<Rightarrow> bool" where
  "outside l = (case l of Idle \<Rightarrow> True | Returned _ \<Rightarrow> True | _ \<Rightarrow> False)"

fun sem_next :: "int \<Rightarrow> sem_label \<Rightarrow> sem_sys \<Rightarrow> sem_sys option" where
  "sem_next maxSpins (Begin i c) st =
     (if i < length (sem_threads st) \<and> outside (snd (sem_threads st ! i)) \<and> call_ok c
      then Some (st\<lparr>sem_threads := (sem_threads st)[i := (c, entry_loc c)]\<rparr>) else None)"
| "sem_next maxSpins (Step i e) st =
     (if i < length (sem_threads st)
      then map_option (\<lambda>(l, s). st\<lparr>the_sema := s,
               sem_threads := (sem_threads st)[i := (fst (sem_threads st ! i), l)]\<rparr>)
             (thread_step maxSpins (fst (sem_threads st ! i)) e (snd (sem_threads st ! i)) (the_sema st))
      else None)"

definition sem_start :: "int \<Rightarrow> nat \<Rightarrow> sem_sys" where
  "sem_start initialCount n =
     \<lparr>the_sema = LightweightSemaphore_new initialCount, sem_threads = replicate n (TryWait, Idle)\<rparr>"

inductive sem_reach :: "int \<Rightarrow> int \<Rightarrow> nat \<Rightarrow> sem_sys \<Rightarrow> bool" for maxSpins initialCount n where
  sem_init: "sem_reach maxSpins initialCount n (sem_start initialCount n)"
| sem_step: "sem_reach maxSpins initialCount n st \<Longrightarrow> sem_next maxSpins l st = Some st' \<Longrightarrow>
    sem_reach maxSpins initialCount n st'"

fun sem_run :: "int \<Rightarrow> sem_label list \<Rightarrow> sem_sys \<Rightarrow> sem_sys option" where
  "sem_run maxSpins [] st = Some st"
| "sem_run maxSpins (l # ls) st =
     (case sem_next maxSpins l st of None \<Rightarrow> None | Some st' \<Rightarrow> sem_run maxSpins ls st')"

lemma sem_run_reach:
  "sem_reach maxSpins initialCount n st \<Longrightarrow> sem_run maxSpins ls st = Some st' \<Longrightarrow>
     sem_reach maxSpins initialCount n st'"
  by (induction ls arbitrary: st) (auto split: option.splits intro: sem_step)

section \<open>Accounting of permits\<close>

text \<open>\<open>waiting\<close>: the thread has decremented the count without getting a permit for it.
  \<open>posting\<close>: the kernel permits that a thread inside \<open>signal\<close> has still to post.\<close>

definition waiting :: "sem_loc \<Rightarrow> int" where
  "waiting l = (case l of Block \<Rightarrow> 1 | ReLoad \<Rightarrow> 1 | ReTry \<Rightarrow> 1 | ReCas _ \<Rightarrow> 1 | _ \<Rightarrow> 0)"

definition posting :: "sem_loc \<Rightarrow> int" where
  "posting l = (case l of Post n \<Rightarrow> int n | _ \<Rightarrow> 0)"

definition loc_ok :: "sem_call \<Rightarrow> sem_loc \<Rightarrow> bool" where
  "loc_ok c l \<longleftrightarrow> call_ok c \<and>
     (case l of TryCas old \<Rightarrow> old > 0 | SpinCas _ old \<Rightarrow> old > 0 | RestCas old \<Rightarrow> old > 0
      | ReCas old \<Rightarrow> old < 0 | _ \<Rightarrow> True) \<and>
     (case c of WaitMany mx _ \<Rightarrow> outside l \<or> in_try l \<or> mx > 0 | _ \<Rightarrow> True) \<and>
     (case l of RestLoad \<Rightarrow> (case c of WaitMany mx _ \<Rightarrow> mx > 1 | _ \<Rightarrow> False)
      | RestCas _ \<Rightarrow> (case c of WaitMany mx _ \<Rightarrow> mx > 1 | _ \<Rightarrow> False) | _ \<Rightarrow> True)"

text \<open>What the waiting threads are owed, and the permits put in that are neither taken nor available
  nor posted.\<close>

definition uncovered :: "sema \<Rightarrow> int" where
  "uncovered s = max 0 (- m_count s) + int (m_sema s)"

definition in_flight :: "sema \<Rightarrow> int" where
  "in_flight s = signalled s - taken s - max 0 (m_count s) - int (m_sema s)"

named_theorems sem_simps "unfolding one step of a thread"
declare waiting_def [sem_simps] posting_def [sem_simps] loc_ok_def [sem_simps] uncovered_def [sem_simps]
  in_flight_def [sem_simps] after_tryWait_def [sem_simps] tryWait_loop_def [sem_simps]
  after_fetch_sub_def [sem_simps] kernel_wait_def [sem_simps] many_new_count_def [sem_simps]
  after_tryWaitMany_def [sem_simps] tryWaitMany_loop_def [sem_simps] rest_of_many_def [sem_simps]
  rest_loop_def [sem_simps] after_fetch_sub_many_def [sem_simps] toRelease_def [sem_simps]
  Semaphore_wait_def [sem_simps] Semaphore_try_wait_def [sem_simps] Semaphore_timed_wait_def [sem_simps]
  Semaphore_signal_step_def [sem_simps] load_def [sem_simps] cas_def [sem_simps] fetch_sub_def [sem_simps]
  fetch_add_def [sem_simps] take_permits_def [sem_simps] outside_def [sem_simps] in_try_def [sem_simps]
  call_ok_def [sem_simps]

definition step_ok :: "sem_call \<Rightarrow> sem_loc \<Rightarrow> sema \<Rightarrow> sem_loc \<Rightarrow> sema \<Rightarrow> bool" where
  "step_ok c l s l' s' \<longleftrightarrow> loc_ok c l' \<and>
     waiting l' - posting l' - uncovered s' = waiting l - posting l - uncovered s \<and>
     in_flight s' - posting l' = in_flight s - posting l"

lemma tryWait_step_ok:
  assumes "tryWait_step maxSpins c e l s = Some (l', s')" "loc_ok c l" "c = TryWait \<or> c = Wait timeout"
  shows "step_ok c l s l' s'"
  using assms
  by (cases "(maxSpins, c, e, l, s)" rule: tryWait_step.cases)
    (auto simp: step_ok_def sem_simps split: if_splits sem_event.splits sum.splits option.splits)

lemma waitWithPartialSpinning_step_ok:
  assumes "waitWithPartialSpinning_step timeout e l s = Some (l', s')" "loc_ok (Wait timeout) l"
  shows "step_ok (Wait timeout) l s l' s'"
  using assms
  by (cases "(timeout, e, l, s)" rule: waitWithPartialSpinning_step.cases)
    (auto simp: step_ok_def sem_simps split: if_splits sem_event.splits sum.splits option.splits bool.splits)

lemma tryWaitMany_step_ok:
  assumes "tryWaitMany_step maxSpins c mx e l s = Some (l', s')" "loc_ok c l"
    "c = TryWaitMany mx \<or> c = WaitMany mx timeout"
  shows "step_ok c l s l' s'"
  using assms
  by (cases "(maxSpins, c, mx, e, l, s)" rule: tryWaitMany_step.cases)
    (auto simp: step_ok_def sem_simps split: if_splits sem_event.splits sum.splits option.splits)

lemma waitManyWithPartialSpinning_step_ok:
  assumes "waitManyWithPartialSpinning_step mx timeout e l s = Some (l', s')"
    "loc_ok (WaitMany mx timeout) l" "\<not> in_try l"
  shows "step_ok (WaitMany mx timeout) l s l' s'"
  using assms
  by (cases "(mx, timeout, e, l, s)" rule: waitManyWithPartialSpinning_step.cases)
    (auto simp: step_ok_def sem_simps split: if_splits sem_event.splits sum.splits option.splits bool.splits)

lemma signal_step_ok:
  assumes "signal_step count e l s = Some (l', s')" "loc_ok (Signal count) l"
  shows "step_ok (Signal count) l s l' s'"
  using assms
  by (cases "(count, e, l, s)" rule: signal_step.cases)
    (auto simp: step_ok_def sem_simps split: if_splits sem_event.splits)

lemma thread_step_ok:
  assumes "thread_step maxSpins c e l s = Some (l', s')" "loc_ok c l"
  shows "step_ok c l s l' s'"
  using assms unfolding thread_step_def
  by (auto split: sem_call.splits if_splits
      dest: tryWait_step_ok waitWithPartialSpinning_step_ok tryWaitMany_step_ok
        waitManyWithPartialSpinning_step_ok signal_step_ok)

section \<open>The invariant of the whole system\<close>

definition sum_threads :: "(sem_loc \<Rightarrow> int) \<Rightarrow> sem_sys \<Rightarrow> int" where
  "sum_threads f st = (\<Sum>t\<leftarrow>sem_threads st. f (snd t))"

definition sem_inv :: "sem_sys \<Rightarrow> bool" where
  "sem_inv st \<longleftrightarrow> (\<forall>t \<in> set (sem_threads st). snd t = Idle \<or> loc_ok (fst t) (snd t)) \<and>
     sum_threads waiting st = sum_threads posting st + uncovered (the_sema st) \<and>
     in_flight (the_sema st) = sum_threads posting st"

lemma sum_list_map_update:
  fixes f :: "'a \<Rightarrow> int"
  shows "i < length xs \<Longrightarrow> (\<Sum>x\<leftarrow>xs[i := y]. f x) = (\<Sum>x\<leftarrow>xs. f x) - f (xs ! i) + f y"
proof (induction xs arbitrary: i)
  case (Cons x xs)
  then show ?case by (cases i) auto
qed simp

lemma total_update:
  "i < length (sem_threads st) \<Longrightarrow> sum_threads f (st\<lparr>sem_threads := (sem_threads st)[i := (c, l)]\<rparr>)
     = sum_threads f st - f (snd (sem_threads st ! i)) + f l"
  by (simp add: sum_threads_def sum_list_map_update)

lemma total_sema [simp]: "sum_threads f (st\<lparr>the_sema := s, sem_threads := ts\<rparr>) = sum_threads f (st\<lparr>sem_threads := ts\<rparr>)"
  by (simp add: sum_threads_def)

lemma outside_idle:
  assumes "outside l"
  shows "waiting l = 0" "posting l = 0"
  using assms by (auto simp: sem_simps split: sem_loc.splits)

lemma entry_ok:
  assumes "call_ok c"
  shows "loc_ok c (entry_loc c)" "waiting (entry_loc c) = 0" "posting (entry_loc c) = 0"
  using assms by (auto simp: sem_simps entry_loc_def split: sem_call.splits)

lemma set_update_ball:
  "\<forall>x \<in> set xs. P x \<Longrightarrow> P y \<Longrightarrow> \<forall>x \<in> set (xs[i := y]). P x"
  using set_update_subset_insert [of xs i y] by auto

lemma sem_inv_start: "0 \<le> initialCount \<Longrightarrow> sem_inv (sem_start initialCount n)"
  by (auto simp: sem_inv_def sem_start_def sum_threads_def LightweightSemaphore_new_def sem_simps)
    (auto simp: map_replicate sum_list_replicate sem_simps)

lemma thread_step_not_idle: "thread_step maxSpins c e l s = Some r \<Longrightarrow> l \<noteq> Idle"
  by (auto simp: thread_step_def split: sem_call.splits if_splits)

lemma sem_inv_next:
  assumes "sem_inv st" "sem_next maxSpins lb st = Some st'"
  shows "sem_inv st'"
proof (cases lb)
  case (Begin i c)
  with assms(2) have i: "i < length (sem_threads st)" "outside (snd (sem_threads st ! i))" "call_ok c"
    and st': "st' = st\<lparr>sem_threads := (sem_threads st)[i := (c, entry_loc c)]\<rparr>"
    by (auto split: if_splits)
  have ts: "sem_threads st' = (sem_threads st)[i := (c, entry_loc c)]" by (simp add: st')
  have "\<forall>t \<in> set (sem_threads st'). snd t = Idle \<or> loc_ok (fst t) (snd t)"
    unfolding ts
    by (rule set_update_ball) (use assms(1) entry_ok(1) [OF i(3)] in \<open>simp_all add: sem_inv_def\<close>)
  with assms(1) show ?thesis unfolding st'
    by (simp add: sem_inv_def total_update i(1) outside_idle [OF i(2)] entry_ok [OF i(3)])
next
  case (Step i e)
  define c l where "c = fst (sem_threads st ! i)" and "l = snd (sem_threads st ! i)"
  with assms(2) Step obtain l' s' where i: "i < length (sem_threads st)"
    and step: "thread_step maxSpins c e l (the_sema st) = Some (l', s')"
    and st': "st' = st\<lparr>the_sema := s', sem_threads := (sem_threads st)[i := (c, l')]\<rparr>"
    by (auto split: if_splits)
  have "loc_ok c l" using assms(1) i thread_step_not_idle [OF step]
    by (auto simp: sem_inv_def c_def l_def)
  from thread_step_ok [OF step this] have ok: "step_ok c l (the_sema st) l' s'" .
  have ts: "sem_threads st' = (sem_threads st)[i := (c, l')]" by (simp add: st')
  have "\<forall>t \<in> set (sem_threads st'). snd t = Idle \<or> loc_ok (fst t) (snd t)"
    unfolding ts
    by (rule set_update_ball) (use assms(1) ok in \<open>simp_all add: sem_inv_def step_ok_def\<close>)
  moreover have tot: "sum_threads f st' = sum_threads f st - f l + f l'" for f
    unfolding st' total_sema total_update [OF i] by (simp add: l_def)
  moreover have "the_sema st' = s'" by (simp add: st')
  ultimately show ?thesis
    using assms(1) ok unfolding sem_inv_def step_ok_def by (simp only:) linarith
qed

lemma sem_reach_inv: "sem_reach maxSpins initialCount n st \<Longrightarrow> 0 \<le> initialCount \<Longrightarrow> sem_inv st"
  by (induction rule: sem_reach.induct) (auto intro: sem_inv_start sem_inv_next)

lemma total_nonneg: "(\<And>l. 0 \<le> f l) \<Longrightarrow> 0 \<le> sum_threads f st"
  unfolding sum_threads_def by (intro sum_list_nonneg) auto

lemma total_ge: "(\<And>l. 0 \<le> f l) \<Longrightarrow> i < length (sem_threads st) \<Longrightarrow> f (snd (sem_threads st ! i)) \<le> sum_threads f st"
  unfolding sum_threads_def using member_le_sum_list [of "f (snd (sem_threads st ! i))" "map (f \<circ> snd) (sem_threads st)"]
  by (fastforce simp: comp_def)

lemma total_le_length: "(\<And>l. f l \<le> 1) \<Longrightarrow> sum_threads f st \<le> int (length (sem_threads st))"
  unfolding sum_threads_def using sum_list_mono [of "sem_threads st" "\<lambda>t. f (snd t)" "\<lambda>_. 1"]
  by (simp add: sum_list_triv)

lemma waiting_bounds: "0 \<le> waiting l" "waiting l \<le> 1" and posting_nonneg: "0 \<le> posting l"
  by (auto simp: sem_simps split: sem_loc.splits)

lemma sem_threads_length: "sem_reach maxSpins initialCount n st \<Longrightarrow> length (sem_threads st) = n"
proof (induction rule: sem_reach.induct)
  case (sem_step st l st')
  then show ?case by (cases l) (auto split: if_splits)
qed (simp add: sem_start_def)

lemma semaphore_count_bounds:
  assumes "sem_reach maxSpins initialCount n st" "0 \<le> initialCount"
  shows "- int n \<le> m_count (the_sema st)" "m_count (the_sema st) \<le> signalled (the_sema st) - taken (the_sema st)"
    "taken (the_sema st) \<le> signalled (the_sema st)"
proof -
  note inv = sem_reach_inv [OF assms]
  have "sum_threads waiting st \<le> int n" "0 \<le> sum_threads posting st"
    using total_le_length [of waiting st, OF waiting_bounds(2)] total_nonneg [OF posting_nonneg]
      sem_threads_length [OF assms(1)] by simp_all
  with inv show "- int n \<le> m_count (the_sema st)"
    "m_count (the_sema st) \<le> signalled (the_sema st) - taken (the_sema st)"
    "taken (the_sema st) \<le> signalled (the_sema st)"
    unfolding sem_inv_def uncovered_def in_flight_def by linarith+
qed

section \<open>Properties\<close>

text \<open>
  C24: the books of the semaphore balance in every interleaving. The permits put in are the
  permits taken by calls, the positive part of the count, the permits in the kernel semaphore and
  those still to be posted; the threads that sleep or are about to give up are as many as the
  count is below zero plus the kernel permits meant for them. So no permit is handed out twice
  and none is lost, whatever spins, sleeps, times out or is interrupted.\<close>

theorem semaphore_accounting:
  assumes "sem_reach maxSpins initialCount n st" "0 \<le> initialCount"
  shows "signalled (the_sema st) =
      taken (the_sema st) + max 0 (m_count (the_sema st)) + int (m_sema (the_sema st)) + sum_threads posting st \<and>
    sum_threads waiting st =
      max 0 (- m_count (the_sema st)) + int (m_sema (the_sema st)) + sum_threads posting st \<and>
    taken (the_sema st) \<le> signalled (the_sema st) \<and> - int n \<le> m_count (the_sema st)"
  using sem_reach_inv [OF assms] semaphore_count_bounds [OF assms]
  by (simp add: sem_inv_def uncovered_def in_flight_def)

definition sleeper_run :: "sem_label list" where
  "sleeper_run =
     [Begin 0 (Wait (- 1)), Step 0 Run, Step 0 Run, Step 0 Run,
      Begin 1 (Signal 1), Step 1 Run, Step 1 Kernel_ok]"

definition sleeper_state :: sem_sys where
  "sleeper_state = \<lparr>the_sema = \<lparr>m_count = 0, m_sema = 1, signalled = 1, taken = 0\<rparr>,
     sem_threads = [(Wait (- 1), Block), (Signal 1, Post 0)]\<rparr>"

lemma sleeper_reach: "sem_reach 0 0 2 sleeper_state"
proof (rule sem_run_reach [OF sem_init])
  show "sem_run 0 sleeper_run (sem_start 0 2) = Some sleeper_state"
    by (simp add: sleeper_run_def sem_start_def LightweightSemaphore_new_def sleeper_state_def
        numeral_2_eq_2 thread_step_def entry_loc_def sem_simps)
qed

theorem semaphore_accounting_witness:
  "signalled (the_sema sleeper_state) = 1 \<and>
   taken (the_sema sleeper_state) \<le> signalled (the_sema sleeper_state)"
  using semaphore_accounting [OF sleeper_reach] by (simp add: sleeper_state_def)

text \<open>
  C31: no wake-up is lost. If a permit has been put in that no call has taken, and every
  \<open>signal\<close> has done its posting, then a thread sleeping in \<open>wait\<close> can go: the kernel semaphore is
  positive and the thread returns with a permit.\<close>

theorem sleeper_is_woken:
  assumes "sem_reach maxSpins initialCount n st" "0 \<le> initialCount"
    and "i < n" "sem_threads st ! i = (Wait timeout, Block)" "timeout \<noteq> 0"
    and "taken (the_sema st) < signalled (the_sema st)"
    and "\<forall>t \<in> set (sem_threads st). posting (snd t) = 0"
  shows "\<exists>st'. sem_next maxSpins (Step i Kernel_ok) st = Some st' \<and>
    sem_threads st' ! i = (Wait timeout, Returned 1) \<and>
    taken (the_sema st') = taken (the_sema st) + 1"
proof -
  note inv = sem_reach_inv [OF assms(1,2)]
  have i: "i < length (sem_threads st)" using assms(1,3) sem_threads_length by simp
  have "sum_threads posting st = 0"
    unfolding sum_threads_def using assms(7) by (simp cong: map_cong)
  moreover have "1 \<le> sum_threads waiting st"
    using total_ge [of waiting, OF waiting_bounds(1) i] assms(4) by (simp add: waiting_def)
  ultimately have "0 < m_sema (the_sema st)"
    using inv assms(6) unfolding sem_inv_def uncovered_def in_flight_def by linarith
  with i assms(4,5) show ?thesis by (auto simp: thread_step_def sem_simps)
qed

theorem sleeper_is_woken_witness:
  "\<exists>st'. sem_next 0 (Step 0 Kernel_ok) sleeper_state = Some st' \<and>
    sem_threads st' ! 0 = (Wait (- 1), Returned 1) \<and> taken (the_sema st') = 0 + 1"
  using sleeper_is_woken [OF sleeper_reach, of 0 "- 1"] by (simp add: sleeper_state_def posting_def)

text \<open>
  The deadline that \<open>timed_wait\<close> passes to the kernel is the present time plus the
  microseconds asked for, and its nanoseconds are below one second, as the kernel requires.\<close>

theorem timed_wait_deadline_normalised:
  assumes "snd ts < 1000000000" "timed_wait_deadline usecs ts = (tv_sec, tv_nsec)"
  shows "tv_nsec < 1000000000 \<and>
    tv_sec * 1000000000 + tv_nsec = fst ts * 1000000000 + snd ts + usecs * 1000"
proof -
  have "usecs * 1000 = usecs div 1000000 * 1000000000 + usecs mod 1000000 * 1000"
    using div_mult_mod_eq [of usecs 1000000] by linarith
  moreover have "usecs mod 1000000 < 1000000" by simp
  ultimately show ?thesis using assms
    by (auto simp: timed_wait_deadline_def Let_def split: if_splits)
qed

theorem timed_wait_deadline_normalised_witness:
  "timed_wait_deadline 2500000 (10, 700000000) = (13, 200000000) \<and> (200000000 :: nat) < 1000000000"
  using timed_wait_deadline_normalised [of "(10, 700000000)" 2500000 13 200000000]
  by (simp add: timed_wait_deadline_def)

end
