(* ===== verification/BlockingQueue.thy ===== *)
theory BlockingQueue
  imports QueueBulk LightweightSemaphore
begin

text \<open>
  \<^verbatim>\<open>src/lightning/moodycamel/blockingconcurrentqueue.h\<close>: \<open>BlockingConcurrentQueue\<close>, the queue on which the
  executor's threads sleep. It puts a semaphore beside a \<open>ConcurrentQueue\<close>: an enqueue signals, a
  dequeue first takes a permit and then spins until the inner queue gives an element.

  Each client thread is in one method (\<open>bq_call\<close>) at one place (\<open>bq_loc\<close>) and has one consumer token
  for the overloads that take one. The semaphore runs step by step as in \<open>LightweightSemaphore\<close>,
  interleaved with the other threads; an operation on the inner queue is one step. The methods on
  single elements and the bulk methods are modelled, without producer tokens.
\<close>

section \<open>Clients\<close>

datatype 'a bq_call =
    Enqueue 'a
  | TryEnqueue 'a
  | EnqueueBulk "'a list"
  | TryEnqueueBulk "'a list"
  | TryDequeue bool
  | WaitDequeue bool
  | WaitDequeueTimed bool int
  | TryDequeueBulk bool size_t
  | WaitDequeueBulk bool size_t
  | WaitDequeueBulkTimed bool size_t int

text \<open>
  The flag of the dequeues says whether the call is the overload with a consumer token. \<open>Taking\<close> is the
  loop \<^verbatim>\<open>while (count != max)\<close> of the bulk dequeues, with \<open>max\<close>, \<open>count\<close> and the elements taken so far.
\<close>

datatype 'a bq_loc =
    Outside
  | AtInner
  | InSema
  | HasPermit
  | Taking size_t size_t "'a list"
  | ReturnedBool bool
  | ReturnedItem 'a
  | ReturnedBulk size_t "'a list"

record 'a client =
  client_tid :: thread_id
  client_token :: consumer_token
  client_call :: "'a bq_call"
  client_loc :: "'a bq_loc"

record 'a bcq =
  bq_inner :: "'a cq"
  bq_sema :: sem_sys
  clients :: "'a client list"

definition client_new :: "thread_id \<Rightarrow> consumer_token \<Rightarrow> 'a client" where
  "client_new tid token =
     \<lparr>client_tid = tid, client_token = token, client_call = TryDequeue False, client_loc = Outside\<rparr>"

text \<open>One consumer token for each thread.\<close>

fun make_tokens :: "nat \<Rightarrow> 'a cq \<Rightarrow> consumer_token list \<times> 'a cq" where
  "make_tokens 0 q = ([], q)"
| "make_tokens (Suc n) q =
     (case ConsumerToken_new q of (t, q1) \<Rightarrow> case make_tokens n q1 of (ts, q2) \<Rightarrow> (t # ts, q2))"

text \<open>The constructor, and clients with the given thread identifiers. \<open>None\<close> is \<open>std::bad_alloc\<close>, thrown
  when the semaphore cannot be allocated; the inner queue is constructed first, so its allocations
  come first in the script.\<close>

definition BlockingConcurrentQueue_new :: "size_t \<Rightarrow> bool list \<Rightarrow> thread_id list \<Rightarrow> 'a bcq option" where
  "BlockingConcurrentQueue_new capacity script tids =
     (let q = ConcurrentQueue_new capacity script
      in case malloc (cpool q) of
           (False, _) \<Rightarrow> None
         | (True, p) \<Rightarrow>
             (case make_tokens (length tids) (q\<lparr>cpool := p\<rparr>) of
                (tokens, q1) \<Rightarrow> Some \<lparr>bq_inner = q1, bq_sema = sem_start 0 (length tids),
                   clients = map2 client_new tids tokens\<rparr>))"

section \<open>Methods\<close>

text \<open>The call of the semaphore in a method: \<open>signal()\<close>, \<open>signal(count)\<close>, \<open>tryWait()\<close>, \<open>wait()\<close>,
  \<open>wait(timeout_usecs)\<close>, \<open>tryWaitMany(max)\<close>, \<open>waitMany(max)\<close>, \<open>waitMany(max, timeout_usecs)\<close>. Numbers of
  elements are converted to \<open>ssize_t\<close>; that they are not negative then is asserted by the code and by
  \<open>call_ok\<close>.\<close>

definition ssize :: "size_t \<Rightarrow> int" where
  "ssize n = sint n"

definition sema_call :: "'a bq_call \<Rightarrow> sem_call" where
  "sema_call c = (case c of
       Enqueue _ \<Rightarrow> Signal 1
     | TryEnqueue _ \<Rightarrow> Signal 1
     | EnqueueBulk items \<Rightarrow> Signal (ssize (of_nat (length items)))
     | TryEnqueueBulk items \<Rightarrow> Signal (ssize (of_nat (length items)))
     | TryDequeue _ \<Rightarrow> TryWait
     | WaitDequeue _ \<Rightarrow> Wait (- 1)
     | WaitDequeueTimed _ timeout_usecs \<Rightarrow> Wait timeout_usecs
     | TryDequeueBulk _ max_count \<Rightarrow> TryWaitMany (ssize max_count)
     | WaitDequeueBulk _ max_count \<Rightarrow> WaitMany (ssize max_count) (- 1)
     | WaitDequeueBulkTimed _ max_count timeout_usecs \<Rightarrow> WaitMany (ssize max_count) timeout_usecs)"

definition set_client :: "nat \<Rightarrow> 'a bq_loc \<Rightarrow> 'a bcq \<Rightarrow> 'a bcq" where
  "set_client i l st = st\<lparr>clients := (clients st)[i := (clients st ! i)\<lparr>client_loc := l\<rparr>]\<rparr>"

definition enter_sema :: "int \<Rightarrow> nat \<Rightarrow> 'a bcq \<Rightarrow> 'a bcq option" where
  "enter_sema maxSpins i st =
     map_option (\<lambda>ss. set_client i InSema (st\<lparr>bq_sema := ss\<rparr>))
       (sem_next maxSpins (Begin i (sema_call (client_call (clients st ! i)))) (bq_sema st))"

text \<open>After the inner enqueue: \<open>sema->signal(); return true\<close>, or \<open>return false\<close>.\<close>

definition signal_if :: "int \<Rightarrow> nat \<Rightarrow> (bool \<times> 'a cq) option \<Rightarrow> 'a bcq \<Rightarrow> 'a bcq option" where
  "signal_if maxSpins i r st =
     (case r of
        None \<Rightarrow> None
      | Some (True, q) \<Rightarrow> enter_sema maxSpins i (st\<lparr>bq_inner := q\<rparr>)
      | Some (False, q) \<Rightarrow> Some (set_client i (ReturnedBool False) (st\<lparr>bq_inner := q\<rparr>)))"

definition bq_enqueue :: "int \<Rightarrow> nat \<Rightarrow> 'a \<Rightarrow> 'a bcq \<Rightarrow> 'a bcq option" where
  "bq_enqueue maxSpins i item st =
     signal_if maxSpins i (cq_enqueue (client_tid (clients st ! i)) item (bq_inner st)) st"

definition bq_try_enqueue :: "int \<Rightarrow> nat \<Rightarrow> 'a \<Rightarrow> 'a bcq \<Rightarrow> 'a bcq option" where
  "bq_try_enqueue maxSpins i item st =
     signal_if maxSpins i (cq_try_enqueue (client_tid (clients st ! i)) item (bq_inner st)) st"

definition bq_enqueue_bulk :: "int \<Rightarrow> nat \<Rightarrow> 'a list \<Rightarrow> 'a bcq \<Rightarrow> 'a bcq option" where
  "bq_enqueue_bulk maxSpins i items st =
     signal_if maxSpins i (cq_enqueue_bulk (client_tid (clients st ! i)) items (bq_inner st)) st"

definition bq_try_enqueue_bulk :: "int \<Rightarrow> nat \<Rightarrow> 'a list \<Rightarrow> 'a bcq \<Rightarrow> 'a bcq option" where
  "bq_try_enqueue_bulk maxSpins i items st =
     signal_if maxSpins i (cq_try_enqueue_bulk (client_tid (clients st ! i)) items (bq_inner st)) st"

text \<open>The three ways to dequeue, when their semaphore call has returned \<open>r\<close>.\<close>

definition bq_try_dequeue :: "nat \<Rightarrow> int \<Rightarrow> 'a bcq \<Rightarrow> 'a bcq option" where
  "bq_try_dequeue i r st =
     (if r \<noteq> 0 then Some (set_client i HasPermit st) else Some (set_client i (ReturnedBool False) st))"

definition bq_wait_dequeue :: "int \<Rightarrow> nat \<Rightarrow> int \<Rightarrow> 'a bcq \<Rightarrow> 'a bcq option" where
  "bq_wait_dequeue maxSpins i r st =
     (if r \<noteq> 0 then Some (set_client i HasPermit st) else enter_sema maxSpins i st)"

definition bq_wait_dequeue_timed :: "nat \<Rightarrow> int \<Rightarrow> 'a bcq \<Rightarrow> 'a bcq option" where
  "bq_wait_dequeue_timed i r st =
     (if r = 0 then Some (set_client i (ReturnedBool False) st) else Some (set_client i HasPermit st))"

text \<open>The bulk dequeues: \<open>r\<close> is the new \<open>max\<close>. \<open>waitMany(max)\<close> asserts that it is positive.\<close>

definition bq_dequeue_bulk :: "nat \<Rightarrow> int \<Rightarrow> 'a bcq \<Rightarrow> 'a bcq option" where
  "bq_dequeue_bulk i r st =
     (let max_count = of_int r
      in Some (set_client i (if 0 \<noteq> max_count then Taking max_count 0 [] else ReturnedBulk 0 []) st))"

definition bq_wait_dequeue_bulk :: "nat \<Rightarrow> int \<Rightarrow> 'a bcq \<Rightarrow> 'a bcq option" where
  "bq_wait_dequeue_bulk i r st = (if r > 0 then bq_dequeue_bulk i r st else None)"

definition after_sema :: "int \<Rightarrow> nat \<Rightarrow> int \<Rightarrow> 'a bcq \<Rightarrow> 'a bcq option" where
  "after_sema maxSpins i r st =
     (case client_call (clients st ! i) of
        TryDequeue _ \<Rightarrow> bq_try_dequeue i r st
      | WaitDequeue _ \<Rightarrow> bq_wait_dequeue maxSpins i r st
      | WaitDequeueTimed _ _ \<Rightarrow> bq_wait_dequeue_timed i r st
      | TryDequeueBulk _ _ \<Rightarrow> bq_dequeue_bulk i r st
      | WaitDequeueBulk _ _ \<Rightarrow> bq_wait_dequeue_bulk i r st
      | WaitDequeueBulkTimed _ _ _ \<Rightarrow> bq_dequeue_bulk i r st
      | _ \<Rightarrow> Some (set_client i (ReturnedBool True) st))"

definition bq_sema_step :: "int \<Rightarrow> nat \<Rightarrow> sem_event \<Rightarrow> 'a bcq \<Rightarrow> 'a bcq option" where
  "bq_sema_step maxSpins i e st =
     (case sem_next maxSpins (Step i e) (bq_sema st) of
        None \<Rightarrow> None
      | Some ss \<Rightarrow>
          (case snd (sem_threads ss ! i) of
             Returned r \<Rightarrow> after_sema maxSpins i r (st\<lparr>bq_sema := ss\<rparr>)
           | _ \<Rightarrow> Some (st\<lparr>bq_sema := ss\<rparr>)))"

text \<open>\<open>while (!inner.try_dequeue(item)) continue;\<close> and the same with a token.\<close>

definition with_token :: "'a bq_call \<Rightarrow> bool" where
  "with_token c = (case c of TryDequeue b \<Rightarrow> b | WaitDequeue b \<Rightarrow> b | WaitDequeueTimed b _ \<Rightarrow> b
     | TryDequeueBulk b _ \<Rightarrow> b | WaitDequeueBulk b _ \<Rightarrow> b | WaitDequeueBulkTimed b _ _ \<Rightarrow> b | _ \<Rightarrow> False)"

definition inner_dequeue :: "bool \<Rightarrow> consumer_token \<Rightarrow> 'a cq \<Rightarrow> ('a option \<times> consumer_token \<times> 'a cq) option" where
  "inner_dequeue with_tok token q =
     (if with_tok then try_dequeue_token token q else map_option (\<lambda>(r, q'). (r, token, q')) (cq_try_dequeue q))"

definition bq_take_step :: "nat \<Rightarrow> 'a bcq \<Rightarrow> 'a bcq option" where
  "bq_take_step i st =
     (let c = clients st ! i in
      case inner_dequeue (with_token (client_call c)) (client_token c) (bq_inner st) of
        None \<Rightarrow> None
      | Some (r, token, q) \<Rightarrow>
          Some (st\<lparr>bq_inner := q, clients := (clients st)[i := c\<lparr>client_token := token,
             client_loc := (case r of Some x \<Rightarrow> ReturnedItem x | None \<Rightarrow> HasPermit)\<rparr>]\<rparr>))"

text \<open>One round of \<^verbatim>\<open>while (count != max) count += inner.try_dequeue_bulk(itemFirst, max - count);\<close>.\<close>

definition inner_dequeue_bulk ::
    "bool \<Rightarrow> consumer_token \<Rightarrow> size_t \<Rightarrow> 'a cq \<Rightarrow> ((size_t \<times> 'a list) \<times> consumer_token \<times> 'a cq) option" where
  "inner_dequeue_bulk with_tok token n q =
     (if with_tok then try_dequeue_bulk_token token n q
      else map_option (\<lambda>(r, q'). (r, token, q')) (cq_try_dequeue_bulk n q))"

definition bq_take_bulk_step :: "nat \<Rightarrow> size_t \<Rightarrow> size_t \<Rightarrow> 'a list \<Rightarrow> 'a bcq \<Rightarrow> 'a bcq option" where
  "bq_take_bulk_step i max_count cnt els st =
     (let c = clients st ! i in
      case inner_dequeue_bulk (with_token (client_call c)) (client_token c) (max_count - cnt) (bq_inner st) of
        None \<Rightarrow> None
      | Some ((n, new), token, q) \<Rightarrow>
          let cnt = cnt + n; els = els @ new
          in Some (st\<lparr>bq_inner := q, clients := (clients st)[i := c\<lparr>client_token := token,
               client_loc := (if cnt \<noteq> max_count then Taking max_count cnt els else ReturnedBulk cnt els)\<rparr>]\<rparr>))"

definition bq_size_approx :: "'a bcq \<Rightarrow> nat" where
  "bq_size_approx st = availableApprox (the_sema (bq_sema st))"

section \<open>Interleavings\<close>

text \<open>The machine's limits, reached after \<open>2 ^ 58\<close> threads, \<open>2 ^ 32\<close> producers or \<open>2 ^ 62\<close> elements in one
  call, are not crossed.\<close>

definition call_items :: "'a bq_call \<Rightarrow> 'a list" where
  "call_items c = (case c of Enqueue x \<Rightarrow> [x] | TryEnqueue x \<Rightarrow> [x] | EnqueueBulk items \<Rightarrow> items
     | TryEnqueueBulk items \<Rightarrow> items | _ \<Rightarrow> [])"

definition within_limits :: "'a bq_call \<Rightarrow> 'a cq \<Rightarrow> bool" where
  "within_limits c q \<longleftrightarrow> hash_count (phash q) < 2 ^ 58 \<and> length (producers q) + 1 < 2 ^ 32 \<and>
     length (call_items c) < 2 ^ 62"

datatype 'a bq_label = Call nat "'a bq_call" | Go nat sem_event

definition client_outside :: "'a bq_loc \<Rightarrow> bool" where
  "client_outside l = (case l of Outside \<Rightarrow> True | ReturnedBool _ \<Rightarrow> True | ReturnedItem _ \<Rightarrow> True
     | ReturnedBulk _ _ \<Rightarrow> True | _ \<Rightarrow> False)"

definition enqueues_call :: "'a bq_call \<Rightarrow> bool" where
  "enqueues_call c \<longleftrightarrow> (case c of Enqueue _ \<Rightarrow> True | TryEnqueue _ \<Rightarrow> True | EnqueueBulk _ \<Rightarrow> True
     | TryEnqueueBulk _ \<Rightarrow> True | _ \<Rightarrow> False)"

text \<open>The enqueues begin with the inner queue, the dequeues with the semaphore.\<close>

definition bq_inner_step :: "int \<Rightarrow> nat \<Rightarrow> 'a bcq \<Rightarrow> 'a bcq option" where
  "bq_inner_step maxSpins i st =
     (case client_call (clients st ! i) of
        Enqueue x \<Rightarrow> bq_enqueue maxSpins i x st
      | TryEnqueue x \<Rightarrow> bq_try_enqueue maxSpins i x st
      | EnqueueBulk items \<Rightarrow> bq_enqueue_bulk maxSpins i items st
      | TryEnqueueBulk items \<Rightarrow> bq_try_enqueue_bulk maxSpins i items st
      | _ \<Rightarrow> None)"

fun bq_next :: "int \<Rightarrow> 'a bq_label \<Rightarrow> 'a bcq \<Rightarrow> 'a bcq option" where
  "bq_next maxSpins (Call i c) st =
     (if i < length (clients st) \<and> client_outside (client_loc (clients st ! i)) then
        let st1 = st\<lparr>clients := (clients st)[i := (clients st ! i)\<lparr>client_call := c\<rparr>]\<rparr>
        in if enqueues_call c then Some (set_client i AtInner st1) else enter_sema maxSpins i st1
      else None)"
| "bq_next maxSpins (Go i e) st =
     (if i < length (clients st) then
        (case client_loc (clients st ! i) of
           AtInner \<Rightarrow>
             (if within_limits (client_call (clients st ! i)) (bq_inner st) then bq_inner_step maxSpins i st else None)
         | InSema \<Rightarrow> bq_sema_step maxSpins i e st
         | HasPermit \<Rightarrow> bq_take_step i st
         | Taking max_count cnt els \<Rightarrow> bq_take_bulk_step i max_count cnt els st
         | _ \<Rightarrow> None)
      else None)"

inductive bq_reach :: "int \<Rightarrow> 'a bcq \<Rightarrow> 'a bcq \<Rightarrow> bool" for maxSpins st0 where
  bq_init: "bq_reach maxSpins st0 st0"
| bq_step: "bq_reach maxSpins st0 st \<Longrightarrow> bq_next maxSpins l st = Some st' \<Longrightarrow> bq_reach maxSpins st0 st'"

end
