(* ===== verification/QueueRuns.thy ===== *)
theory QueueRuns
  imports QueueBulk
begin

text \<open>
  Runs of \<^verbatim>\<open>moodycamel::ConcurrentQueue\<close>: its operations by any number of threads in any order, and what
  holds of every state that they reach.
\<close>

section \<open>Runs\<close>

text \<open>
  The operations of the threads, in any order; a dequeue may be with or without a token. The table of
  producers is kept below \<open>2 ^ 58\<close> entries: beyond, its capacity would not fit a machine word.
\<close>

datatype 'a cq_event =
  Enqueued thread_id 'a bool
  | EnqueuedBulk thread_id "'a list" bool
  | Dequeued "'a option"
  | DequeuedBulk "'a list"
  | Exited thread_id

inductive cq_step :: "'a cq \<Rightarrow> 'a cq_event \<Rightarrow> 'a cq \<Rightarrow> bool" where
  enq: "valid_id tid \<Longrightarrow> hash_count (phash s) < 2 ^ 58 \<Longrightarrow> inner_enqueue m tid x s = Some (ok, s') \<Longrightarrow>
    cq_step s (Enqueued tid x ok) s'"
| enq_bulk: "valid_id tid \<Longrightarrow> hash_count (phash s) < 2 ^ 58 \<Longrightarrow> length items < 2 ^ 62 \<Longrightarrow>
    inner_enqueue_bulk m tid items s = Some (ok, s') \<Longrightarrow> cq_step s (EnqueuedBulk tid items ok) s'"
| deq: "cq_try_dequeue s = Some (r, s') \<Longrightarrow> cq_step s (Dequeued r) s'"
| deq_plain: "try_dequeue_non_interleaved s = Some (r, s') \<Longrightarrow> cq_step s (Dequeued r) s'"
| deq_token: "token_ok s token \<Longrightarrow> length (producers s) < 2 ^ 32 \<Longrightarrow>
    try_dequeue_token token s = Some (r, token', s') \<Longrightarrow> cq_step s (Dequeued r) s'"
| deq_bulk: "cq_try_dequeue_bulk n s = Some ((k, els), s') \<Longrightarrow> cq_step s (DequeuedBulk els) s'"
| deq_bulk_token: "token_ok s token \<Longrightarrow> length (producers s) < 2 ^ 32 \<Longrightarrow>
    try_dequeue_bulk_token token n s = Some ((k, els), token', s') \<Longrightarrow> cq_step s (DequeuedBulk els) s'"
| exit: "valid_id tid \<Longrightarrow> thread_exit tid s = Some s' \<Longrightarrow> cq_step s (Exited tid) s'"

inductive cq_run :: "'a cq \<Rightarrow> 'a cq_event list \<Rightarrow> 'a cq \<Rightarrow> bool" where
  start: "cq_run s [] s"
| more: "cq_run s es s1 \<Longrightarrow> cq_step s1 e s2 \<Longrightarrow> cq_run s (es @ [e]) s2"

lemma cq_run_append: "cq_run s1 fs s2 \<Longrightarrow> cq_run s es s1 \<Longrightarrow> cq_run s (es @ fs) s2"
  by (induction rule: cq_run.induct) (auto simp flip: append_assoc intro: cq_run.intros)

text \<open>The elements that went in, and those that came out.\<close>

fun event_in :: "'a cq_event \<Rightarrow> 'a list" where
  "event_in (Enqueued tid x ok) = (if ok then [x] else [])"
| "event_in (EnqueuedBulk tid items ok) = (if ok then items else [])"
| "event_in _ = []"

fun event_out :: "'a cq_event \<Rightarrow> 'a list" where
  "event_out (Dequeued (Some x)) = [x]"
| "event_out (DequeuedBulk els) = els"
| "event_out _ = []"

definition went_in :: "'a cq_event list \<Rightarrow> 'a list" where
  "went_in es = concat (map event_in es)"

definition came_out :: "'a cq_event list \<Rightarrow> 'a list" where
  "came_out es = concat (map event_out es)"

lemma contents_new_producer: "Xs' = Xs \<or> Xs' = Xs @ [[]] \<Longrightarrow> contents Xs' = contents Xs"
  by (auto simp: contents_append) (simp add: contents_def)

lemma contents_dequeues_event: "dequeues Xs r Xs' \<Longrightarrow> contents Xs = contents Xs' + mset (event_out (Dequeued r))"
  by (cases r) (auto simp: contents_dequeues dequeues_def)

lemma cq_step_contents:
  assumes "cq_step s e s'" "cq_inv Xs s"
  shows "\<exists>Xs'. cq_inv Xs' s' \<and> contents Xs + mset (event_in e) = contents Xs' + mset (event_out e)"
  using assms
proof (cases rule: cq_step.cases)
  case (enq tid m x ok)
  obtain Xs' i where X: "cq_inv Xs' s'"
    "if ok then enqueues Xs i x Xs' \<and> producer_of s' tid = Some (Some i) else Xs' = Xs \<or> Xs' = Xs @ [[]]"
    by (rule inner_enqueue_spec [OF assms(2) enq(2,3), of m x]) (use enq(4) in auto)
  with contents_enqueues [of Xs i x Xs'] contents_new_producer [of Xs' Xs] enq(1) show ?thesis
    by (cases ok) auto
next
  case (enq_bulk tid items m ok)
  obtain Xs' i where X: "cq_inv Xs' s'"
    "if ok then appends Xs i items Xs' \<and> producer_of s' tid = Some (Some i) else Xs' = Xs \<or> Xs' = Xs @ [[]]"
    by (rule bulk.append_spec [OF assms(2) enq_bulk(2-4), of m]) (use enq_bulk(5) in \<open>auto simp: inner_enqueue_bulk_own\<close>)
  with contents_appends [of Xs i items Xs'] contents_new_producer [of Xs' Xs] enq_bulk(1) show ?thesis
    by (cases ok) auto
next
  case (deq r)
  obtain Xs' where "cq_inv Xs' s'" "dequeues Xs r Xs'"
    by (rule try_dequeue_spec [OF assms(2)]) (use deq(2) in auto)
  with contents_dequeues_event [of Xs r Xs'] deq(1) show ?thesis by auto
next
  case (deq_plain r)
  obtain Xs' where "cq_inv Xs' s'" "dequeues Xs r Xs'"
    by (rule non_interleaved_spec [OF assms(2)]) (use deq_plain(2) in auto)
  with contents_dequeues_event [of Xs r Xs'] deq_plain(1) show ?thesis by auto
next
  case (deq_token token r token')
  have "length Xs < 2 ^ 32" using deq_token(3) cq_length [OF assms(2)] by simp
  then obtain Xs' where "cq_inv Xs' s'" "dequeues Xs r Xs'"
    by (rule token_dequeue_spec [OF assms(2) deq_token(2)]) (use deq_token(4) in auto)
  with contents_dequeues_event [of Xs r Xs'] deq_token(1) show ?thesis by auto
next
  case (deq_bulk n k els)
  obtain Xs' where "cq_inv Xs' s'" "drains Xs els Xs'"
    by (rule try_dequeue_bulk_spec [OF assms(2), of n]) (use deq_bulk(2) in auto)
  with drains_contents [of Xs els Xs'] deq_bulk(1) show ?thesis by auto
next
  case (deq_bulk_token token n k els token')
  have "length Xs < 2 ^ 32" using deq_bulk_token(3) cq_length [OF assms(2)] by simp
  then obtain Xs' where "cq_inv Xs' s'" "drains Xs els Xs'"
    by (rule token_dequeue_bulk_spec [OF assms(2) deq_bulk_token(2), of n]) (use deq_bulk_token(4) in auto)
  with drains_contents [of Xs els Xs'] deq_bulk_token(1) show ?thesis by auto
next
  case (exit tid)
  from thread_exit_spec [OF assms(2) exit(2)] exit(3) have "cq_inv Xs s'" by (metis option.inject)
  with exit(1) show ?thesis by auto
qed

lemma cq_run_contents:
  "cq_run s es s' \<Longrightarrow> cq_inv Xs s \<Longrightarrow>
   \<exists>Xs'. cq_inv Xs' s' \<and> contents Xs + mset (went_in es) = contents Xs' + mset (came_out es)"
proof (induction rule: cq_run.induct)
  case (start s)
  then show ?case by (auto simp: went_in_def came_out_def)
next
  case (more s es s1 e s2)
  from more.IH [OF more.prems] obtain X1 where X1: "cq_inv X1 s1"
    "contents Xs + mset (went_in es) = contents X1 + mset (came_out es)" by blast
  from cq_step_contents [OF more.hyps(2) X1(1)] obtain X2 where X2: "cq_inv X2 s2"
    "contents X1 + mset (event_in e) = contents X2 + mset (event_out e)" by blast
  have "contents Xs + mset (went_in (es @ [e])) = contents Xs + mset (went_in es) + mset (event_in e)"
    by (simp add: went_in_def)
  also have "\<dots> = contents X1 + mset (event_in e) + mset (came_out es)" by (simp add: X1(2))
  also have "\<dots> = contents X2 + mset (came_out (es @ [e]))" by (simp add: X2(2) came_out_def)
  finally show ?case using X2(1) by blast
qed

lemma cq_run_inv: "cq_run s es s' \<Longrightarrow> cq_inv Xs s \<Longrightarrow> \<exists>Xs'. cq_inv Xs' s'"
  using cq_run_contents by blast

section \<open>Properties of runs\<close>

text \<open>
  C26: In every run from a new queue, two threads never hold the same producer, and a producer that
  a thread holds is not up for recycling: each sub-queue has a single producer, as its code requires.\<close>

theorem one_producer_per_thread:
  assumes "cq_run (ConcurrentQueue_new cap script) es s" "valid_id t" "valid_id u" "t \<noteq> u"
    "producer_of s t = Some v"
  shows "producer_of s u \<noteq> Some v \<and> (\<exists>i < length (producers s). v = Some i \<and> \<not> inactive (producers s ! i))"
proof -
  obtain Xs where "cq_inv Xs s" using cq_run_inv [OF assms(1) cq_inv_new] by blast
  then have ow: "owners_inv (map inactive (producers s)) (producer_of s)" by (simp add: cq_inv_def)
  obtain i where i: "i < length (producers s)" "v = Some i" "\<not> inactive (producers s ! i)"
    using owners_range [OF ow assms(2,5)] by auto
  with owners_inj [OF ow assms(2,3)] assms(4,5) show ?thesis by auto
qed

lemma enqueue_new:
  obtains s i where "inner_enqueue CanAlloc 5 x (ConcurrentQueue_new cap []) = Some (True, s)"
    "producer_of s 5 = Some (Some i)" "queue_rel s (enqueue i x (mpmc_new []))"
    "cq_run (ConcurrentQueue_new cap []) [Enqueued 5 x True] s"
proof -
  obtain s i where s: "inner_enqueue CanAlloc 5 x (ConcurrentQueue_new cap []) = Some (True, s)"
    "producer_of s 5 = Some (Some i)" "queue_rel s (enqueue i x (mpmc_new []))"
    using inner_enqueue_roomy [OF queue_rel_ConcurrentQueue_new valid_id_5, of cap "[]" "[]" x]
    by (auto simp: hash_count_new roomy_ConcurrentQueue_new)
  have "cq_step (ConcurrentQueue_new cap []) (Enqueued 5 x True) s"
    by (rule cq_step.enq [OF valid_id_5 _ s(1)]) (simp add: hash_count_new)
  from cq_run.more [OF cq_run.start this] have "cq_run (ConcurrentQueue_new cap []) [Enqueued 5 x True] s" by simp
  with s show thesis by (rule that)
qed

theorem one_producer_per_thread_witness:
  "\<exists>s v. cq_run (ConcurrentQueue_new 0 []) [Enqueued 5 ''a'' True] s \<and> producer_of s 5 = Some v \<and> producer_of s 6 \<noteq> Some v"
proof -
  obtain s i where s: "cq_run (ConcurrentQueue_new 0 []) [Enqueued 5 ''a'' True] s" "producer_of s 5 = Some (Some i)"
    by (rule enqueue_new [of "''a''" 0])
  have "valid_id 6" by (simp add: valid_id_def invalid_thread_id_def invalid_thread_id2_def)
  with one_producer_per_thread [OF s(1) valid_id_5 _ _ s(2), of 6] s show ?thesis by auto
qed

text \<open>
  C25: In every run from a new queue no element is lost, invented or delivered twice: what came out
  is part of what went in, \<open>size_approx\<close> is the number of elements in between, and a dequeue that fails
  means that all have come out.\<close>

theorem run_conserves:
  assumes "cq_run (ConcurrentQueue_new cap script) es s"
  shows "mset (came_out es) \<subseteq># mset (went_in es) \<and>
    cq_size_approx s = of_nat (length (went_in es) - length (came_out es)) \<and>
    (\<forall>s'. cq_try_dequeue s = Some (None, s') \<longrightarrow> mset (came_out es) = mset (went_in es))"
proof -
  obtain Xs where inv: "cq_inv Xs s" and c: "mset (went_in es) = contents Xs + mset (came_out es)"
    using cq_run_contents [OF assms cq_inv_new] by (auto simp: contents_def)
  have "length (went_in es) = size (contents Xs) + length (came_out es)"
    using arg_cong [OF c, of size] by simp
  moreover have "size (contents Xs) = sum_list (map length Xs)" by (simp add: contents_def length_concat)
  ultimately have "cq_size_approx s = of_nat (length (went_in es) - length (came_out es))"
    by (simp add: size_approx_spec [OF inv])
  moreover have "mset (came_out es) = mset (went_in es)" if none: "cq_try_dequeue s = Some (None, s')" for s'
  proof -
    obtain Xs' where "dequeues Xs None Xs'"
      by (rule try_dequeue_spec [OF inv]) (use none in auto)
    then have "contents Xs = {#}" by (auto simp: dequeues_def contents_def)
    with c show ?thesis by simp
  qed
  ultimately show ?thesis using c by simp
qed

theorem run_conserves_witness:
  "\<exists>s. cq_run (ConcurrentQueue_new 0 []) [Enqueued 5 ''a'' True] s \<and> cq_size_approx s = 1"
proof -
  obtain s where s: "cq_run (ConcurrentQueue_new 0 []) [Enqueued 5 ''a'' True] s"
    by (rule enqueue_new [of "''a''" 0])
  from run_conserves [OF s] s show ?thesis by (auto simp: went_in_def came_out_def)
qed

text \<open>
  C32: A consumer with a token sees every producer: whatever the rotation, \<open>try_dequeue\<close> with a
  token delivers an element exactly when the queue has one, as the abstract queue would for some choice,
  and leaves the token pointing to producers of the queue.\<close>

theorem token_dequeue_refines:
  assumes "queue_rel s q" "token_ok s token" "length (producers s) < 2 ^ 32"
  shows "\<exists>r token' s'. try_dequeue_token token s = Some (r, token', s') \<and> token_ok s' token' \<and>
    (case r of None \<Rightarrow> q_items q = [] \<and> queue_rel s' q
     | Some y \<Rightarrow> \<exists>c q'. try_dequeue (q\<lparr>q_choice := [c]\<rparr>) = Some (y, q') \<and> queue_rel s' q')"
proof -
  from assms(1) obtain Xs where inv: "cq_inv Xs s" and Xs: "items_rel Xs q" by (auto simp: queue_rel_items)
  obtain r token' s' Xs' where "try_dequeue_token token s = Some (r, token', s')" "cq_inv Xs' s'"
    "dequeues Xs r Xs'" "token_ok s' token'"
    by (rule token_dequeue_spec [OF inv assms(2)]) (use assms(3) cq_length [OF inv] in auto)
  with queue_rel_dequeues [OF Xs] show ?thesis by blast
qed

theorem token_dequeue_refines_witness:
  "\<exists>s token' s'. cq_run (ConcurrentQueue_new 0 []) [Enqueued 5 True True] s \<and>
     try_dequeue_token (fst (ConsumerToken_new s)) s = Some (Some True, token', s')"
proof -
  obtain s i where s: "cq_run (ConcurrentQueue_new 0 []) [Enqueued 5 True True] s"
      "inner_enqueue CanAlloc 5 True (ConcurrentQueue_new 0 []) = Some (True, s)"
      "queue_rel s (enqueue i True (mpmc_new []))"
    by (rule enqueue_new [of True 0])
  have "token_ok s (fst (ConsumerToken_new s))" by (simp add: ConsumerToken_new_def token_ok_def)
  moreover have "length (producers s) < 2 ^ 32"
  proof -
    obtain Xs' j where "cq_inv Xs' s" "enqueues [] j True Xs'"
      by (rule inner_enqueue_spec [OF cq_inv_new valid_id_5, of 0 "[]" CanAlloc True]) (use s(2) in \<open>auto simp: hash_count_new\<close>)
    then show ?thesis using cq_length by (fastforce simp: enqueues_def appends_def)
  qed
  ultimately show ?thesis
    using token_dequeue_refines [OF s(3)] s(1)
    by (fastforce simp: enqueue_def try_dequeue_def next_producer_def split: option.splits)
qed

section \<open>Well-formed states\<close>

text \<open>
  C34: every state of a run from a new queue is well formed. Each block in memory has its 32 slots and
  32 flags; the free list ends and holds no block twice, a block on it has reference count one and is
  in use by no sub-queue, all others have reference count zero; \<open>producerCount\<close> counts the producers;
  and every hash table on the chain is well formed with the main one less than half full.\<close>

theorem queue_well_formed:
  assumes "cq_run (ConcurrentQueue_new cap script) es s"
  shows "(\<forall>b \<in> ran (blocks (cpool s)). wf_block b) \<and>
    (\<exists>U F. free_chain (next_free (cpool s)) (freeListHead (cpool s)) F \<and> distinct F \<and> U \<inter> set F = {} \<and>
       dom (blocks (cpool s)) = U \<union> set F \<union> unused (cpool s) \<and>
       (\<forall>a b. blocks (cpool s) a = Some b \<longrightarrow> freeListRefs b = (if a \<in> set F then 1 else 0))) \<and>
    producerCount s = of_nat (length (producers s)) \<and>
    (\<forall>t \<in> set (tables (phash s)). table_ok t) \<and>
    2 * hash_count (phash s) < length (hd (tables (phash s)))"
proof -
  obtain Xs where inv: "cq_inv Xs s" using cq_run_inv [OF assms cq_inv_new] by blast
  then obtain H A F where "queues_by H A F Xs (map inner (producers s)) (cpool s)"
    by (auto simp: cq_inv_def queues_inv_def)
  then obtain U where "pool_inv U F (cpool s)" by (auto simp: queues_by_def)
  then have "(\<forall>b \<in> ran (blocks (cpool s)). wf_block b) \<and>
    free_chain (next_free (cpool s)) (freeListHead (cpool s)) F \<and> distinct F \<and> U \<inter> set F = {} \<and>
    dom (blocks (cpool s)) = U \<union> set F \<union> unused (cpool s) \<and>
    (\<forall>a b. blocks (cpool s) a = Some b \<longrightarrow> freeListRefs b = (if a \<in> set F then 1 else 0))"
    by (auto simp: pool_inv_def ran_def)
  moreover have "producerCount s = of_nat (length (producers s)) \<and>
    (\<forall>t \<in> set (tables (phash s)). table_ok t) \<and> 2 * hash_count (phash s) < length (hd (tables (phash s)))"
    using inv by (auto simp: cq_inv_def hash_inv_def split: list.splits)
  ultimately show ?thesis by blast
qed

theorem queue_well_formed_witness:
  "\<exists>s. cq_run (ConcurrentQueue_new 0 []) [Enqueued 5 ''a'' True] s \<and>
     2 * hash_count (phash s) < length (hd (tables (phash s))) \<and> producerCount s = of_nat (length (producers s))"
proof -
  obtain s where s: "cq_run (ConcurrentQueue_new 0 []) [Enqueued 5 ''a'' True] s"
    by (rule enqueue_new [of "''a''" 0])
  from queue_well_formed [OF s] s show ?thesis by blast
qed

end
