(* ===== verification/BlockingInvariant.thy ===== *)
theory BlockingInvariant
  imports BlockingQueue QueueRuns
begin

text \<open>
  The blocking queue of \<open>BlockingQueue\<close>: the semaphore and the inner queue agree in every interleaving of
  the clients. From that follows that a client that has passed the semaphore never waits for an element.
\<close>

section \<open>Permits and elements\<close>

text \<open>The elements that are not covered by a permit of the semaphore: those whose enqueue has not
  signalled yet and those promised to a client that has taken its permit.\<close>

definition pending :: "sem_call \<Rightarrow> sem_loc \<Rightarrow> int" where
  "pending c l =
     (case l of SigAdd \<Rightarrow> (case c of Signal n \<Rightarrow> n | _ \<Rightarrow> 0) | RestLoad \<Rightarrow> 1 | RestCas _ \<Rightarrow> 1 | _ \<Rightarrow> 0)"

definition promised :: "'a client \<Rightarrow> sem_call \<times> sem_loc \<Rightarrow> int" where
  "promised c t =
     (case client_loc c of HasPermit \<Rightarrow> 1 | Taking max_count cnt _ \<Rightarrow> int (unat (max_count - cnt))
      | InSema \<Rightarrow> pending (fst t) (snd t) | _ \<Rightarrow> 0)"

definition client_ok :: "'a cq \<Rightarrow> 'a client \<Rightarrow> sem_call \<times> sem_loc \<Rightarrow> bool" where
  "client_ok q c t \<longleftrightarrow> valid_id (client_tid c) \<and> token_ok q (client_token c) \<and>
     (if client_loc c = InSema then fst t = sema_call (client_call c) \<and> \<not> outside (snd t) else outside (snd t)) \<and>
     (client_loc c = AtInner \<longrightarrow> enqueues_call (client_call c))"

definition signals :: "sem_call \<Rightarrow> bool" where
  "signals c \<longleftrightarrow> (case c of Signal _ \<Rightarrow> True | _ \<Rightarrow> False)"

definition wanted :: "sem_call \<Rightarrow> int" where
  "wanted c = (case c of TryWaitMany mx \<Rightarrow> mx | WaitMany mx _ \<Rightarrow> mx | _ \<Rightarrow> 1)"

definition bq_inv :: "'a list list \<Rightarrow> 'a bcq \<Rightarrow> bool" where
  "bq_inv Xs st \<longleftrightarrow> cq_inv Xs (bq_inner st) \<and> length Xs < 2 ^ 32 \<and> sem_inv (bq_sema st) \<and>
     length (sem_threads (bq_sema st)) = length (clients st) \<and>
     (\<forall>i < length (clients st). client_ok (bq_inner st) (clients st ! i) (sem_threads (bq_sema st) ! i)) \<and>
     int (size (contents Xs)) = signalled (the_sema (bq_sema st)) - taken (the_sema (bq_sema st)) +
       (\<Sum>i < length (clients st). promised (clients st ! i) (sem_threads (bq_sema st) ! i))"

lemma token_ok_mono:
  "token_ok q t \<Longrightarrow> length (producers q) \<le> length (producers q') \<Longrightarrow> token_ok q' t"
  by (auto simp: token_ok_def split: option.splits)

lemma client_ok_mono:
  "client_ok q c t \<Longrightarrow> length (producers q) \<le> length (producers q') \<Longrightarrow> client_ok q' c t"
  using token_ok_mono by (auto simp: client_ok_def)

lemma sum_update:
  fixes f f' :: "nat \<Rightarrow> int"
  assumes "i < n" "\<And>j. j < n \<Longrightarrow> j \<noteq> i \<Longrightarrow> f' j = f j"
  shows "(\<Sum>j < n. f' j) = (\<Sum>j < n. f j) - f i + f' i"
proof -
  have "(\<Sum>j \<in> {..< n} - {i}. f' j) = (\<Sum>j \<in> {..< n} - {i}. f j)" using assms(2) by (intro sum.cong) auto
  then show ?thesis using assms(1) by (simp add: sum.remove [of "{..< n}" i])
qed

lemma bq_inv_update:
  assumes inv: "bq_inv Xs st" and i: "i < length (clients st)"
    and new: "cq_inv Xs' q" "sem_inv ss" "sem_threads ss = (sem_threads (bq_sema st))[i := t]" "client_ok q c t"
    and grow: "length Xs \<le> length Xs'" "length Xs' < 2 ^ 32"
    and count: "int (size (contents Xs')) - int (size (contents Xs)) =
      (signalled (the_sema ss) - taken (the_sema ss)) - (signalled (the_sema (bq_sema st)) - taken (the_sema (bq_sema st))) +
      promised c t - promised (clients st ! i) (sem_threads (bq_sema st) ! i)"
  shows "bq_inv Xs' \<lparr>bq_inner = q, bq_sema = ss, clients = (clients st)[i := c]\<rparr>"
proof -
  let ?n = "length (clients st)" and ?c = "(clients st)[i := c]" and ?t = "(sem_threads (bq_sema st))[i := t]"
  have len: "length (sem_threads (bq_sema st)) = ?n" using inv by (simp add: bq_inv_def)
  have "(\<Sum>j < ?n. promised (?c ! j) (?t ! j)) =
      (\<Sum>j < ?n. promised (clients st ! j) (sem_threads (bq_sema st) ! j)) -
        promised (clients st ! i) (sem_threads (bq_sema st) ! i) + promised (?c ! i) (?t ! i)"
    by (rule sum_update [OF i]) (simp add: nth_list_update)
  then have "(\<Sum>j < ?n. promised (?c ! j) (?t ! j)) =
      (\<Sum>j < ?n. promised (clients st ! j) (sem_threads (bq_sema st) ! j)) -
        promised (clients st ! i) (sem_threads (bq_sema st) ! i) + promised c t"
    using i len by simp
  moreover have "int (size (contents Xs)) = signalled (the_sema (bq_sema st)) - taken (the_sema (bq_sema st)) +
       (\<Sum>j < ?n. promised (clients st ! j) (sem_threads (bq_sema st) ! j))"
    using inv by (simp add: bq_inv_def)
  ultimately have "int (size (contents Xs')) = signalled (the_sema ss) - taken (the_sema ss) +
      (\<Sum>j < ?n. promised (?c ! j) (?t ! j))" using count by linarith
  moreover have "length (producers (bq_inner st)) \<le> length (producers q)"
    using grow(1) cq_length [OF new(1)] inv cq_length by (fastforce simp: bq_inv_def)
  then have "client_ok q (clients st ! j) (sem_threads (bq_sema st) ! j)" if "j < ?n" for j
    using inv that client_ok_mono [of "bq_inner st" _ _ q] by (simp add: bq_inv_def)
  then have "\<forall>j < ?n. client_ok q (?c ! j) (?t ! j)" using i len new(4) by (simp add: nth_list_update)
  ultimately show ?thesis using new len grow(2) by (simp add: bq_inv_def)
qed

text \<open>What one step of the semaphore does to the permits: those that a call has taken for its client
  are \<open>pending\<close> until it returns them.\<close>

definition permit_step :: "sem_call \<Rightarrow> sem_loc \<Rightarrow> sema \<Rightarrow> sem_loc \<Rightarrow> sema \<Rightarrow> bool" where
  "permit_step c l s l' s' \<longleftrightarrow>
     signalled s' - taken s' = signalled s - taken s + pending c l - pending c l' -
       (case l' of Returned r \<Rightarrow> if signals c then 0 else r | _ \<Rightarrow> 0) \<and>
     l' \<noteq> Idle \<and> (\<forall>r. l' = Returned r \<longrightarrow> \<not> signals c \<longrightarrow> 0 \<le> r \<and> r \<le> wanted c)"

lemma permit_tryWait:
  assumes "tryWait_step maxSpins c e l s = Some (l', s')" "c = TryWait \<or> c = Wait timeout"
  shows "permit_step c l s l' s'"
  using assms
  by (cases "(maxSpins, c, e, l, s)" rule: tryWait_step.cases)
    (auto simp: permit_step_def pending_def signals_def wanted_def sem_simps
      split: if_splits sem_event.splits sum.splits option.splits)

lemma permit_wait:
  assumes "waitWithPartialSpinning_step timeout e l s = Some (l', s')"
  shows "permit_step (Wait timeout) l s l' s'"
  using assms
  by (cases "(timeout, e, l, s)" rule: waitWithPartialSpinning_step.cases)
    (auto simp: permit_step_def pending_def signals_def wanted_def sem_simps
      split: if_splits sem_event.splits sum.splits option.splits bool.splits)

lemma permit_tryWaitMany:
  assumes "tryWaitMany_step maxSpins c mx e l s = Some (l', s')" "loc_ok c l"
    "c = TryWaitMany mx \<or> c = WaitMany mx timeout"
  shows "permit_step c l s l' s'"
  using assms
  by (cases "(maxSpins, c, mx, e, l, s)" rule: tryWaitMany_step.cases)
    (auto simp: permit_step_def pending_def signals_def wanted_def sem_simps
      split: if_splits sem_event.splits sum.splits option.splits)

lemma permit_waitMany:
  assumes "waitManyWithPartialSpinning_step mx timeout e l s = Some (l', s')"
    "loc_ok (WaitMany mx timeout) l" "\<not> in_try l"
  shows "permit_step (WaitMany mx timeout) l s l' s'"
  using assms
  by (cases "(mx, timeout, e, l, s)" rule: waitManyWithPartialSpinning_step.cases)
    (auto simp: permit_step_def pending_def signals_def wanted_def sem_simps
      split: if_splits sem_event.splits sum.splits option.splits bool.splits)

lemma permit_signal:
  assumes "signal_step n e l s = Some (l', s')"
  shows "permit_step (Signal n) l s l' s'"
  using assms
  by (cases "(n, e, l, s)" rule: signal_step.cases)
    (auto simp: permit_step_def pending_def signals_def wanted_def sem_simps
      split: if_splits sem_event.splits option.splits)

lemma thread_permit_step:
  assumes "thread_step maxSpins c e l s = Some (l', s')" "loc_ok c l"
  shows "permit_step c l s l' s'"
  using assms unfolding thread_step_def
  by (auto split: sem_call.splits if_splits
      dest: permit_tryWait permit_wait permit_tryWaitMany permit_waitMany permit_signal)

lemma sema_call_signals: "signals (sema_call c) \<longleftrightarrow> enqueues_call c"
  by (cases c) (auto simp: sema_call_def enqueues_call_def signals_def)

text \<open>A number of elements within the limits keeps its value as \<open>ssize_t\<close>.\<close>

lemma ssize_of_nat: "n < 2 ^ 62 \<Longrightarrow> ssize (of_nat n) = int n"
proof -
  assume n: "n < 2 ^ 62"
  then have "signed_take_bit 63 (int n) = int n" by (intro signed_take_bit_int_eq_self) simp_all
  then show ?thesis by (simp add: ssize_def signed_of_nat)
qed

lemma ssize_unat: "0 \<le> r \<Longrightarrow> r \<le> ssize n \<Longrightarrow> int (unat (of_int r :: size_t)) = r"
proof -
  assume r: "0 \<le> r" "r \<le> ssize n"
  have "sint n < 2 ^ (LENGTH(64) - 1)" by (rule sint_lt)
  with r have "r < 2 ^ 64" by (simp add: ssize_def)
  with r(1) show ?thesis by (simp add: uint_word_of_int)
qed

lemma sema_call_entry:
  assumes "call_ok (sema_call c)" "length (call_items c) < 2 ^ 62"
  shows "\<not> outside (entry_loc (sema_call c))"
    "pending (sema_call c) (entry_loc (sema_call c)) = int (length (call_items c))"
  using assms
  by (cases c; simp add: sema_call_def entry_loc_def outside_def pending_def call_items_def ssize_of_nat)+

lemma call_items_none: "\<not> enqueues_call c \<Longrightarrow> call_items c = []"
  by (cases c) (simp_all add: enqueues_call_def call_items_def)

lemma enqueue_call_ok: "enqueues_call c \<Longrightarrow> length (call_items c) < 2 ^ 62 \<Longrightarrow> call_ok (sema_call c)"
  by (cases c) (auto simp: enqueues_call_def call_items_def sema_call_def call_ok_def ssize_of_nat)

text \<open>Entering the semaphore, from a client that is not in it.\<close>

lemma enter_sema_spec:
  assumes inv: "sem_inv (bq_sema st)" and i: "i < length (clients st)" "i < length (sem_threads (bq_sema st))"
    and out: "outside (snd (sem_threads (bq_sema st) ! i))" and ok: "call_ok (sema_call (client_call (clients st ! i)))"
  obtains ss where "enter_sema maxSpins i st = Some (set_client i InSema (st\<lparr>bq_sema := ss\<rparr>))" "sem_inv ss"
    "sem_threads ss = (sem_threads (bq_sema st))[i := (sema_call (client_call (clients st ! i)), entry_loc (sema_call (client_call (clients st ! i))))]"
    "the_sema ss = the_sema (bq_sema st)"
proof -
  let ?c = "sema_call (client_call (clients st ! i))"
  let ?ss = "(bq_sema st)\<lparr>sem_threads := (sem_threads (bq_sema st))[i := (?c, entry_loc ?c)]\<rparr>"
  have "sem_next maxSpins (Begin i ?c) (bq_sema st) = Some ?ss" using i out ok by simp
  moreover from sem_inv_next [OF inv this] have "sem_inv ?ss" .
  ultimately show thesis by (intro that [of ?ss]) (simp_all add: enter_sema_def)
qed

lemma enter_sema_call_ok: "enter_sema maxSpins i st = Some st' \<Longrightarrow> call_ok (sema_call (client_call (clients st ! i)))"
  by (auto simp: enter_sema_def split: if_splits)

lemma bq_inv_client:
  assumes "bq_inv Xs st" "i < length (clients st)"
  shows "client_ok (bq_inner st) (clients st ! i) (sem_threads (bq_sema st) ! i)" "i < length (sem_threads (bq_sema st))"
    "cq_inv Xs (bq_inner st)" "sem_inv (bq_sema st)" "length Xs < 2 ^ 32"
  using assms by (auto simp: bq_inv_def)

lemma bq_enter:
  assumes inv: "bq_inv Xs st" and i: "i < length (clients st)"
    and loc: "client_loc (clients st ! i) \<noteq> InSema"
    and X: "cq_inv Xs' q" "int (size (contents Xs')) = int (size (contents Xs)) +
      int (length (call_items c)) - promised (clients st ! i) (sem_threads (bq_sema st) ! i)"
      "length Xs \<le> length Xs'" "length Xs' < 2 ^ 32"
    and c: "call_ok (sema_call c)" "length (call_items c) < 2 ^ 62"
    and st1: "st1 = st\<lparr>bq_inner := q, clients := (clients st)[i := (clients st ! i)\<lparr>client_call := c\<rparr>]\<rparr>"
  shows "\<exists>st'. enter_sema maxSpins i st1 = Some st' \<and> bq_inv Xs' st'"
proof -
  note cl = bq_inv_client [OF inv i]
  have out: "outside (snd (sem_threads (bq_sema st1) ! i))" using cl(1) loc by (simp add: client_ok_def st1)
  obtain ss where ss: "enter_sema maxSpins i st1 = Some (set_client i InSema (st1\<lparr>bq_sema := ss\<rparr>))" "sem_inv ss"
    "sem_threads ss = (sem_threads (bq_sema st1))[i := (sema_call (client_call (clients st1 ! i)), entry_loc (sema_call (client_call (clients st1 ! i))))]"
    "the_sema ss = the_sema (bq_sema st1)"
    by (rule enter_sema_spec [of st1 i maxSpins]) (use cl i out c(1) in \<open>simp_all add: st1\<close>)
  let ?c = "(clients st ! i)\<lparr>client_call := c, client_loc := InSema\<rparr>" and ?t = "(sema_call c, entry_loc (sema_call c))"
  have thr: "sem_threads ss = (sem_threads (bq_sema st))[i := ?t]" using ss(3) i by (simp add: st1)
  have "client_ok (bq_inner st) ?c ?t" using cl(1) sema_call_entry(1) [OF c] by (simp add: client_ok_def)
  then have ok: "client_ok q ?c ?t"
    by (rule client_ok_mono) (use X(3) cq_length [OF X(1)] cq_length [OF cl(3)] in simp)
  have "promised ?c ?t = int (length (call_items c))" by (simp add: promised_def sema_call_entry(2) [OF c])
  then have "bq_inv Xs' \<lparr>bq_inner = q, bq_sema = ss, clients = (clients st)[i := ?c]\<rparr>"
    by (intro bq_inv_update [OF inv i X(1) ss(2) thr ok X(3,4)]) (use ss(4) X(2) in \<open>simp add: st1\<close>)
  moreover have "set_client i InSema (st1\<lparr>bq_sema := ss\<rparr>) = \<lparr>bq_inner = q, bq_sema = ss, clients = (clients st)[i := ?c]\<rparr>"
    using i by (simp add: set_client_def st1)
  ultimately show ?thesis using ss(1) by simp
qed

lemma bcq_fields:
  "st\<lparr>bq_inner := q, clients := cs\<rparr> = \<lparr>bq_inner = q, bq_sema = bq_sema st, clients = cs\<rparr>"
  "st\<lparr>bq_sema := ss, clients := cs\<rparr> = \<lparr>bq_inner = bq_inner st, bq_sema = ss, clients = cs\<rparr>"
  "st\<lparr>clients := cs\<rparr> = \<lparr>bq_inner = bq_inner st, bq_sema = bq_sema st, clients = cs\<rparr>"
  "st\<lparr>bq_sema := ss\<rparr> = \<lparr>bq_inner = bq_inner st, bq_sema = ss, clients = clients st\<rparr>"
  for st :: "'a bcq"
  by (cases st; simp)+

lemma call_same: "client_call (cs ! i) = c \<Longrightarrow> cs[i := (cs ! i)\<lparr>client_call := c\<rparr>] = cs"
proof -
  assume "client_call (cs ! i) = c"
  then have "(cs ! i)\<lparr>client_call := c\<rparr> = cs ! i" by (cases "cs ! i") simp
  then show ?thesis by (simp only: list_update_id)
qed

lemma enter_sema_loc: "i < length (clients st) \<Longrightarrow> enter_sema maxSpins i (set_client i l st) = enter_sema maxSpins i st"
  by (simp add: enter_sema_def set_client_def)

lemma bq_inv_call:
  assumes inv: "bq_inv Xs st" and nx: "bq_next maxSpins (Call i c) st = Some st'"
  shows "bq_inv Xs st'"
proof -
  from nx have i: "i < length (clients st)" and out: "client_outside (client_loc (clients st ! i))"
    by (auto split: if_splits)
  note cl = bq_inv_client [OF inv i]
  have none: "promised (clients st ! i) (sem_threads (bq_sema st) ! i) = 0" and loc: "client_loc (clients st ! i) \<noteq> InSema"
    using out by (auto simp: promised_def client_outside_def split: bq_loc.splits)
  define st1 where "st1 = st\<lparr>clients := (clients st)[i := (clients st ! i)\<lparr>client_call := c\<rparr>]\<rparr>"
  show ?thesis
  proof (cases "enqueues_call c")
    case True
    let ?c = "(clients st ! i)\<lparr>client_call := c, client_loc := AtInner\<rparr>"
    have "st' = set_client i AtInner st1" using nx i out True by (simp add: st1_def)
    then have st': "st' = \<lparr>bq_inner = bq_inner st, bq_sema = bq_sema st, clients = (clients st)[i := ?c]\<rparr>"
      using i by (simp add: set_client_def st1_def)
    have "client_ok (bq_inner st) ?c (sem_threads (bq_sema st) ! i)" using cl(1) loc True by (simp add: client_ok_def)
    then show ?thesis unfolding st'
      by (intro bq_inv_update [OF inv i cl(3,4)]) (use none cl in \<open>simp_all add: promised_def\<close>)
  next
    case False
    then have enter: "enter_sema maxSpins i st1 = Some st'" using nx i out by (simp add: st1_def)
    have ok: "call_ok (sema_call c)" using enter_sema_call_ok [OF enter] i by (simp add: st1_def)
    have "\<exists>st'. enter_sema maxSpins i st1 = Some st' \<and> bq_inv Xs st'"
      by (rule bq_enter [OF inv i loc cl(3), of c])
        (use none cl(5) ok call_items_none [OF False] in \<open>simp_all add: st1_def\<close>)
    with enter show ?thesis by simp
  qed
qed

text \<open>All the enqueues at once: an append to the producer of the client's thread, and a signal for each
  element.\<close>

context producer_append begin

lemma bq_inv_append:
  assumes inv: "bq_inv Xs st" and i: "i < length (clients st)"
    and c: "client_loc (clients st ! i) = AtInner" "enqueues_call (client_call (clients st ! i))"
      "call_items (client_call (clients st ! i)) = items"
    and limits: "within_limits (client_call (clients st ! i)) (bq_inner st)"
    and step: "signal_if maxSpins i (append_own f (client_tid (clients st ! i)) (bq_inner st)) st = Some st'"
  shows "\<exists>Xs'. bq_inv Xs' st'"
proof -
  note cl = bq_inv_client [OF inv i]
  let ?tid = "client_tid (clients st ! i)"
  have small: "hash_count (phash (bq_inner st)) < 2 ^ 58" and few: "length Xs + 1 < 2 ^ 32" and n: "length items < 2 ^ 62"
    using limits cq_length [OF cl(3)] c(3) by (simp_all add: within_limits_def)
  have tid: "valid_id ?tid" using cl(1) by (simp add: client_ok_def)
  obtain ok q Xs' j where app: "append_own f ?tid (bq_inner st) = Some (ok, q)" "cq_inv Xs' q"
    "if ok then appends Xs j items Xs' \<and> producer_of q ?tid = Some (Some j) else Xs' = Xs \<or> Xs' = Xs @ [[]]"
    by (rule append_spec [OF cl(3) tid small n])
  have none: "promised (clients st ! i) (sem_threads (bq_sema st) ! i) = 0" using c by (simp add: promised_def)
  have size: "int (size (contents Xs')) = int (size (contents Xs)) + (if ok then int (length items) else 0)"
    using app(3) contents_appends [of Xs j items Xs'] contents_new_producer [of Xs' Xs] by auto
  have grow: "length Xs \<le> length Xs'" "length Xs' < 2 ^ 32" using app(3) few by (auto simp: appends_def split: if_splits)
  show ?thesis
  proof (cases ok)
    case True
    then have "enter_sema maxSpins i (st\<lparr>bq_inner := q\<rparr>) = Some st'"
      using step app(1) by (simp add: signal_if_def)
    moreover have "\<exists>st'. enter_sema maxSpins i (st\<lparr>bq_inner := q\<rparr>) = Some st' \<and> bq_inv Xs' st'"
    proof (rule bq_enter [OF inv i _ app(2), where c = "client_call (clients st ! i)"])
      show "st\<lparr>bq_inner := q\<rparr> = st\<lparr>bq_inner := q,
          clients := (clients st)[i := (clients st ! i)\<lparr>client_call := client_call (clients st ! i)\<rparr>]\<rparr>"
        by (simp add: call_same bcq_fields)
      show "call_ok (sema_call (client_call (clients st ! i)))" by (rule enqueue_call_ok [OF c(2)]) (use n in \<open>simp add: c(3)\<close>)
    qed (use c size none grow n True in auto)
    ultimately show ?thesis by auto
  next
    case False
    let ?c = "(clients st ! i)\<lparr>client_loc := ReturnedBool False\<rparr>"
    have st': "st' = \<lparr>bq_inner = q, bq_sema = bq_sema st, clients = (clients st)[i := ?c]\<rparr>"
      using step app(1) False by (simp add: signal_if_def set_client_def bcq_fields)
    have "client_ok (bq_inner st) ?c (sem_threads (bq_sema st) ! i)" using cl(1) c by (simp add: client_ok_def)
    then have "client_ok q ?c (sem_threads (bq_sema st) ! i)"
      by (rule client_ok_mono) (use grow cq_length [OF app(2)] cq_length [OF cl(3)] in simp)
    then have "bq_inv Xs' st'" unfolding st'
      by (intro bq_inv_update [OF inv i app(2) cl(4)]) (use none cl size grow False in \<open>simp_all add: promised_def\<close>)
    then show ?thesis ..
  qed
qed

end

lemma bq_inv_enqueue:
  assumes inv: "bq_inv Xs st" and i: "i < length (clients st)"
    and c: "client_loc (clients st ! i) = AtInner" "within_limits (client_call (clients st ! i)) (bq_inner st)"
    and step: "bq_inner_step maxSpins i st = Some st'"
  shows "\<exists>Xs'. bq_inv Xs' st'"
proof (cases "client_call (clients st ! i)")
  case (Enqueue x)
  with single.bq_inv_append [OF inv i c(1), of x maxSpins CanAlloc st'] c(2) step show ?thesis
    by (simp add: bq_inner_step_def bq_enqueue_def cq_enqueue_inner inner_enqueue_own enqueues_call_def call_items_def)
next
  case (TryEnqueue x)
  with single.bq_inv_append [OF inv i c(1), of x maxSpins CannotAlloc st'] c(2) step show ?thesis
    by (simp add: bq_inner_step_def bq_try_enqueue_def cq_enqueue_inner inner_enqueue_own enqueues_call_def call_items_def)
next
  case (EnqueueBulk items)
  with bulk.bq_inv_append [OF inv i c(1), of items maxSpins CanAlloc st'] c(2) step show ?thesis
    by (simp add: bq_inner_step_def bq_enqueue_bulk_def cq_enqueue_bulk_own enqueues_call_def call_items_def)
next
  case (TryEnqueueBulk items)
  with bulk.bq_inv_append [OF inv i c(1), of items maxSpins CannotAlloc st'] c(2) step show ?thesis
    by (simp add: bq_inner_step_def bq_try_enqueue_bulk_def cq_enqueue_bulk_own enqueues_call_def call_items_def)
qed (use step in \<open>simp_all add: bq_inner_step_def\<close>)

lemma dequeues_length: "dequeues Xs r Xs' \<Longrightarrow> length Xs' = length Xs"
  by (auto simp: dequeues_def split: option.splits)

lemma inner_dequeue_spec:
  assumes "cq_inv Xs q" "token_ok q token" "length Xs < 2 ^ 32"
  obtains r token' q' Xs' where "inner_dequeue b token q = Some (r, token', q')" "cq_inv Xs' q'"
    "dequeues Xs r Xs'" "token_ok q' token'"
proof (cases b)
  case True
  from token_dequeue_spec [OF assms] obtain r token' q' Xs' where "try_dequeue_token token q = Some (r, token', q')"
    "cq_inv Xs' q'" "dequeues Xs r Xs'" "token_ok q' token'" .
  with True show thesis by (intro that) (simp_all add: inner_dequeue_def)
next
  case False
  obtain r q' Xs' where deq: "cq_try_dequeue q = Some (r, q')" "cq_inv Xs' q'" "dequeues Xs r Xs'"
    by (rule try_dequeue_spec [OF assms(1)])
  have "token_ok q' token"
    by (rule token_ok_mono [OF assms(2)])
      (use dequeues_length [OF deq(3)] cq_length [OF deq(2)] cq_length [OF assms(1)] in simp)
  with deq False show thesis by (intro that) (simp_all add: inner_dequeue_def)
qed

lemma inner_dequeue_bulk_spec:
  assumes "cq_inv Xs q" "token_ok q token" "length Xs < 2 ^ 32"
  obtains els token' q' Xs' where "inner_dequeue_bulk b token n q = Some ((of_nat (length els), els), token', q')"
    "cq_inv Xs' q'" "drains Xs els Xs'" "token_ok q' token'" "length els = min (unat n) (size (contents Xs))"
proof (cases b)
  case True
  obtain els token' q' Xs' where "try_dequeue_bulk_token token n q = Some ((of_nat (length els), els), token', q')"
    "cq_inv Xs' q'" "drains Xs els Xs'" "token_ok q' token'" "length els = min (unat n) (size (contents Xs))"
    by (rule token_dequeue_bulk_spec [OF assms, of n])
  with True show thesis by (intro that) (simp_all add: inner_dequeue_bulk_def)
next
  case False
  obtain els q' Xs' where deq: "cq_try_dequeue_bulk n q = Some ((of_nat (length els), els), q')" "cq_inv Xs' q'"
    "drains Xs els Xs'" "length els = min (unat n) (size (contents Xs))"
    by (rule try_dequeue_bulk_spec [OF assms(1), of n])
  have "token_ok q' token"
    by (rule token_ok_mono [OF assms(2)])
      (use drains_length [OF deq(3)] cq_length [OF deq(2)] cq_length [OF assms(1)] in simp)
  with deq False show thesis by (intro that) (simp_all add: inner_dequeue_bulk_def)
qed

lemma promised_nonneg:
  assumes "bq_inv Xs st" "i < length (clients st)"
  shows "0 \<le> promised (clients st ! i) (sem_threads (bq_sema st) ! i)"
proof -
  let ?t = "sem_threads (bq_sema st) ! i"
  have "snd ?t = Idle \<or> loc_ok (fst ?t) (snd ?t)"
    using bq_inv_client(2,4) [OF assms] by (simp add: sem_inv_def)
  then show ?thesis
    by (auto simp: promised_def pending_def loc_ok_def call_ok_def split: bq_loc.splits sem_loc.splits sem_call.splits)
qed

text \<open>The elements promised to one client are there.\<close>

lemma promised_covered:
  assumes inv: "bq_inv Xs st" and i: "i < length (clients st)"
  shows "promised (clients st ! i) (sem_threads (bq_sema st) ! i) \<le> int (size (contents Xs))"
proof -
  let ?p = "\<lambda>j. promised (clients st ! j) (sem_threads (bq_sema st) ! j)"
  have "0 \<le> (\<Sum>j \<in> {..< length (clients st)} - {i}. ?p j)"
    by (intro sum_nonneg promised_nonneg [OF inv]) simp
  then have "?p i \<le> (\<Sum>j < length (clients st). ?p j)"
    using i by (simp add: sum.remove [of "{..< length (clients st)}" i])
  moreover have "taken (the_sema (bq_sema st)) \<le> signalled (the_sema (bq_sema st))"
    using bq_inv_client(4) [OF inv i] total_nonneg [of posting "bq_sema st", OF posting_nonneg]
    unfolding sem_inv_def in_flight_def by linarith
  ultimately show ?thesis using inv unfolding bq_inv_def by linarith
qed

text \<open>A client that holds a permit finds an element: the body of its loop is never run.\<close>

lemma bq_take:
  assumes inv: "bq_inv Xs st" and i: "i < length (clients st)" and c: "client_loc (clients st ! i) = HasPermit"
  obtains x st' Xs' where "bq_take_step i st = Some st'" "client_loc (clients st' ! i) = ReturnedItem x"
    "dequeues Xs (Some x) Xs'" "bq_inv Xs' st'"
proof -
  note cl = bq_inv_client [OF inv i]
  have p: "promised (clients st ! i) (sem_threads (bq_sema st) ! i) = 1" using c by (simp add: promised_def)
  have size: "1 \<le> int (size (contents Xs))" using promised_covered [OF inv i] p by simp
  have tok: "token_ok (bq_inner st) (client_token (clients st ! i))" using cl(1) by (simp add: client_ok_def)
  obtain r token' q Xs' where deq:
    "inner_dequeue (with_token (client_call (clients st ! i))) (client_token (clients st ! i)) (bq_inner st) = Some (r, token', q)"
    "cq_inv Xs' q" "dequeues Xs r Xs'" "token_ok q token'"
    by (rule inner_dequeue_spec [OF cl(3) tok cl(5)])
  have "r \<noteq> None"
  proof
    assume "r = None"
    with deq(3) have "contents Xs = {#}" by (auto simp: dequeues_def contents_def)
    with size show False by simp
  qed
  then obtain x where r: "r = Some x" by auto
  let ?c = "(clients st ! i)\<lparr>client_token := token', client_loc := ReturnedItem x\<rparr>"
  let ?st = "\<lparr>bq_inner = q, bq_sema = bq_sema st, clients = (clients st)[i := ?c]\<rparr>"
  have step: "bq_take_step i st = Some ?st" using deq(1) r by (simp add: bq_take_step_def Let_def bcq_fields)
  have "size (contents Xs) = size (contents Xs') + 1" using contents_dequeues [of Xs x Xs'] deq(3) r by simp
  moreover have "client_ok q ?c (sem_threads (bq_sema st) ! i)" using cl(1) c deq(4) by (simp add: client_ok_def)
  ultimately have "bq_inv Xs' ?st"
    by (intro bq_inv_update [OF inv i deq(2) cl(4)])
      (use p cl dequeues_length [OF deq(3)] in \<open>simp_all add: promised_def\<close>)
  with step deq(3) r i show thesis by (intro that [of ?st x Xs']) simp_all
qed

text \<open>A client with several permits gets all its elements in one round.\<close>

lemma bq_take_bulk:
  assumes inv: "bq_inv Xs st" and i: "i < length (clients st)" and c: "client_loc (clients st ! i) = Taking max_count cnt els"
  obtains new st' Xs' where "bq_take_bulk_step i max_count cnt els st = Some st'"
    "client_loc (clients st' ! i) = ReturnedBulk max_count (els @ new)" "length new = unat (max_count - cnt)"
    "bq_inv Xs' st'"
proof -
  note cl = bq_inv_client [OF inv i]
  have p: "promised (clients st ! i) (sem_threads (bq_sema st) ! i) = int (unat (max_count - cnt))"
    using c by (simp add: promised_def)
  have size: "unat (max_count - cnt) \<le> size (contents Xs)" using promised_covered [OF inv i] unfolding p by (simp only: of_nat_le_iff)
  have tok: "token_ok (bq_inner st) (client_token (clients st ! i))" using cl(1) by (simp add: client_ok_def)
  obtain new token' q Xs' where deq: "inner_dequeue_bulk (with_token (client_call (clients st ! i)))
      (client_token (clients st ! i)) (max_count - cnt) (bq_inner st) = Some ((of_nat (length new), new), token', q)"
    "cq_inv Xs' q" "drains Xs new Xs'" "token_ok q token'" "length new = min (unat (max_count - cnt)) (size (contents Xs))"
    by (rule inner_dequeue_bulk_spec [OF cl(3) tok cl(5)])
  have len: "length new = unat (max_count - cnt)" using deq(5) size by simp
  then have all: "cnt + of_nat (length new) = max_count" by simp
  let ?c = "(clients st ! i)\<lparr>client_token := token', client_loc := ReturnedBulk max_count (els @ new)\<rparr>"
  let ?st = "\<lparr>bq_inner = q, bq_sema = bq_sema st, clients = (clients st)[i := ?c]\<rparr>"
  have step: "bq_take_bulk_step i max_count cnt els st = Some ?st"
    using deq(1) all by (simp add: bq_take_bulk_step_def Let_def bcq_fields)
  have "size (contents Xs) = size (contents Xs') + length new" using drains_contents [OF deq(3)] by simp
  moreover have "client_ok q ?c (sem_threads (bq_sema st) ! i)" using cl(1) c deq(4) by (simp add: client_ok_def)
  ultimately have "bq_inv Xs' ?st"
    by (intro bq_inv_update [OF inv i deq(2) cl(4)])
      (use p len cl drains_length [OF deq(3)] in \<open>simp_all add: promised_def\<close>)
  with step len i show thesis by (intro that [of ?st new Xs']) simp_all
qed

text \<open>Where a client goes when its semaphore call has returned \<open>r\<close>.\<close>

definition after_loc :: "'a bq_call \<Rightarrow> int \<Rightarrow> 'a bq_loc" where
  "after_loc c r =
     (case c of
        TryDequeue _ \<Rightarrow> if r \<noteq> 0 then HasPermit else ReturnedBool False
      | WaitDequeue _ \<Rightarrow> if r \<noteq> 0 then HasPermit else ReturnedBool False
      | WaitDequeueTimed _ _ \<Rightarrow> if r \<noteq> 0 then HasPermit else ReturnedBool False
      | TryDequeueBulk _ _ \<Rightarrow> if 0 \<noteq> (of_int r :: size_t) then Taking (of_int r) 0 [] else ReturnedBulk 0 []
      | WaitDequeueBulk _ _ \<Rightarrow> if 0 \<noteq> (of_int r :: size_t) then Taking (of_int r) 0 [] else ReturnedBulk 0 []
      | WaitDequeueBulkTimed _ _ _ \<Rightarrow> if 0 \<noteq> (of_int r :: size_t) then Taking (of_int r) 0 [] else ReturnedBulk 0 []
      | _ \<Rightarrow> ReturnedBool True)"

lemma after_loc_promised:
  assumes "\<not> enqueues_call c \<Longrightarrow> 0 \<le> r \<and> r \<le> wanted (sema_call c)"
  shows "promised (x\<lparr>client_loc := after_loc c r\<rparr>) t = (if enqueues_call c then 0 else r)"
proof (cases c)
  case (TryDequeueBulk b n)
  with assms ssize_unat [of r n] show ?thesis
    by (auto simp: promised_def after_loc_def enqueues_call_def sema_call_def wanted_def)
next
  case (WaitDequeueBulk b n)
  with assms ssize_unat [of r n] show ?thesis
    by (auto simp: promised_def after_loc_def enqueues_call_def sema_call_def wanted_def)
next
  case (WaitDequeueBulkTimed b n timeout)
  with assms ssize_unat [of r n] show ?thesis
    by (auto simp: promised_def after_loc_def enqueues_call_def sema_call_def wanted_def)
qed (use assms in \<open>auto simp: promised_def after_loc_def enqueues_call_def sema_call_def wanted_def\<close>)

lemma after_loc_outside: "after_loc c r \<noteq> InSema" "after_loc c r \<noteq> AtInner"
  by (simp_all add: after_loc_def split: bq_call.split)

lemma after_sema_loc:
  "after_sema maxSpins i r st = Some st' \<Longrightarrow>
   st' = set_client i (after_loc (client_call (clients st ! i)) r) st \<or>
   (\<exists>w. client_call (clients st ! i) = WaitDequeue w) \<and> r = 0 \<and> enter_sema maxSpins i st = Some st'"
  by (cases "client_call (clients st ! i)")
    (auto simp: after_sema_def after_loc_def bq_try_dequeue_def bq_wait_dequeue_def bq_wait_dequeue_timed_def
      bq_dequeue_bulk_def bq_wait_dequeue_bulk_def Let_def split: if_splits)

lemma bq_inv_sema:
  assumes inv: "bq_inv Xs st" and i: "i < length (clients st)" and c: "client_loc (clients st ! i) = InSema"
    and step: "bq_sema_step maxSpins i e st = Some st'"
  shows "bq_inv Xs st'"
proof -
  note cl = bq_inv_client [OF inv i]
  let ?call = "client_call (clients st ! i)" and ?s = "the_sema (bq_sema st)" and ?l = "snd (sem_threads (bq_sema st) ! i)"
  have t: "fst (sem_threads (bq_sema st) ! i) = sema_call ?call" "\<not> outside ?l"
    using cl(1) c by (simp_all add: client_ok_def)
  from step obtain ss where ss: "sem_next maxSpins (Step i e) (bq_sema st) = Some ss"
    by (auto simp: bq_sema_step_def split: option.splits)
  then obtain l' s' where thr: "thread_step maxSpins (sema_call ?call) e ?l ?s = Some (l', s')"
    and ss': "ss = (bq_sema st)\<lparr>the_sema := s', sem_threads := (sem_threads (bq_sema st))[i := (sema_call ?call, l')]\<rparr>"
    using t(1) cl(2) by auto
  have sinv: "sem_inv ss" by (rule sem_inv_next [OF cl(4) ss])
  have thr': "sem_threads ss = (sem_threads (bq_sema st))[i := (sema_call ?call, l')]" "the_sema ss = s'" by (simp_all add: ss')
  have "loc_ok (sema_call ?call) ?l"
    using cl(2,4) t(1) thread_step_not_idle [OF thr] by (auto simp: sem_inv_def)
  note cs = thread_permit_step [OF thr this, unfolded permit_step_def]
  have p: "promised (clients st ! i) (sem_threads (bq_sema st) ! i) = pending (sema_call ?call) ?l"
    using c t(1) by (simp add: promised_def)
  have loc: "snd (sem_threads ss ! i) = l'" using cl(2) by (simp add: ss')
  show ?thesis
  proof (cases "outside l'")
    case False
    then have "st' = st\<lparr>bq_sema := ss\<rparr>"
      using step ss loc by (simp add: bq_sema_step_def outside_def split: sem_loc.splits)
    moreover have "clients st = (clients st)[i := clients st ! i]" by simp
    ultimately have st': "st' = \<lparr>bq_inner = bq_inner st, bq_sema = ss, clients = (clients st)[i := clients st ! i]\<rparr>"
      by simp
    have "client_ok (bq_inner st) (clients st ! i) (sema_call ?call, l')" using cl(1) c False by (simp add: client_ok_def)
    then show ?thesis unfolding st'
      by (intro bq_inv_update [OF inv i cl(3) sinv thr'(1)])
        (use cs p False c thr'(2) cl(5) in \<open>auto simp: promised_def outside_def split: sem_loc.splits\<close>)
  next
    case True
    then obtain r where r: "l' = Returned r" using cs by (auto simp: outside_def split: sem_loc.splits)
    let ?b = "after_loc ?call r"
    let ?c = "(clients st ! i)\<lparr>client_loc := ?b\<rparr>" and ?st = "set_client i ?b (st\<lparr>bq_sema := ss\<rparr>)"
    have eq: "?st = \<lparr>bq_inner = bq_inner st, bq_sema = ss, clients = (clients st)[i := ?c]\<rparr>" by (simp add: set_client_def)
    have ok: "client_ok (bq_inner st) ?c (sema_call ?call, l')"
      using cl(1) after_loc_outside [of ?call r] by (simp add: client_ok_def r outside_def)
    have "promised ?c (sema_call ?call, l') = (if signals (sema_call ?call) then 0 else r)"
      using after_loc_promised [of ?call r] cs r by (simp add: sema_call_signals)
    moreover have "pending (sema_call ?call) l' = 0" by (simp add: r pending_def)
    ultimately have mid: "bq_inv Xs ?st" unfolding eq
      by (intro bq_inv_update [OF inv i cl(3) sinv thr'(1) ok]) (use cs p thr'(2) r cl(5) in simp_all)
    have "after_sema maxSpins i r (st\<lparr>bq_sema := ss\<rparr>) = Some st'"
      using step ss loc r by (simp add: bq_sema_step_def)
    from after_sema_loc [OF this] consider "st' = ?st"
      | w where "?call = WaitDequeue w" "r = 0" "enter_sema maxSpins i (st\<lparr>bq_sema := ss\<rparr>) = Some st'" by auto
    then show ?thesis
    proof cases
      case 1
      with mid show ?thesis by simp
    next
      case (2 w)
      then have "enter_sema maxSpins i ?st = Some st'" using i by (simp add: enter_sema_loc)
      moreover have call: "client_call (clients ?st ! i) = WaitDequeue w" using 2(1) i by (simp add: set_client_def)
      have "\<exists>st'. enter_sema maxSpins i ?st = Some st' \<and> bq_inv Xs st'"
      proof (rule bq_enter [OF mid, where q = "bq_inner st" and c = "WaitDequeue w"])
        show "?st = ?st\<lparr>bq_inner := bq_inner st, clients := (clients ?st)[i := (clients ?st ! i)\<lparr>client_call := WaitDequeue w\<rparr>]\<rparr>"
          unfolding call_same [OF call] by (simp add: set_client_def)
      qed (use i 2 cl(3,5) in \<open>auto simp: set_client_def after_loc_def promised_def call_items_def sema_call_def call_ok_def\<close>)
      ultimately show ?thesis by simp
    qed
  qed
qed

lemma bq_inv_next:
  assumes "bq_inv Xs st" "bq_next maxSpins l st = Some st'"
  shows "\<exists>Xs'. bq_inv Xs' st'"
proof (cases l)
  case (Call i c)
  with assms bq_inv_call show ?thesis by metis
next
  case (Go i e)
  with assms(2) have i: "i < length (clients st)" by (auto split: if_splits)
  show ?thesis
  proof (cases "client_loc (clients st ! i)")
    case AtInner
    with assms(2) Go i have "within_limits (client_call (clients st ! i)) (bq_inner st)" "bq_inner_step maxSpins i st = Some st'"
      by (auto split: if_splits)
    with bq_inv_enqueue [OF assms(1) i AtInner] show ?thesis by blast
  next
    case InSema
    with assms(2) Go i have "bq_sema_step maxSpins i e st = Some st'" by simp
    with bq_inv_sema [OF assms(1) i InSema] show ?thesis by blast
  next
    case HasPermit
    with assms(2) Go i have "bq_take_step i st = Some st'" by simp
    with bq_take [OF assms(1) i HasPermit] show ?thesis by (metis option.inject)
  next
    case (Taking max_count cnt els)
    with assms(2) Go i have "bq_take_bulk_step i max_count cnt els st = Some st'" by simp
    with bq_take_bulk [OF assms(1) i Taking] show ?thesis by (metis option.inject)
  qed (use assms(2) Go i in auto)
qed

lemma make_tokens_spec:
  "cq_inv [] q \<Longrightarrow> make_tokens n q = (ts, q') \<Longrightarrow> cq_inv [] q' \<and> length ts = n \<and> (\<forall>t \<in> set ts. desiredProducer t = None)"
proof (induction n arbitrary: q ts)
  case (Suc n)
  let ?q = "q\<lparr>nextExplicitConsumerId := nextExplicitConsumerId q + 1\<rparr>"
  have "producer_of ?q = producer_of q" by (simp add: producer_of_def fun_eq_iff)
  with Suc.prems(1) have "cq_inv [] ?q" by (simp add: cq_inv_def)
  moreover from Suc.prems(2) obtain us where "make_tokens n ?q = (us, q')" "ts = fst (ConsumerToken_new q) # us"
    by (auto simp: ConsumerToken_new_def split: prod.splits)
  ultimately show ?case using Suc.IH by (auto simp: ConsumerToken_new_def)
qed simp

lemma bq_inv_new:
  assumes "BlockingConcurrentQueue_new capacity script tids = Some st" "\<forall>t \<in> set tids. valid_id t"
  shows "bq_inv [] st"
proof -
  define q0 :: "'a cq" where "q0 = ConcurrentQueue_new capacity script"
  obtain ok m where m: "malloc (cpool q0) = (ok, (cpool q0)\<lparr>mem := m\<rparr>)"
    by (rule malloc_cases)
  let ?q = "q0\<lparr>cpool := (cpool q0)\<lparr>mem := m\<rparr>\<rparr>"
  have "cq_inv [] q0" by (simp add: q0_def cq_inv_new)
  moreover have "producer_of ?q = producer_of q0" by (simp add: producer_of_def fun_eq_iff)
  ultimately have q: "cq_inv [] ?q" using queues_mem by (auto simp: cq_inv_def)
  obtain ts q1 where mk: "make_tokens (length tids) ?q = (ts, q1)" by force
  note tok = make_tokens_spec [OF q mk]
  have st: "st = \<lparr>bq_inner = q1, bq_sema = sem_start 0 (length tids), clients = map2 client_new tids ts\<rparr>"
    using assms(1) m mk by (auto simp: BlockingConcurrentQueue_new_def Let_def q0_def split: bool.splits)
  have "client_ok q1 (client_new (tids ! i) (ts ! i)) (TryWait, Idle)" if "i < length tids" for i
    using assms(2) tok that by (auto simp: client_ok_def client_new_def token_ok_def outside_def)
  moreover have "sem_inv (sem_start 0 (length tids))" by (rule sem_inv_start) simp
  ultimately show ?thesis
    using tok by (auto simp: st bq_inv_def contents_def sem_start_def LightweightSemaphore_new_def
        promised_def client_new_def)
qed

lemma bq_reach_inv: "bq_reach maxSpins st0 st \<Longrightarrow> bq_inv Xs st0 \<Longrightarrow> \<exists>Xs'. bq_inv Xs' st"
  by (induction rule: bq_reach.induct) (auto dest: bq_inv_next)

section \<open>Properties\<close>

fun bq_run :: "int \<Rightarrow> 'a bq_label list \<Rightarrow> 'a bcq \<Rightarrow> 'a bcq option" where
  "bq_run maxSpins [] st = Some st"
| "bq_run maxSpins (l # ls) st =
     (case bq_next maxSpins l st of None \<Rightarrow> None | Some st' \<Rightarrow> bq_run maxSpins ls st')"

lemma bq_run_reach: "bq_reach maxSpins st0 st \<Longrightarrow> bq_run maxSpins ls st = Some st' \<Longrightarrow> bq_reach maxSpins st0 st'"
  by (induction ls arbitrary: st) (auto split: option.splits intro: bq_step)

definition bq_demo :: "string bcq" where
  "bq_demo = the (BlockingConcurrentQueue_new 0 [] [5, 6])"

definition demo_token :: "32 word \<Rightarrow> consumer_token" where
  "demo_token n = \<lparr>initialOffset = n, lastKnownGlobalOffset = - 1, itemsConsumedFromCurrent = 0,
     currentProducer = None, desiredProducer = None\<rparr>"

definition demo_queue :: "string cq" where
  "demo_queue = (ConcurrentQueue_new 0 [])\<lparr>nextExplicitConsumerId := 2\<rparr>"

lemma bq_demo_new: "BlockingConcurrentQueue_new 0 [] [5, 6] = Some bq_demo"
  and bq_demo_state: "bq_demo = \<lparr>bq_inner = demo_queue,
     bq_sema = \<lparr>the_sema = LightweightSemaphore_new 0, sem_threads = [(TryWait, Idle), (TryWait, Idle)]\<rparr>,
     clients = [client_new 5 (demo_token 0), client_new 6 (demo_token 1)]\<rparr>"
proof -
  have "mem (cpool (ConcurrentQueue_new 0 [] :: string cq)) = []"
    using roomy_ConcurrentQueue_new unfolding roomy_def by blast
  moreover have "nextExplicitConsumerId (ConcurrentQueue_new 0 [] :: string cq) = 0"
    by (simp add: ConcurrentQueue_new_def cq_with_blocks_def)
  ultimately have new: "BlockingConcurrentQueue_new 0 [] [5, 6] = Some \<lparr>bq_inner = demo_queue,
     bq_sema = \<lparr>the_sema = LightweightSemaphore_new 0, sem_threads = [(TryWait, Idle), (TryWait, Idle)]\<rparr>,
     clients = [client_new 5 (demo_token 0), client_new 6 (demo_token 1)]\<rparr>"
    by (simp add: BlockingConcurrentQueue_new_def malloc_def Let_def ConsumerToken_new_def demo_token_def
        demo_queue_def sem_start_def)
  then show "BlockingConcurrentQueue_new 0 [] [5, 6] = Some bq_demo" by (simp add: bq_demo_def)
  from new show "bq_demo = \<lparr>bq_inner = demo_queue,
     bq_sema = \<lparr>the_sema = LightweightSemaphore_new 0, sem_threads = [(TryWait, Idle), (TryWait, Idle)]\<rparr>,
     clients = [client_new 5 (demo_token 0), client_new 6 (demo_token 1)]\<rparr>" by (simp add: bq_demo_def)
qed

lemma demo_ids: "\<forall>t \<in> set [5, 6]. valid_id t"
  by (simp add: valid_id_def invalid_thread_id_def invalid_thread_id2_def)

lemma demo_inv: "cq_inv [] demo_queue"
proof -
  have "producer_of demo_queue = producer_of (ConcurrentQueue_new 0 [] :: string cq)"
    by (simp add: producer_of_def demo_queue_def fun_eq_iff)
  then show ?thesis using cq_inv_new [of 0 "[]", where 'a = string] by (simp add: cq_inv_def demo_queue_def)
qed

lemma demo_limits: "hash_count (phash demo_queue) < 2 ^ 58" "roomy demo_queue" "producers demo_queue = []"
proof -
  show "hash_count (phash demo_queue) < 2 ^ 58" by (simp add: demo_queue_def hash_count_new)
  show "roomy demo_queue"
    using roomy_ConcurrentQueue_new [of 0, where 'a = string] by (simp add: roomy_def demo_queue_def)
  show "producers demo_queue = []" using cq_length [OF demo_inv] by simp
qed

lemma demo_enqueue:
  obtains q where "cq_enqueue 5 ''job'' demo_queue = Some (True, q)" "within_limits (Enqueue ''job'') demo_queue"
proof -
  obtain q where "inner_enqueue CanAlloc 5 ''job'' demo_queue = Some (True, q)"
    by (rule inner_enqueue_spec [OF demo_inv valid_id_5 demo_limits(1), of CanAlloc "''job''"])
      (use demo_limits(2) in \<open>auto simp: has_room_def room_for_def\<close>)
  then show thesis using demo_limits by (intro that [of q]) (simp_all add: cq_enqueue_inner within_limits_def call_items_def)
qed

lemma demo_enqueue_bulk:
  obtains q where "cq_enqueue_bulk 5 [''a'', ''b''] demo_queue = Some (True, q)"
    "within_limits (EnqueueBulk [''a'', ''b'']) demo_queue"
proof -
  have "length [''a'', ''b''] < 2 ^ 62" by simp
  then obtain q where "append_own (ip_enqueue_bulk CanAlloc [''a'', ''b'']) 5 demo_queue = Some (True, q)"
    by (rule bulk.append_spec [OF demo_inv valid_id_5 demo_limits(1), of "[''a'', ''b'']" CanAlloc])
      (use demo_limits(2) in \<open>auto simp: room_for_def\<close>)
  then show thesis using demo_limits
    by (intro that [of q]) (simp_all add: cq_enqueue_bulk_own within_limits_def call_items_def)
qed

lemmas bq_run_simps = bq_demo_state client_new_def client_outside_def set_client_def enqueues_call_def bq_inner_step_def
  bq_enqueue_def bq_enqueue_bulk_def signal_if_def enter_sema_def sema_call_def LightweightSemaphore_new_def entry_loc_def
  sem_simps bq_wait_dequeue_def bq_dequeue_bulk_def bq_wait_dequeue_bulk_def bq_sema_step_def thread_step_def
  after_sema_def ssize_def

text \<open>One client enqueues, another takes the permit.\<close>

lemma bq_demo_permit:
  obtains st where "bq_reach 0 bq_demo st" "client_loc (clients st ! 1) = HasPermit" "length (clients st) = 2"
proof -
  obtain q where q: "cq_enqueue 5 ''job'' demo_queue = Some (True, q)" "within_limits (Enqueue ''job'') demo_queue"
    by (rule demo_enqueue)
  let ?ls = "[Call 0 (Enqueue ''job''), Go 0 Run, Go 0 Run, Call 1 (WaitDequeue True), Go 1 Run, Go 1 Run]"
  let ?st = "\<lparr>bq_inner = q, bq_sema = \<lparr>the_sema = \<lparr>m_count = 0, m_sema = 0, signalled = 1, taken = 1\<rparr>,
       sem_threads = [(Signal 1, Returned 0), (Wait (- 1), Returned 1)]\<rparr>,
     clients = [\<lparr>client_tid = 5, client_token = demo_token 0, client_call = Enqueue ''job'', client_loc = ReturnedBool True\<rparr>,
                \<lparr>client_tid = 6, client_token = demo_token 1, client_call = WaitDequeue True, client_loc = HasPermit\<rparr>]\<rparr>"
  have "bq_run 0 ?ls bq_demo = Some ?st"
    using q by (simp add: bq_run_simps)
  from bq_run_reach [OF bq_init this] show thesis by (intro that [of ?st]) simp_all
qed

text \<open>The same with two elements at once.\<close>

lemma bq_demo_bulk:
  obtains st where "bq_reach 0 bq_demo st" "client_loc (clients st ! 1) = Taking 2 0 []" "length (clients st) = 2"
proof -
  obtain q where q: "cq_enqueue_bulk 5 [''a'', ''b''] demo_queue = Some (True, q)"
      "within_limits (EnqueueBulk [''a'', ''b'']) demo_queue"
    by (rule demo_enqueue_bulk)
  let ?ls = "[Call 0 (EnqueueBulk [''a'', ''b'']), Go 0 Run, Go 0 Run, Call 1 (WaitDequeueBulk False 2), Go 1 Run, Go 1 Run]"
  let ?st = "\<lparr>bq_inner = q, bq_sema = \<lparr>the_sema = \<lparr>m_count = 0, m_sema = 0, signalled = 2, taken = 2\<rparr>,
       sem_threads = [(Signal 2, Returned 0), (WaitMany 2 (- 1), Returned 2)]\<rparr>,
     clients = [\<lparr>client_tid = 5, client_token = demo_token 0, client_call = EnqueueBulk [''a'', ''b''], client_loc = ReturnedBool True\<rparr>,
                \<lparr>client_tid = 6, client_token = demo_token 1, client_call = WaitDequeueBulk False 2, client_loc = Taking 2 0 []\<rparr>]\<rparr>"
  have "bq_run 0 ?ls bq_demo = Some ?st"
    using q by (simp add: bq_run_simps)
  from bq_run_reach [OF bq_init this] show thesis by (intro that [of ?st]) simp_all
qed





lemma sum_zero_threads: "(\<And>t. t \<in> set (sem_threads ss) \<Longrightarrow> f (snd t) = 0) \<Longrightarrow> sum_threads f ss = 0"
  by (simp add: sum_threads_def cong: map_cong)

text \<open>
  when no client is inside a method, the semaphore and the queue agree: the permits are as
  many as the elements, so \<open>size_approx\<close> of the blocking queue is exact and no enqueued element is
  out of reach of a future dequeue.\<close>

theorem permits_match_elements:
  assumes "BlockingConcurrentQueue_new capacity script tids = Some st0" "\<forall>t \<in> set tids. valid_id t"
    and "bq_reach maxSpins st0 st" "\<forall>c \<in> set (clients st). client_outside (client_loc c)"
  shows "cq_size_approx (bq_inner st) = of_nat (bq_size_approx st)"
proof -
  obtain Xs where inv: "bq_inv Xs st" using bq_reach_inv [OF assms(3) bq_inv_new [OF assms(1,2)]] by blast
  let ?ss = "bq_sema st"
  have len: "length (sem_threads ?ss) = length (clients st)" and sinv: "sem_inv ?ss" and cinv: "cq_inv Xs (bq_inner st)"
    using inv by (simp_all add: bq_inv_def)
  have out: "client_loc (clients st ! i) \<noteq> InSema" "promised (clients st ! i) t = 0" if "i < length (clients st)" for i t
    using assms(4) that by (auto simp: promised_def client_outside_def all_set_conv_all_nth split: bq_loc.splits)
  have "outside (snd t)" if "t \<in> set (sem_threads ?ss)" for t
  proof -
    from that obtain i where "i < length (clients st)" "t = sem_threads ?ss ! i" using len by (metis in_set_conv_nth)
    with inv out(1) show ?thesis by (auto simp: bq_inv_def client_ok_def)
  qed
  then have z: "sum_threads waiting ?ss = 0" "sum_threads posting ?ss = 0"
    using outside_idle by (auto intro!: sum_zero_threads)
  have "int (size (contents Xs)) = signalled (the_sema ?ss) - taken (the_sema ?ss)"
    using inv out(2) by (simp add: bq_inv_def)
  moreover have "signalled (the_sema ?ss) - taken (the_sema ?ss) = max 0 (m_count (the_sema ?ss)) + int (m_sema (the_sema ?ss))"
    "0 = max 0 (- m_count (the_sema ?ss)) + int (m_sema (the_sema ?ss))"
    using sinv z by (simp_all add: sem_inv_def in_flight_def uncovered_def)
  moreover have "size (contents Xs) = sum_list (map length Xs)" by (simp add: contents_def length_concat)
  ultimately have "sum_list (map length Xs) = bq_size_approx st"
    by (simp add: bq_size_approx_def availableApprox_def max_def split: if_splits)
  then show ?thesis using size_approx_spec [OF cinv] by simp
qed

theorem permits_match_elements_witness:
  "cq_size_approx (bq_inner bq_demo) = of_nat (bq_size_approx bq_demo)"
  by (rule permits_match_elements [OF bq_demo_new demo_ids bq_init])
    (simp add: bq_demo_state client_new_def client_outside_def)

end
