(* ===== verification/Tally.thy ===== *)
theory Tally
  imports Prelude
begin

text \<open>
  Counting over the threads of a machine: \<open>tally f ts\<close> adds up what the threads \<open>ts\<close> hold, and
  \<open>others f ts t\<close> is the share of the threads other than \<open>t\<close>. When thread \<open>t\<close> moves, only its own
  contribution changes.
\<close>

definition tally :: "('p \<Rightarrow> nat) \<Rightarrow> 'p list \<Rightarrow> nat" where
  "tally f ts = sum_list (map f ts)"

definition others :: "('p \<Rightarrow> nat) \<Rightarrow> 'p list \<Rightarrow> nat \<Rightarrow> nat" where
  "others f ts t = tally f (take t ts @ drop (Suc t) ts)"

lemma tally_others:
  assumes "t < length ts"
  shows "tally f (ts[t := q]) = others f ts t + f q" "tally f ts = others f ts t + f (ts ! t)"
proof -
  show "tally f (ts[t := q]) = others f ts t + f q"
    using assms by (simp add: tally_def others_def upd_conv_take_nth_drop)
  show "tally f ts = others f ts t + f (ts ! t)"
    using id_take_nth_drop [OF assms] by (simp add: tally_def others_def) (metis (no_types) add.assoc add.commute list.simps(9) map_append sum_list.Cons sum_list_append)
qed

lemma others_ge: "t < length ts \<Longrightarrow> u < length ts \<Longrightarrow> u \<noteq> t \<Longrightarrow> f (ts ! u) \<le> others f ts t"
proof -
  assume u: "t < length ts" "u < length ts" "u \<noteq> t"
  have "ts ! u \<in> set (take t ts @ drop (Suc t) ts)"
  proof (cases "u < t")
    case True
    then show ?thesis using u by (auto simp: in_set_conv_nth intro!: exI [of _ u])
  next
    case False
    then have "drop (Suc t) ts ! (u - Suc t) = ts ! u" "u - Suc t < length (drop (Suc t) ts)" using u by auto
    then show ?thesis by (metis UnI2 nth_mem set_append)
  qed
  then show "f (ts ! u) \<le> others f ts t"
    unfolding others_def tally_def by (intro member_le_sum_list) auto
qed

lemma tally_ge: "u < length ts \<Longrightarrow> f (ts ! u) \<le> tally f ts"
  by (simp add: tally_others(2))

lemma tally_bound: "(\<And>p. f p \<le> 1) \<Longrightarrow> tally f ts \<le> length ts"
  unfolding tally_def using sum_list_mono [of ts f "\<lambda>_. 1"] by (simp add: sum_list_triv)

lemma tally_replicate [simp]: "tally f (replicate n p) = n * f p"
  by (simp add: tally_def sum_list_replicate)

lemma tally_zero: "(\<And>p. p \<in> set ts \<Longrightarrow> f p = 0) \<Longrightarrow> tally f ts = 0"
  by (simp add: tally_def)

lemma others_cong: "(\<And>p. f p = g p) \<Longrightarrow> others f ts t = others g ts t"
  by (metis ext)

end
