(* ===== verification/FreeListThreads.thy ===== *)
theory FreeListThreads
  imports BlockPool Tally
begin

text \<open>
  \<^verbatim>\<open>FreeList\<close> of \<^verbatim>\<open>src/lightning/moodycamel/concurrentqueue.h\<close> under interference: any number of threads
  add and take nodes at the same time, and every atomic access is one step of one thread
  (sequentially consistent memory). The theory \<^verbatim>\<open>BlockPool\<close> has the same operations executed
  without interference; the last section relates them to the steps here.

  A thread is the place in the code with its local variables (\<open>fl_loc\<close>). The client may add only a
  node that it owns; \<open>owned\<close> are the nodes outside the list and outside every method.
\<close>

section \<open>Memory\<close>

record fl_mem =
  head_ptr :: "addr option"
  refs_of :: "addr \<Rightarrow> 32 word"
  next_of :: "addr \<Rightarrow> addr option"

definition FreeList_new :: fl_mem where
  "FreeList_new = \<lparr>head_ptr = None, refs_of = (\<lambda>_. 0), next_of = (\<lambda>_. None)\<rparr>"

definition cas_head :: "addr option \<Rightarrow> addr option \<Rightarrow> fl_mem \<Rightarrow> bool \<times> fl_mem" where
  "cas_head expected desired m =
     (if head_ptr m = expected then (True, m\<lparr>head_ptr := desired\<rparr>) else (False, m))"

definition cas_refs :: "addr \<Rightarrow> 32 word \<Rightarrow> 32 word \<Rightarrow> fl_mem \<Rightarrow> bool \<times> fl_mem" where
  "cas_refs x expected desired m =
     (if refs_of m x = expected then (True, m\<lparr>refs_of := (refs_of m)(x := desired)\<rparr>) else (False, m))"

definition fetch_add_refs :: "addr \<Rightarrow> 32 word \<Rightarrow> fl_mem \<Rightarrow> 32 word \<times> fl_mem" where
  "fetch_add_refs x n m = (refs_of m x, m\<lparr>refs_of := (refs_of m)(x := refs_of m x + n)\<rparr>)"

definition fetch_sub_refs :: "addr \<Rightarrow> 32 word \<Rightarrow> fl_mem \<Rightarrow> 32 word \<times> fl_mem" where
  "fetch_sub_refs x n m = (refs_of m x, m\<lparr>refs_of := (refs_of m)(x := refs_of m x - n)\<rparr>)"

section \<open>Threads\<close>

text \<open>
  \<^verbatim>\<open>add_knowing_refcount_is_zero\<close> (the places \<open>Link\<close>) is called by \<^verbatim>\<open>add\<close>, which then returns, and by
  \<^verbatim>\<open>try_get\<close>, which goes on with the head that its compare-exchange has found.
\<close>

datatype fl_cont = Return_add | Resume "addr option"

datatype fl_loc =
    Idle
  | Add_flag addr
  | Link_load addr fl_cont
  | Link_next addr "addr option" fl_cont
  | Link_refs addr "addr option" fl_cont
  | Link_cas addr "addr option" fl_cont
  | Link_undo addr "addr option" fl_cont
  | Added
  | Get_load
  | Get_refs addr
  | Get_cas addr "32 word"
  | Get_next addr
  | Get_head addr "addr option"
  | Get_assert addr
  | Get_sub addr
  | Get_unref addr "addr option"
  | Got "addr option"
  | Aborted

definition get_loop :: "addr option \<Rightarrow> fl_loc" where
  "get_loop head = (case head of None \<Rightarrow> Got None | Some x \<Rightarrow> Get_refs x)"

definition continue_with :: "fl_cont \<Rightarrow> fl_loc" where
  "continue_with k = (case k of Return_add \<Rightarrow> Added | Resume head \<Rightarrow> get_loop head)"

fun add_step :: "fl_loc \<Rightarrow> fl_mem \<Rightarrow> (fl_loc \<times> fl_mem) option" where
  "add_step (Add_flag x) m =
     (case fetch_add_refs x SHOULD_BE_ON_FREELIST m of
        (old, m') \<Rightarrow> Some (if old = 0 then Link_load x Return_add else Added, m'))"
| "add_step _ m = None"

fun add_knowing_refcount_is_zero_step :: "fl_loc \<Rightarrow> fl_mem \<Rightarrow> (fl_loc \<times> fl_mem) option" where
  "add_knowing_refcount_is_zero_step (Link_load x k) m = Some (Link_next x (head_ptr m) k, m)"
| "add_knowing_refcount_is_zero_step (Link_next x head k) m =
     Some (Link_refs x head k, m\<lparr>next_of := (next_of m)(x := head)\<rparr>)"
| "add_knowing_refcount_is_zero_step (Link_refs x head k) m =
     Some (Link_cas x head k, m\<lparr>refs_of := (refs_of m)(x := 1)\<rparr>)"
| "add_knowing_refcount_is_zero_step (Link_cas x head k) m =
     (case cas_head head (Some x) m of
        (True, m') \<Rightarrow> Some (continue_with k, m')
      | (False, m') \<Rightarrow> Some (Link_undo x (head_ptr m) k, m'))"
| "add_knowing_refcount_is_zero_step (Link_undo x head k) m =
     (case fetch_add_refs x (SHOULD_BE_ON_FREELIST - 1) m of
        (old, m') \<Rightarrow> Some (if old = 1 then Link_next x head k else continue_with k, m'))"
| "add_knowing_refcount_is_zero_step _ m = None"

fun try_get_step :: "fl_loc \<Rightarrow> fl_mem \<Rightarrow> (fl_loc \<times> fl_mem) option" where
  "try_get_step Get_load m = Some (get_loop (head_ptr m), m)"
| "try_get_step (Get_refs x) m =
     Some (if refs_of m x AND REFS_MASK = 0 then Get_load else Get_cas x (refs_of m x), m)"
| "try_get_step (Get_cas x refs) m =
     (case cas_refs x refs (refs + 1) m of
        (True, m') \<Rightarrow> Some (Get_next x, m')
      | (False, m') \<Rightarrow> Some (Get_load, m'))"
| "try_get_step (Get_next x) m = Some (Get_head x (next_of m x), m)"
| "try_get_step (Get_head x next) m =
     (case cas_head (Some x) next m of
        (True, m') \<Rightarrow> Some (Get_assert x, m')
      | (False, m') \<Rightarrow> Some (Get_unref x (head_ptr m), m'))"
| "try_get_step (Get_assert x) m =
     Some (if refs_of m x AND SHOULD_BE_ON_FREELIST = 0 then Get_sub x else Aborted, m)"
| "try_get_step (Get_sub x) m =
     (case fetch_sub_refs x 2 m of (old, m') \<Rightarrow> Some (Got (Some x), m'))"
| "try_get_step (Get_unref x head) m =
     (case fetch_sub_refs x 1 m of
        (old, m') \<Rightarrow> Some (if old = SHOULD_BE_ON_FREELIST + 1 then Link_load x (Resume head)
                          else get_loop head, m'))"
| "try_get_step _ m = None"

text \<open>A thread outside the methods, or with its result in hand, has no step of its own.\<close>

definition thread_step :: "fl_loc \<Rightarrow> fl_mem \<Rightarrow> (fl_loc \<times> fl_mem) option" where
  "thread_step p m =
     (case add_step p m of
        Some r \<Rightarrow> Some r
      | None \<Rightarrow> (case add_knowing_refcount_is_zero_step p m of
                  Some r \<Rightarrow> Some r
                | None \<Rightarrow> try_get_step p m))"

record fl_state =
  mem_of :: fl_mem
  threads :: "fl_loc list"
  owned :: "addr \<Rightarrow> bool"

definition fl_new :: "nat \<Rightarrow> fl_state" where
  "fl_new n = \<lparr>mem_of = FreeList_new, threads = replicate n Idle, owned = (\<lambda>_. True)\<rparr>"

text \<open>A step of a thread in a method, or of its client: a call, or taking the result.\<close>

datatype fl_act = Step nat | Call_add nat addr | Call_get nat | Return nat

definition fl_event :: "fl_act \<Rightarrow> fl_state \<Rightarrow> fl_state option" where
  "fl_event e s =
     (case e of
        Step t \<Rightarrow>
          (if t < length (threads s)
           then map_option (\<lambda>(p, m). s\<lparr>threads := (threads s)[t := p], mem_of := m\<rparr>)
                  (thread_step (threads s ! t) (mem_of s))
           else None)
      | Call_add t x \<Rightarrow>
          (if t < length (threads s) \<and> threads s ! t = Idle \<and> owned s x
           then Some (s\<lparr>threads := (threads s)[t := Add_flag x], owned := (owned s)(x := False)\<rparr>)
           else None)
      | Call_get t \<Rightarrow>
          (if t < length (threads s) \<and> threads s ! t = Idle
           then Some (s\<lparr>threads := (threads s)[t := Get_load]\<rparr>) else None)
      | Return t \<Rightarrow>
          (if t < length (threads s)
           then (case threads s ! t of
                   Added \<Rightarrow> Some (s\<lparr>threads := (threads s)[t := Idle]\<rparr>)
                 | Got None \<Rightarrow> Some (s\<lparr>threads := (threads s)[t := Idle]\<rparr>)
                 | Got (Some x) \<Rightarrow>
                     Some (s\<lparr>threads := (threads s)[t := Idle], owned := (owned s)(x := True)\<rparr>)
                 | _ \<Rightarrow> None)
           else None))"

fun fl_run :: "fl_act list \<Rightarrow> fl_state \<Rightarrow> fl_state option" where
  "fl_run [] s = Some s"
| "fl_run (e # es) s = Option.bind (fl_event e s) (fl_run es)"

lemma fl_run_append: "fl_run (es @ fs) s = Option.bind (fl_run es s) (fl_run fs)"
  by (induction es arbitrary: s) (auto split: Option.bind_split)

section \<open>The reference count as a number and a flag\<close>

definition refs_word :: "nat \<Rightarrow> nat \<Rightarrow> 32 word" where
  "refs_word r f = of_nat (r + f * 2147483648)"

lemma unat_refs_word:
  assumes "r < 2147483648" "f \<le> 1"
  shows "unat (refs_word r f) = r + f * 2147483648"
proof -
  have "r + f * 2147483648 < 2 ^ LENGTH(32)" using assms by simp
  then show ?thesis unfolding refs_word_def by (rule unat_of_nat_small)
qed

lemma refs_word_eq:
  assumes "r < 2147483648" "f \<le> 1" "unat w = r' + f' * 2147483648" "r' < 2147483648"
  shows "refs_word r f = w \<longleftrightarrow> r = r' \<and> f = f'"
proof -
  have "x mod 2147483648 = r \<and> x div 2147483648 = f" if "x = r + f * 2147483648" "r < 2147483648"
    for x r f :: nat using that by simp
  with assms(1,4) have "r + f * 2147483648 = r' + f' * 2147483648 \<longleftrightarrow> r = r' \<and> f = f'" by metis
  then show ?thesis unfolding word_unat_eq_iff unat_refs_word [OF assms(1,2)] assms(3) .
qed

lemma and_REFS_MASK: "unat (w AND REFS_MASK) = unat w mod 2147483648"
  using unat_and_pow2_minus_one [of w 31] by (simp add: REFS_MASK_def)

lemma and_SHOULD_BE_ON_FREELIST: "w AND SHOULD_BE_ON_FREELIST = 0 \<longleftrightarrow> unat w < 2147483648"
proof -
  have "w AND SHOULD_BE_ON_FREELIST = 0 \<longleftrightarrow> \<not> bit w 31"
    using and_exp_eq_0_iff_not_bit [of w 31] by (simp add: SHOULD_BE_ON_FREELIST_def)
  also have "bit w 31 \<longleftrightarrow> bit (unat w) 31" by (simp add: bit_unsigned_iff)
  also have "\<dots> \<longleftrightarrow> odd (unat w div 2147483648)" by (simp add: bit_iff_odd)
  also have "\<dots> \<longleftrightarrow> \<not> unat w < 2147483648"
  proof -
    have "unat w < 2 ^ LENGTH(32)" by (rule unsigned_less)
    then have "unat w div 2147483648 < 2" by (simp add: less_mult_imp_div_less)
    then show ?thesis by (cases "unat w div 2147483648 = 0") (auto simp: div_eq_0_iff less_2_cases_iff)
  qed
  finally show ?thesis by simp
qed

lemma refs_word_tests:
  assumes "r < 2147483648" "f \<le> 1"
  shows "refs_word r f = 0 \<longleftrightarrow> r = 0 \<and> f = 0" "refs_word r f = 1 \<longleftrightarrow> r = 1 \<and> f = 0"
    "refs_word r f = SHOULD_BE_ON_FREELIST + 1 \<longleftrightarrow> r = 1 \<and> f = 1"
    "refs_word r f AND REFS_MASK = 0 \<longleftrightarrow> r = 0"
    "refs_word r f AND SHOULD_BE_ON_FREELIST = 0 \<longleftrightarrow> f = 0"
proof -
  note u = unat_refs_word [OF assms] and eq = refs_word_eq [OF assms]
  show "refs_word r f = 0 \<longleftrightarrow> r = 0 \<and> f = 0" "refs_word r f = 1 \<longleftrightarrow> r = 1 \<and> f = 0"
    "refs_word r f = SHOULD_BE_ON_FREELIST + 1 \<longleftrightarrow> r = 1 \<and> f = 1"
    by (rule eq; simp add: SHOULD_BE_ON_FREELIST_def)+
  show "refs_word r f AND REFS_MASK = 0 \<longleftrightarrow> r = 0"
    unfolding word_unat_eq_iff and_REFS_MASK u using assms by simp
  show "refs_word r f AND SHOULD_BE_ON_FREELIST = 0 \<longleftrightarrow> f = 0"
    unfolding and_SHOULD_BE_ON_FREELIST u using assms by auto
qed

lemma refs_word_updates:
  "refs_word r f + 1 = refs_word (r + 1) f"
  "refs_word (Suc r) f - 1 = refs_word r f"
  "refs_word (Suc (Suc r)) f - 2 = refs_word r f"
  "refs_word r 0 + SHOULD_BE_ON_FREELIST = refs_word r 1"
  "refs_word (Suc r) 0 + (SHOULD_BE_ON_FREELIST - 1) = refs_word r 1"
  by (simp_all add: refs_word_def SHOULD_BE_ON_FREELIST_def)

section \<open>What the threads hold\<close>

text \<open>
  \<open>held x\<close>: the reference that \<^verbatim>\<open>try_get\<close> has taken on \<open>x\<close>. \<open>spare x\<close>: a reference that the thread
  took over from the list, or keeps for it. \<open>flagging x\<close>: the node is marked for the free list and
  this thread is putting it there. \<open>place x\<close>: the node is in the hands of this thread.
\<close>

fun held :: "addr \<Rightarrow> fl_loc \<Rightarrow> nat" where
  "held x (Get_next y) = of_bool (x = y)"
| "held x (Get_head y n) = of_bool (x = y)"
| "held x (Get_assert y) = of_bool (x = y)"
| "held x (Get_sub y) = of_bool (x = y)"
| "held x (Get_unref y h) = of_bool (x = y)"
| "held x _ = 0"

fun spare :: "addr \<Rightarrow> fl_loc \<Rightarrow> nat" where
  "spare x (Get_assert y) = of_bool (x = y)"
| "spare x (Get_sub y) = of_bool (x = y)"
| "spare x (Link_cas y h k) = of_bool (x = y)"
| "spare x (Link_undo y h k) = of_bool (x = y)"
| "spare x _ = 0"

fun flagging :: "addr \<Rightarrow> fl_loc \<Rightarrow> nat" where
  "flagging x (Link_load y k) = of_bool (x = y)"
| "flagging x (Link_next y h k) = of_bool (x = y)"
| "flagging x (Link_refs y h k) = of_bool (x = y)"
| "flagging x _ = 0"

fun at_hand :: "addr \<Rightarrow> fl_loc \<Rightarrow> nat" where
  "at_hand x (Add_flag y) = of_bool (x = y)"
| "at_hand x (Got (Some y)) = of_bool (x = y)"
| "at_hand x _ = 0"

definition place :: "addr \<Rightarrow> fl_loc \<Rightarrow> nat" where
  "place x p = spare x p + flagging x p + at_hand x p"

lemma idle_holds_nothing [simp]: "held x Idle = 0" "spare x Idle = 0" "flagging x Idle = 0"
    "place x Idle = 0" "at_hand x Idle = 0"
  by (simp_all add: place_def)

lemma held_le: "held x p \<le> 1"
  by (cases p) simp_all

section \<open>The invariant\<close>

text \<open>The nodes of the list, from the head along the next pointers.\<close>

fun chain :: "(addr \<Rightarrow> addr option) \<Rightarrow> addr option \<Rightarrow> addr list \<Rightarrow> bool" where
  "chain nx h [] \<longleftrightarrow> h = None"
| "chain nx h (x # xs) \<longleftrightarrow> h = Some x \<and> chain nx (nx x) xs"

lemma chain_unique: "chain nx h xs \<Longrightarrow> chain nx h ys \<Longrightarrow> xs = ys"
proof (induction xs arbitrary: h ys)
  case Nil then show ?case by (cases ys) auto
next
  case (Cons x xs) then show ?case by (cases ys) auto
qed

lemma chain_update: "y \<notin> set xs \<Longrightarrow> chain (nx(y := v)) h xs \<longleftrightarrow> chain nx h xs"
  by (induction xs arbitrary: h) auto

lemma chain_head: "chain nx (Some x) xs \<Longrightarrow> \<exists>ys. xs = x # ys \<and> chain nx (nx x) ys"
  by (cases xs) auto

text \<open>
  The account of one node with \<open>h\<close> references, \<open>e\<close> spare ones and \<open>f\<close> flagging threads: it is in the
  list (\<open>l\<close>), with the client (\<open>c\<close>) or in the hands of one thread; when it is nowhere (\<open>w = 0\<close>), it
  is marked, and the last of the holders will put it on the list.
\<close>

definition account :: "nat \<Rightarrow> nat \<Rightarrow> nat \<Rightarrow> nat \<Rightarrow> nat \<Rightarrow> nat \<Rightarrow> 32 word \<Rightarrow> bool" where
  "account l c h e f a refs \<longleftrightarrow>
     l + c + e + f + a \<le> 1 \<and>
     refs = refs_word (h + l + e) (1 - (l + c + e + a)) \<and>
     (l + c + e + a = 0 \<longrightarrow> (f = 0 \<longleftrightarrow> 0 < h))"

definition node_account :: "addr list \<Rightarrow> fl_state \<Rightarrow> addr \<Rightarrow> bool" where
  "node_account L s x \<longleftrightarrow>
     account (of_bool (x \<in> set L)) (of_bool (owned s x)) (tally (held x) (threads s))
       (tally (spare x) (threads s)) (tally (flagging x) (threads s)) (tally (at_hand x) (threads s))
       (refs_of (mem_of s) x)"

text \<open>What a thread remembers is still so.\<close>

fun loc_ok :: "(addr \<Rightarrow> addr option) \<Rightarrow> fl_loc \<Rightarrow> bool" where
  "loc_ok nx (Get_cas x refs) \<longleftrightarrow> refs AND REFS_MASK \<noteq> 0"
| "loc_ok nx (Get_head x n) \<longleftrightarrow> nx x = n"
| "loc_ok nx (Link_refs x h k) \<longleftrightarrow> nx x = h"
| "loc_ok nx (Link_cas x h k) \<longleftrightarrow> nx x = h"
| "loc_ok nx Aborted \<longleftrightarrow> False"
| "loc_ok nx _ \<longleftrightarrow> True"

definition fl_at :: "addr list \<Rightarrow> fl_state \<Rightarrow> bool" where
  "fl_at L s \<longleftrightarrow>
     chain (next_of (mem_of s)) (head_ptr (mem_of s)) L \<and> distinct L \<and>
     (\<forall>x. node_account L s x) \<and>
     (\<forall>p \<in> set (threads s). loc_ok (next_of (mem_of s)) p)"

text \<open>The account of \<open>x\<close>, with thread \<open>t\<close> at \<open>p\<close> and the others' share.\<close>

definition account_with :: "addr list \<Rightarrow> fl_state \<Rightarrow> nat \<Rightarrow> addr \<Rightarrow> (addr \<Rightarrow> bool) \<Rightarrow> fl_loc \<Rightarrow> 32 word \<Rightarrow> bool" where
  "account_with L s t x own p refs \<longleftrightarrow>
     account (of_bool (x \<in> set L)) (of_bool (own x)) (others (held x) (threads s) t + held x p)
       (others (spare x) (threads s) t + spare x p) (others (flagging x) (threads s) t + flagging x p)
       (others (at_hand x) (threads s) t + at_hand x p) refs"

lemma account_withI: "fl_at L s \<Longrightarrow> t < length (threads s) \<Longrightarrow>
    account_with L s t x (owned s) (threads s ! t) (refs_of (mem_of s) x)"
  by (simp add: fl_at_def account_with_def node_account_def tally_others(2) [symmetric])

definition unchanged :: "addr \<Rightarrow> fl_loc \<Rightarrow> fl_loc \<Rightarrow> bool" where
  "unchanged x p q \<longleftrightarrow> held x q = held x p \<and> spare x q = spare x p \<and> flagging x q = flagging x p
     \<and> at_hand x q = at_hand x p"

lemma fl_at_step:
  assumes I: "fl_at L s" and t: "t < length (threads s)"
    and s': "threads s' = (threads s)[t := q]"
    and same: "\<And>x. x \<noteq> y \<Longrightarrow> refs_of (mem_of s') x = refs_of (mem_of s) x \<and> owned s' x = owned s x
      \<and> next_of (mem_of s') x = next_of (mem_of s) x \<and> (x \<in> set L' \<longleftrightarrow> x \<in> set L) \<and> unchanged x (threads s ! t) q"
    and c: "chain (next_of (mem_of s')) (head_ptr (mem_of s')) L'" and d: "distinct L'"
    and y: "account_with L' s t y (owned s') q (refs_of (mem_of s') y)"
    and q: "loc_ok (next_of (mem_of s')) q"
    and nx: "next_of (mem_of s') y = next_of (mem_of s) y \<or> flagging y (threads s ! t) = 1"
  shows "fl_at L' s'"
proof -
  note I' = I [unfolded fl_at_def]
  have acc: "node_account L' s' x" for x
  proof (cases "x = y")
    case True
    then show ?thesis using y t
      by (simp add: node_account_def account_with_def s' tally_others(1))
  next
    case False
    have "account_with L s t x (owned s) (threads s ! t) (refs_of (mem_of s) x)"
      by (rule account_withI [OF I t])
    then show ?thesis using same [OF False] t
      by (simp add: node_account_def account_with_def s' tally_others(1) unchanged_def)
  qed
  have loc: "loc_ok (next_of (mem_of s')) (threads s ! u)" if u: "u < length (threads s)" "u \<noteq> t" for u
  proof (cases "next_of (mem_of s') y = next_of (mem_of s) y")
    case True
    have "next_of (mem_of s') x = next_of (mem_of s) x" for x
      using True same [of x] by (cases "x = y") auto
    then have "next_of (mem_of s') = next_of (mem_of s)" by blast
    then show ?thesis using I' u(1) by (metis nth_mem)
  next
    case False
    then have f: "flagging y (threads s ! t) = 1" using nx by blast
    have a: "account_with L s t y (owned s) (threads s ! t) (refs_of (mem_of s) y)"
      by (rule account_withI [OF I t])
    have "others (held y) (threads s) t = 0" "others (spare y) (threads s) t = 0"
        "others (flagging y) (threads s) t = 0"
      using a f by (auto simp: account_with_def account_def)
    then have z: "held y (threads s ! u) = 0" "spare y (threads s ! u) = 0" "flagging y (threads s ! u) = 0"
      using others_ge [OF t u] by (metis le_zero_eq)+
    have l: "loc_ok (next_of (mem_of s)) (threads s ! u)" using I' u(1) by simp
    show ?thesis using z l same by (cases "threads s ! u") (force split: if_splits)+
  qed
  have "loc_ok (next_of (mem_of s')) p" if p: "p \<in> set (threads s')" for p
  proof -
    from p obtain u where "u < length (threads s)" "p = threads s' ! u"
      by (auto simp: s' in_set_conv_nth)
    then show ?thesis using loc q by (cases "u = t") (simp_all add: s')
  qed
  then show ?thesis using acc c d by (simp add: fl_at_def)
qed

section \<open>How the account of a node changes\<close>

lemma account_flag:
  assumes "account l c h e f (Suc a) r" "h < 2147483647"
  shows "r = 0 \<longleftrightarrow> h = 0" "account l c h e (f + of_bool (r = 0)) a (r + SHOULD_BE_ON_FREELIST)"
proof -
  have r: "l = 0" "c = 0" "e = 0" "f = 0" "a = 0" "r = refs_word h 0"
    using assms(1) by (auto simp: account_def)
  then show z: "r = 0 \<longleftrightarrow> h = 0" using assms(2) by (simp add: refs_word_tests)
  show "account l c h e (f + of_bool (r = 0)) a (r + SHOULD_BE_ON_FREELIST)"
    unfolding z using r by (simp add: account_def refs_word_updates)
qed

lemma account_store: "account l c h e (Suc f) a r \<Longrightarrow> account l c h (Suc e) f a 1"
  by (auto simp: account_def refs_word_def)

lemma account_list: "account 0 c h (Suc e) f a r \<Longrightarrow> account 1 c h e f a r"
  by (auto simp: account_def)

lemma account_undo:
  assumes "account l c h (Suc e) f a r" "h < 2147483647"
  shows "r = 1 \<longleftrightarrow> h = 0" "account l c h e (f + of_bool (r = 1)) a (r + (SHOULD_BE_ON_FREELIST - 1))"
proof -
  have r: "l = 0" "c = 0" "e = 0" "f = 0" "a = 0" "r = refs_word (Suc h) 0"
    using assms(1) by (auto simp: account_def)
  then show z: "r = 1 \<longleftrightarrow> h = 0" using assms(2) by (simp add: refs_word_tests)
  show "account l c h e (f + of_bool (r = 1)) a (r + (SHOULD_BE_ON_FREELIST - 1))"
    unfolding z using r by (simp add: account_def refs_word_updates)
qed

lemma account_word:
  "account l c h e f a r \<Longrightarrow> r = refs_word (h + l + e) (1 - (l + c + e + a)) \<and> l + e \<le> 1"
  by (simp add: account_def)

lemma account_masked:
  assumes "account l c h e f a r" "h < 2147483647"
  shows "r AND REFS_MASK = 0 \<longleftrightarrow> h + l + e = 0"
  using account_word [OF assms(1)] assms(2) by (simp add: refs_word_tests)

lemma account_acquire:
  assumes "account l c h e f a r" "h < 2147483647" "r AND REFS_MASK \<noteq> 0"
  shows "account l c (Suc h) e f a (r + 1)"
  using assms(1) account_masked [OF assms(1,2)] assms(3)
  by (auto simp: account_def refs_word_updates)

lemma account_win: "account 1 c (Suc h) e f a r \<Longrightarrow> account 0 c (Suc h) (Suc e) f a r"
  by (auto simp: account_def)

lemma account_assert:
  assumes "account l c h (Suc e) f a r" "h < 2147483647"
  shows "r AND SHOULD_BE_ON_FREELIST = 0"
proof -
  have "r = refs_word (Suc h) 0" using assms(1) by (auto simp: account_def)
  then show ?thesis using assms(2) by (simp add: refs_word_tests)
qed

lemma account_give: "account l c (Suc h) (Suc e) f a r \<Longrightarrow> account l c h e f (Suc a) (r - 2)"
  by (auto simp: account_def refs_word_updates)

lemma account_unref:
  assumes "account l c (Suc h) e f a r" "h < 2147483646"
  shows "account l c h e (f + of_bool (r = SHOULD_BE_ON_FREELIST + 1)) a (r - 1)"
proof -
  note r = account_word [OF assms(1)]
  have z: "r = SHOULD_BE_ON_FREELIST + 1 \<longleftrightarrow> l + c + e + a = 0 \<and> h = 0"
    using r assms(2) by (auto simp: refs_word_tests)
  show ?thesis unfolding z using assms(1) by (auto simp: account_def refs_word_updates)
qed

section \<open>Every step keeps the invariant\<close>

abbreviation move_to :: "fl_state \<Rightarrow> nat \<Rightarrow> fl_loc \<Rightarrow> fl_mem \<Rightarrow> fl_state" where
  "move_to s t q m \<equiv> s\<lparr>threads := (threads s)[t := q], mem_of := m\<rparr>"

lemma neutral [simp]:
  "held x (get_loop h) = 0" "spare x (get_loop h) = 0" "flagging x (get_loop h) = 0"
  "at_hand x (get_loop h) = 0" "loc_ok nx (get_loop h)"
  "held x (continue_with k) = 0" "spare x (continue_with k) = 0" "flagging x (continue_with k) = 0"
  "at_hand x (continue_with k) = 0" "loc_ok nx (continue_with k)"
  by (auto simp: get_loop_def continue_with_def split: option.split fl_cont.split)

lemma fl_at_list: "fl_at L s \<Longrightarrow> chain (next_of (mem_of s)) (head_ptr (mem_of s)) L" "fl_at L s \<Longrightarrow> distinct L"
  by (simp_all add: fl_at_def)

lemma fl_at_loc: "fl_at L s \<Longrightarrow> t < length (threads s) \<Longrightarrow> loc_ok (next_of (mem_of s)) (threads s ! t)"
  by (simp add: fl_at_def)

lemma held_bound:
  assumes "t < length (threads s)" "length (threads s) < 2147483647"
  shows "others (held x) (threads s) t + held x (threads s ! t) < 2147483647"
proof -
  have "tally (held x) (threads s) \<le> length (threads s)" by (rule tally_bound [OF held_le])
  then show ?thesis using assms(2) by (simp add: tally_others(2) [OF assms(1)])
qed

text \<open>A step that leaves the pointers alone.\<close>

lemma fl_at_refs:
  assumes I: "fl_at L s" and t: "t < length (threads s)"
    and p: "\<And>z. z \<noteq> x \<Longrightarrow> unchanged z (threads s ! t) q"
    and a: "account_with L s t x (owned s) q r" and q: "loc_ok (next_of (mem_of s)) q"
  shows "fl_at L (move_to s t q ((mem_of s)\<lparr>refs_of := (refs_of (mem_of s))(x := r)\<rparr>))"
  by (rule fl_at_step [OF I t, where q = q and y = x]) (use assms fl_at_list [OF I] in simp_all)

lemma fl_at_stay:
  assumes I: "fl_at L s" and t: "t < length (threads s)"
    and p: "\<And>z. unchanged z (threads s ! t) q" and q: "loc_ok (next_of (mem_of s)) q"
  shows "fl_at L (move_to s t q (mem_of s))"
  by (rule fl_at_step [OF I t, where q = q and y = undefined])
     (use assms fl_at_list [OF I] account_withI [OF I t] in \<open>simp_all add: unchanged_def account_with_def\<close>)

lemma add_step_inv:
  assumes I: "fl_at L s" and t: "t < length (threads s)" and b: "length (threads s) < 2147483647"
    and st: "add_step (threads s ! t) (mem_of s) = Some (q, m)"
  shows "\<exists>L'. fl_at L' (move_to s t q m)"
proof -
  obtain x where p: "threads s ! t = Add_flag x" using st by (cases "threads s ! t") auto
  let ?r = "refs_of (mem_of s) x"
  have A: "account (of_bool (x \<in> set L)) (of_bool (owned s x)) (others (held x) (threads s) t)
      (others (spare x) (threads s) t) (others (flagging x) (threads s) t)
      (Suc (others (at_hand x) (threads s) t)) ?r"
    using account_withI [OF I t, of x] by (simp add: account_with_def p)
  have B: "others (held x) (threads s) t < 2147483647" using held_bound [OF t b, of x] by (simp add: p)
  have q: "q = (if ?r = 0 then Link_load x Return_add else Added)"
      and m: "m = (mem_of s)\<lparr>refs_of := (refs_of (mem_of s))(x := ?r + SHOULD_BE_ON_FREELIST)\<rparr>"
    using st by (auto simp: p fetch_add_refs_def)
  show ?thesis unfolding m
    by (intro exI, rule fl_at_refs [OF I t])
       (use account_flag(2) [OF A B] in \<open>auto simp: p q unchanged_def account_with_def\<close>)
qed

lemma link_cas_inv:
  assumes I: "fl_at L s" and t: "t < length (threads s)" and b: "length (threads s) < 2147483647"
    and cas: "threads s ! t = Link_cas x h k" and st: "add_knowing_refcount_is_zero_step (threads s ! t) (mem_of s) = Some (q, m)"
  shows "\<exists>L'. fl_at L' (move_to s t q m)"
proof -
  note loc = fl_at_loc [OF I t] and C = fl_at_list [OF I]
  note A = account_withI [OF I t, unfolded account_with_def]
  have B: "others (held x) (threads s) t < 2147483647" for x using held_bound [OF t b, of x] by simp
  have x: "x \<notin> set L" using A [of x] by (auto simp: cas account_def)
  show ?thesis
  proof (cases "head_ptr (mem_of s) = h")
    case True
    then have q: "q = continue_with k" and m: "m = (mem_of s)\<lparr>head_ptr := Some x\<rparr>"
      using st cas by (auto simp: cas_head_def)
    have "fl_at (x # L) (move_to s t q m)"
      by (rule fl_at_step [OF I t, where q = q and y = x])
         (use A [of x] C x loc True account_list in \<open>auto simp: q m cas unchanged_def account_with_def\<close>)
    then show ?thesis by blast
  next
    case False
    then have q: "q = Link_undo x (head_ptr (mem_of s)) k" "m = mem_of s"
      using st cas by (auto simp: cas_head_def)
    show ?thesis unfolding q
      by (intro exI, rule fl_at_stay [OF I t]) (auto simp: cas unchanged_def)
  qed
qed

lemma link_undo_inv:
  assumes I: "fl_at L s" and t: "t < length (threads s)" and b: "length (threads s) < 2147483647"
    and undo: "threads s ! t = Link_undo x h k" and st: "add_knowing_refcount_is_zero_step (threads s ! t) (mem_of s) = Some (q, m)"
  shows "\<exists>L'. fl_at L' (move_to s t q m)"
proof -
  note loc = fl_at_loc [OF I t] and C = fl_at_list [OF I]
  note A = account_withI [OF I t, unfolded account_with_def]
  have B: "others (held x) (threads s) t < 2147483647" for x using held_bound [OF t b, of x] by simp
  let ?r = "refs_of (mem_of s) x"
  have q: "q = (if ?r = 1 then Link_next x h k else continue_with k)"
      and m: "m = (mem_of s)\<lparr>refs_of := (refs_of (mem_of s))(x := ?r + (SHOULD_BE_ON_FREELIST - 1))\<rparr>"
    using st undo by (auto simp: fetch_add_refs_def)
  have "account_with L s t x (owned s) q (?r + (SHOULD_BE_ON_FREELIST - 1))"
    using account_undo(2) [OF A [of x, unfolded undo, simplified] B]
    by (cases "?r = 1") (simp_all add: account_with_def q)
  then have "fl_at L (move_to s t q m)" unfolding m
    by (rule fl_at_refs [OF I t, rotated]) (auto simp: q undo unchanged_def)
  then show ?thesis by blast
qed

lemma link_step_inv:
  assumes I: "fl_at L s" and t: "t < length (threads s)" and b: "length (threads s) < 2147483647"
    and st: "add_knowing_refcount_is_zero_step (threads s ! t) (mem_of s) = Some (q, m)"
  shows "\<exists>L'. fl_at L' (move_to s t q m)"
proof -
  note loc = fl_at_loc [OF I t] and C = fl_at_list [OF I]
  note A = account_withI [OF I t, unfolded account_with_def]
  have B: "others (held x) (threads s) t < 2147483647" for x using held_bound [OF t b, of x] by simp
  consider (load) x k where "threads s ! t = Link_load x k" | (nxt) x h k where "threads s ! t = Link_next x h k"
    | (refs) x h k where "threads s ! t = Link_refs x h k" | (cas) x h k where "threads s ! t = Link_cas x h k"
    | (undo) x h k where "threads s ! t = Link_undo x h k"
    using st by (cases "threads s ! t") auto
  then show ?thesis
  proof cases
    case load
    then have q: "q = Link_next x (head_ptr (mem_of s)) k" "m = mem_of s" using st by auto
    show ?thesis unfolding q
      by (intro exI, rule fl_at_stay [OF I t]) (auto simp: load unchanged_def)
  next
    case nxt
    then have q: "q = Link_refs x h k" and m: "m = (mem_of s)\<lparr>next_of := (next_of (mem_of s))(x := h)\<rparr>"
      using st by auto
    have x: "x \<notin> set L" using A [of x] by (auto simp: nxt account_def)
    have "fl_at L (move_to s t q m)"
      by (rule fl_at_step [OF I t, where q = q and y = x])
         (use A [of x] C x in \<open>auto simp: q m nxt unchanged_def account_with_def chain_update\<close>)
    then show ?thesis by blast
  next
    case refs
    then have q: "q = Link_cas x h k" and m: "m = (mem_of s)\<lparr>refs_of := (refs_of (mem_of s))(x := 1)\<rparr>"
      using st by auto
    show ?thesis unfolding m
      by (intro exI, rule fl_at_refs [OF I t])
         (use account_store A [of x] loc in \<open>auto simp: q refs unchanged_def account_with_def\<close>)
  next
    case cas
    show ?thesis by (rule link_cas_inv [OF I t b cas st])
  next
    case undo
    show ?thesis by (rule link_undo_inv [OF I t b undo st])
  qed
qed

lemma get_cas_inv:
  assumes I: "fl_at L s" and t: "t < length (threads s)" and b: "length (threads s) < 2147483647"
    and cas: "threads s ! t = Get_cas x r" and st: "try_get_step (threads s ! t) (mem_of s) = Some (q, m)"
  shows "\<exists>L'. fl_at L' (move_to s t q m)"
proof -
  note loc = fl_at_loc [OF I t] and C = fl_at_list [OF I]
  note A = account_withI [OF I t, unfolded account_with_def]
  note B = held_bound [OF t b]
  show ?thesis
  proof (cases "refs_of (mem_of s) x = r")
    case True
    then have q: "q = Get_next x" and m: "m = (mem_of s)\<lparr>refs_of := (refs_of (mem_of s))(x := r + 1)\<rparr>"
      using st cas by (auto simp: cas_refs_def)
    show ?thesis unfolding m
      by (intro exI, rule fl_at_refs [OF I t])
         (use A [of x] B [of x] loc account_acquire True in \<open>auto simp: q cas unchanged_def account_with_def\<close>)
  next
    case False
    then have q: "q = Get_load" "m = mem_of s" using st cas by (auto simp: cas_refs_def)
    show ?thesis unfolding q by (intro exI, rule fl_at_stay [OF I t]) (auto simp: cas unchanged_def)
  qed
qed

lemma get_head_inv:
  assumes I: "fl_at L s" and t: "t < length (threads s)" and b: "length (threads s) < 2147483647"
    and hd: "threads s ! t = Get_head x n" and st: "try_get_step (threads s ! t) (mem_of s) = Some (q, m)"
  shows "\<exists>L'. fl_at L' (move_to s t q m)"
proof -
  note loc = fl_at_loc [OF I t] and C = fl_at_list [OF I]
  note A = account_withI [OF I t, unfolded account_with_def]
  note B = held_bound [OF t b]
  show ?thesis
  proof (cases "head_ptr (mem_of s) = Some x")
    case True
    then have q: "q = Get_assert x" and m: "m = (mem_of s)\<lparr>head_ptr := n\<rparr>"
      using st hd by (auto simp: cas_head_def)
    obtain L' where L: "L = x # L'" "chain (next_of (mem_of s)) (next_of (mem_of s) x) L'"
      using chain_head C(1) True by force
    have "fl_at L' (move_to s t q m)"
      by (rule fl_at_step [OF I t, where q = q and y = x])
         (use A [of x] C L loc account_win in \<open>auto simp: q m hd unchanged_def account_with_def\<close>)
    then show ?thesis by blast
  next
    case False
    then have q: "q = Get_unref x (head_ptr (mem_of s))" "m = mem_of s"
      using st hd by (auto simp: cas_head_def)
    show ?thesis unfolding q by (intro exI, rule fl_at_stay [OF I t]) (auto simp: hd unchanged_def)
  qed
qed

lemma get_unref_inv:
  assumes I: "fl_at L s" and t: "t < length (threads s)" and b: "length (threads s) < 2147483647"
    and unref: "threads s ! t = Get_unref x h" and st: "try_get_step (threads s ! t) (mem_of s) = Some (q, m)"
  shows "\<exists>L'. fl_at L' (move_to s t q m)"
proof -
  note loc = fl_at_loc [OF I t] and C = fl_at_list [OF I]
  note A = account_withI [OF I t, unfolded account_with_def]
  note B = held_bound [OF t b]
  let ?r = "refs_of (mem_of s) x"
  have q: "q = (if ?r = SHOULD_BE_ON_FREELIST + 1 then Link_load x (Resume h) else get_loop h)"
      and m: "m = (mem_of s)\<lparr>refs_of := (refs_of (mem_of s))(x := ?r - 1)\<rparr>"
    using st unref by (auto simp: fetch_sub_refs_def)
  have B': "others (held x) (threads s) t < 2147483646" using B [of x] by (simp add: unref)
  have "account_with L s t x (owned s) q (?r - 1)"
    using account_unref [OF A [of x, unfolded unref, simplified] B']
    by (cases "?r = SHOULD_BE_ON_FREELIST + 1") (simp_all add: account_with_def q)
  then have "fl_at L (move_to s t q m)" unfolding m
    by (rule fl_at_refs [OF I t, rotated]) (auto simp: q unref unchanged_def)
  then show ?thesis by blast
qed

lemma get_step_inv:
  assumes I: "fl_at L s" and t: "t < length (threads s)" and b: "length (threads s) < 2147483647"
    and st: "try_get_step (threads s ! t) (mem_of s) = Some (q, m)"
  shows "\<exists>L'. fl_at L' (move_to s t q m)"
proof -
  note loc = fl_at_loc [OF I t] and C = fl_at_list [OF I]
  note A = account_withI [OF I t, unfolded account_with_def]
  note B = held_bound [OF t b]
  consider (load) "threads s ! t = Get_load" | (refs) x where "threads s ! t = Get_refs x"
    | (cas) x r where "threads s ! t = Get_cas x r" | (nxt) x where "threads s ! t = Get_next x"
    | (hd) x n where "threads s ! t = Get_head x n" | (chk) x where "threads s ! t = Get_assert x"
    | (sub) x where "threads s ! t = Get_sub x" | (unref) x h where "threads s ! t = Get_unref x h"
    using st by (cases "threads s ! t") auto
  then show ?thesis
  proof cases
    case load
    then have q: "q = get_loop (head_ptr (mem_of s))" "m = mem_of s" using st by auto
    show ?thesis unfolding q by (intro exI, rule fl_at_stay [OF I t]) (auto simp: load unchanged_def)
  next
    case refs
    then have q: "q = (if refs_of (mem_of s) x AND REFS_MASK = 0 then Get_load else Get_cas x (refs_of (mem_of s) x))"
        "m = mem_of s" using st by auto
    show ?thesis unfolding q by (intro exI, rule fl_at_stay [OF I t]) (auto simp: refs unchanged_def)
  next
    case cas
    show ?thesis by (rule get_cas_inv [OF I t b cas st])
  next
    case nxt
    then have q: "q = Get_head x (next_of (mem_of s) x)" "m = mem_of s" using st by auto
    show ?thesis unfolding q by (intro exI, rule fl_at_stay [OF I t]) (auto simp: nxt unchanged_def)
  next
    case hd
    show ?thesis by (rule get_head_inv [OF I t b hd st])
  next
    case chk
    have "refs_of (mem_of s) x AND SHOULD_BE_ON_FREELIST = 0"
      using account_assert A [of x] B [of x] by (auto simp: chk)
    then have q: "q = Get_sub x" "m = mem_of s" using st chk by auto
    show ?thesis unfolding q by (intro exI, rule fl_at_stay [OF I t]) (auto simp: chk unchanged_def)
  next
    case sub
    then have q: "q = Got (Some x)"
        and m: "m = (mem_of s)\<lparr>refs_of := (refs_of (mem_of s))(x := refs_of (mem_of s) x - 2)\<rparr>"
      using st by (auto simp: fetch_sub_refs_def)
    show ?thesis unfolding m
      by (intro exI, rule fl_at_refs [OF I t])
         (use A [of x] account_give in \<open>auto simp: q sub unchanged_def account_with_def\<close>)
  next
    case unref
    show ?thesis by (rule get_unref_inv [OF I t b unref st])
  qed
qed

lemma thread_step_inv:
  assumes "fl_at L s" "t < length (threads s)" "length (threads s) < 2147483647"
    and st: "thread_step (threads s ! t) (mem_of s) = Some (q, m)"
  shows "\<exists>L'. fl_at L' (move_to s t q m)"
  using st [unfolded thread_step_def] add_step_inv [OF assms(1-3)] link_step_inv [OF assms(1-3)]
    get_step_inv [OF assms(1-3)] by (auto split: option.splits)

definition fl_inv :: "fl_state \<Rightarrow> bool" where
  "fl_inv s \<longleftrightarrow> length (threads s) < 2147483646 \<and> (\<exists>L. fl_at L s)"

text \<open>The client moves a node between its own and a thread's hands.\<close>

lemma fl_at_client:
  assumes I: "fl_at L s" and t: "t < length (threads s)"
    and p: "\<And>z. held z (threads s ! t) = 0 \<and> spare z (threads s ! t) = 0 \<and> flagging z (threads s ! t) = 0"
    and q: "\<And>z. held z q = 0 \<and> spare z q = 0 \<and> flagging z q = 0" "loc_ok (next_of (mem_of s)) q"
    and move: "\<And>z. of_bool (own z) + at_hand z q = of_bool (owned s z) + at_hand z (threads s ! t)"
  shows "fl_at L (s\<lparr>threads := (threads s)[t := q], owned := own\<rparr>)"
proof -
  have acc: "node_account L (s\<lparr>threads := (threads s)[t := q], owned := own\<rparr>) x" for x
  proof -
    have "of_bool (own x) + at_hand x q = (of_bool (owned s x) + at_hand x (threads s ! t) :: nat)"
      by (rule move)
    then show ?thesis
      using account_withI [OF I t, of x] p [of x] q(1) [of x] t
      by (auto simp: node_account_def account_with_def tally_others(1) account_def)
  qed
  then show ?thesis
    using I q(2) t by (auto simp: fl_at_def dest: set_update_subset_insert [THEN subsetD])
qed

lemma fl_inv_event: "fl_inv s \<Longrightarrow> fl_event e s = Some s' \<Longrightarrow> fl_inv s'"
proof -
  assume "fl_inv s" and e: "fl_event e s = Some s'"
  then obtain L where I: "fl_at L s" and b: "length (threads s) < 2147483646" by (auto simp: fl_inv_def)
  show "fl_inv s'"
  proof (cases e)
    case (Step t)
    then obtain q m where "t < length (threads s)" "thread_step (threads s ! t) (mem_of s) = Some (q, m)"
        "s' = move_to s t q m" using e by (auto simp: fl_event_def split: if_splits)
    then show ?thesis using thread_step_inv [OF I] b by (auto simp: fl_inv_def)
  next
    case (Call_add t x)
    then have "t < length (threads s)" "threads s ! t = Idle" "owned s x"
        "s' = s\<lparr>threads := (threads s)[t := Add_flag x], owned := (owned s)(x := False)\<rparr>"
      using e by (auto simp: fl_event_def split: if_splits)
    moreover from this have "fl_at L s'"
      by (simp only:) (rule fl_at_client [OF I], auto)
    ultimately show ?thesis using b by (auto simp: fl_inv_def)
  next
    case (Call_get t)
    then have "t < length (threads s)" "threads s ! t = Idle" "s' = s\<lparr>threads := (threads s)[t := Get_load]\<rparr>"
      using e by (auto simp: fl_event_def split: if_splits)
    then show ?thesis using fl_at_client [OF I, of t Get_load "owned s"] b by (auto simp: fl_inv_def)
  next
    case (Return t)
    then have t: "t < length (threads s)" using e by (auto simp: fl_event_def split: if_splits)
    consider "threads s ! t = Added \<or> threads s ! t = Got None" "s' = s\<lparr>threads := (threads s)[t := Idle]\<rparr>"
      | x where "threads s ! t = Got (Some x)"
          "s' = s\<lparr>threads := (threads s)[t := Idle], owned := (owned s)(x := True)\<rparr>"
      using e Return t by (auto simp: fl_event_def split: fl_loc.splits option.splits)
    then show ?thesis
    proof cases
      case 1
      then show ?thesis using fl_at_client [OF I t, of Idle "owned s"] b by (auto simp: fl_inv_def)
    next
      case 2
      have "\<not> owned s x"
        using account_withI [OF I t, of x] by (auto simp: account_with_def account_def 2)
      then have "fl_at L s'" unfolding 2(2) by (intro fl_at_client [OF I t]) (auto simp: 2(1))
      then show ?thesis using b by (auto simp: fl_inv_def 2(2))
    qed
  qed
qed

lemma fl_inv_run: "fl_inv s \<Longrightarrow> fl_run es s = Some s' \<Longrightarrow> fl_inv s'"
  by (induction es arbitrary: s) (auto dest: fl_inv_event split: Option.bind_splits)

lemma fl_inv_new: "n < 2147483646 \<Longrightarrow> fl_inv (fl_new n)"
  unfolding fl_inv_def
  by (intro conjI exI [of _ "[]"])
     (auto simp: fl_new_def fl_at_def FreeList_new_def node_account_def account_def refs_word_def)

section \<open>A thread that runs alone gets through\<close>

definition finished :: "fl_loc \<Rightarrow> bool" where
  "finished p \<longleftrightarrow> p = Idle \<or> p = Added \<or> (\<exists>r. p = Got r)"

definition solo :: "nat \<Rightarrow> fl_state \<Rightarrow> nat \<Rightarrow> bool" where
  "solo k s t \<longleftrightarrow> (\<exists>j\<le>k. \<exists>s'. fl_run (replicate j (Step t)) s = Some s' \<and> finished (threads s' ! t))"

lemma solo_final: "finished (threads s ! t) \<Longrightarrow> solo k s t"
  unfolding solo_def by (rule exI [of _ 0]) simp

lemma solo_mono: "solo j s t \<Longrightarrow> j \<le> k \<Longrightarrow> solo k s t"
  unfolding solo_def by (meson order_trans)

text \<open>One step, after which only what the thread knows matters.\<close>

definition ready :: "fl_state \<Rightarrow> nat \<Rightarrow> fl_loc \<Rightarrow> bool" where
  "ready s t p \<longleftrightarrow> fl_inv s \<and> t < length (threads s) \<and> threads s ! t = p"

lemma solo_step:
  assumes r: "ready s t p" and st: "thread_step p (mem_of s) = Some (q, m)"
    and k: "0 < k" and next_step: "\<And>s'. ready s' t q \<Longrightarrow> mem_of s' = m \<Longrightarrow> solo (k - 1) s' t"
  shows "solo k s t"
proof -
  have e: "fl_event (Step t) s = Some (move_to s t q m)" using r st by (simp add: fl_event_def ready_def)
  have "solo (k - 1) (move_to s t q m) t"
    by (rule next_step) (use fl_inv_event [OF _ e] r in \<open>simp_all add: ready_def\<close>)
  then obtain j s' where "j \<le> k - 1" "fl_run (replicate j (Step t)) (move_to s t q m) = Some s'" "finished (threads s' ! t)"
    by (auto simp: solo_def)
  then show ?thesis unfolding solo_def using k by (intro exI [of _ "Suc j"]) (auto simp: e)
qed

definition listed :: "fl_mem \<Rightarrow> addr \<Rightarrow> bool" where
  "listed m x \<longleftrightarrow> (\<exists>L. chain (next_of m) (head_ptr m) L \<and> x \<in> set L)"

lemma fl_inv_account:
  assumes "fl_inv s" "listed (mem_of s) x"
  obtains h where "h < 2147483646" "refs_of (mem_of s) x = refs_word (h + 1) 0"
proof -
  obtain L where L: "fl_at L s" and b: "length (threads s) < 2147483646" using assms(1) by (auto simp: fl_inv_def)
  have "x \<in> set L" using assms(2) chain_unique fl_at_list(1) [OF L] by (auto simp: listed_def)
  then have "refs_of (mem_of s) x = refs_word (tally (held x) (threads s) + 1) 0"
  proof -
    have "node_account L s x" using L by (simp add: fl_at_def)
    with \<open>x \<in> set L\<close> have "tally (spare x) (threads s) = 0 \<and>
        refs_of (mem_of s) x = refs_word (tally (held x) (threads s) + 1 + tally (spare x) (threads s)) 0"
      unfolding node_account_def account_def by simp
    then show ?thesis by simp
  qed
  moreover have "tally (held x) (threads s) \<le> length (threads s)" by (rule tally_bound [OF held_le])
  ultimately show thesis using b by (intro that) auto
qed

lemma listed_refs:
  assumes "fl_inv s" "listed (mem_of s) x"
  shows "refs_of (mem_of s) x AND REFS_MASK \<noteq> 0" "refs_of (mem_of s) x \<noteq> SHOULD_BE_ON_FREELIST + 1"
  by (rule fl_inv_account [OF assms]; simp add: refs_word_tests)+

lemma listed_head:
  assumes "fl_inv s"
  shows "head_ptr (mem_of s) = Some x \<Longrightarrow> listed (mem_of s) x"
    "head_ptr (mem_of s) = Some x \<Longrightarrow> next_of (mem_of s) x = Some y \<Longrightarrow> listed (mem_of s) y"
proof -
  obtain L where L: "chain (next_of (mem_of s)) (head_ptr (mem_of s)) L"
    using assms fl_at_list(1) by (auto simp: fl_inv_def)
  show "head_ptr (mem_of s) = Some x \<Longrightarrow> listed (mem_of s) x"
    using L chain_head [of "next_of (mem_of s)" x L] by (auto simp: listed_def)
  show "listed (mem_of s) y" if h: "head_ptr (mem_of s) = Some x" "next_of (mem_of s) x = Some y"
  proof -
    obtain M where M: "L = x # M" "chain (next_of (mem_of s)) (Some y) M"
      using L h chain_head [of "next_of (mem_of s)" x L] by auto
    then have "y \<in> set L" using chain_head [OF M(2)] by auto
    then show ?thesis using L by (auto simp: listed_def)
  qed
qed

lemma no_abort: "fl_inv s \<Longrightarrow> t < length (threads s) \<Longrightarrow> threads s ! t \<noteq> Aborted"
  using fl_at_loc by (force simp: fl_inv_def)

lemmas solo_simps = thread_step_def cas_head_def cas_refs_def fetch_add_refs_def fetch_sub_refs_def

lemma solo_done: "ready s t Added \<Longrightarrow> solo k s t" "ready s t (Got r) \<Longrightarrow> solo k s t"
  by (simp_all add: ready_def solo_final finished_def)

lemma solo_sub: "ready s t (Get_sub x) \<Longrightarrow> solo (Suc 0) s t"
  by (erule solo_step, simp add: solo_simps) (simp_all add: solo_done)

lemma solo_assert: "ready s t (Get_assert x) \<Longrightarrow> solo 2 s t"
proof (erule solo_step)
  show "thread_step (Get_assert x) (mem_of s) = Some
      (if refs_of (mem_of s) x AND SHOULD_BE_ON_FREELIST = 0 then Get_sub x else Aborted, mem_of s)"
    by (simp add: solo_simps)
  show "solo (2 - 1) s' t" if "ready s' t (if refs_of (mem_of s) x AND SHOULD_BE_ON_FREELIST = 0
      then Get_sub x else Aborted)" for s'
    using that solo_sub no_abort by (auto simp: ready_def split: if_splits)
qed simp

lemma solo_win: "ready s t (Get_head x n) \<Longrightarrow> head_ptr (mem_of s) = Some x \<Longrightarrow> solo 3 s t"
  by (erule solo_step, simp add: solo_simps) (simp_all add: solo_assert)

lemma solo_next: "ready s t (Get_next x) \<Longrightarrow> head_ptr (mem_of s) = Some x \<Longrightarrow> solo 4 s t"
  by (erule solo_step, simp add: solo_simps) (simp_all add: solo_win)

lemma solo_cas:
  "ready s t (Get_cas x (refs_of (mem_of s) x)) \<Longrightarrow> head_ptr (mem_of s) = Some x \<Longrightarrow> solo 5 s t"
  by (erule solo_step, simp add: solo_simps) (simp_all add: solo_next)

lemma listed_mask: "ready s t p \<Longrightarrow> listed (mem_of s) x \<Longrightarrow> refs_of (mem_of s) x AND REFS_MASK \<noteq> 0"
  "ready s t p \<Longrightarrow> head_ptr (mem_of s) = Some x \<Longrightarrow> refs_of (mem_of s) x AND REFS_MASK \<noteq> 0"
  using listed_refs(1) listed_head(1) by (auto simp: ready_def)

lemma solo_refs: "ready s t (Get_refs x) \<Longrightarrow> head_ptr (mem_of s) = Some x \<Longrightarrow> solo 6 s t"
  by (frule (1) listed_mask(2), erule solo_step, simp add: solo_simps) (simp_all add: solo_cas)

lemma solo_fresh: "ready s t (get_loop (head_ptr (mem_of s))) \<Longrightarrow> solo 6 s t"
  by (cases "head_ptr (mem_of s)") (auto simp: get_loop_def intro: solo_done solo_refs)

lemma solo_load: "ready s t Get_load \<Longrightarrow> solo 7 s t"
  by (erule solo_step, simp add: solo_simps) (simp_all add: solo_fresh)

text \<open>From a node of the list that need not be its head.\<close>

lemma solo_unref_listed:
  assumes "ready s t (Get_unref x (head_ptr (mem_of s)))" "listed (mem_of s) x"
  shows "solo 7 s t"
proof (rule solo_step [OF assms(1)])
  have "refs_of (mem_of s) x \<noteq> SHOULD_BE_ON_FREELIST + 1" using assms listed_refs(2) by (simp add: ready_def)
  then show "thread_step (Get_unref x (head_ptr (mem_of s))) (mem_of s) = Some (get_loop (head_ptr (mem_of s)),
      (mem_of s)\<lparr>refs_of := (refs_of (mem_of s))(x := refs_of (mem_of s) x - 1)\<rparr>)"
    by (simp add: solo_simps)
qed (simp_all add: solo_fresh)

text \<open>The compare-exchange of the head succeeds, or the reference is given back.\<close>

lemma solo_head_cases:
  assumes "ready s t (Get_head x n)" "3 < k"
    and "\<And>s'. ready s' t (Get_unref x (head_ptr (mem_of s))) \<Longrightarrow> mem_of s' = mem_of s \<Longrightarrow> solo (k - 1) s' t"
  shows "solo k s t"
proof (cases "head_ptr (mem_of s) = Some x")
  case True
  then show ?thesis using solo_win [OF assms(1)] assms(2) by (auto intro: solo_mono)
next
  case False
  then have "thread_step (Get_head x n) (mem_of s) = Some (Get_unref x (head_ptr (mem_of s)), mem_of s)"
    by (simp add: solo_simps)
  with assms(1) show ?thesis by (rule solo_step) (use assms in simp_all)
qed

lemma solo_head_listed: "ready s t (Get_head x n) \<Longrightarrow> listed (mem_of s) x \<Longrightarrow> solo 8 s t"
  by (erule solo_head_cases) (simp_all add: solo_unref_listed)

lemma listed_refs_update [simp]: "listed (m\<lparr>refs_of := r\<rparr>) x = listed m x"
  by (simp add: listed_def)

lemma solo_next_listed: "ready s t (Get_next x) \<Longrightarrow> listed (mem_of s) x \<Longrightarrow> solo 9 s t"
  by (erule solo_step, simp add: solo_simps) (simp_all add: solo_head_listed)

lemma solo_cas_listed:
  "ready s t (Get_cas x (refs_of (mem_of s) x)) \<Longrightarrow> listed (mem_of s) x \<Longrightarrow> solo 10 s t"
  by (erule solo_step, simp add: solo_simps) (simp_all add: solo_next_listed)

lemma solo_refs_listed: "ready s t (Get_refs x) \<Longrightarrow> listed (mem_of s) x \<Longrightarrow> solo 11 s t"
  by (frule (1) listed_mask(1), erule solo_step, simp add: solo_simps) (simp_all add: solo_cas_listed)

lemma solo_loop_listed: "ready s t (get_loop h) \<Longrightarrow> (\<And>x. h = Some x \<Longrightarrow> listed (mem_of s) x) \<Longrightarrow> solo 11 s t"
  by (cases h) (auto simp: get_loop_def intro: solo_done solo_refs_listed)

text \<open>Putting a node on the list on behalf of \<^verbatim>\<open>try_get\<close>, then from any node.\<close>

lemma link_remembers: "ready s t (Link_refs x h k) \<Longrightarrow> next_of (mem_of s) x = h"
  "ready s t (Link_cas x h k) \<Longrightarrow> next_of (mem_of s) x = h"
  using fl_at_loc by (force simp: fl_inv_def ready_def)+

lemma solo_link_cas: "ready s t (Link_cas x h (Resume h)) \<Longrightarrow> head_ptr (mem_of s) = h \<Longrightarrow> solo 12 s t"
proof (frule link_remembers(2), erule solo_step)
  assume h: "head_ptr (mem_of s) = h" "next_of (mem_of s) x = h"
  then show "thread_step (Link_cas x h (Resume h)) (mem_of s) = Some (get_loop h, (mem_of s)\<lparr>head_ptr := Some x\<rparr>)"
    by (simp add: solo_simps continue_with_def)
  show "solo (12 - 1) s' t" if "ready s' t (get_loop h)" "mem_of s' = (mem_of s)\<lparr>head_ptr := Some x\<rparr>" for s'
    using solo_loop_listed [OF that(1)] listed_head(2) [of s' x] that h by (simp add: ready_def)
qed simp

lemma solo_link_refs: "ready s t (Link_refs x h (Resume h)) \<Longrightarrow> head_ptr (mem_of s) = h \<Longrightarrow> solo 13 s t"
  by (erule solo_step, simp add: solo_simps) (simp_all add: solo_link_cas)

lemma solo_link_next: "ready s t (Link_next x h (Resume h)) \<Longrightarrow> head_ptr (mem_of s) = h \<Longrightarrow> solo 14 s t"
  by (erule solo_step, simp add: solo_simps) (simp_all add: solo_link_refs)

lemma solo_link_load: "ready s t (Link_load x (Resume (head_ptr (mem_of s)))) \<Longrightarrow> solo 15 s t"
  by (erule solo_step, simp add: solo_simps) (simp_all add: solo_link_next)

lemma solo_unref: "ready s t (Get_unref x (head_ptr (mem_of s))) \<Longrightarrow> solo 16 s t"
  by (erule solo_step, simp add: solo_simps)
     (auto split: if_splits intro: solo_mono [OF solo_fresh] solo_link_load)

lemma solo_head: "ready s t (Get_head x n) \<Longrightarrow> solo 17 s t"
  by (erule solo_head_cases) (simp_all add: solo_unref)

lemma solo_next_any: "ready s t (Get_next x) \<Longrightarrow> solo 18 s t"
  by (erule solo_step, simp add: solo_simps) (simp_all add: solo_head)

lemma solo_cas_any: "ready s t (Get_cas x r) \<Longrightarrow> solo 19 s t"
proof (cases "refs_of (mem_of s) x = r")
  case True
  then show "ready s t (Get_cas x r) \<Longrightarrow> solo 19 s t"
    by - (erule solo_step, simp add: solo_simps, simp_all add: solo_next_any)
next
  case False
  then show "ready s t (Get_cas x r) \<Longrightarrow> solo 19 s t"
    by - (erule solo_step, simp add: solo_simps, simp_all add: solo_mono [OF solo_load])
qed

lemma solo_refs_any: "ready s t (Get_refs x) \<Longrightarrow> solo 20 s t"
  by (erule solo_step, simp add: solo_simps)
     (auto split: if_splits intro: solo_cas_any solo_mono [OF solo_load])

lemma solo_loop: "ready s t (get_loop h) \<Longrightarrow> solo 20 s t"
  by (cases h) (auto simp: get_loop_def intro: solo_done solo_refs_any)

lemma solo_continue: "ready s t (continue_with k) \<Longrightarrow> solo 20 s t"
  by (cases k) (auto simp: continue_with_def intro: solo_done solo_loop)

text \<open>Putting a node on the list, first with the head of now, then with any head.\<close>

lemma solo_link_undo_fresh: "ready s t (Link_undo x (head_ptr (mem_of s)) k) \<Longrightarrow> solo 24 s t"
  and solo_link_next_fresh: "ready s t (Link_next x (head_ptr (mem_of s)) k) \<Longrightarrow> solo 23 s t"
  and solo_link_refs_fresh: "ready s t (Link_refs x (head_ptr (mem_of s)) k) \<Longrightarrow> solo 22 s t"
  and solo_link_cas_fresh: "ready s t (Link_cas x (head_ptr (mem_of s)) k) \<Longrightarrow> solo 21 s t"
proof -
  show cas: "ready s t (Link_cas x (head_ptr (mem_of s)) k) \<Longrightarrow> solo 21 s t" for s
    by (erule solo_step, simp add: solo_simps) (simp_all add: solo_continue)
  show refs: "ready s t (Link_refs x (head_ptr (mem_of s)) k) \<Longrightarrow> solo 22 s t" for s
    by (erule solo_step, simp add: solo_simps) (simp_all add: cas)
  show nxt: "ready s t (Link_next x (head_ptr (mem_of s)) k) \<Longrightarrow> solo 23 s t" for s
    by (erule solo_step, simp add: solo_simps) (simp_all add: refs)
  show "ready s t (Link_undo x (head_ptr (mem_of s)) k) \<Longrightarrow> solo 24 s t"
    by (erule solo_step, simp add: solo_simps)
       (auto split: if_splits intro: nxt solo_mono [OF solo_continue])
qed

lemma solo_link_cas_any: "ready s t (Link_cas x h k) \<Longrightarrow> solo 25 s t"
proof (cases "head_ptr (mem_of s) = h")
  case True
  then show "ready s t (Link_cas x h k) \<Longrightarrow> solo 25 s t"
    by (auto intro: solo_mono [OF solo_link_cas_fresh])
next
  case False
  then show "ready s t (Link_cas x h k) \<Longrightarrow> solo 25 s t"
    by - (erule solo_step, simp add: solo_simps, simp_all add: solo_link_undo_fresh)
qed

lemma solo_link_refs_any: "ready s t (Link_refs x h k) \<Longrightarrow> solo 26 s t"
  by (erule solo_step, simp add: solo_simps) (simp_all add: solo_link_cas_any)

lemma solo_link_next_any: "ready s t (Link_next x h k) \<Longrightarrow> solo 27 s t"
  by (erule solo_step, simp add: solo_simps) (simp_all add: solo_link_refs_any)

lemma solo_link_undo_any: "ready s t (Link_undo x h k) \<Longrightarrow> solo 28 s t"
  by (erule solo_step, simp add: solo_simps)
     (auto split: if_splits intro: solo_link_next_any solo_mono [OF solo_continue])

lemma solo_link_load_any: "ready s t (Link_load x k) \<Longrightarrow> solo 24 s t"
  by (erule solo_step, simp add: solo_simps) (simp_all add: solo_link_next_fresh)

lemma solo_unref_any: "ready s t (Get_unref x h) \<Longrightarrow> solo 25 s t"
  by (erule solo_step, simp add: solo_simps)
     (auto split: if_splits intro: solo_link_load_any solo_mono [OF solo_loop])

lemma solo_flag: "ready s t (Add_flag x) \<Longrightarrow> solo 25 s t"
  by (erule solo_step, simp add: solo_simps)
     (auto split: if_splits intro: solo_link_load_any solo_done)

lemma solo_bound:
  assumes "fl_inv s" "t < length (threads s)"
  shows "solo 28 s t"
proof -
  have r: "ready s t (threads s ! t)" using assms by (simp add: ready_def)
  have A: "ready s t (Add_flag x) \<Longrightarrow> solo 28 s t" "ready s t (Link_load x k) \<Longrightarrow> solo 28 s t"
    "ready s t (Link_next x h k) \<Longrightarrow> solo 28 s t" "ready s t (Link_refs x h k) \<Longrightarrow> solo 28 s t"
    "ready s t (Link_cas x h k) \<Longrightarrow> solo 28 s t" "ready s t (Link_undo x h k) \<Longrightarrow> solo 28 s t" for x h k
    by (rule solo_mono, erule solo_flag solo_link_load_any solo_link_next_any solo_link_refs_any
        solo_link_cas_any solo_link_undo_any, simp)+
  have B: "ready s t Get_load \<Longrightarrow> solo 28 s t" "ready s t (Get_refs x) \<Longrightarrow> solo 28 s t"
    "ready s t (Get_cas x w) \<Longrightarrow> solo 28 s t" "ready s t (Get_next x) \<Longrightarrow> solo 28 s t"
    "ready s t (Get_head x h) \<Longrightarrow> solo 28 s t" "ready s t (Get_assert x) \<Longrightarrow> solo 28 s t"
    "ready s t (Get_sub x) \<Longrightarrow> solo 28 s t" "ready s t (Get_unref x h) \<Longrightarrow> solo 28 s t" for x w h
    by (rule solo_mono, erule solo_load solo_refs_any solo_cas_any solo_next_any solo_head solo_assert
        solo_sub solo_unref_any, simp)+
  have C: "ready s t Aborted \<Longrightarrow> solo 28 s t" "ready s t Idle \<Longrightarrow> solo 28 s t"
    by (simp_all add: ready_def no_abort solo_final finished_def) (metis no_abort)
  show ?thesis using r by (cases "threads s ! t") (auto intro: A B C solo_done)
qed

section \<open>The same operations in the pool\<close>

definition free_list_of :: "'a pool \<Rightarrow> fl_mem" where
  "free_list_of q =
     \<lparr>head_ptr = freeListHead q,
      refs_of = (\<lambda>x. case blocks q x of None \<Rightarrow> 0 | Some b \<Rightarrow> freeListRefs b),
      next_of = (\<lambda>x. case blocks q x of None \<Rightarrow> None | Some b \<Rightarrow> freeListNext b)\<rparr>"

lemma free_list_of_simps [simp]:
  "head_ptr (free_list_of q) = freeListHead q"
  "blocks q x = Some b \<Longrightarrow> refs_of (free_list_of q) x = freeListRefs b"
  "blocks q x = Some b \<Longrightarrow> next_of (free_list_of q) x = freeListNext b"
  by (simp_all add: free_list_of_def)

lemma free_list_of_update:
  assumes "head_ptr m = freeListHead q"
    "\<And>x. refs_of m x = (case blocks q x of None \<Rightarrow> 0 | Some b \<Rightarrow> freeListRefs b)"
    "\<And>x. next_of m x = (case blocks q x of None \<Rightarrow> None | Some b \<Rightarrow> freeListNext b)"
  shows "m = free_list_of q"
  using assms by (cases m) (auto simp: free_list_of_def)

lemma head_refs:
  assumes "fl_inv s" "head_ptr (mem_of s) = Some x"
  shows "refs_of (mem_of s) x AND REFS_MASK \<noteq> 0"
    "(refs_of (mem_of s) x + 1) AND SHOULD_BE_ON_FREELIST = 0"
proof -
  note l = listed_head(1) [OF assms]
  show "refs_of (mem_of s) x AND REFS_MASK \<noteq> 0" by (rule listed_refs(1) [OF assms(1) l])
  show "(refs_of (mem_of s) x + 1) AND SHOULD_BE_ON_FREELIST = 0"
    by (rule fl_inv_account [OF assms(1) l])
       (simp only: refs_word_updates, subst refs_word_tests(5), simp_all)
qed

lemma fl_event_step:
  "t < length (threads s) \<Longrightarrow>
     fl_event (Step t) (move_to s t p m) = map_option (\<lambda>(q, m'). move_to s t q m') (thread_step p m)"
  by (cases "thread_step p m") (auto simp: fl_event_def)

lemma fl_event_call:
  "t < length (threads s) \<Longrightarrow> threads s ! t = Idle \<Longrightarrow> fl_event (Call_get t) s = Some (move_to s t Get_load (mem_of s))"
  by (simp add: fl_event_def)

lemma alone_try_get:
  assumes I: "fl_inv s" and t: "t < length (threads s)" "threads s ! t = Idle"
    and m: "mem_of s = free_list_of q" and g: "free_list_try_get q = Some (r, q')"
  shows "\<exists>k. fl_run (Call_get t # replicate k (Step t)) s = Some (move_to s t (Got r) (free_list_of q'))"
proof (cases "freeListHead q")
  case None
  then have q: "r = None" "q' = q" using g by (auto simp: free_list_try_get_def)
  show ?thesis
    by (rule exI [of _ 1]) (simp add: fl_event_def t m [symmetric] solo_simps get_loop_def None q, simp add: m None)
next
  case (Some x)
  then obtain b where b: "blocks q x = Some b" "r = Some x"
      and q': "q' = q\<lparr>blocks := (blocks q)(x := Some (b\<lparr>freeListRefs := freeListRefs b + 1 - 2\<rparr>)), freeListHead := freeListNext b\<rparr>"
    using g by (auto simp: free_list_try_get_def update_block_def split: option.splits if_splits)
  have h: "head_ptr (mem_of s) = Some x" by (simp add: m Some)
  note R = head_refs [OF I h, unfolded m free_list_of_simps(2) [OF b(1)]]
  let ?m = "(free_list_of q)\<lparr>refs_of := (refs_of (free_list_of q))(x := freeListRefs b + 1 - 2), head_ptr := freeListNext b\<rparr>"
  have "?m = free_list_of q'"
    by (rule free_list_of_update) (auto simp: q' free_list_of_def b)
  moreover have "fl_run (Call_get t # replicate 7 (Step t)) s = Some (move_to s t (Got r) ?m)"
    by (simp add: fl_event_call fl_event_step t m numeral_eq_Suc solo_simps get_loop_def b Some R)
  ultimately show ?thesis by metis
qed

lemma alone_add:
  assumes t: "t < length (threads s)" "threads s ! t = Idle" "owned s x"
    and m: "mem_of s = free_list_of q" and g: "free_list_add x q = Some q'"
  shows "\<exists>k. fl_run (Call_add t x # replicate k (Step t)) s =
      Some ((move_to s t Added (free_list_of q'))\<lparr>owned := (owned s)(x := False)\<rparr>)"
proof -
  obtain b where b: "blocks q x = Some b" using g by (auto simp: free_list_add_def split: option.splits)
  define s0 where "s0 = s\<lparr>owned := (owned s)(x := False)\<rparr>"
  have call: "fl_event (Call_add t x) s = Some (move_to s0 t (Add_flag x) (mem_of s))"
    by (simp add: fl_event_def t s0_def)
  have t0: "t < length (threads s0)" by (simp add: s0_def t)
  have s0_moved: "move_to s0 t p m = (move_to s t p m)\<lparr>owned := (owned s)(x := False)\<rparr>" for p m
    by (simp add: s0_def)
  let ?f = "freeListRefs b + SHOULD_BE_ON_FREELIST"
  show ?thesis
  proof (cases "freeListRefs b = 0")
    case False
    let ?m = "(mem_of s)\<lparr>refs_of := (refs_of (mem_of s))(x := ?f)\<rparr>"
    have "?m = free_list_of q'"
      by (rule free_list_of_update)
         (use g False b in \<open>auto simp: free_list_add_def update_block_def m free_list_of_def\<close>)
    moreover have "fl_run (Call_add t x # replicate 1 (Step t)) s = Some (move_to s0 t Added ?m)"
      by (simp add: call fl_event_step [OF t0] solo_simps m b False)
    ultimately show ?thesis by (intro exI [of _ 1]) (simp only: s0_moved)
  next
    case True
    let ?m = "(mem_of s)\<lparr>refs_of := (refs_of (mem_of s))(x := 1),
      next_of := (next_of (mem_of s))(x := freeListHead q), head_ptr := Some x\<rparr>"
    have "?m = free_list_of q'"
      by (rule free_list_of_update)
         (use g True b in \<open>auto simp: free_list_add_def add_knowing_refcount_is_zero_def update_block_def m free_list_of_def\<close>)
    moreover have "fl_run (Call_add t x # replicate 5 (Step t)) s = Some (move_to s0 t Added ?m)"
      by (simp add: call fl_event_step [OF t0] numeral_eq_Suc solo_simps m b True continue_with_def)
    ultimately show ?thesis by (intro exI [of _ 5]) (simp only: s0_moved)
  qed
qed

section \<open>What the free list promises\<close>

lemma fl_run_inv:
  assumes "n < 2147483646" "fl_run es (fl_new n) = Some s"
  shows "fl_inv s" "length (threads s) = n"
proof -
  show "fl_inv s" by (rule fl_inv_run [OF fl_inv_new [OF assms(1)] assms(2)])
  have "fl_event e u = Some u' \<Longrightarrow> length (threads u') = length (threads u)" for e u u'
    by (auto simp: fl_event_def split: fl_act.splits if_splits fl_loc.splits option.splits)
  then have "fl_run es u = Some u' \<Longrightarrow> length (threads u') = length (threads u)" for u u'
    by (induction es arbitrary: u) (force split: Option.bind_splits)+
  then show "length (threads s) = n" using assms(2) by (simp add: fl_new_def)
qed

text \<open>
  A contended run: thread 1 holds a reference to node 8 when thread 0 takes that node, gives it back
  and so leaves it to thread 1 to put it on the list.
\<close>

definition contended :: "fl_act list" where
  "contended =
     Call_add 0 7 # replicate 5 (Step 0) @ [Return 0, Call_add 0 8] @ replicate 5 (Step 0) @
     [Return 0, Call_get 1] @ replicate 4 (Step 1) @ Call_get 0 # replicate 7 (Step 0)"

definition contended_end :: "fl_act list" where
  "contended_end =
     contended @ [Return 0, Call_add 0 8, Step 0, Return 0] @ replicate 17 (Step 1) @ [Return 1]"

lemma contended_run:
  obtains s where "fl_run contended (fl_new 2) = Some s" "threads s = [Got (Some 8), Get_head 8 (Some 7)]"
proof -
  have "map_option threads (fl_run contended (fl_new 2)) = Some [Got (Some 8), Get_head 8 (Some 7)]" by code_simp
  then show thesis using that by blast
qed

lemma contended_end_run:
  obtains s where "fl_run contended_end (fl_new 2) = Some s" "threads s = [Idle, Idle]"
    "head_ptr (mem_of s) = Some 7"
proof -
  have "map_option (\<lambda>s. (threads s, head_ptr (mem_of s))) (fl_run contended_end (fl_new 2)) = Some ([Idle, Idle], Some 7)"
    by code_simp
  then show thesis using that by blast
qed

text \<open>
  C21: However the steps of the threads interleave, a node that \<^verbatim>\<open>try_get\<close> hands out belongs to the
  caller alone: it is not on the list, the client does not own it, no other thread has got it, is
  adding it or is putting it on the list; and the assertion in \<^verbatim>\<open>try_get\<close> never fails.
\<close>

theorem free_list_exclusive:
  assumes "n < 2147483646" "fl_run es (fl_new n) = Some s" "t < n" "threads s ! t = Got (Some x)"
  shows "\<not> owned s x \<and> \<not> listed (mem_of s) x \<and> Aborted \<notin> set (threads s) \<and>
    (\<forall>u < n. u \<noteq> t \<longrightarrow> place x (threads s ! u) = 0)"
proof -
  have I: "fl_inv s" and len: "length (threads s) = n" using fl_run_inv [OF assms(1,2)] .
  obtain L where L: "fl_at L s" using I by (auto simp: fl_inv_def)
  note A = account_withI [OF L, of t x]
  have "owned s x = False" "x \<notin> set L" "others (spare x) (threads s) t = 0"
      "others (flagging x) (threads s) t = 0" "others (at_hand x) (threads s) t = 0"
    using A by (auto simp: len assms account_with_def account_def)
  moreover have "\<not> listed (mem_of s) x"
    using \<open>x \<notin> set L\<close> chain_unique fl_at_list(1) [OF L] by (auto simp: listed_def)
  moreover have "Aborted \<notin> set (threads s)" using no_abort [OF I] by (metis in_set_conv_nth)
  moreover have "place x (threads s ! u) = 0" if "u < n" "u \<noteq> t" for u
    using others_ge [of t "threads s" u] that calculation assms(3)
    by (simp add: place_def len) (metis le_zero_eq)
  ultimately show ?thesis by blast
qed

theorem free_list_exclusive_witness:
  "\<exists>s. fl_run contended (fl_new 2) = Some s \<and> threads s ! 0 = Got (Some 8) \<and> threads s ! 1 = Get_head 8 (Some 7)
     \<and> \<not> owned s 8 \<and> \<not> listed (mem_of s) 8 \<and> place 8 (threads s ! 1) = 0"
proof -
  obtain s where s: "fl_run contended (fl_new 2) = Some s" "threads s = [Got (Some 8), Get_head 8 (Some 7)]"
    by (rule contended_run)
  show ?thesis
    by (intro exI [of _ s]) (use free_list_exclusive [OF _ s(1), of 0 8] in \<open>auto simp: s place_def\<close>)
qed

text \<open>
  C22: When no thread is in a method, the list is intact: following the next pointers from the head
  visits every node that was added and not taken exactly once and no other, and the reference
  counts are one on the list and zero elsewhere. No node is lost between the threads.
\<close>

theorem free_list_accounts:
  assumes "n < 2147483646" "fl_run es (fl_new n) = Some s" "set (threads s) \<subseteq> {Idle}"
  shows "\<exists>L. chain (next_of (mem_of s)) (head_ptr (mem_of s)) L \<and> distinct L \<and>
    (\<forall>x. x \<in> set L \<longleftrightarrow> \<not> owned s x) \<and> (\<forall>x. refs_of (mem_of s) x = of_bool (x \<in> set L))"
proof -
  obtain L where L: "fl_at L s" using fl_run_inv(1) [OF assms(1,2)] by (auto simp: fl_inv_def)
  have "replicate (length (threads s)) Idle = threads s" using assms(3)
    by (intro replicate_eqI [symmetric]) auto
  then have "tally f (threads s) = 0" if "f Idle = 0" for f using that tally_replicate by (metis mult_0_right)
  then have A: "account (of_bool (x \<in> set L)) (of_bool (owned s x)) 0 0 0 0 (refs_of (mem_of s) x)" for x
    using L by (simp add: fl_at_def node_account_def)
  have "(x \<in> set L \<longleftrightarrow> \<not> owned s x) \<and> refs_of (mem_of s) x = of_bool (x \<in> set L)" for x
    using A [of x] by (cases "x \<in> set L"; cases "owned s x") (simp_all add: account_def refs_word_def)
  then show ?thesis using fl_at_list [OF L] by blast
qed

theorem free_list_accounts_witness:
  "\<exists>s L. fl_run contended_end (fl_new 2) = Some s \<and> head_ptr (mem_of s) = Some 7
     \<and> chain (next_of (mem_of s)) (Some 7) L \<and> 7 \<in> set L \<and> \<not> owned s 7 \<and> refs_of (mem_of s) 7 = 1"
proof -
  obtain s where s: "fl_run contended_end (fl_new 2) = Some s" "threads s = [Idle, Idle]"
      "head_ptr (mem_of s) = Some 7" by (rule contended_end_run)
  obtain L where L: "chain (next_of (mem_of s)) (Some 7) L" "\<forall>x. x \<in> set L \<longleftrightarrow> \<not> owned s x"
      "\<forall>x. refs_of (mem_of s) x = of_bool (x \<in> set L)"
    using free_list_accounts [OF _ s(1)] by (auto simp: s)
  show ?thesis using L s chain_head [OF L(1)] by (intro exI [of _ s] exI [of _ L]) auto
qed

text \<open>
  C23: From every reachable state a thread that runs undisturbed is out of its method after at most 28
  atomic accesses, wherever it and the other threads were interrupted: the loops of \<^verbatim>\<open>try_get\<close> and
  \<^verbatim>\<open>add_knowing_refcount_is_zero\<close> repeat only because of other threads' steps.
\<close>

theorem free_list_never_stuck:
  assumes "n < 2147483646" "fl_run es (fl_new n) = Some s" "t < n"
  shows "\<exists>j \<le> 28. \<exists>s'. fl_run (replicate j (Step t)) s = Some s' \<and> finished (threads s' ! t)"
  using solo_bound [of s t] fl_run_inv [OF assms(1,2)] assms(3) by (simp add: solo_def)

theorem free_list_never_stuck_witness:
  "\<exists>s j s'. fl_run contended (fl_new 2) = Some s \<and> threads s ! 1 = Get_head 8 (Some 7) \<and> j \<le> 28
     \<and> fl_run (replicate j (Step 1)) s = Some s' \<and> finished (threads s' ! 1)"
proof -
  obtain s where s: "fl_run contended (fl_new 2) = Some s" "threads s = [Got (Some 8), Get_head 8 (Some 7)]"
    by (rule contended_run)
  obtain j s' where "j \<le> 28" "fl_run (replicate j (Step 1)) s = Some s'" "finished (threads s' ! 1)"
    using free_list_never_stuck [OF _ s(1), of 1] by auto
  then show ?thesis using s by (intro exI [of _ s] exI [of _ j] exI [of _ s']) simp
qed

text \<open>
  C33: Without interference the steps do what the operations of the pool do as a whole: a thread that
  takes or adds a node alone gets the result, and leaves the list, of \<open>free_list_try_get\<close> and
  \<open>free_list_add\<close>.
\<close>

theorem alone_like_the_pool:
  assumes "n < 2147483646" "fl_run es (fl_new n) = Some s" "t < n" "threads s ! t = Idle"
    and "mem_of s = free_list_of q"
  shows "(free_list_try_get q = Some (r, q') \<longrightarrow>
      (\<exists>k. fl_run (Call_get t # replicate k (Step t)) s = Some (move_to s t (Got r) (free_list_of q')))) \<and>
    (owned s x \<and> free_list_add x q = Some q'' \<longrightarrow>
      (\<exists>k. fl_run (Call_add t x # replicate k (Step t)) s =
        Some ((move_to s t Added (free_list_of q''))\<lparr>owned := (owned s)(x := False)\<rparr>)))"
  using alone_try_get [of s t q r q'] alone_add [of t s x q q''] fl_run_inv [OF assms(1,2)] assms(3-5)
  by simp_all

definition one_block :: "32 word \<Rightarrow> addr option \<Rightarrow> nat pool" where
  "one_block refs head =
     (pool_empty [])\<lparr>blocks := [7 \<mapsto> Block_new\<lparr>freeListRefs := refs\<rparr>], freeListHead := head\<rparr>"

theorem alone_like_the_pool_witness:
  "(\<exists>k. fl_run (Call_get 0 # replicate k (Step 0)) (fl_new 2) =
      Some (move_to (fl_new 2) 0 (Got None) (free_list_of (one_block 0 None)))) \<and>
   (\<exists>k. fl_run (Call_add 0 7 # replicate k (Step 0)) (fl_new 2) =
      Some ((move_to (fl_new 2) 0 Added (free_list_of (one_block 1 (Some 7))))\<lparr>owned := (\<lambda>_. True)(7 := False)\<rparr>))"
proof -
  have m: "mem_of (fl_new 2) = free_list_of (one_block 0 None)"
    by (auto simp: fl_new_def FreeList_new_def free_list_of_def one_block_def pool_empty_def Block_new_def)
  have g: "free_list_try_get (one_block 0 None) = Some (None, one_block 0 None)"
    by (simp add: free_list_try_get_def one_block_def pool_empty_def)
  have a: "free_list_add 7 (one_block 0 None) = Some (one_block 1 (Some 7))"
    by (simp add: free_list_add_def add_knowing_refcount_is_zero_def update_block_def one_block_def
        pool_empty_def Block_new_def)
  show ?thesis
    using alone_like_the_pool [of 2 "[]" "fl_new 2" 0 "one_block 0 None" None "one_block 0 None" 7 "one_block 1 (Some 7)"]
      m g a by (simp add: fl_new_def)
qed

end
