(* ===== verification/DequeueThreads.thy ===== *)
theory DequeueThreads
  imports ImplicitDequeueBulk Tally "HOL-Library.Multiset"
begin

text \<open>
  \<^verbatim>\<open>enqueue\<close>, \<^verbatim>\<open>dequeue\<close> and \<^verbatim>\<open>dequeue_bulk\<close> of \<^verbatim>\<open>ConcurrentQueue::ImplicitProducer\<close>
  (\<^verbatim>\<open>src/lightning/moodycamel/concurrentqueue.h\<close>) under interference: the producer thread of the
  sub-queue and any number of consumers, every atomic access one step of one thread (sequentially
  consistent memory).

  The slots are addressed by the index of their element (\<open>cells\<close>). \<open>in_index\<close> says which blocks, named
  by their first index, have a non-null entry in the block index; an access to a block that has none
  is \<open>Broken\<close>, as is an access to a slot without an element. That the entry found for an index is the
  one of its block is proved in \<^verbatim>\<open>BlockIndex\<close>; what the free list does with a released block is in
  \<^verbatim>\<open>FreeListThreads\<close>.
\<close>

section \<open>Memory\<close>

record 'a dq_mem =
  tail_ix :: index_t
  head_ix :: index_t
  optimistic :: index_t
  overcommit :: index_t
  cells :: "index_t \<Rightarrow> 'a option"
  completely_dequeued :: "index_t \<Rightarrow> nat"
  in_index :: "index_t \<Rightarrow> bool"
  enqueued :: "'a list"
  claimed :: nat
  taken :: "(index_t \<times> 'a) list"
  recycled :: "index_t list"

text \<open>
  The last four are history, which no step reads: the elements whose tail index was published, the
  number of dequeues that were counted in \<open>optimistic\<close>, the elements moved out with their indices and
  the blocks given to the free list.
\<close>

definition ImplicitProducer_new :: "'a dq_mem" where
  "ImplicitProducer_new = \<lparr>tail_ix = 0, head_ix = 0, optimistic = 0, overcommit = 0, cells = (\<lambda>_. None),
     completely_dequeued = (\<lambda>_. 0), in_index = (\<lambda>_. False), enqueued = [], claimed = 0, taken = [], recycled = []\<rparr>"

section \<open>The producer\<close>

datatype 'a pr_loc =
    P_idle
  | P_start 'a
  | P_room 'a index_t
  | P_block 'a index_t
  | P_write 'a index_t
  | P_publish 'a index_t
  | P_returned bool
  | P_broken

text \<open>\<open>got_block\<close>: an entry of the block index and a block could be had.\<close>

fun enqueue_step :: "bool \<Rightarrow> 'a pr_loc \<Rightarrow> 'a dq_mem \<Rightarrow> ('a pr_loc \<times> 'a dq_mem) option" where
  "enqueue_step got_block (P_start x) m =
     (let t = tail_ix m in Some (if block_offset t = 0 then P_room x t else P_write x t, m))"
| "enqueue_step got_block (P_room x t) m =
     Some (if subqueue_full t (head_ix m) then P_returned False else P_block x t, m)"
| "enqueue_step got_block (P_block x t) m =
     Some (if got_block
           then (P_write x t, m\<lparr>in_index := (in_index m)(t := True),
                                completely_dequeued := (completely_dequeued m)(t := 0)\<rparr>)
           else (P_returned False, m))"
| "enqueue_step got_block (P_write x t) m =
     Some (if in_index m (block_base t) then (P_publish x t, m\<lparr>cells := (cells m)(t := Some x)\<rparr>)
           else (P_broken, m))"
| "enqueue_step got_block (P_publish x t) m =
     Some (P_returned True, m\<lparr>tail_ix := t + 1, enqueued := enqueued m @ [x]\<rparr>)"
| "enqueue_step got_block _ m = None"

section \<open>The consumers\<close>

text \<open>\<^verbatim>\<open>dequeue\<close>, and \<^verbatim>\<open>dequeue_bulk\<close> for at most \<open>mx\<close> elements.\<close>

datatype dq_mode = One | Many size_t

datatype 'a dq_loc =
    Idle
  | Load_tail dq_mode
  | Load_overcommit dq_mode index_t
  | Load_optimistic dq_mode index_t index_t
  | Claim dq_mode index_t index_t
  | Reload_tail dq_mode index_t index_t index_t
  | Give_back dq_mode index_t index_t
  | Fetch_head dq_mode index_t
  | Take dq_mode index_t index_t index_t index_t "'a list"
  | Release dq_mode index_t index_t index_t "'a list"
  | Returned "'a list"
  | Broken

text \<open>\<open>dequeueOptimisticCount - overcommit\<close> against the tail, with the number of elements to claim.\<close>

definition desired_count :: "dq_mode \<Rightarrow> index_t \<Rightarrow> index_t \<Rightarrow> index_t \<Rightarrow> index_t option" where
  "desired_count md tail over opt =
     (case md of
        One \<Rightarrow> if circular_less_than (opt - over) tail then Some 1 else None
      | Many mx \<Rightarrow>
          (let desired = tail - (opt - over)
           in if circular_less_than 0 desired then Some (if desired < mx then desired else mx) else None))"

text \<open>The check again after the claim: the number of elements that are really there, 0 for none.\<close>

definition actual_count :: "dq_mode \<Rightarrow> index_t \<Rightarrow> index_t \<Rightarrow> index_t \<Rightarrow> index_t \<Rightarrow> index_t" where
  "actual_count md desired tail over my =
     (case md of
        One \<Rightarrow> if circular_less_than (my - over) tail then 1 else 0
      | Many mx \<Rightarrow>
          (let actual = tail - (my - over)
           in if circular_less_than 0 actual then if desired < actual then desired else actual else 0))"

text \<open>The first block of the elements \<open>index\<close> up to \<open>fin\<close>.\<close>

definition take_from :: "dq_mode \<Rightarrow> index_t \<Rightarrow> index_t \<Rightarrow> 'a list \<Rightarrow> 'a dq_loc" where
  "take_from md index fin got =
     Take md index (case md of One \<Rightarrow> fin | Many mx \<Rightarrow> chunk_end index fin) index fin got"

definition after_block :: "dq_mode \<Rightarrow> index_t \<Rightarrow> index_t \<Rightarrow> 'a list \<Rightarrow> 'a dq_loc" where
  "after_block md index fin got = (if index = fin then Returned got else take_from md index fin got)"

fun claim_step :: "'a dq_loc \<Rightarrow> 'a dq_mem \<Rightarrow> ('a dq_loc \<times> 'a dq_mem) option" where
  "claim_step (Load_tail md) m = Some (Load_overcommit md (tail_ix m), m)"
| "claim_step (Load_overcommit md tail) m = Some (Load_optimistic md tail (overcommit m), m)"
| "claim_step (Load_optimistic md tail over) m =
     Some (case desired_count md tail over (optimistic m) of
             None \<Rightarrow> Returned []
           | Some n \<Rightarrow> Claim md n over, m)"
| "claim_step (Claim md n over) m =
     Some (Reload_tail md n over (optimistic m),
           m\<lparr>optimistic := optimistic m + n, claimed := claimed m + unat n\<rparr>)"
| "claim_step (Reload_tail md n over my) m =
     (let a = actual_count md n (tail_ix m) over my
      in Some (if a < n then Give_back md (n - a) a else Fetch_head md a, m))"
| "claim_step (Give_back md n a) m =
     Some (if a = 0 then Returned [] else Fetch_head md a, m\<lparr>overcommit := overcommit m + n\<rparr>)"
| "claim_step (Fetch_head md a) m =
     Some (take_from md (head_ix m) (head_ix m + a) [], m\<lparr>head_ix := head_ix m + a\<rparr>)"
| "claim_step _ m = None"

text \<open>
  Moving the elements of a block out one by one; then counting them, and releasing the block when
  the count is complete.
\<close>

fun take_step :: "'a dq_loc \<Rightarrow> 'a dq_mem \<Rightarrow> ('a dq_loc \<times> 'a dq_mem) option" where
  "take_step (Take md index stop start fin got) m =
     Some (if index \<noteq> stop
           then (if in_index m (block_base index)
                 then (case cells m index of
                         None \<Rightarrow> (Broken, m)
                       | Some x \<Rightarrow> (Take md (index + 1) stop start fin (got @ [x]),
                                   m\<lparr>cells := (cells m)(index := None), taken := taken m @ [(index, x)]\<rparr>))
                 else (Broken, m))
           else (let base = block_base start;
                     c = completely_dequeued m base + unat (stop - start)
                 in (if c = BLOCK_SIZE then Release md base stop fin got else after_block md stop fin got,
                     m\<lparr>completely_dequeued := (completely_dequeued m)(base := c)\<rparr>)))"
| "take_step (Release md base index fin got) m =
     Some (after_block md index fin got,
           m\<lparr>in_index := (in_index m)(base := False), recycled := recycled m @ [base]\<rparr>)"
| "take_step _ m = None"

definition dequeue_step :: "'a dq_loc \<Rightarrow> 'a dq_mem \<Rightarrow> ('a dq_loc \<times> 'a dq_mem) option" where
  "dequeue_step p m = (case claim_step p m of Some r \<Rightarrow> Some r | None \<Rightarrow> take_step p m)"

section \<open>The machine\<close>

record 'a dq_state =
  dmem :: "'a dq_mem"
  consumers :: "'a dq_loc list"
  producer :: "'a pr_loc"

definition dq_new :: "nat \<Rightarrow> 'a dq_state" where
  "dq_new n = \<lparr>dmem = ImplicitProducer_new, consumers = replicate n Idle, producer = P_idle\<rparr>"

text \<open>The calls, the steps and the returns. No caller asks for 0 elements.\<close>

datatype 'a dq_act =
    Enqueue 'a
  | Producer bool
  | Enqueue_return
  | Dequeue nat dq_mode
  | Consumer nat
  | Dequeue_return nat

definition dq_event :: "'a dq_act \<Rightarrow> 'a dq_state \<Rightarrow> 'a dq_state option" where
  "dq_event e s =
     (case e of
        Enqueue x \<Rightarrow> (if producer s = P_idle then Some (s\<lparr>producer := P_start x\<rparr>) else None)
      | Producer b \<Rightarrow>
          map_option (\<lambda>(p, m). s\<lparr>producer := p, dmem := m\<rparr>) (enqueue_step b (producer s) (dmem s))
      | Enqueue_return \<Rightarrow>
          (case producer s of P_returned b \<Rightarrow> Some (s\<lparr>producer := P_idle\<rparr>) | _ \<Rightarrow> None)
      | Dequeue u md \<Rightarrow>
          (if u < length (consumers s) \<and> consumers s ! u = Idle \<and> md \<noteq> Many 0
           then Some (s\<lparr>consumers := (consumers s)[u := Load_tail md]\<rparr>) else None)
      | Consumer u \<Rightarrow>
          (if u < length (consumers s)
           then map_option (\<lambda>(p, m). s\<lparr>consumers := (consumers s)[u := p], dmem := m\<rparr>)
                  (dequeue_step (consumers s ! u) (dmem s))
           else None)
      | Dequeue_return u \<Rightarrow>
          (if u < length (consumers s)
           then (case consumers s ! u of
                   Returned got \<Rightarrow> Some (s\<lparr>consumers := (consumers s)[u := Idle]\<rparr>)
                 | _ \<Rightarrow> None)
           else None))"

fun dq_run :: "'a dq_act list \<Rightarrow> 'a dq_state \<Rightarrow> 'a dq_state option" where
  "dq_run [] s = Some s"
| "dq_run (e # es) s = Option.bind (dq_event e s) (dq_run es)"

section \<open>Tickets\<close>

text \<open>
  A dequeue that counts itself in \<open>optimistic\<close> draws a ticket for each element it wants, the numbers
  from the old value on. At the second check a ticket is won or lost; what is lost is given back to
  \<open>overcommit\<close>, what is won is drawn from \<open>head\<close>.
\<close>

fun tickets :: "'a dq_loc \<Rightarrow> nat set" where
  "tickets (Reload_tail md n over my) = {unat my ..< unat my + unat n}"
| "tickets _ = {}"

fun to_give_back :: "'a dq_loc \<Rightarrow> nat" where
  "to_give_back (Give_back md n a) = unat n"
| "to_give_back _ = 0"

fun to_fetch :: "'a dq_loc \<Rightarrow> nat" where
  "to_fetch (Give_back md n a) = unat a"
| "to_fetch (Fetch_head md a) = unat a"
| "to_fetch _ = 0"

definition mode_ok :: "dq_mode \<Rightarrow> bool" where
  "mode_ok md \<longleftrightarrow> md \<noteq> Many 0"

definition capacity :: "dq_mode \<Rightarrow> nat" where
  "capacity md = (case md of One \<Rightarrow> 1 | Many mx \<Rightarrow> unat mx)"

definition amount_ok :: "dq_mode \<Rightarrow> index_t \<Rightarrow> bool" where
  "amount_ok md n \<longleftrightarrow> n \<noteq> 0 \<and> unat n \<le> capacity md"

lemma amount_One: "amount_ok One n \<Longrightarrow> n = 1"
proof -
  assume "amount_ok One n"
  then have "unat n \<noteq> 0" "unat n \<le> 1" by (auto simp: amount_ok_def capacity_def unat_eq_0)
  then have "unat n = unat (1 :: index_t)" by simp
  then show ?thesis by (simp only: word_unat_eq_iff)
qed

text \<open>What a consumer has read: an earlier value of \<open>overcommit\<close> (now \<open>V\<close>), and for one with tickets
  no more than the number of lost tickets before its own.\<close>

fun claim_ok :: "nat \<Rightarrow> nat \<Rightarrow> nat set \<Rightarrow> 'a dq_loc \<Rightarrow> bool" where
  "claim_ok V O' lost (Load_tail md) \<longleftrightarrow> mode_ok md"
| "claim_ok V O' lost (Load_overcommit md tail) \<longleftrightarrow> mode_ok md"
| "claim_ok V O' lost (Load_optimistic md tail over) \<longleftrightarrow> mode_ok md \<and> (\<exists>v \<le> V. over = of_nat v)"
| "claim_ok V O' lost (Claim md n over) \<longleftrightarrow> amount_ok md n \<and> (\<exists>v \<le> V. over = of_nat v)"
| "claim_ok V O' lost (Reload_tail md n over my) \<longleftrightarrow> amount_ok md n \<and> unat my + unat n \<le> O' \<and>
     (\<exists>v. over = of_nat v \<and> v \<le> card {l \<in> lost. l < unat my})"
| "claim_ok V O' lost (Give_back md n a) \<longleftrightarrow> a = 0 \<or> amount_ok md a"
| "claim_ok V O' lost (Fetch_head md a) \<longleftrightarrow> amount_ok md a"
| "claim_ok V O' lost _ \<longleftrightarrow> True"

definition counters :: "nat \<Rightarrow> nat \<Rightarrow> nat set \<Rightarrow> nat set \<Rightarrow> 'a dq_mem \<Rightarrow> 'a dq_loc list \<Rightarrow> bool" where
  "counters H V won lost m cs \<longleftrightarrow>
     tail_ix m = of_nat (length (enqueued m)) \<and> head_ix m = of_nat H \<and>
     optimistic m = of_nat (claimed m) \<and> overcommit m = of_nat V \<and>
     (\<forall>x. tally (\<lambda>p. of_bool (x \<in> tickets p)) cs + of_bool (x \<in> won) + of_bool (x \<in> lost)
          = of_bool (x < claimed m)) \<and>
     (\<forall>x \<in> won. x < length (enqueued m) + card {l \<in> lost. l < x}) \<and>
     card lost = V + tally to_give_back cs \<and> card won = H + tally to_fetch cs \<and>
     (\<forall>p \<in> set cs. claim_ok V (claimed m) lost p)"

definition counters_small :: "'a dq_mem \<Rightarrow> bool" where
  "counters_small m \<longleftrightarrow> claimed m < 2 ^ 62 \<and> length (enqueued m) < 2 ^ 62"

lemma of_bool_sum_less:
  "(a :: nat) + of_bool P + of_bool Q = of_bool R \<Longrightarrow> (P \<longrightarrow> R \<and> \<not> Q \<and> a = 0) \<and> (Q \<longrightarrow> R \<and> \<not> P \<and> a = 0)"
  by (cases P; cases Q; cases R) simp_all

lemma ticket_sets:
  assumes "counters H V won lost m cs"
  shows "finite won" "finite lost" "won \<inter> lost = {}" "won \<subseteq> {..< claimed m}" "lost \<subseteq> {..< claimed m}"
proof -
  have "(x \<in> won \<longrightarrow> x < claimed m \<and> x \<notin> lost) \<and> (x \<in> lost \<longrightarrow> x < claimed m \<and> x \<notin> won)" for x
    using assms of_bool_sum_less [of "tally (\<lambda>p. of_bool (x \<in> tickets p)) cs" "x \<in> won" "x \<in> lost" "x < claimed m"]
    unfolding counters_def by blast
  then show "won \<inter> lost = {}" "won \<subseteq> {..< claimed m}" "lost \<subseteq> {..< claimed m}" by auto
  then show "finite won" "finite lost" by (auto intro: finite_subset)
qed

text \<open>There are never more winners than elements.\<close>

lemma won_le_tail:
  assumes "counters H V won lost m cs"
  shows "card won \<le> length (enqueued m)"
proof (cases "won = {}")
  case False
  note S = ticket_sets [OF assms]
  define x where "x = Max won"
  have x: "x \<in> won" using S(1) False by (simp add: x_def)
  have L: "{l \<in> lost. l < x} \<subseteq> {.. x}" by auto
  have "won \<subseteq> {.. x} - {l \<in> lost. l < x}" using S(1,3) by (auto simp: x_def)
  then have "card won \<le> card ({.. x} - {l \<in> lost. l < x})" by (intro card_mono) auto
  also have "\<dots> = Suc x - card {l \<in> lost. l < x}" using L finite_subset [OF L] by (simp add: card_Diff_subset)
  also have "\<dots> \<le> length (enqueued m)" using assms x unfolding counters_def by fastforce
  finally show ?thesis .
qed simp

lemma head_le_tail: "counters H V won lost m cs \<Longrightarrow> H + tally to_fetch cs \<le> length (enqueued m)"
proof -
  assume c: "counters H V won lost m cs"
  then have "card won = H + tally to_fetch cs" by (simp add: counters_def)
  with won_le_tail [OF c] show ?thesis by simp
qed

lemma card_below_mono:
  "finite B \<Longrightarrow> A \<subseteq> B \<Longrightarrow> (m :: nat) \<le> n \<Longrightarrow> card {l \<in> A. l < m} \<le> card {l \<in> B. l < n}"
  by (intro card_mono) auto

lemma claim_ok_mono:
  assumes "claim_ok V O1 A p" "V \<le> V'" "O1 \<le> O2" "A \<subseteq> B" "finite B"
  shows "claim_ok V' O2 B p"
proof -
  have c: "v \<le> card {l \<in> B. l < n}" if "v \<le> card {l \<in> A. l < n}" for v n
    using that card_below_mono [OF assms(5,4), of n n] by linarith
  have le: "v \<le> V \<Longrightarrow> v \<le> V'" "n \<le> O1 \<Longrightarrow> n \<le> O2" for v n using assms by simp_all
  show ?thesis using assms(1) by (cases p) (auto dest: c le)
qed

lemma outside_claim [simp]:
  "tickets (take_from md i f g) = {}" "to_give_back (take_from md i f g) = 0" "to_fetch (take_from md i f g) = 0"
  "claim_ok V O' lost (take_from md i f g)"
  "tickets (after_block md i f g) = {}" "to_give_back (after_block md i f g) = 0"
  "to_fetch (after_block md i f g) = 0" "claim_ok V O' lost (after_block md i f g)"
  by (simp_all add: take_from_def after_block_def)

section \<open>The checks of a consumer\<close>

lemma desired_count_ok:
  assumes "mode_ok md" "desired_count md t over opt = Some n"
  shows "amount_ok md n"
proof (cases md)
  case (Many mx)
  then have "t - (opt - over) \<noteq> 0" "mx \<noteq> 0" using assms
    by (auto simp: desired_count_def Let_def mode_ok_def circular_less_than_iff split: if_splits)
  then show ?thesis using assms Many
    by (auto simp: desired_count_def Let_def amount_ok_def capacity_def word_less_nat_alt split: if_splits)
qed (use assms in \<open>auto simp: desired_count_def amount_ok_def capacity_def split: if_splits\<close>)

lemma circular_less_than_near:
  fixes a b :: nat
  assumes "a < 2 ^ 62" "b < 2 ^ 62"
  shows "circular_less_than (of_nat a :: index_t) (of_nat b) \<longleftrightarrow> a < b"
proof (cases "a \<le> b")
  case True
  then show ?thesis by (rule circular_less_than_of_nat(1)) (use assms in simp)
next
  case False
  then have "\<not> circular_less_than (of_nat a :: index_t) (of_nat b)"
    by (intro circular_less_than_of_nat(2)) (use assms in simp_all)
  then show ?thesis using False by simp
qed

lemma circular_less_than_zero_diff:
  fixes a b :: nat
  assumes "a < 2 ^ 62" "b < 2 ^ 62"
  shows "circular_less_than 0 (of_nat b - of_nat a :: index_t) \<longleftrightarrow> a < b"
proof -
  have "circular_less_than 0 (of_nat b - of_nat a :: index_t) \<longleftrightarrow> circular_less_than (of_nat a :: index_t) (of_nat b)"
    by (simp add: circular_less_than_iff)
  then show ?thesis using circular_less_than_near [OF assms] by blast
qed

text \<open>The check after the claim finds what there is between the ticket, less the claims known to be lost,
  and the tail.\<close>

lemma actual_count_value:
  assumes "amount_ok md n" "v \<le> k" "k < 2 ^ 62" "T < 2 ^ 62"
  shows "unat (actual_count md n (of_nat T) (of_nat v) (of_nat k)) = min (unat n) (T - (k - v))"
proof -
  have d: "of_nat k - of_nat v = (of_nat (k - v) :: index_t)" using assms(2) by (simp add: of_nat_diff)
  have k: "k - v < 2 ^ 62" using assms(3) by simp
  show ?thesis
  proof (cases md)
    case One
    then show ?thesis using assms(1)
      by (auto simp: actual_count_def d circular_less_than_near [OF k assms(4)] dest!: amount_One)
  next
    case (Many mx)
    have "unat (of_nat T - of_nat (k - v) :: index_t) = T - (k - v)" if "k - v < T"
      by (rule unat_of_nat_diff) (use that assms in simp_all)
    then show ?thesis
      by (auto simp: actual_count_def Many d Let_def circular_less_than_zero_diff [OF k assms(4)] word_less_nat_alt min_def)
  qed
qed

lemma actual_count_ok: "amount_ok md n \<Longrightarrow> actual_count md n t over my = 0 \<or> amount_ok md (actual_count md n t over my)"
  by (auto simp: amount_ok_def capacity_def actual_count_def Let_def word_less_nat_alt split: dq_mode.splits)

section \<open>Claiming keeps the counters\<close>

text \<open>The share of one consumer \<open>p\<close> split off.\<close>

lemma counters_split:
  assumes "u < length cs" "cs ! u = p"
  shows "counters H V won lost m (cs[u := q]) \<longleftrightarrow>
     tail_ix m = of_nat (length (enqueued m)) \<and> head_ix m = of_nat H \<and>
     optimistic m = of_nat (claimed m) \<and> overcommit m = of_nat V \<and>
     (\<forall>x. others (\<lambda>p. of_bool (x \<in> tickets p)) cs u + of_bool (x \<in> tickets q) + of_bool (x \<in> won) + of_bool (x \<in> lost)
          = of_bool (x < claimed m)) \<and>
     (\<forall>x \<in> won. x < length (enqueued m) + card {l \<in> lost. l < x}) \<and>
     card lost = V + (others to_give_back cs u + to_give_back q) \<and>
     card won = H + (others to_fetch cs u + to_fetch q) \<and>
     (\<forall>w < length cs. w \<noteq> u \<longrightarrow> claim_ok V (claimed m) lost (cs ! w)) \<and> claim_ok V (claimed m) lost q"
proof -
  have "(\<forall>r \<in> set (cs[u := q]). P r) \<longleftrightarrow> (\<forall>w < length cs. w \<noteq> u \<longrightarrow> P (cs ! w)) \<and> P q" for P
    using assms(1) by (auto simp: all_set_conv_all_nth nth_list_update)
  then show ?thesis unfolding counters_def tally_others(1) [OF assms(1)] by (simp only:)
qed

lemma counters_at: "u < length cs \<Longrightarrow> counters H V won lost m cs \<longleftrightarrow> counters H V won lost m (cs[u := cs ! u])"
  by simp

lemma win_and_lose:
  assumes won: "\<forall>x \<in> won. x < T + card {l \<in> lost. l < x}" and f: "finite lost"
    and v: "v \<le> card {l \<in> lost. l < k}" and a: "a \<le> T - (k - v)" "a \<le> n"
  shows "\<forall>x \<in> won \<union> {k ..< k + a}. x < T + card {l \<in> lost \<union> {k + a ..< k + n}. l < (x :: nat)}"
proof
  fix x assume x: "x \<in> won \<union> {k ..< k + a}"
  have m: "card {l \<in> lost. l < y} \<le> card {l \<in> lost \<union> {k + a ..< k + n}. l < x}" if "y \<le> x" for y
    by (rule card_below_mono) (use f that in auto)
  show "x < T + card {l \<in> lost \<union> {k + a ..< k + n}. l < x}"
  proof (cases "x \<in> won")
    case True
    then show ?thesis using won m [of x] by fastforce
  next
    case False
    then have "k \<le> x" "x < k + a" using x by auto
    then show ?thesis using m [of k] a v by linarith
  qed
qed

definition fetching :: "'a dq_loc \<Rightarrow> nat" where
  "fetching p = (case p of Fetch_head md a \<Rightarrow> unat a | _ \<Rightarrow> 0)"

lemma reload_counters:
  assumes c: "counters H V won lost m cs" and u: "u < length cs" "cs ! u = Reload_tail md n over my"
    and small: "counters_small m" and q: "claim_step (cs ! u) m = Some (q, m')"
  shows "\<exists>won' lost'. counters H V won' lost' m' (cs[u := q])"
proof -
  note C = c [unfolded counters_at [OF u(1)] counters_split [OF u(1) refl], unfolded u(2)]
  note S = ticket_sets [OF c]
  define k where "k = unat my"
  define T where "T = length (enqueued m)"
  from C obtain v where v: "over = of_nat v" "v \<le> card {l \<in> lost. l < k}" and n: "amount_ok md n"
      and kn: "k + unat n \<le> claimed m" by (auto simp: k_def)
  have "card {l \<in> lost. l < k} \<le> card {..< k}" by (rule card_mono) auto
  then have vk: "v \<le> k" using v(2) by simp
  define a where "a = actual_count md n (tail_ix m) over my"
  have "of_nat k = my" by (simp add: k_def)
  then have a: "unat a = min (unat n) (T - (k - v))"
    using actual_count_value [OF n vk, of T] small kn C unfolding a_def v(1) counters_small_def T_def by auto
  have q': "q = (if a < n then Give_back md (n - a) a else Fetch_head md a)" "m' = m"
    using q u(2) by (auto simp: a_def Let_def)
  have an: "a \<le> n" "unat (n - a) = unat n - unat a" using a by (auto simp: word_le_nat_alt unat_sub)
  have give: "to_give_back q = unat n - unat a" "to_fetch q = unat a" "tickets q = {}"
    using an by (auto simp: q'(1) not_less)
  define won' where "won' = won \<union> {k ..< k + unat a}"
  define lost' where "lost' = lost \<union> {k + unat a ..< k + unat n}"
  have E: "others (\<lambda>p. of_bool (x \<in> tickets p)) cs u + of_bool (x \<in> {k ..< k + unat n})
      + of_bool (x \<in> won) + of_bool (x \<in> lost) = (of_bool (x < claimed m) :: nat)" for x
    using C by (simp add: k_def)
  have free: "x \<notin> won \<and> x \<notin> lost" if "k \<le> x" "x < k + unat n" for x
    using E [of x] that by (cases "x < claimed m") (auto simp: k_def)
  have E': "others (\<lambda>p. of_bool (x \<in> tickets p)) cs u + of_bool (x \<in> tickets q)
      + of_bool (x \<in> won') + of_bool (x \<in> lost') = (of_bool (x < claimed m) :: nat)" for x
  proof (cases "x \<in> {k ..< k + unat n}")
    case True
    then have "x \<in> won' \<longleftrightarrow> x < k + unat a" "x \<in> lost' \<longleftrightarrow> \<not> x < k + unat a" "x \<notin> won" "x \<notin> lost"
      using free [of x] by (auto simp: won'_def lost'_def)
    then show ?thesis using E [of x] True by (cases "x < k + unat a") (simp_all add: give)
  next
    case False
    then have "x \<in> won' \<longleftrightarrow> x \<in> won" "x \<in> lost' \<longleftrightarrow> x \<in> lost" using a by (auto simp: won'_def lost'_def)
    then show ?thesis using E [of x] by (simp only: False give(3) empty_iff)
  qed
  have "card won' = card won + unat a" "card lost' = card lost + (unat n - unat a)"
    unfolding won'_def lost'_def
    by (subst card_Un_disjoint; use S free a in \<open>auto simp: disjoint_iff\<close>)+
  moreover have "\<forall>x \<in> won'. x < T + card {l \<in> lost'. l < x}"
    unfolding won'_def lost'_def
    by (rule win_and_lose) (use C S(2) v(2) a in \<open>auto simp: T_def\<close>)
  moreover have "claim_ok V (claimed m) lost' (cs ! w)" if "w < length cs" "w \<noteq> u" for w
    by (rule claim_ok_mono [where A = lost and V = V]) (use C S that in \<open>auto simp: lost'_def\<close>)
  moreover have "claim_ok V (claimed m) lost' q"
  proof -
    have "a = 0 \<Longrightarrow> a < n" using n by (simp add: amount_ok_def word_gt_0)
    then show ?thesis using actual_count_ok [OF n, of "tail_ix m" over my] by (auto simp: q'(1) a_def [symmetric])
  qed
  ultimately have "counters H V won' lost' m' (cs[u := q])"
    unfolding counters_split [OF u(1) refl] using C E' an give by (simp add: q'(2) T_def)
  then show ?thesis by blast
qed

lemma look_counters:
  assumes c: "counters H V won lost m cs" and u: "u < length cs" and small: "counters_small m'"
    and q: "claim_step (cs ! u) m = Some (q, m')" and Load_optimistic: "cs ! u = Load_optimistic md tail over"
  shows "\<exists>V' won' lost'. counters (H + fetching (cs ! u)) V' won' lost' m' (cs[u := q])"
proof -
  note C = c [unfolded counters_at [OF u(1)] counters_split [OF u(1) refl]]
  note S = ticket_sets [OF c]
  from Load_optimistic have "m' = m" "case desired_count md tail over (optimistic m) of None \<Rightarrow> q = Returned [] | Some n \<Rightarrow> q = Claim md n over"
    using q by (auto split: option.splits)
  moreover have "mode_ok md" "\<exists>v\<le>V. over = of_nat v" using C by (auto simp: Load_optimistic)
  ultimately have "tickets q = {}" "to_give_back q = 0" "to_fetch q = 0" "claim_ok V (claimed m) lost q" "m' = m"
    using desired_count_ok by (auto split: option.splits)
  then have "counters H V won lost m' (cs[u := q])"
    unfolding counters_split [OF u refl] using C by (simp add: Load_optimistic)
  then show ?thesis by (auto simp: fetching_def Load_optimistic)
qed

lemma claim_counters:
  assumes c: "counters H V won lost m cs" and u: "u < length cs" and small: "counters_small m'"
    and q: "claim_step (cs ! u) m = Some (q, m')" and Claim: "cs ! u = Claim md n over"
  shows "\<exists>V' won' lost'. counters (H + fetching (cs ! u)) V' won' lost' m' (cs[u := q])"
proof -
  note C = c [unfolded counters_at [OF u(1)] counters_split [OF u(1) refl]]
  note S = ticket_sets [OF c]
  have q': "q = Reload_tail md n over (optimistic m)" and m': "m' = m\<lparr>optimistic := optimistic m + n, claimed := claimed m + unat n\<rparr>"
    using q by (simp_all add: Claim)
  have O': "claimed m + unat n < 2 ^ 62" using small by (simp add: counters_small_def m')
  then have o: "unat (optimistic m) = claimed m" using C by (simp add: unat_of_nat_small)
  have E0: "others (\<lambda>p. of_bool (x \<in> tickets p)) cs u + of_bool (x \<in> won) + of_bool (x \<in> lost)
    = (of_bool (x < claimed m) :: nat)" for x using C by (simp add: Claim)
  have E: "others (\<lambda>p. of_bool (x \<in> tickets p)) cs u + of_bool (x \<in> {claimed m ..< claimed m + unat n})
    + of_bool (x \<in> won) + of_bool (x \<in> lost) = (of_bool (x < claimed m + unat n) :: nat)" for x
  proof (cases "x < claimed m")
    case True
    then show ?thesis using C by (simp add: Claim)
  next
    case False
    then have "others (\<lambda>p. of_bool (x \<in> tickets p)) cs u = 0 \<and> x \<notin> won \<and> x \<notin> lost" using E0 [of x] by simp
    then show ?thesis using False by simp
  qed
  have tq: "tickets q = {claimed m ..< claimed m + unat n}" and claimed': "claimed m' = claimed m + unat n"
    by (simp_all add: q' m' o)
  obtain v where v: "v \<le> V" "over = of_nat v" and n: "amount_ok md n" using C by (auto simp: Claim)
  have "{l \<in> lost. l < claimed m} = lost" using S(5) by auto
  then have "v \<le> card {l \<in> lost. l < claimed m}" using v C by simp
  then have "claim_ok V (claimed m + unat n) lost q" using n v o by (auto simp: q')
  moreover have "claim_ok V (claimed m + unat n) lost (cs ! w)" if "w < length cs" "w \<noteq> u" for w
    by (rule claim_ok_mono [where A = lost and V = V]) (use C S that in auto)
  ultimately have "counters H V won lost m' (cs[u := q])"
    unfolding counters_split [OF u refl] tq claimed' using C
    by (intro conjI allI E) (simp_all add: Claim m' q')
  then show ?thesis by (auto simp: fetching_def Claim)
qed

lemma give_back_counters:
  assumes c: "counters H V won lost m cs" and u: "u < length cs" and small: "counters_small m'"
    and q: "claim_step (cs ! u) m = Some (q, m')" and Give_back: "cs ! u = Give_back md n a"
  shows "\<exists>V' won' lost'. counters (H + fetching (cs ! u)) V' won' lost' m' (cs[u := q])"
proof -
  note C = c [unfolded counters_at [OF u(1)] counters_split [OF u(1) refl]]
  note S = ticket_sets [OF c]
  from Give_back have q': "q = (if a = 0 then Returned [] else Fetch_head md a)" and m': "m' = m\<lparr>overcommit := overcommit m + n\<rparr>"
    using q by auto
  have t: "tickets q = {}" "to_give_back q = 0" "to_fetch q = unat a" "claim_ok (V + unat n) (claimed m) lost q"
    using C by (auto simp: q' Give_back)
  have "claim_ok (V + unat n) (claimed m) lost (cs ! w)" if "w < length cs" "w \<noteq> u" for w
    by (rule claim_ok_mono [where A = lost and V = V]) (use C S that in auto)
  then have "counters H (V + unat n) won lost m' (cs[u := q])"
    unfolding counters_split [OF u refl] using C t by (simp add: Give_back m')
  then show ?thesis by (auto simp: fetching_def Give_back)
qed

lemma claim_step_counters:
  assumes c: "counters H V won lost m cs" and u: "u < length cs" and small: "counters_small m'"
    and q: "claim_step (cs ! u) m = Some (q, m')"
  shows "\<exists>V' won' lost'. counters (H + fetching (cs ! u)) V' won' lost' m' (cs[u := q])"
proof -
  note C = c [unfolded counters_at [OF u(1)] counters_split [OF u(1) refl]]
  note S = ticket_sets [OF c]
  show ?thesis
  proof (cases "cs ! u")
    case (Load_optimistic md tail over)
    show ?thesis by (rule look_counters [OF c u small q Load_optimistic])
  next
    case (Claim md n over)
    show ?thesis by (rule claim_counters [OF c u small q Claim])
  next
    case (Reload_tail md n over my)
    have "m' = m" using q by (auto simp: Reload_tail Let_def)
    then show ?thesis using reload_counters [OF c u Reload_tail _ q] small by (auto simp: fetching_def Reload_tail)
  next
    case (Give_back md n a)
    show ?thesis by (rule give_back_counters [OF c u small q Give_back])
  next
    case (Fetch_head md a)
    then have q': "q = take_from md (head_ix m) (head_ix m + a) []" and m': "m' = m\<lparr>head_ix := head_ix m + a\<rparr>"
      using q by auto
    have "counters (H + unat a) V won lost m' (cs[u := q])"
      unfolding counters_split [OF u refl] using C by (simp add: Fetch_head m' q')
    then show ?thesis by (auto simp: fetching_def Fetch_head)
  next
    case (Load_tail md)
    then have q': "q = Load_overcommit md (tail_ix m)" "m' = m" using q by auto
    have "counters H V won lost m' (cs[u := q])"
      unfolding counters_split [OF u refl] using C by (auto simp only: simp_thms q' Load_tail tickets.simps to_give_back.simps
        to_fetch.simps claim_ok.simps)
    then show ?thesis by (auto simp: fetching_def Load_tail)
  next
    case (Load_overcommit md tail)
    then have q': "q = Load_optimistic md tail (overcommit m)" "m' = m" using q by auto
    have "counters H V won lost m' (cs[u := q])"
      unfolding counters_split [OF u refl] using C by (auto simp only: simp_thms q' Load_overcommit tickets.simps to_give_back.simps
        to_fetch.simps claim_ok.simps)
    then show ?thesis by (auto simp: fetching_def Load_overcommit)
  qed (use q in auto)
qed

lemma take_step_counters:
  assumes c: "counters H V won lost m cs" and u: "u < length cs"
    and q: "take_step (cs ! u) m = Some (q, m')"
  shows "counters H V won lost m' (cs[u := q])"
proof -
  note C = c [unfolded counters_at [OF u(1)] counters_split [OF u(1) refl]]
  have p: "tickets (cs ! u) = {}" "to_give_back (cs ! u) = 0" "to_fetch (cs ! u) = 0"
    using q by (cases "cs ! u"; simp)+
  have "tickets q = {} \<and> to_give_back q = 0 \<and> to_fetch q = 0 \<and> claim_ok V (claimed m) lost q \<and>
      tail_ix m' = tail_ix m \<and> head_ix m' = head_ix m \<and> optimistic m' = optimistic m \<and> overcommit m' = overcommit m \<and>
      enqueued m' = enqueued m \<and> claimed m' = claimed m"
    using q by (cases "cs ! u") (auto simp: Let_def split: option.splits if_splits)
  then show ?thesis unfolding counters_split [OF u refl] using C p by simp
qed

lemma enqueue_step_counters:
  assumes c: "counters H V won lost m cs" and q: "enqueue_step b p m = Some (p', m')"
    and t: "\<And>x t. p = P_publish x t \<Longrightarrow> t = tail_ix m"
  shows "counters H V won lost m' cs"
proof -
  have same: "head_ix m' = head_ix m \<and> optimistic m' = optimistic m \<and> overcommit m' = overcommit m \<and> claimed m' = claimed m"
    and tail: "(tail_ix m' = tail_ix m \<and> enqueued m' = enqueued m) \<or>
      (tail_ix m' = tail_ix m + 1 \<and> length (enqueued m') = Suc (length (enqueued m)))"
    using q t by (cases p; auto simp: Let_def split: if_splits)+
  have w: "x < length (enqueued m') + card {l \<in> lost. l < x}" if "x \<in> won" for x
    using c tail that unfolding counters_def by fastforce
  show ?thesis using c same tail w unfolding counters_def by (elim disjE) (simp_all add: add.commute)
qed

section \<open>Slots and blocks\<close>

text \<open>
  The indices that a consumer still has to move out, those it has moved out and not yet counted, and
  whether it is about to release block \<open>b\<close>.
\<close>

fun remaining :: "'a dq_loc \<Rightarrow> nat set" where
  "remaining (Take md i e st f got) = {unat i ..< unat f}"
| "remaining (Release md base i f got) = {unat i ..< unat f}"
| "remaining _ = {}"

fun uncounted :: "'a dq_loc \<Rightarrow> nat set" where
  "uncounted (Take md i e st f got) = {unat st ..< unat i}"
| "uncounted _ = {}"

fun releasing :: "nat \<Rightarrow> 'a dq_loc \<Rightarrow> nat" where
  "releasing b (Release md base i f got) = of_bool (base = of_nat (32 * b))"
| "releasing b _ = 0"

definition gone :: "'a dq_mem \<Rightarrow> nat set" where
  "gone m = (\<lambda>e. unat (fst e)) ` set (taken m)"

definition block_count :: "nat set \<Rightarrow> nat \<Rightarrow> nat" where
  "block_count counted b = card {x \<in> counted. x div 32 = b}"

text \<open>A run of the elements enqueued, ending before index \<open>i\<close>.\<close>

definition run_before :: "'a list \<Rightarrow> nat \<Rightarrow> 'a list \<Rightarrow> bool" where
  "run_before xs i got \<longleftrightarrow> length got \<le> i \<and> got = map ((!) xs) [i - length got ..< i]"

fun take_ok :: "nat \<Rightarrow> 'a list \<Rightarrow> 'a dq_loc \<Rightarrow> bool" where
  "take_ok H xs (Take md i e st f got) \<longleftrightarrow>
     unat st \<le> unat i \<and> unat i \<le> unat e \<and> unat e \<le> unat f \<and> unat f \<le> H \<and>
     unat st < unat e \<and> (unat e - 1) div 32 = unat st div 32 \<and> (md = One \<longrightarrow> e = f) \<and>
     run_before xs (unat i) got"
| "take_ok H xs (Release md base i f got) \<longleftrightarrow>
     unat i \<le> unat f \<and> unat f \<le> H \<and> (md = One \<longrightarrow> i = f) \<and> run_before xs (unat i) got \<and>
     (\<exists>b. base = of_nat (32 * b) \<and> 32 * b < H)"
| "take_ok H xs (Returned got) \<longleftrightarrow> got = [] \<or> (\<exists>i \<le> H. run_before xs i got)"
| "take_ok H xs Broken \<longleftrightarrow> False"
| "take_ok H xs _ \<longleftrightarrow> True"

text \<open>The producer knows the tail, and has the block it writes to.\<close>

definition has_block :: "'a dq_mem \<Rightarrow> bool" where
  "has_block m \<longleftrightarrow> (length (enqueued m) mod 32 = 0 \<longrightarrow> in_index m (tail_ix m) \<and> completely_dequeued m (tail_ix m) = 0)"

fun enqueue_ok :: "'a dq_mem \<Rightarrow> 'a pr_loc \<Rightarrow> bool" where
  "enqueue_ok m (P_room x t) \<longleftrightarrow> t = tail_ix m \<and> length (enqueued m) mod 32 = 0"
| "enqueue_ok m (P_block x t) \<longleftrightarrow> t = tail_ix m \<and> length (enqueued m) mod 32 = 0"
| "enqueue_ok m (P_write x t) \<longleftrightarrow> t = tail_ix m \<and> has_block m"
| "enqueue_ok m (P_publish x t) \<longleftrightarrow> t = tail_ix m \<and> has_block m \<and> cells m t = Some x"
| "enqueue_ok m P_broken \<longleftrightarrow> False"
| "enqueue_ok m _ \<longleftrightarrow> True"

text \<open>
  Block \<open>b\<close>: its counter is the number of its elements counted so far; it is in the index until it is
  complete, and then it is being released, or has been, once.
\<close>

definition block_ok :: "nat set \<Rightarrow> 'a dq_mem \<Rightarrow> nat \<Rightarrow> nat \<Rightarrow> bool" where
  "block_ok counted m r b \<longleftrightarrow>
     completely_dequeued m (of_nat (32 * b)) = block_count counted b \<and>
     (block_count counted b < 32 \<longrightarrow> in_index m (of_nat (32 * b))) \<and>
     r + count_list (recycled m) (of_nat (32 * b)) = of_bool (block_count counted b = 32)"

definition slots :: "nat \<Rightarrow> nat set \<Rightarrow> 'a dq_mem \<Rightarrow> 'a dq_loc list \<Rightarrow> bool" where
  "slots H counted m cs \<longleftrightarrow>
     (\<forall>x. tally (\<lambda>p. of_bool (x \<in> remaining p)) cs + of_bool (x \<in> gone m) = of_bool (x < H)) \<and>
     (\<forall>x. tally (\<lambda>p. of_bool (x \<in> uncounted p)) cs + of_bool (x \<in> counted) = of_bool (x \<in> gone m)) \<and>
     distinct (map fst (taken m)) \<and>
     (\<forall>(i, x) \<in> set (taken m). enqueued m ! unat i = x) \<and>
     (\<forall>x < length (enqueued m). x \<notin> gone m \<longrightarrow> cells m (of_nat x) = Some (enqueued m ! x)) \<and>
     (\<forall>b. 32 * b < length (enqueued m) \<longrightarrow> block_ok counted m (tally (releasing b) cs) b) \<and>
     (\<forall>r \<in> set (recycled m). \<exists>b. 32 * b < length (enqueued m) \<and> r = of_nat (32 * b)) \<and>
     (\<forall>p \<in> set cs. take_ok H (enqueued m) p)"

lemma slots_split:
  assumes "u < length cs"
  shows "slots H counted m (cs[u := q]) \<longleftrightarrow>
     (\<forall>x. others (\<lambda>p. of_bool (x \<in> remaining p)) cs u + of_bool (x \<in> remaining q) + of_bool (x \<in> gone m) = of_bool (x < H)) \<and>
     (\<forall>x. others (\<lambda>p. of_bool (x \<in> uncounted p)) cs u + of_bool (x \<in> uncounted q) + of_bool (x \<in> counted) = of_bool (x \<in> gone m)) \<and>
     distinct (map fst (taken m)) \<and>
     (\<forall>(i, x) \<in> set (taken m). enqueued m ! unat i = x) \<and>
     (\<forall>x < length (enqueued m). x \<notin> gone m \<longrightarrow> cells m (of_nat x) = Some (enqueued m ! x)) \<and>
     (\<forall>b. 32 * b < length (enqueued m) \<longrightarrow> block_ok counted m (others (releasing b) cs u + releasing b q) b) \<and>
     (\<forall>r \<in> set (recycled m). \<exists>b. 32 * b < length (enqueued m) \<and> r = of_nat (32 * b)) \<and>
     (\<forall>w < length cs. w \<noteq> u \<longrightarrow> take_ok H (enqueued m) (cs ! w)) \<and> take_ok H (enqueued m) q"
proof -
  have "(\<forall>r \<in> set (cs[u := q]). P r) \<longleftrightarrow> (\<forall>w < length cs. w \<noteq> u \<longrightarrow> P (cs ! w)) \<and> P q" for P
    using assms(1) by (auto simp: all_set_conv_all_nth nth_list_update)
  then show ?thesis unfolding slots_def tally_others(1) [OF assms(1)] by (simp only:)
qed

lemma run_before_Nil [simp]: "run_before xs i []"
  by (simp add: run_before_def)

lemma run_before_snoc: "run_before xs i got \<Longrightarrow> run_before xs (Suc i) (got @ [xs ! i])"
  by (simp add: run_before_def Suc_diff_le)

lemma run_before_append: "run_before xs i got \<Longrightarrow> i \<le> length xs \<Longrightarrow> run_before (xs @ ys) i got"
proof -
  assume r: "run_before xs i got" "i \<le> length xs"
  have "map ((!) xs) [i - length got ..< i] = map ((!) (xs @ ys)) [i - length got ..< i]"
    by (rule map_cong) (use r(2) in \<open>auto simp: nth_append\<close>)
  then show ?thesis using r(1) unfolding run_before_def by (simp only:)
qed

lemma take_ok_mono:
  assumes "take_ok H xs p" "H \<le> H'" "H \<le> length xs"
  shows "take_ok H' (xs @ ys) p"
proof -
  have r: "run_before xs i got \<Longrightarrow> i \<le> H \<Longrightarrow> run_before (xs @ ys) i got" for i got
    using assms(3) by (simp add: run_before_append)
  show ?thesis
  proof (cases p)
    case (Returned got)
    then show ?thesis using assms r by (auto intro: order_trans)
  next
    case (Take md i e st f got)
    then show ?thesis using assms r [of "unat i" got] by auto
  next
    case (Release md base i f got)
    then show ?thesis using assms r [of "unat i" got] by fastforce
  qed (use assms in auto)
qed

lemma small_index:
  assumes "(x :: nat) < 2 ^ 62" "y < 2 ^ 62"
  shows "unat (of_nat x :: index_t) = x" "(of_nat x :: index_t) = of_nat y \<longleftrightarrow> x = y"
proof -
  have u: "unat (of_nat z :: index_t) = z" if "z < 2 ^ 62" for z :: nat
    by (rule unat_of_nat_small) (use that in simp)
  show "unat (of_nat x :: index_t) = x" by (rule u [OF assms(1)])
  show "(of_nat x :: index_t) = of_nat y \<longleftrightarrow> x = y" using u assms by metis
qed

lemma same_block_end:
  assumes "0 < n" "n \<le> 32 - i mod 32"
  shows "(i + n - 1) div 32 = i div (32 :: nat)"
proof (rule div_nat_eqI)
  have i: "i = 32 * (i div 32) + i mod 32" "i mod 32 < 32" by simp_all
  show "32 * (i div 32) \<le> i + n - 1" using i assms by linarith
  have "i mod 32 + n \<le> 32" using assms(2) i(2) by simp
  then have "i + n \<le> 32 * (i div 32) + 32" using i(1) by linarith
  then show "i + n - 1 < 32 * Suc (i div 32)" using assms(1) by simp
qed

lemma take_from_start:
  assumes "0 < n" "I + n \<le> H" "H < 2 ^ 62" "md = One \<longrightarrow> n = 1" "run_before xs I got"
  shows "take_ok H xs (take_from md (of_nat I) (of_nat (I + n)) got)"
    "remaining (take_from md (of_nat I) (of_nat (I + n)) got) = {I ..< I + n}"
    "uncounted (take_from md (of_nat I) (of_nat (I + n)) got) = {}"
    "releasing b (take_from md (of_nat I) (of_nat (I + n)) got) = 0"
proof -
  have I: "unat (of_nat I :: index_t) = I" "unat (of_nat (I + n) :: index_t) = I + n"
    by (rule small_index(1); use assms in simp)+
  show "remaining (take_from md (of_nat I) (of_nat (I + n)) got) = {I ..< I + n}"
    "uncounted (take_from md (of_nat I) (of_nat (I + n)) got) = {}"
    "releasing b (take_from md (of_nat I) (of_nat (I + n)) got) = 0"
    using I by (simp_all add: take_from_def)
  show "take_ok H xs (take_from md (of_nat I) (of_nat (I + n)) got)"
  proof (cases md)
    case One
    then show ?thesis using assms I by (simp add: take_from_def)
  next
    case (Many mx)
    define k where "k = min n (32 - I mod 32)"
    have k: "0 < k" "k \<le> n" "k \<le> 32 - I mod 32" using assms(1) by (auto simp: k_def)
    have "chunk_end (of_nat I) (of_nat (I + n)) = of_nat (I + k)"
      unfolding k_def by (rule chunk_end_of_nat) (use assms in simp)
    moreover have "unat (of_nat (I + k) :: index_t) = I + k" by (rule small_index(1)) (use assms k in simp_all)
    ultimately show ?thesis
      using assms I k same_block_end [of k I] by (simp add: take_from_def Many)
  qed
qed

section \<open>Claiming and fetching keep the slots\<close>

lemma claim_step_slots:
  assumes sl: "slots H counted m cs" and u: "u < length cs" and q: "claim_step (cs ! u) m = Some (q, m')"
    and head: "head_ix m = of_nat H" "H + fetching (cs ! u) \<le> length (enqueued m)" "length (enqueued m) < 2 ^ 62"
    and amount: "\<And>md a. cs ! u = Fetch_head md a \<Longrightarrow> amount_ok md a"
  shows "slots (H + fetching (cs ! u)) counted m' (cs[u := q])"
proof -
  have at: "slots H counted m (cs[u := cs ! u])" using sl by simp
  note S = at [unfolded slots_split [OF u]]
  have same: "gone m' = gone m \<and> taken m' = taken m \<and> enqueued m' = enqueued m \<and> cells m' = cells m \<and>
      completely_dequeued m' = completely_dequeued m \<and> in_index m' = in_index m \<and> recycled m' = recycled m"
    using q by (cases "cs ! u") (auto simp: gone_def Let_def)
  have p: "remaining (cs ! u) = {}" "uncounted (cs ! u) = {}" "releasing b (cs ! u) = 0" for b
    using q by (cases "cs ! u"; simp)+
  show ?thesis
  proof (cases "fetching (cs ! u) = 0")
    case True
    then have "remaining q = {} \<and> uncounted q = {} \<and> (\<forall>b. releasing b q = 0) \<and> take_ok H (enqueued m) q"
      using q amount by (cases "cs ! u") (auto simp: fetching_def amount_ok_def unat_eq_0 Let_def split: if_splits option.splits)
    then show ?thesis unfolding slots_split [OF u] using S same p True by (simp add: block_ok_def)
  next
    case False
    then obtain md a where f: "cs ! u = Fetch_head md a" by (cases "cs ! u") (auto simp: fetching_def)
    then have n: "fetching (cs ! u) = unat a" "a \<noteq> 0" "md = One \<longrightarrow> unat a = 1"
      using amount [OF f] amount_One [of a] by (auto simp: fetching_def amount_ok_def)
    have q': "q = take_from md (of_nat H) (of_nat (H + unat a)) []" using q head(1) by (simp add: f)
    note F = take_from_start [of "unat a" H "H + unat a" md "enqueued m" "[]", folded q']
    have F': "take_ok (H + unat a) (enqueued m) q" "remaining q = {H ..< H + unat a}" "uncounted q = {}" "releasing b q = 0" for b
      by (rule F; use n head f in \<open>auto simp: fetching_def unat_gt_0\<close>)+
    have E: "others (\<lambda>p. of_bool (x \<in> remaining p)) cs u + of_bool (x \<in> gone m) = (of_bool (x < H) :: nat)" for x
      using S p by simp
    have E': "others (\<lambda>p. of_bool (x \<in> remaining p)) cs u + of_bool (x \<in> {H ..< H + unat a}) + of_bool (x \<in> gone m)
        = (of_bool (x < H + unat a) :: nat)" for x
    proof (cases "x < H")
      case False
      then have "others (\<lambda>p. of_bool (x \<in> remaining p)) cs u = 0 \<and> x \<notin> gone m" using E [of x] by simp
      then show ?thesis using False by simp
    qed (use E [of x] in simp)
    have "take_ok (H + unat a) (enqueued m) (cs ! w)" if "w < length cs" "w \<noteq> u" for w
      using take_ok_mono [of H "enqueued m" "cs ! w" "H + unat a" "[]"] S that head by simp
    then show ?thesis
      unfolding slots_split [OF u] n(1) F'(2) same [THEN conjunct1]
      using S same p F' by (intro conjI allI E') (simp_all add: block_ok_def)
  qed
qed

section \<open>Moving the elements out keeps the slots\<close>

lemma slots_sets:
  assumes "slots H counted m cs"
  shows "gone m \<subseteq> {..< H}" "counted \<subseteq> gone m" "finite counted"
proof -
  have a: "tally (\<lambda>p. of_bool (x \<in> remaining p)) cs + of_bool (x \<in> gone m) = (of_bool (x < H) :: nat)"
    and b: "tally (\<lambda>p. of_bool (x \<in> uncounted p)) cs + of_bool (x \<in> counted) = (of_bool (x \<in> gone m) :: nat)" for x
    using assms by (simp_all add: slots_def)
  have "x < H" if "x \<in> gone m" for x using a [of x] that by (cases "x < H") simp_all
  then show "gone m \<subseteq> {..< H}" by auto
  moreover have "x \<in> gone m" if "x \<in> counted" for x using b [of x] that by (cases "x \<in> gone m") simp_all
  then show "counted \<subseteq> gone m" by auto
  ultimately show "finite counted" by (auto intro: finite_subset)
qed

lemma block_members: "{x. x div 32 = b} = {32 * b ..< 32 * b + 32}" for b :: nat
proof -
  have "x div 32 = b \<longleftrightarrow> 32 * b \<le> x \<and> x < 32 * b + 32" for x :: nat
  proof
    assume b: "x div 32 = b"
    show "32 * b \<le> x \<and> x < 32 * b + 32"
      using times_div_less_eq_dividend [of 32 x, unfolded b] dividend_less_times_div [of 32 x, unfolded b] by linarith
  next
    assume "32 * b \<le> x \<and> x < 32 * b + 32"
    then show "x div 32 = b" by (intro div_nat_eqI) simp_all
  qed
  then show ?thesis unfolding set_eq_iff mem_Collect_eq atLeastLessThan_iff by blast
qed

lemma block_count_le: "block_count counted b \<le> 32"
proof -
  have B: "finite {y. y div 32 = b}" "card {y. y div 32 = b} = 32" using block_members [of b] by simp_all
  have "block_count counted b \<le> card {y. y div 32 = b}"
    unfolding block_count_def using B(1) by (intro card_mono) auto
  then show ?thesis using B(2) by simp
qed

lemma block_count_less: "finite counted \<Longrightarrow> x \<notin> counted \<Longrightarrow> block_count counted (x div 32) < 32"
proof -
  assume "x \<notin> counted"
  let ?B = "{y. y div 32 = x div 32}"
  have B: "finite ?B" "card ?B = 32" "x \<in> ?B" using block_members [of "x div 32"] by simp_all
  have "block_count counted (x div 32) \<le> card (?B - {x})"
    unfolding block_count_def using B(1) \<open>x \<notin> counted\<close> by (intro card_mono) auto
  then show ?thesis using B by simp
qed

lemma block_count_add:
  assumes "finite counted" "{S ..< E} \<inter> counted = {}" "S < E" "(E - 1) div 32 = S div 32"
  shows "block_count (counted \<union> {S ..< E}) b = block_count counted b + (if b = S div 32 then E - S else 0)"
proof -
  have b: "x div 32 = S div 32" if "S \<le> x" "x < E" for x
  proof -
    have "S div 32 \<le> x div 32" "x div 32 \<le> (E - 1) div 32" by (rule div_le_mono; use that in simp)+
    then show ?thesis using assms(4) by simp
  qed
  have "{x \<in> counted \<union> {S ..< E}. x div 32 = b} = {x \<in> counted. x div 32 = b} \<union> (if b = S div 32 then {S ..< E} else {})"
    by (cases "b = S div 32") (auto intro: b dest: b)
  moreover have "card ({x \<in> counted. x div 32 = b} \<union> {S ..< E}) = card {x \<in> counted. x div 32 = b} + (E - S)"
    by (subst card_Un_disjoint) (use assms in auto)
  ultimately show ?thesis by (auto simp: block_count_def)
qed

text \<open>What holds of a consumer that has an element to move out.\<close>

lemma at_slot:
  assumes sl: "slots H counted m cs" and T: "H \<le> length (enqueued m)" "length (enqueued m) < 2 ^ 62"
    and x: "x < H" "x \<notin> gone m"
  shows "in_index m (block_base (of_nat x))" "cells m (of_nat x) = Some (enqueued m ! x)"
proof -
  note S = slots_sets [OF sl]
  have "32 * (x div 32) < length (enqueued m)" 
    using x(1) T(1) times_div_less_eq_dividend [of 32 x] by linarith
  then have "block_ok counted m (tally (releasing (x div 32)) cs) (x div 32)" using sl by (simp add: slots_def)
  moreover have "block_count counted (x div 32) < 32" by (rule block_count_less) (use S x in auto)
  ultimately show "in_index m (block_base (of_nat x))" by (simp add: block_ok_def block_base_of_nat mult.commute)
  show "cells m (of_nat x) = Some (enqueued m ! x)" using sl x T by (simp add: slots_def)
qed

lemma gone_snoc [simp]: "gone (m\<lparr>cells := c, taken := taken m @ [(i, x)]\<rparr>) = insert (unat i) (gone m)"
  by (simp add: gone_def)

lemma move_shares:
  fixes r n :: "nat \<Rightarrow> nat"
  assumes E: "\<And>x. r x + of_bool (x \<in> {I ..< F}) + of_bool (x \<in> G) = of_bool (x < H)"
    and U: "\<And>x. n x + of_bool (x \<in> {S ..< I}) + of_bool (x \<in> K) = of_bool (x \<in> G)"
    and I: "I < F" "S \<le> I" "I < H"
  shows "I \<notin> G" "r x + of_bool (x \<in> {Suc I ..< F}) + of_bool (x \<in> insert I G) = of_bool (x < H)"
    "n x + of_bool (x \<in> {S ..< Suc I}) + of_bool (x \<in> K) = of_bool (x \<in> insert I G)"
proof -
  show out: "I \<notin> G" using E [of I] I by (cases "I \<in> G") simp_all
  show "r x + of_bool (x \<in> {Suc I ..< F}) + of_bool (x \<in> insert I G) = of_bool (x < H)"
  proof (cases "x = I")
    case False
    then have "x \<in> {Suc I ..< F} \<longleftrightarrow> x \<in> {I ..< F}" "x \<in> insert I G \<longleftrightarrow> x \<in> G" by auto
    then show ?thesis using E [of x] by (simp only:)
  qed (use E [of I] out I in simp)
  show "n x + of_bool (x \<in> {S ..< Suc I}) + of_bool (x \<in> K) = of_bool (x \<in> insert I G)"
  proof (cases "x = I")
    case False
    then have "x \<in> {S ..< Suc I} \<longleftrightarrow> x \<in> {S ..< I}" "x \<in> insert I G \<longleftrightarrow> x \<in> G" by auto
    then show ?thesis using U [of x] by (simp only:)
  qed (use U [of I] out I in simp)
qed

lemma move_out_slots:
  assumes sl: "slots H counted m cs" and u: "u < length cs" and p: "cs ! u = Take md i e st f got" "i \<noteq> e"
    and T: "H \<le> length (enqueued m)" "length (enqueued m) < 2 ^ 62"
    and q: "take_step (cs ! u) m = Some (q, m')"
  shows "slots H counted m' (cs[u := q])"
proof -
  have at: "slots H counted m (cs[u := cs ! u])" using sl by simp
  note S = at [unfolded slots_split [OF u], unfolded p]
  define I where "I = unat i"
  have i: "i = of_nat I" by (simp add: I_def)
  have ok: "take_ok H (enqueued m) (cs ! u)" using sl u by (simp add: slots_def)
  have I: "I < unat e" "I < unat f" "unat st \<le> I" "I < H" "unat (i + 1) = Suc I"
  proof -
    have "I \<noteq> unat e" using p(2) by (simp add: I_def word_unat_eq_iff)
    then show lt: "I < unat e" "I < unat f" "unat st \<le> I" "I < H" using ok by (auto simp: p I_def)
    have "i + 1 = of_nat (Suc I)" by (simp add: i add.commute)
    moreover have "unat (of_nat (Suc I) :: index_t) = Suc I" by (rule small_index(1)) (use lt T in simp_all)
    ultimately show "unat (i + 1) = Suc I" by (simp only:)
  qed
  have E: "others (\<lambda>p. of_bool (x \<in> remaining p)) cs u + of_bool (x \<in> {I ..< unat f}) + of_bool (x \<in> gone m) = (of_bool (x < H) :: nat)"
    and U: "others (\<lambda>p. of_bool (x \<in> uncounted p)) cs u + of_bool (x \<in> {unat st ..< I}) + of_bool (x \<in> counted) = (of_bool (x \<in> gone m) :: nat)" for x
    using S by (simp_all add: I_def)
  note shares = move_shares [OF E U I(2,3,4)]
  note slot = at_slot [OF sl T I(4) shares(1), folded i]
  have q': "q = Take md (i + 1) e st f (got @ [enqueued m ! I])"
      and m': "m' = m\<lparr>cells := (cells m)(i := None), taken := taken m @ [(i, enqueued m ! I)]\<rparr>"
    using q p slot by simp_all
  have fresh: "i \<notin> fst ` set (taken m)" using shares(1) by (auto simp: gone_def I_def)
  show ?thesis unfolding slots_split [OF u]
  proof (intro conjI)
    show "\<forall>x. others (\<lambda>p. of_bool (x \<in> remaining p)) cs u + of_bool (x \<in> remaining q) + of_bool (x \<in> gone m') = of_bool (x < H)"
      using shares(2) by (simp only: q' m' gone_snoc remaining.simps I I_def [symmetric] simp_thms)
    show "\<forall>x. others (\<lambda>p. of_bool (x \<in> uncounted p)) cs u + of_bool (x \<in> uncounted q) + of_bool (x \<in> counted) = of_bool (x \<in> gone m')"
      using shares(3) by (simp only: q' m' gone_snoc uncounted.simps I I_def [symmetric] simp_thms)
    have xs: "enqueued m' = enqueued m" "recycled m' = recycled m" by (simp_all add: m')
    show "distinct (map fst (taken m'))" "\<forall>(i, x) \<in> set (taken m'). enqueued m' ! unat i = x"
      using S fresh by (auto simp: m' I_def)
    show "\<forall>x < length (enqueued m'). x \<notin> gone m' \<longrightarrow> cells m' (of_nat x) = Some (enqueued m' ! x)"
    proof (intro allI impI)
      fix x assume x: "x < length (enqueued m')" "x \<notin> gone m'"
      then have "x \<noteq> I" "x \<notin> gone m" "x < length (enqueued m)" by (auto simp: m' I_def)
      moreover from this have "of_nat x \<noteq> i" unfolding i using small_index(2) [of x I] T I(4) by simp
      ultimately show "cells m' (of_nat x) = Some (enqueued m' ! x)" using S by (simp add: m')
    qed
    show "\<forall>b. 32 * b < length (enqueued m') \<longrightarrow> block_ok counted m' (others (releasing b) cs u + releasing b q) b"
      using S by (simp add: block_ok_def m' q')
    show "\<forall>r \<in> set (recycled m'). \<exists>b. 32 * b < length (enqueued m') \<and> r = of_nat (32 * b)"
      "\<forall>w < length cs. w \<noteq> u \<longrightarrow> take_ok H (enqueued m') (cs ! w)" unfolding xs using S by simp_all
    show "take_ok H (enqueued m') q"
      using ok I run_before_snoc [of "enqueued m" I got] by (simp add: q' m' p I_def)
  qed
qed

lemma of_bool_disj: "\<not> (P \<and> Q) \<Longrightarrow> of_bool (P \<or> Q) = (of_bool P + of_bool Q :: nat)"
  by (cases P; cases Q) simp_all

text \<open>Going on to the next block, or out of the method.\<close>

lemma after_block_ok:
  assumes "unat i \<le> unat f" "unat f \<le> H" "H < 2 ^ 62" "md = One \<longrightarrow> i = f" "run_before xs (unat i) got"
  shows "take_ok H xs (after_block md i f got)" "remaining (after_block md i f got) = {unat i ..< unat f}"
    "uncounted (after_block md i f got) = {}" "releasing b (after_block md i f got) = 0"
proof -
  have "take_ok H xs (after_block md i f got) \<and> remaining (after_block md i f got) = {unat i ..< unat f} \<and>
      uncounted (after_block md i f got) = {} \<and> releasing b (after_block md i f got) = 0"
  proof (cases "i = f")
    case False
    define n where "n = unat f - unat i"
    have n: "0 < n" "unat i + n = unat f" using assms(1) False by (auto simp: n_def word_unat_eq_iff)
    have w: "of_nat (unat i) = i" "of_nat (unat i + n) = f" unfolding n(2) by simp_all
    have "take_ok H xs (take_from md i f got)" "remaining (take_from md i f got) = {unat i ..< unat f}"
        "uncounted (take_from md i f got) = {}" "releasing b (take_from md i f got) = 0"
      using take_from_start [of n "unat i" H md xs got] n assms False unfolding w by simp_all
    then show ?thesis by (simp add: after_block_def False)
  qed (use assms in \<open>auto simp: after_block_def\<close>)
  then show "take_ok H xs (after_block md i f got)" "remaining (after_block md i f got) = {unat i ..< unat f}"
    "uncounted (after_block md i f got) = {}" "releasing b (after_block md i f got) = 0" by simp_all
qed

lemma count_block:
  assumes old: "block_ok counted m r b" and bc: "block_count counted' b = block_count counted b + (if b = B then k else 0)"
    and k: "0 < k" and c: "c = block_count counted' B"
    and idx: "(of_nat (32 * b) :: index_t) = of_nat (32 * B) \<longleftrightarrow> b = B"
  shows "block_ok counted' (m\<lparr>completely_dequeued := (completely_dequeued m)(of_nat (32 * B) := c)\<rparr>)
    (r + of_bool (c = 32 \<and> b = B)) b"
proof (cases "b = B")
  case True
  then have "block_count counted B < c" "c \<le> 32" using bc k block_count_le [of counted' B] by (simp_all add: c)
  then show ?thesis using old True by (auto simp: block_ok_def c)
next
  case False
  then show ?thesis using old idx bc by (simp add: block_ok_def)
qed

lemma count_slots:
  assumes sl: "slots H counted m cs" and u: "u < length cs" and p: "cs ! u = Take md e e st f got"
    and T: "H \<le> length (enqueued m)" "length (enqueued m) < 2 ^ 62"
    and q: "take_step (cs ! u) m = Some (q, m')"
  shows "\<exists>counted'. slots H counted' m' (cs[u := q])"
proof -
  have at: "slots H counted m (cs[u := cs ! u])" using sl by simp
  note S = at [unfolded slots_split [OF u], unfolded p]
  define B where "B = unat st div 32"
  let ?new = "{unat st ..< unat e}"
  have ok: "unat st < unat e" "unat e \<le> unat f" "unat f \<le> H" "(unat e - 1) div 32 = unat st div 32"
      "md = One \<longrightarrow> e = f" "run_before (enqueued m) (unat e) got"
    using sl u p by (auto simp: slots_def dest!: bspec [OF _ nth_mem [OF u]])
  have U: "others (\<lambda>p. of_bool (x \<in> uncounted p)) cs u + of_bool (x \<in> ?new) + of_bool (x \<in> counted) = (of_bool (x \<in> gone m) :: nat)" for x
    using S by simp
  have disj: "?new \<inter> counted = {}"
  proof -
    have "x \<notin> counted" if "x \<in> ?new" for x using U [of x] that by (cases "x \<in> gone m") auto
    then show ?thesis by blast
  qed
  define counted' where "counted' = counted \<union> ?new"
  have bc: "block_count counted' b = block_count counted b + (if b = B then unat e - unat st else 0)" for b
    unfolding counted'_def B_def by (rule block_count_add) (use slots_sets(3) [OF sl] disj ok in auto)
  have B: "32 * B < length (enqueued m)"
    using times_div_less_eq_dividend [of 32 "unat st"] ok T unfolding B_def by linarith
  have "block_base (of_nat (unat st)) = of_nat (B * 32)" unfolding B_def by (rule block_base_of_nat)
  then have base: "block_base st = of_nat (32 * B)" by (simp add: mult.commute)
  have dist: "unat (e - st) = unat e - unat st" using ok(1) by (simp add: unat_sub word_le_nat_alt)
  have blkB: "block_ok counted m (others (releasing B) cs u) B" using S B by simp
  define c where "c = block_count counted' B"
  have c: "completely_dequeued m (block_base st) + unat (e - st) = c"
    using blkB bc [of B] by (simp add: base dist block_ok_def c_def)
  have q': "q = (if c = 32 then Release md (of_nat (32 * B)) e f got else after_block md e f got)"
      and m': "m' = m\<lparr>completely_dequeued := (completely_dequeued m)(of_nat (32 * B) := c)\<rparr>"
    using q p c base by (auto simp: Let_def BLOCK_SIZE_def)
  note after = after_block_ok [OF ok(2,3) _ ok(5,6)]
  have H: "H < 2 ^ 62" using T by simp
  have BH: "32 * B < H" using times_div_less_eq_dividend [of 32 "unat st"] ok unfolding B_def by linarith
  have qf: "take_ok H (enqueued m) q" "remaining q = {unat e ..< unat f}" "uncounted q = {}"
    using after [OF H] ok BH unfolding q' by auto
  have rel: "releasing b q = of_bool (c = 32 \<and> b = B)" if "32 * b < length (enqueued m)" for b
    using after(4) [OF H] small_index(2) [of "32 * B" "32 * b"] that B T(2) by (auto simp: q')
  have idx: "(of_nat (32 * b) :: index_t) = of_nat (32 * B) \<longleftrightarrow> b = B" if "32 * b < length (enqueued m)" for b
    using small_index(2) [of "32 * b" "32 * B"] that B T(2) by auto
  have "slots H counted' m' (cs[u := q])" unfolding slots_split [OF u]
  proof (intro conjI)
    have g: "gone m' = gone m" "enqueued m' = enqueued m" "taken m' = taken m" "cells m' = cells m" "recycled m' = recycled m"
      by (simp_all add: m' gone_def)
    show "\<forall>x. others (\<lambda>p. of_bool (x \<in> remaining p)) cs u + of_bool (x \<in> remaining q) + of_bool (x \<in> gone m') = of_bool (x < H)"
      unfolding qf g using S by simp
    have "of_bool (x \<in> counted') = (of_bool (x \<in> counted) + of_bool (x \<in> ?new) :: nat)" for x
      unfolding counted'_def Un_iff by (rule of_bool_disj) (use disj in blast)
    then show "\<forall>x. others (\<lambda>p. of_bool (x \<in> uncounted p)) cs u + of_bool (x \<in> uncounted q) + of_bool (x \<in> counted') = of_bool (x \<in> gone m')"
      unfolding qf g using U by (simp del: atLeastLessThan_iff add: ac_simps)
    show "\<forall>b. 32 * b < length (enqueued m') \<longrightarrow> block_ok counted' m' (others (releasing b) cs u + releasing b q) b"
    proof (intro allI impI)
      fix b assume b: "32 * b < length (enqueued m')"
      then have "block_ok counted m (others (releasing b) cs u) b" using S by (simp add: g)
      then show "block_ok counted' m' (others (releasing b) cs u + releasing b q) b"
        using count_block [OF _ bc _ c_def idx, of m _ b] ok(1) b by (simp add: m' rel g)
    qed
  qed (use S qf in \<open>simp_all add: m' gone_def [of m', unfolded m'] gone_def\<close>)
  then show ?thesis by blast
qed

lemma release_slots:
  assumes sl: "slots H counted m cs" and u: "u < length cs" and p: "cs ! u = Release md base i f got"
    and T: "H \<le> length (enqueued m)" "length (enqueued m) < 2 ^ 62"
    and q: "take_step (cs ! u) m = Some (q, m')"
  shows "slots H counted m' (cs[u := q])"
proof -
  have at: "slots H counted m (cs[u := cs ! u])" using sl by simp
  note S = at [unfolded slots_split [OF u], unfolded p]
  obtain B where ok: "unat i \<le> unat f" "unat f \<le> H" "md = One \<longrightarrow> i = f" "run_before (enqueued m) (unat i) got"
      "base = of_nat (32 * B)" "32 * B < H"
    using sl u p by (auto simp: slots_def dest!: bspec [OF _ nth_mem [OF u]])
  have B: "32 * B < length (enqueued m)" using ok(6) T by simp
  have idx: "(of_nat (32 * b) :: index_t) = of_nat (32 * B) \<longleftrightarrow> b = B" if "32 * b < length (enqueued m)" for b
    using small_index(2) [of "32 * b" "32 * B"] that B T(2) by auto
  have H: "H < 2 ^ 62" using T by simp
  note after = after_block_ok [OF ok(1,2) H ok(3,4)]
  have q': "q = after_block md i f got"
      and m': "m' = m\<lparr>in_index := (in_index m)(base := False), recycled := recycled m @ [base]\<rparr>"
    using q p by simp_all
  show ?thesis unfolding slots_split [OF u]
  proof (intro conjI)
    show "\<forall>b. 32 * b < length (enqueued m') \<longrightarrow> block_ok counted m' (others (releasing b) cs u + releasing b q) b"
    proof (intro allI impI)
      fix b assume b: "32 * b < length (enqueued m')"
      then have old: "block_ok counted m (others (releasing b) cs u + of_bool (base = of_nat (32 * b))) b"
        using S by (simp add: m')
      have eq: "base = of_nat (32 * b) \<longleftrightarrow> b = B" using idx [of b] b ok(5) by (auto simp: m')
      show "block_ok counted m' (others (releasing b) cs u + releasing b q) b"
      proof (cases "b = B")
        case True
        then have "block_count counted B = 32" "base = of_nat (32 * B)" using old eq
          by (cases "block_count counted B = 32"; simp add: block_ok_def)+
        then show ?thesis using old True after(4) by (simp add: block_ok_def m' q')
      next
        case False
        then have "base \<noteq> of_nat (32 * b)" using eq by simp
        then show ?thesis using old after(4) by (simp add: block_ok_def m' q')
      qed
    qed
    show "\<forall>r \<in> set (recycled m'). \<exists>b. 32 * b < length (enqueued m') \<and> r = of_nat (32 * b)"
      using S B ok(5) by (auto simp: m')
  qed (use S after in \<open>simp_all add: m' gone_def [of m', unfolded m'] gone_def q'\<close>)
qed

lemma take_step_slots:
  assumes "slots H counted m cs" "u < length cs" "H \<le> length (enqueued m)" "length (enqueued m) < 2 ^ 62"
    and "take_step (cs ! u) m = Some (q, m')"
  shows "\<exists>counted'. slots H counted' m' (cs[u := q])"
proof (cases "cs ! u")
  case (Take md i e st f got)
  then show ?thesis
    using count_slots [OF assms(1,2), of md e st f got] move_out_slots [OF assms(1,2) Take] assms(3-)
    by (cases "i = e") auto
next
  case (Release md base i f got)
  then show ?thesis using release_slots [OF assms(1,2) Release] assms(3-) by blast
qed (use assms in auto)

section \<open>The producer keeps everything\<close>

lemma tail_block:
  assumes sl: "slots H counted m cs" and T: "H \<le> length (enqueued m)" "length (enqueued m) < 2 ^ 62"
    and t: "tail_ix m = of_nat (length (enqueued m))" "has_block m"
  shows "in_index m (block_base (tail_ix m))"
proof (cases "length (enqueued m) mod 32 = 0")
  case True
  then have "length (enqueued m) div 32 * 32 = length (enqueued m)" by auto
  then show ?thesis using t True by (simp add: has_block_def block_base_of_nat)
next
  case False
  let ?T = "length (enqueued m)"
  have "32 * (?T div 32) \<noteq> ?T" using False by (metis mod_mult_self1_is_0)
  then have "32 * (?T div 32) < ?T" using times_div_less_eq_dividend [of 32 ?T] by linarith
  then have "block_ok counted m (tally (releasing (?T div 32)) cs) (?T div 32)" using sl by (simp add: slots_def)
  moreover have "block_count counted (?T div 32) < 32"
    by (rule block_count_less) (use slots_sets [OF sl] T in auto)
  ultimately show ?thesis by (simp add: block_ok_def t(1) block_base_of_nat mult.commute)
qed

text \<open>A new block at the tail leaves the blocks below it alone.\<close>

lemma below_tail:
  assumes "32 * b < (T :: nat)" "T < 2 ^ 62"
  shows "(of_nat (32 * b) :: index_t) \<noteq> of_nat T"
  using small_index(2) [of "32 * b" T] assms by auto

lemma publish_slots:
  assumes sl: "slots H counted m cs" and T: "H \<le> length (enqueued m)" "length (enqueued m) < 2 ^ 62"
    and t: "tail_ix m = of_nat (length (enqueued m))" "has_block m" "cells m (tail_ix m) = Some x"
  shows "slots H counted (m\<lparr>tail_ix := t', enqueued := enqueued m @ [x]\<rparr>) cs"
proof -
  let ?T = "length (enqueued m)" and ?m = "m\<lparr>tail_ix := t', enqueued := enqueued m @ [x]\<rparr>"
  note S = sl [unfolded slots_def] and sets = slots_sets [OF sl]
  have "block_ok counted ?m (tally (releasing b) cs) b" if b: "32 * b < Suc ?T" for b
  proof (cases "32 * b = ?T")
    case True
    have "block_count counted b = 0"
    proof -
      have "{y \<in> counted. y div 32 = b} = {}"
        using sets(1,2) T(1) times_div_less_eq_dividend [of 32] True by (auto simp: subset_iff)
      then show ?thesis by (simp only: block_count_def card.empty)
    qed
    moreover have "tally (releasing b) cs = 0"
    proof (rule tally_zero)
      fix p assume "p \<in> set cs"
      then have "take_ok H (enqueued m) p" using S by blast
      then show "releasing b p = 0"
        using below_tail [of _ ?T] True T by (cases p) (auto dest!: less_le_trans [OF _ T(1)])
    qed
    moreover have "of_nat (32 * b) \<notin> set (recycled m)"
      using S below_tail [of _ ?T] True T(2) by (metis (no_types, lifting))
    moreover have "?T mod 32 = 0" using True by (metis mod_mult_self1_is_0)
    ultimately show ?thesis using t True by (auto simp: block_ok_def has_block_def count_list_0_iff)
  next
    case False
    then have "block_ok counted m (tally (releasing b) cs) b" using b S by simp
    then show ?thesis by (simp add: block_ok_def)
  qed
  moreover have "take_ok H (enqueued m @ [x]) p" if "p \<in> set cs" for p
    by (rule take_ok_mono [of H]) (use S that T in auto)
  moreover have "(enqueued m @ [x]) ! unat i = z" if e: "(i, z) \<in> set (taken m)" for i z
  proof -
    have "unat i \<in> gone m" using imageI [OF e, of "\<lambda>e. unat (fst e)"] by (simp add: gone_def)
    then have "unat i < ?T" using sets(1) T(1) by auto
    moreover have "\<forall>(i, y) \<in> set (taken m). enqueued m ! unat i = y" using S by (elim conjE)
    from bspec [OF this e] have "enqueued m ! unat i = z" by simp
    ultimately show ?thesis by (simp add: nth_append)
  qed
  then have "\<forall>(i, z) \<in> set (taken m). (enqueued m @ [x]) ! unat i = z" by blast
  moreover have "cells m (of_nat y) = Some ((enqueued m @ [x]) ! y)" if "y < Suc ?T" "y \<notin> gone m" for y
    using S that t by (cases "y = ?T") (auto simp: nth_append)
  ultimately show ?thesis unfolding slots_def using S by (simp add: gone_def) (metis less_SucI)
qed

lemma enqueue_step_slots:
  assumes sl: "slots H counted m cs" and T: "H \<le> length (enqueued m)" "length (enqueued m) < 2 ^ 62"
    and t: "tail_ix m = of_nat (length (enqueued m))" and ok: "enqueue_ok m p"
    and q: "enqueue_step b p m = Some (p', m')"
  shows "slots H counted m' cs" "enqueue_ok m' p'"
proof -
  have "slots H counted m' cs \<and> enqueue_ok m' p'"
  proof (cases p)
    case (P_start x)
    have "block_offset (tail_ix m) = length (enqueued m) mod 32" by (simp add: t block_offset_of_nat)
    then have "m' = m" "p' = (if length (enqueued m) mod 32 = 0 then P_room x (tail_ix m) else P_write x (tail_ix m))"
      using q P_start by (auto simp: Let_def)
    then show ?thesis using sl by (simp add: has_block_def)
  next
    case (P_room x t')
    then show ?thesis using sl q ok by (auto split: if_splits)
  next
    case (P_block x t')
    show ?thesis
    proof (cases b)
      case True
      then have m': "m' = m\<lparr>in_index := (in_index m)(t' := True), completely_dequeued := (completely_dequeued m)(t' := 0)\<rparr>"
          and p': "p' = P_write x t'" using q P_block by simp_all
      have t': "t' = of_nat (length (enqueued m))" using ok t by (simp add: P_block)
      have "block_ok counted m' r b = block_ok counted m r b" if "32 * b < length (enqueued m)" for r b
        using below_tail [OF that T(2)] by (simp add: block_ok_def m' t')
      then have "slots H counted m' cs" using sl by (simp add: slots_def m' gone_def)
      moreover have "enqueue_ok m' p'" using ok by (simp add: P_block p' m' has_block_def)
      ultimately show ?thesis by simp
    qed (use sl q P_block in auto)
  next
    case (P_write x t')
    have t': "t' = tail_ix m" "has_block m" using ok by (simp_all add: P_write)
    have "m' = m\<lparr>cells := (cells m)(t' := Some x)\<rparr>" "p' = P_publish x t'"
      using q tail_block [OF sl T t t'(2)] by (simp_all add: P_write t')
    moreover have "(of_nat y :: index_t) \<noteq> of_nat (length (enqueued m))" if "y < length (enqueued m)" for y
      using small_index(2) [of y "length (enqueued m)"] that T(2) by auto
    then have "slots H counted (m\<lparr>cells := (cells m)(t' := Some x)\<rparr>) cs"
      using sl unfolding slots_def t'(1) t by (simp add: gone_def block_ok_def)
    ultimately show ?thesis using t' by (simp add: has_block_def)
  next
    case (P_publish x t')
    then have m': "m' = m\<lparr>tail_ix := t' + 1, enqueued := enqueued m @ [x]\<rparr>" "p' = P_returned True" using q by auto
    have x: "t' = tail_ix m" "has_block m" "cells m (tail_ix m) = Some x" using ok by (auto simp: P_publish)
    show ?thesis using publish_slots [OF sl T t x(2,3), of "t' + 1"] by (simp add: m')
  qed (use q in auto)
  then show "slots H counted m' cs" "enqueue_ok m' p'" by simp_all
qed

lemma claim_step_enqueue_ok:
  "claim_step p m = Some (q, m') \<Longrightarrow> enqueue_ok m pr \<Longrightarrow> enqueue_ok m' pr"
  by (cases p; cases pr) (auto simp: has_block_def Let_def)

lemma take_step_enqueue_ok:
  assumes sl: "slots H counted m cs" and u: "u < length cs"
    and T: "H \<le> length (enqueued m)" "length (enqueued m) < 2 ^ 62" "tail_ix m = of_nat (length (enqueued m))"
    and q: "take_step (cs ! u) m = Some (q, m')" and ok: "enqueue_ok m pr"
  shows "enqueue_ok m' pr"
proof -
  have tk: "take_ok H (enqueued m) (cs ! u)" using sl u by (simp add: slots_def)
  have base: "(of_nat (32 * b) :: index_t) \<noteq> tail_ix m" if "32 * b < H" for b
    using below_tail [of b "length (enqueued m)"] that T by simp
  have "tail_ix m' = tail_ix m" "enqueued m' = enqueued m" "cells m' (tail_ix m) = cells m (tail_ix m)"
      "completely_dequeued m' (tail_ix m) = completely_dequeued m (tail_ix m)"
      "in_index m' (tail_ix m) = in_index m (tail_ix m)"
  proof -
    have "tail_ix m' = tail_ix m \<and> enqueued m' = enqueued m \<and> cells m' (tail_ix m) = cells m (tail_ix m) \<and>
      completely_dequeued m' (tail_ix m) = completely_dequeued m (tail_ix m) \<and>
      in_index m' (tail_ix m) = in_index m (tail_ix m)"
    proof (cases "cs ! u")
      case (Take md i e st f got)
      define B where "B = unat st div 32"
      have "block_base (of_nat (unat st)) = of_nat (B * 32)" unfolding B_def by (rule block_base_of_nat)
      then have st: "block_base st = of_nat (32 * B)" by (simp add: mult.commute)
      have lt: "unat st < H" "unat i < H \<or> i = e" using tk by (auto simp: Take word_unat_eq_iff)
      then have "block_base st \<noteq> tail_ix m"
        using base [of B] times_div_less_eq_dividend [of 32 "unat st"] unfolding st B_def by linarith
      moreover have "i = e \<or> i \<noteq> tail_ix m"
      proof (cases "i = e")
        case False
        then have "unat i < length (enqueued m)" using lt(2) T(1) by simp
        moreover have "unat (tail_ix m) = length (enqueued m)" unfolding T(3) by (rule small_index(1) [OF T(2,2)])
        ultimately show ?thesis by auto
      qed simp
      ultimately show ?thesis using q by (auto simp: Take Let_def split: if_splits option.splits)
    next
      case (Release md b i f got)
      then have "b \<noteq> tail_ix m" using tk base by auto
      then show ?thesis using q by (auto simp: Release)
    qed (use q in auto)
    then show "tail_ix m' = tail_ix m" "enqueued m' = enqueued m" "cells m' (tail_ix m) = cells m (tail_ix m)"
      "completely_dequeued m' (tail_ix m) = completely_dequeued m (tail_ix m)"
      "in_index m' (tail_ix m) = in_index m (tail_ix m)" by blast+
  qed
  then show ?thesis using ok by (cases pr) (simp_all add: has_block_def)
qed

section \<open>The invariant of the machine\<close>

definition dq_inv :: "'a dq_state \<Rightarrow> bool" where
  "dq_inv s \<longleftrightarrow> counters_small (dmem s) \<and> enqueue_ok (dmem s) (producer s) \<and>
     (\<exists>H V won lost counted. counters H V won lost (dmem s) (consumers s) \<and> slots H counted (dmem s) (consumers s))"

lemma dequeue_step_inv:
  assumes I: "dq_inv s" and u: "u < length (consumers s)" and q: "dequeue_step (consumers s ! u) (dmem s) = Some (q, m')"
    and small: "counters_small m'"
  shows "dq_inv (s\<lparr>consumers := (consumers s)[u := q], dmem := m'\<rparr>)"
proof -
  let ?p = "consumers s ! u"
  obtain H V won lost counted where c: "counters H V won lost (dmem s) (consumers s)"
      and sl: "slots H counted (dmem s) (consumers s)" and ok: "enqueue_ok (dmem s) (producer s)"
      and sm: "counters_small (dmem s)" using I by (auto simp: dq_inv_def)
  have T: "H \<le> length (enqueued (dmem s))" "length (enqueued (dmem s)) < 2 ^ 62"
    using head_le_tail [OF c] sm by (simp_all add: counters_small_def)
  have t: "tail_ix (dmem s) = of_nat (length (enqueued (dmem s)))" "head_ix (dmem s) = of_nat H"
    using c by (simp_all add: counters_def)
  show ?thesis
  proof (cases "claim_step ?p (dmem s)")
    case None
    then have st: "take_step ?p (dmem s) = Some (q, m')" using q by (simp add: dequeue_step_def)
    show ?thesis
      using take_step_counters [OF c u st] take_step_slots [OF sl u T st] take_step_enqueue_ok [OF sl u T t(1) st ok] small
      unfolding dq_inv_def by auto
  next
    case (Some r)
    then have st: "claim_step ?p (dmem s) = Some (q, m')" using q by (simp add: dequeue_step_def)
    have "fetching ?p \<le> tally to_fetch (consumers s)"
    proof -
      have "fetching ?p \<le> to_fetch ?p" by (simp add: fetching_def split: dq_loc.splits)
      also have "\<dots> \<le> tally to_fetch (consumers s)" by (rule tally_ge [OF u])
      finally show ?thesis .
    qed
    then have "H + fetching ?p \<le> length (enqueued (dmem s))" using head_le_tail [OF c] by linarith
    moreover have "amount_ok md a" if "?p = Fetch_head md a" for md a
      using c u that by (auto simp: counters_def dest!: bspec [OF _ nth_mem [OF u]])
    ultimately have "slots (H + fetching ?p) counted m' ((consumers s)[u := q])"
      by (intro claim_step_slots [OF sl u st t(2) _ T(2)])
    then show ?thesis
      using claim_step_counters [OF c u small st] claim_step_enqueue_ok [OF st ok] small unfolding dq_inv_def by auto
  qed
qed

text \<open>A call and a return: the consumer holds nothing before and after.\<close>

lemma client_step_inv:
  assumes I: "dq_inv s" and u: "u < length (consumers s)"
    and p: "consumers s ! u = Idle \<and> q = Load_tail md \<and> mode_ok md \<or> consumers s ! u = Returned got \<and> q = Idle"
  shows "dq_inv (s\<lparr>consumers := (consumers s)[u := q]\<rparr>)"
proof -
  obtain H V won lost counted where c: "counters H V won lost (dmem s) (consumers s)"
      and sl: "slots H counted (dmem s) (consumers s)" using I by (auto simp: dq_inv_def)
  have c': "counters H V won lost (dmem s) ((consumers s)[u := consumers s ! u])"
    and sl': "slots H counted (dmem s) ((consumers s)[u := consumers s ! u])" using c sl by simp_all
  have t: "tickets q = tickets (consumers s ! u)" "to_give_back q = to_give_back (consumers s ! u)"
      "to_fetch q = to_fetch (consumers s ! u)" "remaining q = remaining (consumers s ! u)"
      "uncounted q = uncounted (consumers s ! u)" "releasing b q = releasing b (consumers s ! u)"
      "claim_ok V k lost q" "take_ok H xs q" for b k xs using p by auto
  have "counters H V won lost (dmem s) ((consumers s)[u := q])"
    using c' unfolding counters_split [OF u refl] t by (elim conjE, intro conjI) (assumption | rule t)+
  moreover have "slots H counted (dmem s) ((consumers s)[u := q])"
    using sl' unfolding slots_split [OF u] t by (elim conjE, intro conjI) (assumption | rule t)+
  ultimately show ?thesis using I by (auto simp: dq_inv_def)
qed

lemma dq_inv_event:
  assumes I: "dq_inv s" and e: "dq_event e s = Some s'" and small: "counters_small (dmem s')"
  shows "dq_inv s'"
proof (cases e)
  case (Enqueue x)
  then have "s' = s\<lparr>producer := P_start x\<rparr>" using e by (auto simp: dq_event_def split: if_splits)
  then show ?thesis using I by (simp add: dq_inv_def)
next
  case (Producer b)
  then obtain p' m' where q: "enqueue_step b (producer s) (dmem s) = Some (p', m')" and s': "s' = s\<lparr>producer := p', dmem := m'\<rparr>"
    using e by (auto simp: dq_event_def)
  obtain H V won lost counted where c: "counters H V won lost (dmem s) (consumers s)"
      and sl: "slots H counted (dmem s) (consumers s)" and ok: "enqueue_ok (dmem s) (producer s)"
      and sm: "counters_small (dmem s)" using I by (auto simp: dq_inv_def)
  have T: "H \<le> length (enqueued (dmem s))" "length (enqueued (dmem s)) < 2 ^ 62"
    using head_le_tail [OF c] sm by (simp_all add: counters_small_def)
  have t: "tail_ix (dmem s) = of_nat (length (enqueued (dmem s)))" using c by (simp add: counters_def)
  have "counters H V won lost m' (consumers s)"
    by (rule enqueue_step_counters [OF c q]) (use ok in auto)
  then show ?thesis using enqueue_step_slots [OF sl T t ok q] small by (auto simp: dq_inv_def s')
next
  case Enqueue_return
  then have "s' = s\<lparr>producer := P_idle\<rparr>" using e by (auto simp: dq_event_def split: pr_loc.splits)
  then show ?thesis using I by (simp add: dq_inv_def)
next
  case (Dequeue u md)
  then show ?thesis using client_step_inv [OF I, of u "Load_tail md" md] e
    by (auto simp: dq_event_def mode_ok_def split: if_splits)
next
  case (Consumer u)
  then obtain q m' where u: "u < length (consumers s)" and q: "dequeue_step (consumers s ! u) (dmem s) = Some (q, m')"
      and s': "s' = s\<lparr>consumers := (consumers s)[u := q], dmem := m'\<rparr>"
    using e by (auto simp: dq_event_def split: if_splits)
  show ?thesis unfolding s' by (rule dequeue_step_inv [OF I u q]) (use small in \<open>simp add: s'\<close>)
next
  case (Dequeue_return u)
  then obtain got where "u < length (consumers s)" "consumers s ! u = Returned got" "s' = s\<lparr>consumers := (consumers s)[u := Idle]\<rparr>"
    using e by (auto simp: dq_event_def split: if_splits dq_loc.splits)
  then show ?thesis using client_step_inv [OF I, of u Idle undefined got] by simp
qed

lemma enqueue_step_grows:
  "enqueue_step b p m = Some (p', m') \<Longrightarrow> claimed m' = claimed m \<and> length (enqueued m) \<le> length (enqueued m')"
  by (cases p) (auto simp: Let_def split: if_splits)

lemma dequeue_step_grows:
  "dequeue_step p m = Some (q, m') \<Longrightarrow> claimed m \<le> claimed m' \<and> enqueued m' = enqueued m"
  by (cases p) (auto simp: dequeue_step_def Let_def split: if_splits option.splits)

lemma dq_event_grows:
  "dq_event e s = Some s' \<Longrightarrow> claimed (dmem s) \<le> claimed (dmem s') \<and>
     length (enqueued (dmem s)) \<le> length (enqueued (dmem s')) \<and> length (consumers s') = length (consumers s)"
  by (cases e) (auto simp: dq_event_def split: if_splits pr_loc.splits dq_loc.splits
      dest!: enqueue_step_grows dequeue_step_grows)

lemma dq_run_grows:
  "dq_run es s = Some s' \<Longrightarrow> claimed (dmem s) \<le> claimed (dmem s') \<and> length (enqueued (dmem s)) \<le> length (enqueued (dmem s')) \<and>
    length (consumers s') = length (consumers s)"
  by (induction es arbitrary: s) (force dest: dq_event_grows split: Option.bind_splits)+

lemma counters_small_before: "dq_run es s = Some s' \<Longrightarrow> counters_small (dmem s') \<Longrightarrow> counters_small (dmem s)"
  using dq_run_grows [of es s s'] by (auto simp: counters_small_def)

lemma dq_inv_run: "dq_inv s \<Longrightarrow> dq_run es s = Some s' \<Longrightarrow> counters_small (dmem s') \<Longrightarrow> dq_inv s'"
proof (induction es arbitrary: s)
  case (Cons e es)
  then obtain s1 where s1: "dq_event e s = Some s1" "dq_run es s1 = Some s'" by (auto split: Option.bind_splits)
  have "dq_inv s1" by (rule dq_inv_event [OF Cons.prems(1) s1(1) counters_small_before [OF s1(2) Cons.prems(3)]])
  then show ?case by (rule Cons.IH [OF _ s1(2) Cons.prems(3)])
qed simp

lemma dq_inv_new: "dq_inv (dq_new n)"
proof -
  have "counters 0 0 {} {} ImplicitProducer_new (replicate n Idle)"
    by (simp add: counters_def ImplicitProducer_new_def)
  moreover have "slots 0 {} ImplicitProducer_new (replicate n Idle)"
    by (simp add: slots_def ImplicitProducer_new_def gone_def)
  ultimately show ?thesis
    unfolding dq_inv_def dq_new_def
    by (intro conjI exI) (simp_all add: counters_small_def ImplicitProducer_new_def)
qed

section \<open>No consumer waits for another\<close>

text \<open>The atomic accesses that a consumer still needs, whatever the others do.\<close>

fun work :: "'a dq_loc \<Rightarrow> nat" where
  "work (Load_tail md) = 3 * capacity md + 7"
| "work (Load_overcommit md tail) = 3 * capacity md + 6"
| "work (Load_optimistic md tail over) = 3 * capacity md + 5"
| "work (Claim md n over) = 3 * unat n + 4"
| "work (Reload_tail md n over my) = 3 * unat n + 3"
| "work (Give_back md n a) = 3 * unat a + 2"
| "work (Fetch_head md a) = 3 * unat a + 1"
| "work (Take md i e st f got) = 3 * unat (f - i) + (if st = i then 0 else 2)"
| "work (Release md base i f got) = 3 * unat (f - i) + 1"
| "work _ = 0"

lemma work_after_block: "work (take_from md i f got) = 3 * unat (f - i)" "work (after_block md i f got) \<le> 3 * unat (f - i)"
  by (simp_all add: take_from_def after_block_def)

lemma work_decreases:
  assumes I: "dq_inv s" and u: "u < length (consumers s)"
    and q: "dequeue_step (consumers s ! u) (dmem s) = Some (q, m')"
  shows "work q < work (consumers s ! u)" "q \<noteq> Idle"
proof -
  let ?p = "consumers s ! u"
  obtain H V won lost counted where c: "counters H V won lost (dmem s) (consumers s)"
      and sl: "slots H counted (dmem s) (consumers s)" using I by (auto simp: dq_inv_def)
  have ok: "claim_ok V (claimed (dmem s)) lost ?p" "take_ok H (enqueued (dmem s)) ?p"
    using c sl u by (simp_all add: counters_def slots_def)
  show "q \<noteq> Idle"
    using q by (cases ?p) (auto simp: dequeue_step_def take_from_def after_block_def Let_def split: if_splits option.splits)
  show "work q < work ?p"
  proof (cases ?p)
    case (Load_optimistic md tail over)
    then show ?thesis using q ok(1) desired_count_ok
      by (auto simp: dequeue_step_def amount_ok_def split: option.splits)
        (metis add_le_mono1 amount_ok_def desired_count_ok le_imp_less_Suc mult_le_mono2)
  next
    case (Reload_tail md n over my)
    define a where "a = actual_count md n (tail_ix (dmem s)) over my"
    have "q = (if a < n then Give_back md (n - a) a else Fetch_head md a)" using q
      by (auto simp: dequeue_step_def Reload_tail a_def Let_def)
    moreover have "unat a \<le> unat n" using ok(1)
      by (auto simp: a_def Reload_tail actual_count_def Let_def word_less_nat_alt amount_ok_def unat_gt_0 Suc_le_eq split: dq_mode.splits)
    ultimately show ?thesis by (simp add: Reload_tail)
  next
    case (Take md i e st f got)
    show ?thesis
    proof (cases "i = e")
      case True
      then have "q = after_block md e f got \<or> (\<exists>b. q = Release md b e f got)" and "st \<noteq> e"
        using q ok(2) by (auto simp: dequeue_step_def Take Let_def)
      then show ?thesis using work_after_block(2) [of md e f got] True by (auto simp: Take)
    next
      case False
      then have "unat i \<noteq> unat e" by (simp add: word_unat_eq_iff)
      then have "f - i \<noteq> 0" using ok(2) by (auto simp: Take)
      then have "unat (f - (i + 1)) + 1 = unat (f - i)"
        using unat_minus_one [of "f - i"] by (simp add: unat_gt_0 diff_diff_eq [symmetric])
      moreover have "q = Broken \<or> (\<exists>g. q = Take md (i + 1) e st f g)"
        using q False by (auto simp: dequeue_step_def Take split: if_splits option.splits)
      ultimately show ?thesis by (auto simp: Take)
    qed
  next
    case (Release md base i f got)
    then have "q = after_block md i f got" using q by (auto simp: dequeue_step_def)
    then show ?thesis using work_after_block(2) [of md i f got] by (simp add: Release)
  qed (use q ok(1) in \<open>auto simp: dequeue_step_def work_after_block amount_ok_def split: if_splits\<close>)
qed

fun is_step :: "nat \<Rightarrow> 'a dq_act \<Rightarrow> bool" where
  "is_step u (Consumer v) \<longleftrightarrow> u = v"
| "is_step u _ \<longleftrightarrow> False"

lemma steps_bound:
  assumes "dq_inv s" "u < length (consumers s)" "consumers s ! u \<noteq> Idle"
    and "dq_run es s = Some s'" "counters_small (dmem s')" "Dequeue_return u \<notin> set es"
  shows "length (filter (is_step u) es) + work (consumers s' ! u) \<le> work (consumers s ! u) \<and> consumers s' ! u \<noteq> Idle"
  using assms
proof (induction es arbitrary: s)
  case (Cons e es)
  then obtain s1 where s1: "dq_event e s = Some s1" "dq_run es s1 = Some s'" by (auto split: Option.bind_splits)
  have I1: "dq_inv s1" by (rule dq_inv_event [OF Cons.prems(1) s1(1) counters_small_before [OF s1(2) Cons.prems(5)]])
  have len: "u < length (consumers s1)" using dq_event_grows [OF s1(1)] Cons.prems(2) by simp
  have "consumers s1 ! u \<noteq> Idle \<and> of_bool (is_step u e) + work (consumers s1 ! u) \<le> work (consumers s ! u)"
  proof (cases "e = Consumer u")
    case True
    then obtain q m' where "dequeue_step (consumers s ! u) (dmem s) = Some (q, m')" "consumers s1 ! u = q"
      using s1(1) Cons.prems(2) by (auto simp: dq_event_def)
    then show ?thesis using work_decreases [OF Cons.prems(1,2)] True by (simp add: Suc_le_eq)
  next
    case False
    then have "\<not> is_step u e" by (cases e) auto
    moreover have "consumers s1 ! u = consumers s ! u" using s1(1) False Cons.prems(3,6)
      by (cases e) (auto simp: dq_event_def nth_list_update split: if_splits pr_loc.splits dq_loc.splits)
    ultimately show ?thesis using Cons.prems(3) by simp
  qed
  then show ?case using Cons.IH [OF I1 len _ s1(2) Cons.prems(5)] Cons.prems(6) by (cases "is_step u e") fastforce+
qed simp

section \<open>What the sub-queue promises\<close>

text \<open>
  A run with three elements: consumer 1 wants five and claims three, consumer 0 is faster and takes
  the first; consumer 1 gives one claim back and gets the other two.
\<close>

definition race :: "nat dq_act list" where
  "race =
     Enqueue 10 # replicate 5 (Producer True) @ Enqueue_return # Enqueue 11 # replicate 3 (Producer True) @
     Enqueue_return # Enqueue 12 # replicate 3 (Producer True) @ [Enqueue_return, Dequeue 0 One, Dequeue 1 (Many 5),
     Consumer 1, Consumer 1, Consumer 1] @ replicate 8 (Consumer 0) @ replicate 7 (Consumer 1)"

definition race_end :: "nat dq_act list" where
  "race_end = race @ [Dequeue_return 0, Dequeue_return 1]"

lemma race_run:
  obtains s where "dq_run race (dq_new 2) = Some s" "consumers s = [Returned [10], Returned [11, 12]]"
    "enqueued (dmem s) = [10, 11, 12]" "claimed (dmem s) = 4"
proof -
  have "map_option (\<lambda>s. (consumers s, enqueued (dmem s), claimed (dmem s))) (dq_run race (dq_new 2)) =
      Some ([Returned [10], Returned [11, 12]], [10, 11, 12], 4)" by code_simp
  then show thesis using that by blast
qed

lemma race_end_run:
  obtains s where "dq_run race_end (dq_new 2) = Some s" "consumers s = [Idle, Idle]"
    "enqueued (dmem s) = [10, 11, 12]" "claimed (dmem s) = 4"
proof -
  have "map_option (\<lambda>s. (consumers s, enqueued (dmem s), claimed (dmem s))) (dq_run race_end (dq_new 2)) =
      Some ([Idle, Idle], [10, 11, 12], 4)" by code_simp
  then show thesis using that by blast
qed

lemma dq_run_inv:
  assumes "dq_run es (dq_new n) = Some s" "claimed (dmem s) < 2 ^ 62" "length (enqueued (dmem s)) < 2 ^ 62"
  obtains H V won lost counted where "counters H V won lost (dmem s) (consumers s)"
    "slots H counted (dmem s) (consumers s)" "enqueue_ok (dmem s) (producer s)" "H \<le> length (enqueued (dmem s))"
proof -
  have "dq_inv s" by (rule dq_inv_run [OF dq_inv_new assms(1)]) (use assms in \<open>simp add: counters_small_def\<close>)
  then show thesis using that head_le_tail by (fastforce simp: dq_inv_def)
qed

lemma run_before_drop: "run_before xs i got \<Longrightarrow> i \<le> length xs \<Longrightarrow> got = take (length got) (drop (i - length got) xs)"
proof -
  assume r: "run_before xs i got" "i \<le> length xs"
  have "length got \<le> i" using r(1) by (simp add: run_before_def)
  then have "map ((!) xs) [i - length got ..< i] = take (length got) (drop (i - length got) xs)"
    by (intro nth_equalityI) (use r(2) in auto)
  then show ?thesis using r(1) unfolding run_before_def by argo
qed

text \<open>
  C18: However producer and consumers interleave, every element that is moved out is the one that was
  enqueued under its index, no index is served twice, each call returns consecutive elements of the
  queue, and no thread ever reads an empty slot, or a block that is not in the index.
\<close>

theorem dequeue_threads_deliver:
  assumes "dq_run es (dq_new n) = Some s" "claimed (dmem s) < 2 ^ 62" "length (enqueued (dmem s)) < 2 ^ 62"
  shows "distinct (map fst (taken (dmem s))) \<and>
    (\<forall>(i, x) \<in> set (taken (dmem s)). unat i < length (enqueued (dmem s)) \<and> enqueued (dmem s) ! unat i = x) \<and>
    (\<forall>got. Returned got \<in> set (consumers s) \<longrightarrow> (\<exists>i. got = take (length got) (drop i (enqueued (dmem s))))) \<and>
    Broken \<notin> set (consumers s) \<and> producer s \<noteq> P_broken"
proof -
  obtain H V won lost counted where c: "counters H V won lost (dmem s) (consumers s)"
      and sl: "slots H counted (dmem s) (consumers s)" and ok: "enqueue_ok (dmem s) (producer s)"
      and T: "H \<le> length (enqueued (dmem s))"
    by (rule dq_run_inv [OF assms])
  note S = sl [unfolded slots_def] and sets = slots_sets [OF sl]
  have "unat i < length (enqueued (dmem s)) \<and> enqueued (dmem s) ! unat i = x" if "(i, x) \<in> set (taken (dmem s))" for i x
  proof -
    have "unat i \<in> gone (dmem s)" using that by (force simp: gone_def)
    then show ?thesis using S that sets(1) T by auto
  qed
  moreover have "\<exists>i. got = take (length got) (drop i (enqueued (dmem s)))" if "Returned got \<in> set (consumers s)" for got
  proof -
    have "take_ok H (enqueued (dmem s)) (Returned got)" using S that by blast
    then show ?thesis using run_before_drop [of "enqueued (dmem s)" _ got] T by (auto intro: order_trans)
  qed
  moreover have "Broken \<notin> set (consumers s)" using S by force
  moreover have "producer s \<noteq> P_broken" using ok by auto
  ultimately show ?thesis using S by blast
qed

theorem dequeue_threads_deliver_witness:
  "\<exists>s. dq_run race (dq_new 2) = Some s \<and> enqueued (dmem s) = [10, 11, 12] \<and> distinct (map fst (taken (dmem s)))
     \<and> (\<exists>i. [11, 12] = take 2 (drop i [10, 11, 12 :: nat])) \<and> Broken \<notin> set (consumers s)"
proof -
  obtain s where s: "dq_run race (dq_new 2) = Some s" "consumers s = [Returned [10], Returned [11, 12]]"
      "enqueued (dmem s) = [10, 11, 12]" "claimed (dmem s) = 4" by (rule race_run)
  have d: "distinct (map fst (taken (dmem s))) \<and> Broken \<notin> set (consumers s) \<and>
      (\<forall>got. Returned got \<in> set (consumers s) \<longrightarrow> (\<exists>i. got = take (length got) (drop i (enqueued (dmem s)))))"
    using dequeue_threads_deliver [OF s(1)] by (simp add: s(3,4))
  then have "\<exists>i. [11, 12] = take (length [11, 12 :: nat]) (drop i (enqueued (dmem s)))" by (simp add: s(2))
  then show ?thesis using d s(1,3) by (intro exI [of _ s]) (simp add: numeral_2_eq_2)
qed

lemma distinct_count_list: "(\<And>r. r \<in> set xs \<Longrightarrow> count_list xs r \<le> 1) \<Longrightarrow> distinct xs"
proof (induction xs)
  case (Cons x xs)
  have "count_list xs x = 0" using Cons.prems [of x] by simp
  then have "x \<notin> set xs" by (simp add: count_list_0_iff)
  moreover have "count_list xs r \<le> 1" if "r \<in> set xs" for r
    using Cons.prems [of r] that by (simp split: if_splits)
  ultimately show ?case using Cons.IH by simp
qed simp

lemma block_count_prefix: "block_count {..< H} b = 32 \<longleftrightarrow> 32 * b + 32 \<le> H"
proof -
  have "{x \<in> {..< H}. x div 32 = b} = {..< H} \<inter> {x. x div 32 = b}" by blast
  also have "\<dots> = {32 * b ..< min (32 * b + 32) H}" unfolding block_members by auto
  finally have "block_count {..< H} b = min (32 * b + 32) H - 32 * b" by (simp add: block_count_def)
  then show ?thesis by auto
qed

text \<open>Nobody inside a method: the shares of the consumers vanish.\<close>

lemma all_idle: "set cs \<subseteq> {Idle} \<Longrightarrow> f Idle = 0 \<Longrightarrow> tally f cs = 0"
  by (rule tally_zero) auto

lemma settled_sets:
  assumes "slots H counted m cs" "set cs \<subseteq> {Idle}"
  shows "gone m = {..< H}" "counted = {..< H}"
proof -
  note idle = all_idle [OF assms(2)]
  have "of_bool (x \<in> gone m) = (of_bool (x < H) :: nat)" "of_bool (x \<in> counted) = (of_bool (x \<in> gone m) :: nat)" for x
    using assms(1) by (simp_all add: slots_def idle)
  then have "x \<in> gone m \<longleftrightarrow> x < H" "x \<in> counted \<longleftrightarrow> x < H" for x unfolding of_bool_eq_iff by blast+
  then show "gone m = {..< H}" "counted = {..< H}" by auto
qed

lemma settled_counters:
  assumes c: "counters H V won lost m cs" and cs: "set cs \<subseteq> {Idle}"
  shows "optimistic m - overcommit m = of_nat H"
proof -
  note idle = all_idle [OF cs]
  have "x \<in> won \<or> x \<in> lost \<longleftrightarrow> x < claimed m" for x
  proof -
    have "(of_bool (x \<in> won) + of_bool (x \<in> lost) :: nat) = of_bool (x < claimed m)"
      using c by (simp add: counters_def idle)
    then show ?thesis by (cases "x \<in> won"; cases "x \<in> lost"; cases "x < claimed m") simp_all
  qed
  then have "won \<union> lost = {..< claimed m}" by auto
  then have "card won + card lost = claimed m" using ticket_sets [OF c] card_Un_disjoint [of won lost] by simp
  then have "claimed m = H + V" using c by (simp add: counters_def idle)
  then show ?thesis using c by (simp add: counters_def)
qed

lemma settled_elements:
  assumes sl: "slots H counted m cs" and T: "H \<le> length (enqueued m)" and cs: "set cs \<subseteq> {Idle}"
  shows "mset (map snd (taken m)) = mset (take H (enqueued m))"
proof -
  let ?ix = "map (\<lambda>e. unat (fst e)) (taken m)" and ?xs = "enqueued m"
  have "distinct (map unat (map fst (taken m)))"
    using sl by (simp only: distinct_map [of unat]) (simp add: slots_def inj_on_def word_unat_eq_iff)
  then have d: "distinct ?ix" by (simp add: comp_def)
  have "map snd (taken m) = map ((!) ?xs) ?ix" using sl by (auto simp: slots_def)
  moreover have "mset ?ix = mset [0 ..< H]"
    by (rule set_eq_iff_mset_eq_distinct [THEN iffD1]) (use d settled_sets(1) [OF sl cs] in \<open>auto simp: gone_def\<close>)
  ultimately have "mset (map snd (taken m)) = mset (map ((!) ?xs) [0 ..< H])" by (metis mset_map)
  also have "map ((!) ?xs) [0 ..< H] = take H ?xs" using T by (intro nth_equalityI) auto
  finally show ?thesis .
qed

lemma settled_blocks:
  assumes sl: "slots H counted m cs" and T: "H \<le> length (enqueued m)" and cs: "set cs \<subseteq> {Idle}"
  shows "distinct (recycled m)" "set (recycled m) = (\<lambda>b. of_nat (32 * b)) ` {b. 32 * b + 32 \<le> H}"
proof -
  have rec: "count_list (recycled m) (of_nat (32 * b)) = of_bool (32 * b + 32 \<le> H)" if "32 * b < length (enqueued m)" for b
    using sl that unfolding slots_def
    by (simp add: block_ok_def all_idle [OF cs] settled_sets(2) [OF sl cs] block_count_prefix)
  have form: "\<exists>b. 32 * b < length (enqueued m) \<and> r = of_nat (32 * b)" if "r \<in> set (recycled m)" for r
    using sl that unfolding slots_def by blast
  show "distinct (recycled m)" by (rule distinct_count_list) (use form rec in fastforce)
  show "set (recycled m) = (\<lambda>b. of_nat (32 * b)) ` {b. 32 * b + 32 \<le> H}"
  proof (intro set_eqI iffI)
    fix r assume r: "r \<in> set (recycled m)"
    then obtain b where b: "32 * b < length (enqueued m)" "r = of_nat (32 * b)" using form by blast
    have "count_list (recycled m) r \<noteq> 0" using r by (simp only: count_list_0_iff not_not)
    then have "32 * b + 32 \<le> H" using rec [OF b(1)] b(2) by (cases "32 * b + 32 \<le> H") simp_all
    then show "r \<in> (\<lambda>b. of_nat (32 * b)) ` {b. 32 * b + 32 \<le> H}" using b(2) by blast
  next
    fix r assume "r \<in> (\<lambda>b. of_nat (32 * b) :: index_t) ` {b. 32 * b + 32 \<le> H}"
    then obtain b where b: "32 * b + 32 \<le> H" "r = of_nat (32 * b)" by blast
    then have "count_list (recycled m) r = 1" using rec [of b] T by simp
    then show "r \<in> set (recycled m)" by (metis count_list_0_iff zero_neq_one)
  qed
qed

text \<open>
  C19: When every consumer is back from its call the accounts are settled: \<open>optimistic\<close> less
  \<open>overcommit\<close> is the head index, as the next call assumes; exactly the first elements up to the head
  have been delivered, each once, and the others are in their slots; and the blocks that were given to
  the free list, each once, are those whose elements are all delivered.
\<close>

theorem dequeue_threads_settle:
  assumes "dq_run es (dq_new n) = Some s" "claimed (dmem s) < 2 ^ 62" "length (enqueued (dmem s)) < 2 ^ 62"
    and "set (consumers s) \<subseteq> {Idle}"
  shows "\<exists>H \<le> length (enqueued (dmem s)).
    head_ix (dmem s) = of_nat H \<and> optimistic (dmem s) - overcommit (dmem s) = of_nat H \<and>
    mset (map snd (taken (dmem s))) = mset (take H (enqueued (dmem s))) \<and>
    (\<forall>x. H \<le> x \<and> x < length (enqueued (dmem s)) \<longrightarrow> cells (dmem s) (of_nat x) = Some (enqueued (dmem s) ! x)) \<and>
    distinct (recycled (dmem s)) \<and>
    set (recycled (dmem s)) = (\<lambda>b. of_nat (32 * b)) ` {b. 32 * b + 32 \<le> H}"
proof -
  obtain H V won lost counted where c: "counters H V won lost (dmem s) (consumers s)"
      and sl: "slots H counted (dmem s) (consumers s)" and T: "H \<le> length (enqueued (dmem s))"
    by (rule dq_run_inv [OF assms(1-3)])
  have "cells (dmem s) (of_nat x) = Some (enqueued (dmem s) ! x)" if "H \<le> x" "x < length (enqueued (dmem s))" for x
    using sl that unfolding slots_def by (simp add: settled_sets(1) [OF sl assms(4)])
  then show ?thesis
    using T c settled_counters [OF c assms(4)] settled_elements [OF sl T assms(4)] settled_blocks [OF sl T assms(4)]
    by (intro exI [of _ H]) (simp add: counters_def)
qed

theorem dequeue_threads_settle_witness:
  "\<exists>s H. dq_run race_end (dq_new 2) = Some s \<and> enqueued (dmem s) = [10, 11, 12] \<and> H \<le> 3
     \<and> mset (map snd (taken (dmem s))) = mset (take H [10, 11, 12 :: nat]) \<and> optimistic (dmem s) - overcommit (dmem s) = of_nat H"
proof -
  obtain s where s: "dq_run race_end (dq_new 2) = Some s" "consumers s = [Idle, Idle]"
      "enqueued (dmem s) = [10, 11, 12]" "claimed (dmem s) = 4" by (rule race_end_run)
  have "claimed (dmem s) < 2 ^ 62" "length (enqueued (dmem s)) < 2 ^ 62" "set (consumers s) \<subseteq> {Idle}"
    by (simp_all add: s)
  from dequeue_threads_settle [OF s(1) this] obtain H where "H \<le> length (enqueued (dmem s))"
      "mset (map snd (taken (dmem s))) = mset (take H (enqueued (dmem s)))"
      "optimistic (dmem s) - overcommit (dmem s) = of_nat H" by blast
  then show ?thesis using s(1,3) by (intro exI [of _ s] exI [of _ H]) simp
qed


text \<open>The three elements are there and consumer 1 has just called.\<close>

definition before_race :: "nat dq_act list" where
  "before_race = take 19 race"


text \<open>
  A call can come back with nothing although an element was there all the time and nobody took it:
  consumer 1 has lost its ticket and not yet given it back when consumer 2 looks. This is why the
  blocking queue tries again after the semaphore let it pass.
\<close>

definition missed :: "nat dq_act list" where
  "missed =
     Enqueue 10 # replicate 5 (Producer True) @ [Enqueue_return, Dequeue 0 One, Dequeue 1 One] @ replicate 3 (Consumer 0) @
     replicate 3 (Consumer 1) @ replicate 5 (Consumer 0) @ replicate 2 (Consumer 1) @ Enqueue 11 # replicate 3 (Producer True) @
     [Enqueue_return, Dequeue 2 One] @ replicate 3 (Consumer 2) @ [Consumer 1]"

theorem dequeue_can_miss:
  "map_option (\<lambda>s. (consumers s, enqueued (dmem s), taken (dmem s))) (dq_run missed (dq_new 3)) =
     Some ([Returned [10], Returned [], Returned []], [10, 11], [(0, 10)])"
  by code_simp

end
