(* ===== verification/Spec2Isabelle.thy ===== *)
theory Spec2Isabelle
  imports ServerSystem ServerBuilder Exceptions BlockingInvariant FreeListThreads DequeueThreads
begin

text \<open>
  A model of the HTTP server library lightning++ (C++20), with the theorems that make it correct.

  \<^bold>\<open>The program.\<close> An accepting thread (\<^verbatim>\<open>HttpServer::start\<close>) puts new connections into a channel. One
  event loop (\<^verbatim>\<open>NonblockingClientManagerTask\<close>) waits on \<^verbatim>\<open>epoll\<close>, looks ahead in the stream of a
  readable connection, and when it sees a complete request head hands the connection with the head to
  a pool of workers (\<^verbatim>\<open>TaskExecutor\<close>). A worker (\<^verbatim>\<open>ClientRequestHandler\<close>) parses the head
  (\<^verbatim>\<open>HttpRequest\<close>), finds a resolver by method and uri (\<^verbatim>\<open>HttpServer\<close>, \<^verbatim>\<open>UriMapper\<close>), serialises its
  response (\<^verbatim>\<open>HttpResponse\<close>), writes it to the stream (\<^verbatim>\<open>PlainStream\<close>, \<^verbatim>\<open>SSLStream\<close>), and sends the
  connection back through a second channel, to be kept or closed. The channels and the pool stand on
  the vendored moodycamel queues: \<^verbatim>\<open>ConcurrentQueue\<close>, a list of sub-queues with one producer each,
  and \<^verbatim>\<open>BlockingConcurrentQueue\<close>, which adds a \<^verbatim>\<open>LightweightSemaphore\<close> to sleep on.

  \<^bold>\<open>Theories\<close>, in the order of the imports.
  \<^item> \<open>Prelude\<close>: strings as lists of 8-bit characters, \<open>std::string::find\<close>, C strings, decimal numbers
    and \<open>std::stoi\<close>, exceptions (\<open>exn\<close>) and outcomes of calls (\<open>outcome\<close>).
  \<^item> \<open>UnorderedMap\<close>: \<open>std::unordered_map\<close> with an arbitrary iteration order (locale \<open>hash_map\<close>).
  \<^item> \<open>Strings\<close> (\<^verbatim>\<open>uriMapper/Strings.hpp\<close>, \<^verbatim>\<open>Strings.cpp\<close>), \<open>Regex\<close> (the part of \<open>std::regex\<close> that the
    generated patterns use, with \<open>Unmodelled\<close> for the rest), \<open>UriMapper\<close> (\<^verbatim>\<open>UriMapper.cpp\<close>): from a
    registered uri to a pattern, its compilation, and the search. The route theorems say which paths
    exact and wildcard routes match.
  \<^item> \<open>HttpProtocol\<close>, \<open>HttpResponse\<close> (\<^verbatim>\<open>response/\<close>), \<open>HttpRequest\<close> (\<^verbatim>\<open>request/\<close>): methods, the builder and
    the serialiser, the parser with its round trip, uri parameters, and the body.
  \<^item> \<open>IStream\<close> (locale \<open>stream_contract\<close>: what the event loop needs of a stream), \<open>PlainStream\<close>,
    \<open>SSLStream\<close>, \<open>Client\<close>: the two streams over scripted sockets, interpreted as streams, and the
    virtual dispatch.
  \<^item> \<open>StaticFile\<close>, \<open>HttpServer\<close>: file resolvers, middlewares, registration, lookup, the accepting thread.
  \<^item> \<open>MpmcQueue\<close> (locale \<open>producer_fifo\<close>: what the program needs of the moodycamel queues), \<open>FdChannels\<close>,
    \<open>TaskExecutor\<close>: channels and worker pool, the pool as a step relation over all interleavings.
  \<^item> \<open>ClientRequestHandler\<close>, \<open>ClientManager\<close>: a worker's handling of one request, and the event loop.
  \<^item> \<open>ServerSystem\<close>: all threads together as one transition system, with the theorems that span the
    components: the path of one request through the server, and the accounting of connections.
  \<^item> \<open>Servers\<close>, \<open>ServerBuilder\<close>, \<open>Exceptions\<close>: listening sockets, the builder, exception objects.
  \<^item> \<open>QueueDetails\<close>: the word arithmetic of \<^verbatim>\<open>moodycamel/concurrentqueue.h\<close> (hashes, wrapping indices).
  \<^item> \<open>BlockPool\<close> (blocks, the initial pool, the free list), \<open>BlockIndex\<close> (the circular index from
    element numbers to blocks, with its growth), \<open>ImplicitProducer\<close> (one sub-queue: \<open>ip_inv\<close> ties its
    words and blocks to the list of its elements), \<open>ProducerHash\<close> (the chain of hash tables from
    thread identifiers to producers), \<open>ConcurrentQueue\<close> (the class, with the thread-exit listeners and
    consumer tokens), \<open>QueueRefinement\<close> (\<open>queue_rel\<close>: the class refines the abstract queue of
    \<open>MpmcQueue\<close>, on which the program above is verified; locale \<open>producer_append\<close>: what the single and
    the bulk enqueue share).
  \<^item> \<open>ImplicitDequeueBulk\<close>, \<open>ImplicitEnqueueBulk\<close> (the bulk operations of one sub-queue: the first does what
    repeated dequeues do, the second is all or nothing), \<open>QueueBulk\<close> (the bulk operations of the class),
    \<open>QueueRuns\<close> (all operations in any order, and what holds of every state that they reach).
  \<^item> \<open>Tally\<close> (what the threads of a machine hold together), \<open>FreeListThreads\<close>, \<open>DequeueThreads\<close>: the two
    lock-free algorithms on which the queue rests, atomic access by atomic access under all
    interleavings. The first is the free list of blocks with its reference counts (\<open>account\<close> says where a
    node is and what its count must be), related to the whole operations of \<open>BlockPool\<close>. The second is
    one sub-queue with its producer and any number of consumers (single and bulk): \<open>counters\<close> is the
    argument that \<open>dequeueOptimisticCount\<close> and \<open>dequeueOvercommit\<close> never let more dequeues through than
    there are elements, \<open>slots\<close> says who may touch which slot and when a block is released.
  \<^item> \<open>LightweightSemaphore\<close> (\<^verbatim>\<open>lightweightsemaphore.h\<close>): the semaphore as interleaved atomic steps.
    \<open>BlockingQueue\<close> (\<^verbatim>\<open>blockingconcurrentqueue.h\<close>): its clients interleaved on queue and semaphore;
    \<open>BlockingInvariant\<close>: permits and elements agree.

  \<^bold>\<open>Conventions.\<close> A class is a record, its methods are functions that return the updated record. A call
  that may throw returns \<open>exn + 'a\<close>, or an \<open>outcome\<close> where it may also not return. The outside world
  (system calls, OpenSSL, the file system, \<open>accept\<close>, the clock, hash order, memory behind a buffer) is
  an argument: scripts of what successive calls return, or arbitrary functions. User code (resolvers,
  middlewares) is an arbitrary function; where a theorem needs it to leave the sending side of a
  stream alone, it says so (\<open>quiet_resolver\<close>). Integers are unbounded except where their width
  matters: \<open>std::stoi\<close> checks the 32-bit range, event masks and the clock are words.

  \<^bold>\<open>Bounds.\<close> Regex repetition runs on fuel, and \<open>rep_fuel\<close> shows that the fuel used is enough. Loops over
  sockets are total functions because every iteration consumes a scripted event or fills the buffer.
  \<open>formatEx\<close>, which need not return, is a partial function whose value \<^term>\<open>None\<close> is divergence.
  In the queue \<^term>\<open>None\<close> is a failed assertion or a loop that does not end; linear probing has the length
  of its table as fuel, which is enough because a table always has a free slot. Sub-queues are proved
  right as long as their blocks span less than \<open>2 ^ 63\<close> elements, which enqueue itself checks; the
  hypotheses \<open>2 ^ 31 - 2\<close> (threads in the free list, whose reference count has 31 bits), \<open>2 ^ 62\<close> (elements
  and claims of a sub-queue that a stalled thread may have missed), \<open>2 ^ 58\<close> (threads) and \<open>2 ^ 32\<close> (producers) are where the counters of the code wrap around; a
  bulk enqueue is of less than \<open>2 ^ 62\<close> elements. Undoing a bulk enqueue follows the chain of its new
  blocks with their number as fuel.

  \<^bold>\<open>What the theorems show.\<close> Each property stands behind a text block with its number. The first ones
  are the end-to-end behaviour and the accounting of connections and tasks; then parsing, routing
  and serialising; then streams, registration and construction. Some state what the code does where
  its comments promise something else: routes with dots or braces, overlapping routes, bodies with
  NUL bytes, unread bodies, pipelined requests, connections closed by the peer, failing writes.

  The queue theorems say that the vendored queue implements the abstract one the program is verified
  on, that no element is lost or delivered twice, that its permits and its elements agree, and that
  the semaphore neither loses a wake-up nor hands out a permit twice. Those on interleavings inside
  the operations say that the free list never gives a node to two threads nor loses one, that a
  dequeue always gets its own element out of a block that is still there, and that it is wait-free;
  \<open>dequeue_can_miss\<close> shows what does not survive interference: a dequeue may find nothing while an
  element is there.

  \<^bold>\<open>Not modelled.\<close> In the queue library: memory orders (memory is sequentially consistent);
  interleavings inside the block index, the hash of producers and the bulk enqueue (in
  \<open>ConcurrentQueue\<close> and what is built on it an operation of the queue is one step, while the semaphore,
  the blocking queue, the free list and the dequeue of a sub-queue are interleaved); explicit producers
  and their tokens, swapping and moving, destructors, and the branches for element types whose
  construction or assignment throws. Not at all: the vendored JSON library, which the program does not use, the example program and
  the tests; signals (a write to a closed socket may raise \<^verbatim>\<open>SIGPIPE\<close> before it fails); allocation failure outside the queue; the WinSock variant of
  \<^verbatim>\<open>sockets.cpp\<close>.
\<close>

end
